(* ===== verification/Prelude.thy ===== *)
theory Prelude
  imports Main "HOL-Library.Word"
begin

unbundle bit_operations_syntax

text \<open>
  Shared vocabulary of the development: the machine types the C sources use, list and word
  facts that several components need, and the collections of simplification rules that the
  component theories extend.
\<close>

type_synonym byte = "8 word"
type_synonym u32 = "32 word"
type_synonym u64 = "64 word"

named_theorems state_simps \<open>how an operation changes the fields of its state\<close>
named_theorems run_simps \<open>how a run over a list of inputs decomposes\<close>

subsection \<open>Characters as bytes\<close>

text \<open>
  C source text compares bytes with character constants; \<open>ascii\<close> is the value of such a
  constant as an unsigned byte.
\<close>

definition ascii :: "char \<Rightarrow> byte" where
  "ascii c = of_nat (of_char c)"

definition bytes :: "string \<Rightarrow> byte list" where
  "bytes s = map ascii s"

lemma bytes_simps [simp]:
  "bytes [] = []"
  "bytes (c # cs) = ascii c # bytes cs"
  "bytes (cs @ ds) = bytes cs @ bytes ds"
  "length (bytes cs) = length cs"
  by (simp_all add: bytes_def)

subsection \<open>Chains of early returns\<close>

text \<open>
  Case analysis of a value given by a conditional: the elimination rule walks down a chain
  of early returns one guard at a time.
\<close>

lemma if_elim:
  assumes "r = (if a then x else y)"
    and "a \<Longrightarrow> r = x \<Longrightarrow> P" and "\<not> a \<Longrightarrow> r = y \<Longrightarrow> P"
  shows P
  using assms by (cases a) simp_all

subsection \<open>Sixty-four bit subtraction on natural numbers\<close>

text \<open>
  Buffer sizes and counts are \<open>uint64_t\<close> in the code and \<open>nat\<close> in the models; a
  subtraction that may go below zero wraps.
\<close>

definition sub64 :: "nat \<Rightarrow> nat \<Rightarrow> nat" where
  "sub64 a b = (if b \<le> a then a - b else a + 2 ^ 64 - b)"

lemma sub64_exact [simp]: "b \<le> a \<Longrightarrow> sub64 a b = a - b"
  by (simp add: sub64_def)

lemma sub64_self: "sub64 a a = 0"
  by simp

subsection \<open>Exclusive-or folds\<close>

lemma foldl_xor_shift:
  "foldl (\<lambda>c d. c XOR d) a xs = a XOR foldl (\<lambda>c d. c XOR d) (0 :: byte) xs"
proof (induction xs arbitrary: a)
  case Nil
  then show ?case by simp
next
  case (Cons x xs)
  have "foldl (\<lambda>c d. c XOR d) a (x # xs) = (a XOR x) XOR foldl (\<lambda>c d. c XOR d) 0 xs"
    using Cons.IH [of "a XOR x"] by simp
  also have "\<dots> = a XOR foldl (\<lambda>c d. c XOR d) 0 (x # xs)"
    using Cons.IH [of "0 XOR x"] by (simp add: xor.assoc)
  finally show ?case .
qed

lemma xor_left_cancel: "(a :: 'a::len word) XOR b = a XOR c \<longleftrightarrow> b = c"
proof
  assume "a XOR b = a XOR c"
  then have "a XOR (a XOR b) = a XOR (a XOR c)" by simp
  then show "b = c" by (simp add: xor.assoc [symmetric])
qed simp

lemma xor_right_cancel: "(b :: 'a::len word) XOR a = c XOR a \<longleftrightarrow> b = c"
  by (simp add: xor.commute [of _ a] xor_left_cancel)

lemma foldl_xor_inj:
  "foldl (\<lambda>c d. c XOR d) (a :: byte) xs = foldl (\<lambda>c d. c XOR d) b xs \<longleftrightarrow> a = b"
  by (simp add: foldl_xor_shift [of a] foldl_xor_shift [of b] xor_right_cancel)

lemma foldl_xor_update:
  assumes "i < length xs" and "x \<noteq> xs ! i"
  shows "foldl (\<lambda>c d. c XOR d) (a :: byte) (xs[i := x]) \<noteq> foldl (\<lambda>c d. c XOR d) a xs"
proof -
  let ?f = "\<lambda>c d :: byte. c XOR d"
  have split: "xs = take i xs @ xs ! i # drop (Suc i) xs"
    using assms(1) by (rule id_take_nth_drop)
  have upd: "xs[i := x] = take i xs @ x # drop (Suc i) xs"
    using assms(1) by (rule upd_conv_take_nth_drop)
  have "foldl ?f a xs = foldl ?f (foldl ?f a (take i xs) XOR xs ! i) (drop (Suc i) xs)"
    by (subst split) simp
  moreover have "foldl ?f a (xs[i := x]) = foldl ?f (foldl ?f a (take i xs) XOR x) (drop (Suc i) xs)"
    by (simp add: upd)
  ultimately show ?thesis
    using assms(2) by (simp add: foldl_xor_inj xor_left_cancel)
qed

subsection \<open>Lists as memory\<close>

text \<open>
  A C array is a list; a store through a pointer replaces a run of cells. Out of range is a
  value of its own (\<open>None\<close>), never an unspecified element.
\<close>

definition mem_read :: "'a list \<Rightarrow> nat \<Rightarrow> nat \<Rightarrow> 'a list option" where
  "mem_read m off n = (if off + n \<le> length m then Some (take n (drop off m)) else None)"

definition mem_write :: "'a list \<Rightarrow> nat \<Rightarrow> 'a list \<Rightarrow> 'a list option" where
  "mem_write m off xs =
     (if off + length xs \<le> length m
      then Some (take off m @ xs @ drop (off + length xs) m) else None)"

lemma mem_write_length: "mem_write m off xs = Some m' \<Longrightarrow> length m' = length m"
  by (auto simp: mem_write_def split: if_splits)

lemma mem_write_ok [simp]:
  "off + length xs \<le> length m \<Longrightarrow>
     mem_write m off xs = Some (take off m @ xs @ drop (off + length xs) m)"
  by (simp add: mem_write_def)

lemma mem_read_ok [simp]:
  "off + n \<le> length m \<Longrightarrow> mem_read m off n = Some (take n (drop off m))"
  by (simp add: mem_read_def)

lemma mem_read_write_same:
  assumes "mem_write m off xs = Some m'"
  shows "mem_read m' off (length xs) = Some xs"
  using assms by (auto simp: mem_write_def mem_read_def split: if_splits)

end
