(* ===== verification/Link.thy ===== *)
theory Link
  imports Prelude
begin

text \<open>
  The interface between a byte-driven receiver and the packets a sender puts on the line.
  A provider gives the receiver's feeding function, its idle states and the packets it
  handles; the laws say that feeding composes over concatenation and that one packet takes
  an idle receiver to an idle receiver with the events the packet promises. The client
  facts are about whole streams.
\<close>

locale packet_link =
  fixes feed :: "'s \<Rightarrow> 'b list \<Rightarrow> ('e list \<times> 's) option"
    and idle :: "'s \<Rightarrow> bool"
    and packet :: "'p \<Rightarrow> 'b list"
    and good :: "'p \<Rightarrow> bool"
    and verdict :: "'p \<Rightarrow> 'e list \<Rightarrow> bool"
  assumes feed_nil: "feed s [] = Some ([], s)"
    and feed_append: "feed s xs = Some (es, t) \<Longrightarrow> feed t ys = Some (fs, u) \<Longrightarrow>
          feed s (xs @ ys) = Some (es @ fs, u)"
    and feed_packet: "idle s \<Longrightarrow> good p \<Longrightarrow>
          \<exists>es t. feed s (packet p) = Some (es, t) \<and> idle t \<and> verdict p es"
begin

lemma feed_stream:
  assumes "idle s" and "list_all good ps"
  shows "\<exists>ess t. feed s (concat (map packet ps)) = Some (concat ess, t) \<and> idle t
    \<and> list_all2 verdict ps ess"
  using assms
proof (induction ps arbitrary: s)
  case Nil
  then show ?case by (auto simp: feed_nil intro!: exI [of _ "[]"])
next
  case (Cons p ps)
  then obtain es t where 1: "feed s (packet p) = Some (es, t)" "idle t" "verdict p es"
    using feed_packet by fastforce
  obtain ess u where 2: "feed t (concat (map packet ps)) = Some (concat ess, u)" "idle u"
      "list_all2 verdict ps ess"
    using Cons.IH [OF 1(2)] Cons.prems by auto
  have "feed s (packet p @ concat (map packet ps)) = Some (es @ concat ess, u)"
    using 1(1) 2(1) by (rule feed_append)
  with 1 2 show ?case by (intro exI [of _ "es # ess"] exI [of _ u]) simp
qed

end

text \<open>
  A link that also tolerates noise between packets: bytes that an idle receiver discards,
  staying idle and saying nothing that could be taken for a packet.
\<close>

locale noisy_link = packet_link +
  fixes noise :: "'b list \<Rightarrow> bool"
    and quiet :: "'e list \<Rightarrow> bool"
  assumes feed_noise: "idle s \<Longrightarrow> noise bs \<Longrightarrow>
          \<exists>es t. feed s bs = Some (es, t) \<and> idle t \<and> quiet es"
begin

lemma feed_after_noise:
  assumes "idle s" and "noise bs" and "good p"
  shows "\<exists>es fs t. feed s (bs @ packet p) = Some (es @ fs, t) \<and> idle t \<and> quiet es \<and> verdict p fs"
proof -
  obtain es t where 1: "feed s bs = Some (es, t)" "idle t" "quiet es"
    using feed_noise assms(1,2) by blast
  obtain fs u where 2: "feed t (packet p) = Some (fs, u)" "idle u" "verdict p fs"
    using feed_packet 1(2) assms(3) by blast
  have "feed s (bs @ packet p) = Some (es @ fs, u)"
    using 1(1) 2(1) by (rule feed_append)
  with 1 2 show ?thesis by blast
qed

end

end
