(* ===== verification/Mcu.thy ===== *)
theory Mcu
  imports Link
begin

unbundle bit_operations_syntax

text \<open>
  The framing protocol between the microcontroller and the ARM side, from
  \<open>autolink/libtest/src/qemu_mcu.c\<close>: the receiver's byte-driven state machine
  (\<open>autolink_mcu_parse\<close>), the two checksum routines, the construction and sending of a
  frame (\<open>autolink_mcu_send_msg1\<close>) and the read loop that feeds the receiver.

  A frame is \<open>AA 77 00 checksum counter cmd ack len data...\<close>; the checksum is the
  exclusive or of everything but the two synchronisation bytes and itself.
\<close>

subsection \<open>Protocol constants and receiver state\<close>

definition MCU_SYNC_BYTE_0 :: byte where "MCU_SYNC_BYTE_0 = 0xAA"
definition MCU_SYNC_BYTE_1 :: byte where "MCU_SYNC_BYTE_1 = 0x77"
definition MCU_FLAG_BYTE_NORMAL :: byte where "MCU_FLAG_BYTE_NORMAL = 0x00"
definition MCU_ACK_BYTE_FALSE :: byte where "MCU_ACK_BYTE_FALSE = 0"
definition MCUINFO_MAX_SIZE :: nat where "MCUINFO_MAX_SIZE = 127"
definition FRAME_LEN_MAX :: nat where "FRAME_LEN_MAX = 255"

lemmas mcu_consts = MCU_SYNC_BYTE_0_def MCU_SYNC_BYTE_1_def MCU_FLAG_BYTE_NORMAL_def
  MCU_ACK_BYTE_FALSE_def MCUINFO_MAX_SIZE_def FRAME_LEN_MAX_def

record mcuinfo_st =
  mcufd :: int
  mcu_pos :: nat
  mcu_flag :: byte
  mcu_checksum :: byte
  mcu_framecounter :: byte
  mcu_cmd1 :: byte
  mcu_ack :: byte
  mcu_len :: byte
  mcu_data :: "byte list"

text \<open>\<open>mcuinfo\<close> is a global: it starts zeroed, with the array at its declared size.\<close>

definition mcuinfo_zero :: mcuinfo_st where
  "mcuinfo_zero = \<lparr>mcufd = 0, mcu_pos = 0, mcu_flag = 0, mcu_checksum = 0,
     mcu_framecounter = 0, mcu_cmd1 = 0, mcu_ack = 0, mcu_len = 0,
     mcu_data = replicate (MCUINFO_MAX_SIZE + 1) 0\<rparr>"

text \<open>What the receiver prints on a byte.\<close>

datatype mcu_msg = McuOverflow | McuLostSync0 | McuLostSync1 | McuFlagError
  | McuChecksumFailed | McuSuccess

subsection \<open>Checksums\<close>

text \<open>
  \<open>autolink_mcu_checksum2\<close> reads \<open>data[0..len)\<close>; a length beyond the array is an
  out-of-bounds read, \<open>None\<close>.
\<close>

definition autolink_mcu_checksum2 ::
  "byte \<Rightarrow> byte \<Rightarrow> byte \<Rightarrow> byte \<Rightarrow> byte list \<Rightarrow> byte \<Rightarrow> byte option" where
  "autolink_mcu_checksum2 flg fc cmd ack dat len =
     (if unat len \<le> length dat
      then Some (foldl (\<lambda>c d. c XOR d) (((((0 XOR flg) XOR fc) XOR cmd) XOR ack) XOR len)
                   (take (unat len) dat))
      else None)"

definition autolink_mcu_checksum :: "byte \<Rightarrow> byte list \<Rightarrow> byte" where
  "autolink_mcu_checksum flg dat = foldl (\<lambda>c d. c XOR d) flg dat"

subsection \<open>The receiver\<close>

text \<open>
  One call of \<open>autolink_mcu_parse\<close>. The five early returns come first, in the source's
  order; then the byte is stored by position; then the frame is checked when the position
  reaches \<open>len + 8\<close>. \<open>None\<close> is an access outside \<open>data\<close>.
\<close>

definition mcu_store :: "mcuinfo_st \<Rightarrow> byte \<Rightarrow> mcuinfo_st option" where
  "mcu_store s c =
     (if mcu_pos s = 3 then Some (s\<lparr>mcu_checksum := c\<rparr>)
      else if mcu_pos s = 4 then Some (s\<lparr>mcu_framecounter := c\<rparr>)
      else if mcu_pos s = 5 then Some (s\<lparr>mcu_cmd1 := c\<rparr>)
      else if mcu_pos s = 6 then Some (s\<lparr>mcu_ack := c\<rparr>)
      else if mcu_pos s = 7 then Some (s\<lparr>mcu_len := c\<rparr>)
      else if 8 \<le> mcu_pos s then
        (case mem_write (mcu_data s) (mcu_pos s - 8) [c] of
           None \<Rightarrow> None | Some d \<Rightarrow> Some (s\<lparr>mcu_data := d\<rparr>))
      else Some s)"

definition mcu_finish :: "mcuinfo_st \<Rightarrow> (mcu_msg list \<times> mcuinfo_st) option" where
  "mcu_finish s =
     (if mcu_pos s = unat (mcu_len s) + 8 then
        (case autolink_mcu_checksum2 (mcu_flag s) (mcu_framecounter s) (mcu_cmd1 s)
                (mcu_ack s) (mcu_data s) (mcu_len s) of
           None \<Rightarrow> None
         | Some cs \<Rightarrow>
             Some ([if mcu_checksum s \<noteq> cs then McuChecksumFailed else McuSuccess],
                   s\<lparr>mcu_pos := 0\<rparr>))
      else Some ([], s))"

definition autolink_mcu_parse ::
  "mcuinfo_st \<Rightarrow> byte \<Rightarrow> (mcu_msg list \<times> mcuinfo_st) option" where
  "autolink_mcu_parse s c =
     (if MCUINFO_MAX_SIZE \<le> mcu_pos s then Some ([McuOverflow], s\<lparr>mcu_pos := 0\<rparr>)
      else if MCU_SYNC_BYTE_0 \<noteq> c \<and> mcu_pos s = 0 then Some ([McuLostSync0], s\<lparr>mcu_pos := 0\<rparr>)
      else if MCU_SYNC_BYTE_1 \<noteq> c \<and> mcu_pos s = 1 then Some ([McuLostSync1], s\<lparr>mcu_pos := 0\<rparr>)
      else if MCU_FLAG_BYTE_NORMAL \<noteq> c \<and> mcu_pos s = 2 then Some ([McuFlagError], s\<lparr>mcu_pos := 0\<rparr>)
      else (case mcu_store s c of
              None \<Rightarrow> None
            | Some s' \<Rightarrow> mcu_finish (s'\<lparr>mcu_pos := mcu_pos s' + 1\<rparr>)))"

text \<open>Feeding a run of bytes: the \<open>for\<close> loop over one read buffer.\<close>

fun mcu_feed :: "mcuinfo_st \<Rightarrow> byte list \<Rightarrow> (mcu_msg list \<times> mcuinfo_st) option" where
  "mcu_feed s [] = Some ([], s)"
| "mcu_feed s (c # cs) =
     (case autolink_mcu_parse s c of
        None \<Rightarrow> None
      | Some (ms, s') \<Rightarrow>
          (case mcu_feed s' cs of None \<Rightarrow> None | Some (ms', s'') \<Rightarrow> Some (ms @ ms', s'')))"

text \<open>
  The inner loop of \<open>autolink_mcu_service_thread\<close>: reads of at most 32 bytes until one
  fails or returns nothing; an interrupted read is retried. The list is what successive
  calls of \<open>read\<close> return.
\<close>

datatype mcu_read = McuRead "byte list" | McuEintr | McuReadError

fun mcu_drain :: "mcuinfo_st \<Rightarrow> mcu_read list \<Rightarrow> (mcu_msg list \<times> mcuinfo_st) option" where
  "mcu_drain s [] = Some ([], s)"
| "mcu_drain s (McuEintr # rs) = mcu_drain s rs"
| "mcu_drain s (McuReadError # rs) = Some ([], s)"
| "mcu_drain s (McuRead bs # rs) =
     (if bs = [] then Some ([], s)
      else (case mcu_feed s bs of
              None \<Rightarrow> None
            | Some (ms, s') \<Rightarrow>
                (case mcu_drain s' rs of
                   None \<Rightarrow> None | Some (ms', s'') \<Rightarrow> Some (ms @ ms', s''))))"

subsection \<open>The sender\<close>

text \<open>
  \<open>autolink_mcu_send_msg1\<close> builds the frame in \<open>reply[FRAME_LEN_MAX]\<close>; a payload that
  does not fit is an out-of-bounds write (\<open>None\<close>). The length is the number of payload
  bytes, below 128 so that a signed and an unsigned \<open>char\<close> agree, or up to 247 where
  \<open>char\<close> is unsigned.
\<close>

definition mcu_frame :: "byte \<Rightarrow> byte list \<Rightarrow> byte list option" where
  "mcu_frame cmd1 dat =
     (if length dat + 8 \<le> FRAME_LEN_MAX then
        Some ([MCU_SYNC_BYTE_0, MCU_SYNC_BYTE_1, MCU_FLAG_BYTE_NORMAL,
               autolink_mcu_checksum MCU_FLAG_BYTE_NORMAL
                 ([0, cmd1, MCU_ACK_BYTE_FALSE, of_nat (length dat)] @ dat),
               0, cmd1, MCU_ACK_BYTE_FALSE, of_nat (length dat)] @ dat)
      else None)"

text \<open>
  The retry loop: \<open>writes\<close> is what the successive calls of \<open>write\<close> return. With no
  descriptor \<open>autolink_mcu_sendinfo1\<close> returns \<open>-1\<close> without writing.
\<close>

definition autolink_mcu_sendinfo1 :: "mcuinfo_st \<Rightarrow> int list \<Rightarrow> int \<times> int list" where
  "autolink_mcu_sendinfo1 s writes =
     (if mcufd s \<le> 0 then (-1, writes)
      else (case writes of [] \<Rightarrow> (-1, []) | w # ws \<Rightarrow> (w, ws)))"

fun mcu_send_loop :: "mcuinfo_st \<Rightarrow> nat \<Rightarrow> int \<Rightarrow> int list \<Rightarrow> int" where
  "mcu_send_loop s 0 n writes = -1"
| "mcu_send_loop s (Suc k) n writes =
     (case autolink_mcu_sendinfo1 s writes of
        (w, ws) \<Rightarrow> if n = w then 0 else mcu_send_loop s k n ws)"

definition autolink_mcu_send_msg1 ::
  "mcuinfo_st \<Rightarrow> nat \<Rightarrow> byte \<Rightarrow> byte list \<Rightarrow> int list \<Rightarrow> int option" where
  "autolink_mcu_send_msg1 s tries cmd1 dat writes =
     (case mcu_frame cmd1 dat of
        None \<Rightarrow> None
      | Some reply \<Rightarrow> Some (mcu_send_loop s tries (int (length dat) + 8) writes))"

subsection \<open>Memory safety of the receiver\<close>

definition mcu_wf :: "mcuinfo_st \<Rightarrow> bool" where
  "mcu_wf s \<longleftrightarrow> length (mcu_data s) = MCUINFO_MAX_SIZE + 1 \<and> mcu_pos s \<le> MCUINFO_MAX_SIZE"

lemma mcu_wf_zero: "mcu_wf mcuinfo_zero"
  by (simp add: mcu_wf_def mcuinfo_zero_def)

lemma mcu_store_wf:
  assumes "mcu_wf s" and "mcu_pos s < MCUINFO_MAX_SIZE"
  shows "\<exists>s'. mcu_store s c = Some s' \<and> mcu_pos s' = mcu_pos s
    \<and> length (mcu_data s') = MCUINFO_MAX_SIZE + 1"
proof -
  have "mcu_pos s - 8 + length [c] \<le> length (mcu_data s)"
    using assms by (simp add: mcu_wf_def MCUINFO_MAX_SIZE_def)
  then obtain d where "mem_write (mcu_data s) (mcu_pos s - 8) [c] = Some d"
    and "length d = length (mcu_data s)"
    using mem_write_ok mem_write_length by blast
  with assms show ?thesis by (simp add: mcu_wf_def mcu_store_def)
qed

lemma mcu_finish_wf:
  assumes "mcu_wf s"
  shows "\<exists>ms s'. mcu_finish s = Some (ms, s') \<and> mcu_wf s'"
  using assms
  by (simp add: mcu_wf_def mcu_finish_def autolink_mcu_checksum2_def MCUINFO_MAX_SIZE_def)

lemma mcu_parse_cases:
  "(\<exists>m. autolink_mcu_parse s c = Some ([m], s\<lparr>mcu_pos := 0\<rparr>)) \<or>
   (mcu_pos s < MCUINFO_MAX_SIZE \<and> autolink_mcu_parse s c =
      (case mcu_store s c of
         None \<Rightarrow> None | Some s' \<Rightarrow> mcu_finish (s'\<lparr>mcu_pos := mcu_pos s' + 1\<rparr>)))"
  using autolink_mcu_parse_def [of s c] unfolding not_le [symmetric]
  by (elim if_elim) blast+

lemma mcu_parse_wf:
  assumes "mcu_wf s"
  shows "\<exists>ms s'. autolink_mcu_parse s c = Some (ms, s') \<and> mcu_wf s'"
  using mcu_parse_cases [of s c]
proof (elim disjE exE conjE)
  fix m
  assume "autolink_mcu_parse s c = Some ([m], s\<lparr>mcu_pos := 0\<rparr>)"
  with assms show ?thesis by (simp add: mcu_wf_def)
next
  assume lt: "mcu_pos s < MCUINFO_MAX_SIZE"
    and eq: "autolink_mcu_parse s c = (case mcu_store s c of
         None \<Rightarrow> None | Some s' \<Rightarrow> mcu_finish (s'\<lparr>mcu_pos := mcu_pos s' + 1\<rparr>))"
  obtain s' where s': "mcu_store s c = Some s'" "mcu_pos s' = mcu_pos s"
      "length (mcu_data s') = MCUINFO_MAX_SIZE + 1"
    using mcu_store_wf [OF assms lt] by blast
  then have "mcu_wf (s'\<lparr>mcu_pos := mcu_pos s' + 1\<rparr>)"
    using lt by (simp add: mcu_wf_def)
  from mcu_finish_wf [OF this] show ?thesis
    using s' by (simp add: eq)
qed

lemma mcu_feed_wf:
  assumes "mcu_wf s"
  shows "\<exists>ms s'. mcu_feed s bs = Some (ms, s') \<and> mcu_wf s'"
  using assms
proof (induction bs arbitrary: s)
  case Nil
  then show ?case by simp
next
  case (Cons c bs)
  obtain ms s1 where 1: "autolink_mcu_parse s c = Some (ms, s1)" "mcu_wf s1"
    using mcu_parse_wf [OF Cons.prems] by blast
  obtain ms' s2 where "mcu_feed s1 bs = Some (ms', s2)" "mcu_wf s2"
    using Cons.IH [OF 1(2)] by blast
  with 1 show ?case by simp
qed

text \<open>Feeding two runs one after the other is feeding their concatenation.\<close>

lemma mcu_feed_append [run_simps]:
  "mcu_feed s (xs @ ys) =
     (case mcu_feed s xs of
        None \<Rightarrow> None
      | Some (ms, s') \<Rightarrow>
          (case mcu_feed s' ys of None \<Rightarrow> None | Some (ms', s'') \<Rightarrow> Some (ms @ ms', s'')))"
  by (induction xs arbitrary: s) (simp_all split: option.splits prod.splits)

lemma mcu_store_frame:
  "mcu_store s c = Some s' \<Longrightarrow> mcu_flag s' = mcu_flag s \<and> mcufd s' = mcufd s"
  by (auto simp: mcu_store_def split: if_split_asm option.split_asm)

lemma mcu_finish_frame:
  "mcu_finish s = Some (ms, s') \<Longrightarrow> mcu_flag s' = mcu_flag s \<and> mcufd s' = mcufd s"
  by (auto simp: mcu_finish_def split: if_split_asm option.split_asm)

lemma mcu_parse_frame:
  assumes "autolink_mcu_parse s c = Some (ms, s')"
  shows "mcu_flag s' = mcu_flag s \<and> mcufd s' = mcufd s"
  using mcu_parse_cases [of s c] assms
  by (auto split: option.split_asm dest!: mcu_store_frame mcu_finish_frame dest: sym)

lemma mcu_feed_frame:
  "mcu_feed s bs = Some (ms, s') \<Longrightarrow> mcu_flag s' = mcu_flag s \<and> mcufd s' = mcufd s"
proof (induction bs arbitrary: s ms)
  case (Cons c bs)
  then obtain ms1 s1 ms2 where "autolink_mcu_parse s c = Some (ms1, s1)"
      and "mcu_feed s1 bs = Some (ms2, s')"
    by (auto split: option.splits)
  with Cons.IH mcu_parse_frame show ?case by metis
qed simp

subsection \<open>The payload phase\<close>

text \<open>
  Once the eight header bytes are stored, the payload fills \<open>data\<close> from the left and the
  checksum is compared exactly when its last byte arrives.
\<close>

definition mcu_sum :: "mcuinfo_st \<Rightarrow> byte list \<Rightarrow> byte" where
  "mcu_sum s dat = foldl (\<lambda>c d. c XOR d)
     (((((0 XOR mcu_flag s) XOR mcu_framecounter s) XOR mcu_cmd1 s) XOR mcu_ack s) XOR mcu_len s) dat"

lemma mcu_sum_update [simp]:
  "mcu_sum (s\<lparr>mcu_data := d\<rparr>) = mcu_sum s" "mcu_sum (s\<lparr>mcu_pos := n\<rparr>) = mcu_sum s"
  by (simp_all add: mcu_sum_def fun_eq_iff)

lemma mcu_finish_full:
  assumes "mcu_pos s = unat (mcu_len s) + 8" and "unat (mcu_len s) \<le> length (mcu_data s)"
  shows "mcu_finish s =
    Some ([if mcu_checksum s = mcu_sum s (take (unat (mcu_len s)) (mcu_data s))
           then McuSuccess else McuChecksumFailed], s\<lparr>mcu_pos := 0\<rparr>)"
  using assms by (simp add: mcu_finish_def autolink_mcu_checksum2_def mcu_sum_def)

lemma mcu_parse_payload:
  assumes "mcu_pos s = 8 + k" and "k \<le> 118" and "length (mcu_data s) = 128"
  shows "autolink_mcu_parse s c = mcu_finish
    (s\<lparr>mcu_data := take k (mcu_data s) @ c # drop (Suc k) (mcu_data s), mcu_pos := 9 + k\<rparr>)"
  using assms by (simp add: autolink_mcu_parse_def mcu_consts mcu_store_def)

lemma mcu_feed_payload:
  assumes "mcu_pos s = 8 + k" and "length (mcu_data s) = 128"
    and "k + length rest = unat (mcu_len s)" and "unat (mcu_len s) \<le> 119" and "rest \<noteq> []"
  shows "\<exists>d. mcu_feed s rest =
      Some ([if mcu_checksum s = mcu_sum s (take k (mcu_data s) @ rest)
             then McuSuccess else McuChecksumFailed], s\<lparr>mcu_data := d, mcu_pos := 0\<rparr>)
    \<and> take (k + length rest) d = take k (mcu_data s) @ rest \<and> length d = 128"
  using assms
proof (induction rest arbitrary: s k)
  case Nil
  then show ?case by simp
next
  case (Cons c rest)
  let ?d = "take k (mcu_data s) @ c # drop (Suc k) (mcu_data s)"
  let ?s = "s\<lparr>mcu_data := ?d, mcu_pos := 9 + k\<rparr>"
  have k: "k \<le> 118" using Cons.prems(3,4) by simp
  have parse: "autolink_mcu_parse s c = mcu_finish ?s"
    using Cons.prems(1,2) k by (intro mcu_parse_payload)
  have len: "length ?d = 128" using Cons.prems(2) k by simp
  have tk: "take (Suc k) ?d = take k (mcu_data s) @ [c]"
    using Cons.prems(2) k by simp
  show ?case
  proof (cases "rest = []")
    case True
    then have u: "unat (mcu_len s) = Suc k" using Cons.prems(3) by simp
    have "mcu_finish ?s = Some ([if mcu_checksum s = mcu_sum s (take k (mcu_data s) @ [c])
             then McuSuccess else McuChecksumFailed], ?s\<lparr>mcu_pos := 0\<rparr>)"
      using u len tk k by (subst mcu_finish_full) (simp_all del: take_append take_Suc_Cons)
    then show ?thesis
      using parse True tk len by (intro exI [of _ ?d]) (simp del: take_append take_Suc_Cons)
  next
    case False
    have fin: "mcu_finish ?s = Some ([], ?s)"
      using Cons.prems(3) False by (cases rest) (simp_all add: mcu_finish_def)
    have "\<exists>d. mcu_feed ?s rest =
      Some ([if mcu_checksum ?s = mcu_sum ?s (take (Suc k) (mcu_data ?s) @ rest)
             then McuSuccess else McuChecksumFailed], ?s\<lparr>mcu_data := d, mcu_pos := 0\<rparr>)
      \<and> take (Suc k + length rest) d = take (Suc k) (mcu_data ?s) @ rest \<and> length d = 128"
      by (rule Cons.IH) (use Cons.prems False len in simp_all)
    then show ?thesis
      using parse fin tk by (auto simp del: take_append take_Suc_Cons)
  qed
qed

subsection \<open>Whole frames\<close>

text \<open>
  The raw bytes of a frame with an arbitrary checksum, counter, command, acknowledgement
  and payload: what the wire carries.
\<close>

definition mcu_wire :: "byte \<Rightarrow> byte \<Rightarrow> byte \<Rightarrow> byte \<Rightarrow> byte list \<Rightarrow> byte list" where
  "mcu_wire chk fc cmd ack dat =
     [MCU_SYNC_BYTE_0, MCU_SYNC_BYTE_1, MCU_FLAG_BYTE_NORMAL, chk, fc, cmd, ack,
      of_nat (length dat)] @ dat"

definition mcu_header :: "mcuinfo_st \<Rightarrow> byte \<Rightarrow> byte \<Rightarrow> byte \<Rightarrow> byte \<Rightarrow> byte \<Rightarrow> mcuinfo_st" where
  "mcu_header s chk fc cmd ack len =
     s\<lparr>mcu_checksum := chk, mcu_framecounter := fc, mcu_cmd1 := cmd, mcu_ack := ack,
       mcu_len := len, mcu_pos := 8\<rparr>"

lemma mcu_header_fields [simp]:
  "mcu_pos (mcu_header s chk fc cmd ack len) = 8"
  "mcu_data (mcu_header s chk fc cmd ack len) = mcu_data s"
  "mcu_len (mcu_header s chk fc cmd ack len) = len"
  "mcu_checksum (mcu_header s chk fc cmd ack len) = chk"
  "mcu_cmd1 (mcu_header s chk fc cmd ack len) = cmd"
  "mcu_flag (mcu_header s chk fc cmd ack len) = mcu_flag s"
  by (simp_all add: mcu_header_def)

lemma mcu_parse_seven:
  assumes "mcu_pos s = 0"
  shows "mcu_feed s [MCU_SYNC_BYTE_0, MCU_SYNC_BYTE_1, MCU_FLAG_BYTE_NORMAL, chk, fc, cmd, ack] =
    Some ([], s\<lparr>mcu_checksum := chk, mcu_framecounter := fc, mcu_cmd1 := cmd, mcu_ack := ack,
       mcu_pos := 7\<rparr>)"
  using assms
  by (simp add: autolink_mcu_parse_def mcu_store_def mcu_finish_def mcu_consts)

lemma mcu_parse_len:
  assumes "mcu_pos s = 7"
  shows "autolink_mcu_parse s len = mcu_finish (s\<lparr>mcu_len := len, mcu_pos := 8\<rparr>)"
  using assms by (simp add: autolink_mcu_parse_def mcu_store_def mcu_consts)

lemma mcu_feed_wire:
  assumes "mcu_pos s = 0"
  shows "mcu_feed s (mcu_wire chk fc cmd ack dat) =
    (case mcu_finish (mcu_header s chk fc cmd ack (of_nat (length dat))) of
       None \<Rightarrow> None
     | Some (ms, s') \<Rightarrow>
         (case mcu_feed s' dat of None \<Rightarrow> None | Some (ms', s'') \<Rightarrow> Some (ms @ ms', s'')))"
proof -
  let ?h = "[MCU_SYNC_BYTE_0, MCU_SYNC_BYTE_1, MCU_FLAG_BYTE_NORMAL, chk, fc, cmd, ack]"
  let ?s = "s\<lparr>mcu_checksum := chk, mcu_framecounter := fc, mcu_cmd1 := cmd, mcu_ack := ack,
       mcu_pos := 7\<rparr>"
  have w: "mcu_wire chk fc cmd ack dat = ?h @ (of_nat (length dat) # dat)"
    by (simp add: mcu_wire_def)
  have l: "autolink_mcu_parse ?s (of_nat (length dat)) =
      mcu_finish (mcu_header s chk fc cmd ack (of_nat (length dat)))"
    by (subst mcu_parse_len) (simp_all add: mcu_header_def)
  show ?thesis
    unfolding w mcu_feed_append mcu_parse_seven [OF assms]
    by (simp add: l split: option.splits)
qed

text \<open>
  A frame with at most 119 payload bytes is consumed completely from the idle state: one
  verdict, at its last byte, which is the comparison of the two checksums; the receiver
  is idle again and holds the command and the payload.
\<close>

lemma mcu_feed_frame_verdict:
  assumes "mcu_wf s" and "mcu_pos s = 0" and "length dat \<le> 119"
  shows "\<exists>s'. mcu_feed s (mcu_wire chk fc cmd ack dat) =
      Some ([if chk = mcu_sum (mcu_header s chk fc cmd ack (of_nat (length dat))) dat
             then McuSuccess else McuChecksumFailed], s')
    \<and> mcu_wf s' \<and> mcu_pos s' = 0 \<and> mcu_cmd1 s' = cmd \<and> mcu_flag s' = mcu_flag s
    \<and> unat (mcu_len s') = length dat \<and> take (length dat) (mcu_data s') = dat"
proof -
  let ?h = "mcu_header s chk fc cmd ack (of_nat (length dat))"
  have len: "unat (of_nat (length dat) :: byte) = length dat"
    using assms(3) by (simp add: unat_of_nat)
  have wf: "length (mcu_data s) = 128"
    using assms(1) by (simp add: mcu_wf_def mcu_consts)
  show ?thesis
  proof (cases "dat = []")
    case True
    have "mcu_finish ?h = Some ([if chk = mcu_sum ?h [] then McuSuccess else McuChecksumFailed],
        ?h\<lparr>mcu_pos := 0\<rparr>)"
      using True by (subst mcu_finish_full) simp_all
    then show ?thesis
      using True wf len
      by (simp add: mcu_feed_wire [OF assms(2)] mcu_wf_def mcu_consts)
  next
    case False
    have fin: "mcu_finish ?h = Some ([], ?h)"
      using False len by (simp add: mcu_finish_def)
    obtain d where d: "mcu_feed ?h dat =
        Some ([if chk = mcu_sum ?h dat then McuSuccess else McuChecksumFailed],
              ?h\<lparr>mcu_data := d, mcu_pos := 0\<rparr>)"
        "take (length dat) d = dat" "length d = 128"
      using mcu_feed_payload [of ?h 0 dat] wf len assms(3) False by auto
    then show ?thesis
      using len by (simp add: mcu_feed_wire [OF assms(2)] fin mcu_wf_def mcu_consts)
  qed
qed

lemma mcu_sum_header:
  assumes "mcu_flag s = MCU_FLAG_BYTE_NORMAL"
  shows "mcu_sum (mcu_header s chk fc cmd ack len) dat =
    autolink_mcu_checksum MCU_FLAG_BYTE_NORMAL ([fc, cmd, ack, len] @ dat)"
  using assms
  by (simp add: mcu_sum_def autolink_mcu_checksum_def mcu_consts mcu_header_def)

text \<open>The sender's frame is such a frame, with the sender's checksum.\<close>

lemma mcu_frame_wire:
  assumes "length dat \<le> 247"
  shows "mcu_frame cmd dat =
    Some (mcu_wire (autolink_mcu_checksum MCU_FLAG_BYTE_NORMAL
             ([0, cmd, MCU_ACK_BYTE_FALSE, of_nat (length dat)] @ dat)) 0 cmd MCU_ACK_BYTE_FALSE dat)"
  using assms by (simp add: mcu_frame_def mcu_wire_def FRAME_LEN_MAX_def)

definition mcu_idle :: "mcuinfo_st \<Rightarrow> bool" where
  "mcu_idle s \<longleftrightarrow> mcu_wf s \<and> mcu_pos s = 0 \<and> mcu_flag s = MCU_FLAG_BYTE_NORMAL"

lemma mcu_idle_zero: "mcu_idle mcuinfo_zero"
  by (simp add: mcu_idle_def mcu_wf_zero) (simp add: mcuinfo_zero_def mcu_consts)

lemma mcu_frame_received:
  assumes "mcu_idle s" and "length dat \<le> 119" and "mcu_frame cmd dat = Some f"
  shows "\<exists>s'. mcu_feed s f = Some ([McuSuccess], s') \<and> mcu_idle s'
    \<and> mcu_cmd1 s' = cmd \<and> unat (mcu_len s') = length dat
    \<and> take (length dat) (mcu_data s') = dat"
proof -
  let ?c = "autolink_mcu_checksum MCU_FLAG_BYTE_NORMAL
    ([0, cmd, MCU_ACK_BYTE_FALSE, of_nat (length dat)] @ dat)"
  have "f = mcu_wire ?c 0 cmd MCU_ACK_BYTE_FALSE dat"
    using assms(2,3) by (simp add: mcu_frame_wire)
  then show ?thesis
    using mcu_feed_frame_verdict [of s dat ?c 0 cmd MCU_ACK_BYTE_FALSE] assms(1,2)
    by (auto simp: mcu_idle_def mcu_sum_header)
qed


subsection \<open>Corrupted, oversized and misaligned frames\<close>

lemma mcu_corrupt_detected:
  assumes idle: "mcu_idle s" and len: "length dat \<le> 119" and f: "mcu_frame cmd dat = Some f"
    and i: "3 \<le> i" "i < length f" "i \<noteq> 7" and x: "x \<noteq> f ! i"
  shows "\<exists>s'. mcu_feed s (f[i := x]) = Some ([McuChecksumFailed], s') \<and> mcu_idle s'"
proof -
  let ?L = "of_nat (length dat) :: byte"
  let ?body = "[0, cmd, MCU_ACK_BYTE_FALSE, ?L] @ dat"
  let ?c = "autolink_mcu_checksum MCU_FLAG_BYTE_NORMAL ?body"
  have fw: "f = [MCU_SYNC_BYTE_0, MCU_SYNC_BYTE_1, MCU_FLAG_BYTE_NORMAL, ?c] @ ?body"
    using f len by (simp add: mcu_frame_wire mcu_wire_def)
  have verdict: "\<exists>s'. mcu_feed s (mcu_wire chk fc c a dat') = Some ([McuChecksumFailed], s')
      \<and> mcu_idle s'"
    if "length dat' = length dat"
      and "chk \<noteq> autolink_mcu_checksum MCU_FLAG_BYTE_NORMAL ([fc, c, a, ?L] @ dat')"
    for chk fc c a dat'
    using mcu_feed_frame_verdict [of s dat' chk fc c a] idle len that
    by (auto simp: mcu_idle_def mcu_sum_header)
  have bad: "?c \<noteq> autolink_mcu_checksum MCU_FLAG_BYTE_NORMAL (?body[i - 4 := x])" if "4 \<le> i"
  proof -
    have "f ! i = ?body ! (i - 4)"
      using that unfolding fw by (subst nth_append) (simp add: eval_nat_numeral)
    then have "x \<noteq> ?body ! (i - 4)" using x by simp
    moreover have "i - 4 < length ?body"
      using i that unfolding fw by simp
    ultimately show ?thesis
      unfolding autolink_mcu_checksum_def by (metis foldl_xor_update)
  qed
  consider "i = 3" | "i = 4" | "i = 5" | "i = 6" | k where "i = 8 + k" "k < length dat"
  proof -
    have "i = 3 \<or> i = 4 \<or> i = 5 \<or> i = 6 \<or> 8 \<le> i" using i by linarith
    moreover have "i - 8 < length dat" if "8 \<le> i" using i(2) that by (simp add: fw)
    moreover have "i = 8 + (i - 8)" if "8 \<le> i" using that by simp
    ultimately show thesis using that by blast
  qed
  then show ?thesis
  proof cases
    case 1
    then have "f[i := x] = mcu_wire x 0 cmd MCU_ACK_BYTE_FALSE dat" and "x \<noteq> ?c"
      using x by (simp_all add: fw mcu_wire_def)
    then show ?thesis using verdict by simp
  next
    case 2
    then show ?thesis
      using verdict [of dat ?c x cmd MCU_ACK_BYTE_FALSE] bad by (simp add: fw mcu_wire_def)
  next
    case 3
    then show ?thesis
      using verdict [of dat ?c 0 x MCU_ACK_BYTE_FALSE] bad by (simp add: fw mcu_wire_def)
  next
    case 4
    then show ?thesis
      using verdict [of dat ?c 0 cmd x] bad by (simp add: fw mcu_wire_def)
  next
    case 5
    then show ?thesis
      using verdict [of "dat[k := x]" ?c 0 cmd MCU_ACK_BYTE_FALSE] bad
      by (simp add: fw mcu_wire_def)
  qed
qed

text \<open>Between the header and the end of the buffer an unfinished payload is silent.\<close>

lemma mcu_feed_unfinished:
  assumes "mcu_pos s = 8 + k" and "length (mcu_data s) = 128"
    and "8 + k + length rest \<le> 127" and "120 \<le> unat (mcu_len s)"
  shows "\<exists>s'. mcu_feed s rest = Some ([], s') \<and> mcu_pos s' = 8 + k + length rest
    \<and> length (mcu_data s') = 128 \<and> mcu_flag s' = mcu_flag s"
  using assms
proof (induction rest arbitrary: s k)
  case Nil
  then show ?case by simp
next
  case (Cons c rest)
  let ?s = "s\<lparr>mcu_data := take k (mcu_data s) @ c # drop (Suc k) (mcu_data s), mcu_pos := 9 + k\<rparr>"
  have "autolink_mcu_parse s c = mcu_finish ?s"
    using Cons.prems by (intro mcu_parse_payload) auto
  also have "\<dots> = Some ([], ?s)"
    using Cons.prems(3,4) by (simp add: mcu_finish_def)
  finally have parse: "autolink_mcu_parse s c = Some ([], ?s)" .
  have "\<exists>s'. mcu_feed ?s rest = Some ([], s') \<and> mcu_pos s' = 8 + Suc k + length rest
      \<and> length (mcu_data s') = 128 \<and> mcu_flag s' = mcu_flag ?s"
    by (rule Cons.IH) (use Cons.prems in simp_all)
  then show ?case using parse by auto
qed

lemma mcu_feed_oversize:
  assumes "mcu_idle s" and "120 \<le> length dat" and "mcu_frame cmd dat = Some f"
  shows "\<exists>s'. mcu_feed s (take 128 f) = Some ([McuOverflow], s') \<and> mcu_idle s'"
proof -
  have L: "length dat \<le> 247"
    using assms(3) by (auto simp: mcu_frame_def FRAME_LEN_MAX_def split: if_splits)
  let ?len = "of_nat (length dat) :: byte"
  have u: "unat ?len = length dat" using L by (simp add: unat_of_nat)
  obtain chk where f: "f = mcu_wire chk 0 cmd MCU_ACK_BYTE_FALSE dat"
    using mcu_frame_wire [OF L, of cmd] assms(3) by simp
  let ?h7 = "[MCU_SYNC_BYTE_0, MCU_SYNC_BYTE_1, MCU_FLAG_BYTE_NORMAL, chk, 0, cmd,
      MCU_ACK_BYTE_FALSE]"
  have split: "take 128 f = (?h7 @ ?len # take 119 dat) @ [dat ! 119]"
    using assms(2) take_Suc_conv_app_nth [of 119 dat] by (simp add: f mcu_wire_def)
  let ?s7 = "s\<lparr>mcu_checksum := chk, mcu_framecounter := 0, mcu_cmd1 := cmd,
      mcu_ack := MCU_ACK_BYTE_FALSE, mcu_pos := 7\<rparr>"
  let ?s8 = "?s7\<lparr>mcu_len := ?len, mcu_pos := 8\<rparr>"
  have h7: "mcu_feed s ?h7 = Some ([], ?s7)"
    using assms(1) by (intro mcu_parse_seven) (simp add: mcu_idle_def)
  have h8: "autolink_mcu_parse ?s7 ?len = Some ([], ?s8)"
    using assms(2) u by (subst mcu_parse_len) (auto simp: mcu_finish_def)
  obtain s' where s': "mcu_feed ?s8 (take 119 dat) = Some ([], s')" "mcu_pos s' = 127"
      "length (mcu_data s') = 128" "mcu_flag s' = mcu_flag s"
    using mcu_feed_unfinished [of ?s8 0 "take 119 dat"] assms(1,2) u
    by (auto simp: mcu_idle_def mcu_wf_def mcu_consts)
  have last: "autolink_mcu_parse s' (dat ! 119) = Some ([McuOverflow], s'\<lparr>mcu_pos := 0\<rparr>)"
    using s'(2) by (simp add: autolink_mcu_parse_def mcu_consts)
  show ?thesis
    unfolding split mcu_feed_append h7
    using h8 s' last assms(1) by (simp add: mcu_idle_def mcu_wf_def mcu_consts)
qed

text \<open>An idle receiver skips every byte that is not the first synchronisation byte.\<close>

lemma mcu_feed_noise:
  assumes "mcu_idle s" and "MCU_SYNC_BYTE_0 \<notin> set bs"
  shows "mcu_feed s bs = Some (replicate (length bs) McuLostSync0, s)"
  using assms
proof (induction bs)
  case (Cons c bs)
  then have "autolink_mcu_parse s c = Some ([McuLostSync0], s)"
    by (auto simp: autolink_mcu_parse_def mcu_idle_def MCUINFO_MAX_SIZE_def)
  with Cons show ?case by simp
qed simp

lemma mcu_feed_doubled_sync:
  assumes "mcu_idle s" and "mcu_frame cmd dat = Some f" and "MCU_SYNC_BYTE_0 \<notin> set (tl f)"
  shows "\<exists>s'. mcu_feed s (MCU_SYNC_BYTE_0 # f) =
      Some (McuLostSync1 # replicate (length dat + 7) McuLostSync0, s') \<and> mcu_idle s'"
proof -
  obtain r where f: "f = MCU_SYNC_BYTE_0 # r" and r: "length r = length dat + 7"
    using assms(2) by (auto simp: mcu_frame_def split: if_splits)
  let ?s = "s\<lparr>mcu_pos := Suc 0\<rparr>"
  have p1: "autolink_mcu_parse s MCU_SYNC_BYTE_0 = Some ([], ?s)"
    using assms(1)
    by (simp add: autolink_mcu_parse_def mcu_idle_def MCUINFO_MAX_SIZE_def mcu_store_def
        mcu_finish_def)
  have p2: "autolink_mcu_parse ?s MCU_SYNC_BYTE_0 = Some ([McuLostSync1], s\<lparr>mcu_pos := 0\<rparr>)"
    by (simp add: autolink_mcu_parse_def mcu_consts)
  have "mcu_idle (s\<lparr>mcu_pos := 0\<rparr>)"
    using assms(1) by (simp add: mcu_idle_def mcu_wf_def)
  then show ?thesis
    using p1 p2 mcu_feed_noise [of "s\<lparr>mcu_pos := 0\<rparr>" r] assms(3) f r by simp
qed

subsection \<open>Reads and writes\<close>

fun mcu_reads :: "mcu_read list \<Rightarrow> byte list" where
  "mcu_reads [] = []"
| "mcu_reads (McuRead bs # rs) = (if bs = [] then [] else bs @ mcu_reads rs)"
| "mcu_reads (McuEintr # rs) = mcu_reads rs"
| "mcu_reads (McuReadError # rs) = []"

text \<open>How the stream is cut into reads does not matter, nor do interruptions.\<close>

lemma mcu_drain_feed: "mcu_drain s rs = mcu_feed s (mcu_reads rs)"
  by (induction rs arbitrary: s rule: mcu_reads.induct)
    (simp_all add: mcu_feed_append split: option.splits prod.splits)

lemma mcu_send_loop_zero:
  "0 \<le> n \<Longrightarrow> mcu_send_loop s k n ws = 0 \<longleftrightarrow> 0 < mcufd s \<and> n \<in> set (take k ws)"
proof (induction k arbitrary: ws)
  case (Suc k)
  then show ?case
    by (cases ws) (auto simp: autolink_mcu_sendinfo1_def)
qed simp

lemma mcu_send_msg1_zero:
  "autolink_mcu_send_msg1 s tries cmd dat ws = Some 0 \<longleftrightarrow>
     length dat \<le> 247 \<and> 0 < mcufd s \<and> int (length dat) + 8 \<in> set (take tries ws)"
  using mcu_send_loop_zero [of "int (length dat) + 8" s tries ws]
  by (auto simp: autolink_mcu_send_msg1_def mcu_frame_def FRAME_LEN_MAX_def)

subsection \<open>The link contract\<close>

definition mcu_packet :: "byte \<times> byte list \<Rightarrow> byte list" where
  "mcu_packet p = (case mcu_frame (fst p) (snd p) of None \<Rightarrow> [] | Some f \<Rightarrow> f)"

definition mcu_deliverable :: "byte \<times> byte list \<Rightarrow> bool" where
  "mcu_deliverable p \<longleftrightarrow> length (snd p) \<le> 119"

interpretation mcu_link: noisy_link mcu_feed mcu_idle mcu_packet mcu_deliverable
    "\<lambda>p es. es = [McuSuccess]" "\<lambda>bs. MCU_SYNC_BYTE_0 \<notin> set bs" "\<lambda>es. set es \<subseteq> {McuLostSync0}"
proof unfold_locales
  fix s :: mcuinfo_st and p :: "byte \<times> byte list"
  assume "mcu_idle s" and "mcu_deliverable p"
  then have len: "length (snd p) \<le> 119" by (simp add: mcu_deliverable_def)
  then obtain f where "mcu_frame (fst p) (snd p) = Some f"
    using mcu_frame_wire [of "snd p" "fst p"] by simp
  then show "\<exists>es t. mcu_feed s (mcu_packet p) = Some (es, t) \<and> mcu_idle t \<and> es = [McuSuccess]"
    using mcu_frame_received [OF \<open>mcu_idle s\<close> len] by (auto simp: mcu_packet_def)
qed (auto simp: mcu_feed_append mcu_feed_noise)

subsection \<open>Properties\<close>

text \<open>
  C26: What \<open>autolink_mcu_send_msg1\<close> frames, \<open>autolink_mcu_parse\<close> accepts. For every
  command and every payload of at most 119 bytes, feeding the frame byte by byte to an
  idle receiver reports success exactly once, stores the command, the length and the
  payload unchanged, and leaves the receiver idle.
\<close>

theorem mcu_frame_roundtrip:
  assumes "mcu_idle s" and "length dat \<le> 119"
  shows "\<exists>f s'. mcu_frame cmd dat = Some f \<and> mcu_feed s f = Some ([McuSuccess], s')
    \<and> mcu_idle s' \<and> mcu_cmd1 s' = cmd \<and> unat (mcu_len s') = length dat
    \<and> take (length dat) (mcu_data s') = dat"
proof -
  obtain f where "mcu_frame cmd dat = Some f"
    using mcu_frame_wire [of dat cmd] assms(2) by simp
  with mcu_frame_received [OF assms] show ?thesis by blast
qed

lemma mcu_frame_roundtrip_witness:
  "mcu_idle mcuinfo_zero \<and> (\<exists>f s'. mcu_frame 0xA0 [0x82, 0x01] = Some f
    \<and> mcu_feed mcuinfo_zero f = Some ([McuSuccess], s') \<and> mcu_idle s' \<and> mcu_cmd1 s' = 0xA0
    \<and> unat (mcu_len s') = length [0x82, 0x01 :: byte]
    \<and> take (length [0x82, 0x01 :: byte]) (mcu_data s') = [0x82, 0x01])"
  by (intro conjI mcu_idle_zero mcu_frame_roundtrip) simp_all

text \<open>
  C40: A stream of any number of frames with deliverable payloads (at most 119 bytes each),
  preceded by noise that contains no synchronisation byte, is received completely and in order: only lost-sync
  reports for the noise, then one success per frame.
\<close>

theorem mcu_stream_delivered:
  assumes "mcu_idle s" and "MCU_SYNC_BYTE_0 \<notin> set noise" and "list_all mcu_deliverable ps"
  shows "\<exists>es s'. mcu_feed s (noise @ concat (map mcu_packet ps)) =
      Some (es @ replicate (length ps) McuSuccess, s')
    \<and> set es \<subseteq> {McuLostSync0} \<and> mcu_idle s'"
proof -
  obtain es t where 1: "mcu_feed s noise = Some (es, t)" "mcu_idle t" "set es \<subseteq> {McuLostSync0}"
    using mcu_link.feed_noise assms(1,2) by blast
  obtain ess u where 2: "mcu_feed t (concat (map mcu_packet ps)) = Some (concat ess, u)"
      "mcu_idle u" "list_all2 (\<lambda>p es. es = [McuSuccess]) ps ess"
    using mcu_link.feed_stream [OF 1(2) assms(3)] by blast
  from 2(3) have "concat ess = replicate (length ps) McuSuccess"
    by (induction ps ess rule: list_all2_induct) simp_all
  with 2(1) mcu_link.feed_append [OF 1(1) 2(1)] 1(3) 2(2) show ?thesis by auto
qed

lemma mcu_stream_delivered_witness:
  "\<exists>es s'. mcu_feed mcuinfo_zero ([0x00, 0x77] @ concat (map mcu_packet [(0xA0, [0x82, 0]), (0x20, [])])) =
      Some (es @ replicate (length [(0xA0, [0x82, 0]), (0x20 :: byte, [] :: byte list)]) McuSuccess, s')
    \<and> set es \<subseteq> {McuLostSync0} \<and> mcu_idle s'"
  by (rule mcu_stream_delivered)
    (simp_all add: mcu_idle_zero MCU_SYNC_BYTE_0_def mcu_deliverable_def)

text \<open>
  C38: In a frame of at most 119 payload bytes the exclusive-or checksum detects every single-byte
  corruption after the flag other than in the length byte: the frame is reported as a checksum
  failure, never as a success.
\<close>

theorem mcu_single_corruption_detected:
  assumes "mcu_idle s" and "length dat \<le> 119" and "mcu_frame cmd dat = Some f"
    and "3 \<le> i" and "i < length f" and "i \<noteq> 7" and "x \<noteq> f ! i"
  shows "\<exists>s'. mcu_feed s (f[i := x]) = Some ([McuChecksumFailed], s') \<and> mcu_idle s'"
  using assms by (rule mcu_corrupt_detected)

lemma mcu_frame_example:
  "mcu_frame 0x30 [0x06] = Some [0xAA, 0x77, 0, 0x37, 0, 0x30, 0, 1, 0x06]"
  by (simp add: mcu_frame_def mcu_consts autolink_mcu_checksum_def)

lemma mcu_single_corruption_detected_witness:
  "\<exists>s'. mcu_feed mcuinfo_zero ([0xAA, 0x77, 0, 0x37, 0, 0x30, 0, 1, 0x06][8 := 0x07]) =
     Some ([McuChecksumFailed], s') \<and> mcu_idle s'"
  using mcu_single_corruption_detected [OF mcu_idle_zero _ mcu_frame_example,
      where i = 8 and x = 7] by simp

text \<open>
  C39: Memory safety of the receiver: from the zeroed global, whatever bytes the reads
  deliver and however they are cut or interrupted, no access leaves \<open>data\<close>, the position
  stays within the buffer size, and the outcome is that of the concatenated stream.
\<close>

theorem mcu_drain_safe:
  "\<exists>ms s'. mcu_drain mcuinfo_zero rs = Some (ms, s') \<and> mcu_pos s' \<le> MCUINFO_MAX_SIZE
    \<and> length (mcu_data s') = MCUINFO_MAX_SIZE + 1
    \<and> mcu_feed mcuinfo_zero (mcu_reads rs) = Some (ms, s')"
  using mcu_feed_wf [OF mcu_wf_zero, of "mcu_reads rs"] by (auto simp: mcu_drain_feed mcu_wf_def)

text \<open>
  Frames with 120 to 247 payload bytes, which the sender builds, are never accepted:
  after 128 of their bytes the receiver reports an overflow and drops what it has.
\<close>

theorem mcu_oversize_dropped:
  assumes "mcu_idle s" and "120 \<le> length dat" and "mcu_frame cmd dat = Some f"
  shows "\<exists>s'. mcu_feed s (take 128 f) = Some ([McuOverflow], s') \<and> mcu_idle s'"
  using assms by (rule mcu_feed_oversize)

lemma mcu_oversize_dropped_witness:
  "\<exists>f s'. mcu_frame 1 (replicate 120 0) = Some f
    \<and> mcu_feed mcuinfo_zero (take 128 f) = Some ([McuOverflow], s') \<and> mcu_idle s'"
proof -
  obtain f where f: "mcu_frame 1 (replicate 120 0) = Some f"
    using mcu_frame_wire [of "replicate 120 0" 1] by simp
  show ?thesis
    using mcu_oversize_dropped [OF mcu_idle_zero _ f] f by simp
qed

text \<open>
  A stray first synchronisation byte in front of a frame loses the frame: the mismatch
  at position 1 is not re-examined as a start byte. For any frame without a further
  \<open>0xAA\<close> every byte is reported lost and no verdict is given.
\<close>

theorem mcu_doubled_sync_loses_frame:
  assumes "mcu_idle s" and "mcu_frame cmd dat = Some f" and "MCU_SYNC_BYTE_0 \<notin> set (tl f)"
  shows "\<exists>s'. mcu_feed s (MCU_SYNC_BYTE_0 # f) =
      Some (McuLostSync1 # replicate (length dat + 7) McuLostSync0, s') \<and> mcu_idle s'"
  using assms by (rule mcu_feed_doubled_sync)

lemma mcu_doubled_sync_loses_frame_witness:
  "\<exists>s'. mcu_feed mcuinfo_zero (MCU_SYNC_BYTE_0 # [0xAA, 0x77, 0, 0x37, 0, 0x30, 0, 1, 0x06]) =
      Some (McuLostSync1 # replicate (length [0x06 :: byte] + 7) McuLostSync0, s') \<and> mcu_idle s'"
  using mcu_doubled_sync_loses_frame [OF mcu_idle_zero mcu_frame_example]
  by (simp add: MCU_SYNC_BYTE_0_def)

text \<open>
  \<open>autolink_mcu_send_msg1\<close> returns 0 exactly when the payload fits the reply buffer, the
  descriptor is open and one of the first \<open>times\<close> writes takes the whole frame.
\<close>

theorem mcu_send_success:
  "autolink_mcu_send_msg1 s tries cmd dat ws = Some 0 \<longleftrightarrow>
     length dat \<le> 247 \<and> 0 < mcufd s \<and> int (length dat) + 8 \<in> set (take tries ws)"
  by (rule mcu_send_msg1_zero)

end
