(* ===== verification/Checked.thy ===== *)
theory Checked
  imports Prelude
begin

text \<open>
  Computations that may be undefined: a result, or the reason why the C program has none.
  Shared by the components that read untrusted input through pointers.
\<close>

datatype ub = OutOfBounds | BadCast | BadHandle | DivByZero

type_synonym 'a ck = "ub + 'a"

primrec bindr :: "'e + 'a \<Rightarrow> ('a \<Rightarrow> 'e + 'b) \<Rightarrow> 'e + 'b" where
  "bindr (Inl e) f = Inl e"
| "bindr (Inr x) f = f x"

lemma bindr_Inr: "bindr r f = Inr y \<longleftrightarrow> (\<exists>x. r = Inr x \<and> f x = Inr y)"
  by (cases r) simp_all

lemma bindr_InrE:
  assumes "bindr r f = Inr y" obtains x where "r = Inr x" "f x = Inr y"
  using assms by (cases r) simp_all

lemma bindr_assoc: "bindr (bindr r f) g = bindr r (\<lambda>x. bindr (f x) g)"
  by (cases r) simp_all

lemma bindr_cong [fundef_cong]:
  "r = r' \<Longrightarrow> (\<And>x. r' = Inr x \<Longrightarrow> f x = f' x) \<Longrightarrow> bindr r f = bindr r' f'"
  by (cases r') simp_all

text \<open>\<open>ends P r\<close>: the computation has a result, and it satisfies \<open>P\<close>.\<close>

primrec ends :: "('a \<Rightarrow> bool) \<Rightarrow> 'e + 'a \<Rightarrow> bool" where
  "ends P (Inl e) = False"
| "ends P (Inr x) = P x"

lemma ends_bind: "ends Q r \<Longrightarrow> (\<And>x. Q x \<Longrightarrow> ends P (f x)) \<Longrightarrow> ends P (bindr r f)"
  by (cases r) simp_all

lemma ends_mono: "ends P r \<Longrightarrow> (\<And>x. P x \<Longrightarrow> Q x) \<Longrightarrow> ends Q r"
  by (cases r) simp_all

lemma ends_Ex: "ends P r \<longleftrightarrow> (\<exists>x. r = Inr x \<and> P x)"
  by (cases r) simp_all

text \<open>The same with some reasons for undefinedness allowed.\<close>

primrec ends_or :: "ub set \<Rightarrow> ('a \<Rightarrow> bool) \<Rightarrow> 'a ck \<Rightarrow> bool" where
  "ends_or E P (Inl e) = (e \<in> E)"
| "ends_or E P (Inr x) = P x"

lemma ends_or_bind: "ends_or E Q r \<Longrightarrow> (\<And>x. Q x \<Longrightarrow> ends_or E P (f x)) \<Longrightarrow> ends_or E P (bindr r f)"
  by (cases r) simp_all

lemma ends_or_mono: "ends_or E P r \<Longrightarrow> (\<And>x. P x \<Longrightarrow> Q x) \<Longrightarrow> ends_or E Q r"
  by (cases r) simp_all

lemma ends_or_empty: "ends_or {} P r \<Longrightarrow> r \<noteq> Inl e"
  by (cases r) auto

lemma ends_ends_or: "ends P r \<Longrightarrow> ends_or E P r"
  by (cases r) simp_all

subsection \<open>Input\<close>

text \<open>A computation over a list of inputs, and where it ends if the steps keep an invariant.\<close>

fun feeds :: "('s \<Rightarrow> 'c \<Rightarrow> 's ck) \<Rightarrow> 's \<Rightarrow> 'c list \<Rightarrow> 's ck" where
  "feeds f s [] = Inr s"
| "feeds f s (c # cs) = bindr (f s c) (\<lambda>t. feeds f t cs)"

lemma feeds_append: "feeds f s (xs @ ys) = bindr (feeds f s xs) (\<lambda>t. feeds f t ys)"
  by (induction xs arbitrary: s) (simp_all add: bindr_assoc)

lemma feeds_ends:
  assumes "P s" and "\<And>s c. P s \<Longrightarrow> case f s c of Inr t \<Rightarrow> P t | Inl e \<Rightarrow> E e s c"
  shows "case feeds f s cs of Inr t \<Rightarrow> P t
    | Inl e \<Rightarrow> \<exists>us c vs t. cs = us @ c # vs \<and> feeds f s us = Inr t \<and> P t \<and> E e t c"
  using assms(1)
proof (induction cs rule: rev_induct)
  case (snoc c cs)
  show ?case
  proof (cases "feeds f s cs")
    case (Inl e)
    then obtain us d vs t where "cs = us @ d # vs" "feeds f s us = Inr t" "P t" "E e t d" using snoc by auto
    then have "\<exists>us d vs t. cs @ [c] = us @ d # vs \<and> feeds f s us = Inr t \<and> P t \<and> E e t d"
      by (intro exI [of _ us] exI [of _ d] exI [of _ "vs @ [c]"] exI [of _ t]) simp
    moreover have "feeds f s (cs @ [c]) = Inl e" using Inl by (simp add: feeds_append)
    ultimately show ?thesis by simp
  next
    case (Inr t)
    then have "P t" using snoc by simp
    with assms(2) [of t c] have "case f t c of Inr u \<Rightarrow> P u | Inl e \<Rightarrow> E e t c" .
    with Inr \<open>P t\<close> show ?thesis by (cases "f t c") (auto simp: feeds_append)
  qed
qed simp

subsection \<open>Memory\<close>

definition rd :: "'a list \<Rightarrow> nat \<Rightarrow> 'a ck" where
  "rd m i = (if i < length m then Inr (m ! i) else Inl OutOfBounds)"

definition wr :: "'a list \<Rightarrow> nat \<Rightarrow> 'a \<Rightarrow> 'a list ck" where
  "wr m i x = (if i < length m then Inr (m[i := x]) else Inl OutOfBounds)"

definition rds :: "'a list \<Rightarrow> nat \<Rightarrow> nat \<Rightarrow> 'a list ck" where
  "rds m i n = (if i + n \<le> length m then Inr (take n (drop i m)) else Inl OutOfBounds)"

text \<open>Division of unsigned integers.\<close>

definition divr :: "nat \<Rightarrow> nat \<Rightarrow> nat ck" where
  "divr a b = (if b = 0 then Inl DivByZero else Inr (a div b))"

lemma rd_ok [simp]: "i < length m \<Longrightarrow> rd m i = Inr (m ! i)"
  by (simp add: rd_def)

lemma wr_ok [simp]: "i < length m \<Longrightarrow> wr m i x = Inr (m[i := x])"
  by (simp add: wr_def)

lemma rds_ok [simp]: "i + n \<le> length m \<Longrightarrow> rds m i n = Inr (take n (drop i m))"
  by (simp add: rds_def)

subsection \<open>Signed 32-bit integers\<close>

text \<open>
  A C \<open>int\<close> as an integer, with signed overflow wrapping (what the compilers for the
  targets of these programs do).
\<close>

definition wrap32 :: "int \<Rightarrow> int" where
  "wrap32 i = (i + 2 ^ 31) mod 2 ^ 32 - 2 ^ 31"

lemma wrap32_id: "- (2 ^ 31) \<le> i \<Longrightarrow> i < 2 ^ 31 \<Longrightarrow> wrap32 i = i"
  by (simp add: wrap32_def)

lemma wrap32_range: "- (2 ^ 31) \<le> wrap32 i" "wrap32 i < 2 ^ 31"
  by (simp_all add: wrap32_def)

lemma wrap32_diff: "wrap32 (wrap32 a - wrap32 b) = wrap32 (a - b)"
proof -
  have "(wrap32 a - wrap32 b + 2 ^ 31) mod 2 ^ 32 = (a - b + 2 ^ 31) mod 2 ^ 32"
    unfolding wrap32_def by (simp add: mod_simps algebra_simps)
  then show ?thesis by (simp only: wrap32_def [of "wrap32 a - wrap32 b"] wrap32_def [of "a - b"])
qed

end
