(* ===== verification/McuConf.thy ===== *)
theory McuConf
  imports Mcu Checked
begin

text \<open>
  The rest of \<open>qemu_mcu.c\<close>: opening the serial port, the thread that waits for it, and the
  file of frames to send (\<open>HexStrToChar\<close>, \<open>autolink_mcu_read_conf\<close>).
\<close>

subsection \<open>The port and the thread\<close>

text \<open>What \<open>open\<close>, \<open>set_speed\<close> and \<open>set_parity\<close> of the serial library return.\<close>

definition autolink_mcu_uart_init :: "int \<Rightarrow> int \<Rightarrow> int \<Rightarrow> int" where
  "autolink_mcu_uart_init fd speed parity =
     (if fd < 0 then -1 else if speed \<noteq> 0 then -1 else if parity \<noteq> 0 then -1 else fd)"

text \<open>The results of successive \<open>epoll_ctl\<close> calls, each with whether it was interrupted.\<close>

fun epoll_register :: "(int \<times> bool) list \<Rightarrow> int option" where
  "epoll_register [] = None"
| "epoll_register ((ret, interrupted) # rs) =
     (if ret < 0 \<and> interrupted then epoll_register rs else Some ret)"

text \<open>
  One return of \<open>epoll_wait\<close>: a failure, or a descriptor with what reading it gives. The
  messages of the thread over a sequence of them, and the state it leaves.
\<close>

datatype mcu_wake = WaitFailed | Woken int "mcu_read list"

fun mcu_service :: "mcuinfo_st \<Rightarrow> mcu_wake list \<Rightarrow> (mcu_msg list \<times> mcuinfo_st) option" where
  "mcu_service s [] = Some ([], s)"
| "mcu_service s (WaitFailed # ws) = mcu_service s ws"
| "mcu_service s (Woken fd rs # ws) =
     (if fd = mcufd s
      then case mcu_drain s rs of
             None \<Rightarrow> None
           | Some (ms, s') \<Rightarrow>
               (case mcu_service s' ws of None \<Rightarrow> None | Some (ms', s'') \<Rightarrow> Some (ms @ ms', s''))
      else mcu_service s ws)"

definition autolink_mcu_init1 :: "mcuinfo_st \<Rightarrow> int \<Rightarrow> int \<Rightarrow> int \<Rightarrow> int \<times> mcuinfo_st" where
  "autolink_mcu_init1 s fd speed parity =
     (let r = autolink_mcu_uart_init fd speed parity
      in (if r < 0 then -1 else 0, s\<lparr>mcufd := r\<rparr>))"

subsection \<open>Hexadecimal bytes\<close>

datatype conf_stop = ConfExit | ConfFault

definition hex_digit :: "byte \<Rightarrow> byte option" where
  "hex_digit c =
     (if ascii CHR ''0'' \<le> c \<and> c \<le> ascii CHR ''9'' then Some (c - 48)
      else if ascii CHR ''A'' \<le> c \<and> c \<le> ascii CHR ''F'' then Some (c - 65 + 10)
      else if ascii CHR ''a'' \<le> c \<and> c \<le> ascii CHR ''f'' then Some (c - 97 + 10)
      else None)"

fun hex_loop :: "nat \<Rightarrow> byte \<Rightarrow> byte list \<Rightarrow> conf_stop + byte" where
  "hex_loop i result [] = Inr result"
| "hex_loop i result (c # cs) =
     (case hex_digit c of
        None \<Rightarrow> Inl ConfExit
      | Some var \<Rightarrow>
          hex_loop (Suc i) (if i = 0 then result OR push_bit 4 var else result OR var) cs)"

definition HexStrToChar :: "byte list \<Rightarrow> conf_stop + byte" where
  "HexStrToChar str = (if 2 < length str then Inl ConfExit else hex_loop 0 0 str)"

subsection \<open>Lines\<close>

definition LINE_SIZE :: nat where
  "LINE_SIZE = 255"

definition MCU_TO_ARM_FALG :: "byte list" where
  "MCU_TO_ARM_FALG = bytes ''MCU-ARM:''"

text \<open>\<open>fgets\<close>: the line with its line feed, what follows, and whether the end was met.\<close>

fun fgets :: "nat \<Rightarrow> byte list \<Rightarrow> byte list \<times> byte list \<times> bool" where
  "fgets 0 s = ([], s, False)"
| "fgets (Suc n) [] = ([], [], True)"
| "fgets (Suc n) (c # cs) =
     (if c = 10 then ([c], cs, False)
      else case fgets n cs of (l, r, e) \<Rightarrow> (c # l, r, e))"

definition c_str :: "byte list \<Rightarrow> byte list" where
  "c_str m = takeWhile (\<lambda>c. c \<noteq> 0) m"

fun strip_end :: "byte list \<Rightarrow> nat \<Rightarrow> byte list" where
  "strip_end buf 0 = buf"
| "strip_end buf (Suc i) =
     (if buf ! i = 13 \<or> buf ! i = 10 \<or> buf ! i = 0 then strip_end (buf[i := 0]) i else buf)"

text \<open>\<open>strsep\<close> over the commas, from the first token to the last.\<close>

fun commas :: "byte list \<Rightarrow> byte list list" where
  "commas [] = [[]]"
| "commas (c # cs) =
     (if c = ascii CHR '','' then [] # commas cs
      else case commas cs of [] \<Rightarrow> [[c]] | t # ts \<Rightarrow> (c # t) # ts)"

text \<open>The tokens of a line: the first is the command, the others fill \<open>msg_data\<close>.\<close>

fun conf_tokens :: "nat \<Rightarrow> byte \<Rightarrow> byte list \<Rightarrow> byte list list \<Rightarrow> conf_stop + byte \<times> byte list" where
  "conf_tokens i cmd msg [] = Inr (cmd, msg)"
| "conf_tokens i cmd msg (p # ps) =
     bindr (HexStrToChar p) (\<lambda>num.
       if i = 0 then conf_tokens 1 num msg ps
       else if i - 1 < LINE_SIZE then conf_tokens (Suc i) cmd (msg @ [num]) ps
       else Inl ConfFault)"

text \<open>
  One line: \<open>None\<close> if it is skipped. \<open>len\<close> is a char, so where char is signed the length of a
  long line is negative and \<open>memcpy\<close> gets a size near \<open>2 ^ 32\<close>; and it copies as many bytes
  as the whole line has from behind the tag, beyond the end of the buffer when the line is long.
\<close>

definition conf_line :: "bool \<Rightarrow> byte list \<Rightarrow> conf_stop + (byte \<times> byte list) option" where
  "conf_line char_signed line =
     (let buf = line @ replicate (LINE_SIZE - length line) 0 in
      if buf ! 0 \<in> {ascii CHR ''#'', 13, 10} then Inr None
      else
        let buf = strip_end buf (length (c_str buf));
            len = length (c_str buf) + 1;
            size = (if char_signed \<and> 128 \<le> len then 2 ^ 32 + len - 256 else len mod 256)
        in if take 8 (c_str buf) \<noteq> MCU_TO_ARM_FALG then Inr None
           else if LINE_SIZE < 8 + size then Inl ConfFault
           else bindr (conf_tokens 0 0 [] (commas (c_str (take size (drop 8 buf))))) (\<lambda>m. Inr (Some m)))"

lemma fgets_progress: "fgets (Suc n) s = (l, r, e) \<Longrightarrow> \<not> e \<Longrightarrow> length r < length s"
proof (induction n arbitrary: s l r e)
  case 0
  then show ?case by (cases s) (auto split: if_splits)
next
  case (Suc n)
  then obtain c cs where s: "s = c # cs" by (cases s) auto
  show ?case
  proof (cases "c = 10")
    case False
    obtain l' r' e' where f: "fgets (Suc n) cs = (l', r', e')" by (cases "fgets (Suc n) cs")
    with Suc.prems s False have "r = r'" "\<not> e'" by auto
    with Suc.IH [OF f] s show ?thesis by simp
  qed (use Suc.prems s in auto)
qed

text \<open>The frames that the file asks to send, and how reading it ends early, if it does.\<close>

function conf_run :: "bool \<Rightarrow> byte list \<Rightarrow> (byte \<times> byte list) list \<times> conf_stop option" where
  "conf_run char_signed file =
     (case fgets (LINE_SIZE - 1) file of
        (line, rest, at_end) \<Rightarrow>
          (case conf_line char_signed line of
             Inl stop \<Rightarrow> ([], Some stop)
           | Inr sent \<Rightarrow>
               (let later = (if at_end then ([], None) else conf_run char_signed rest)
                in (case sent of None \<Rightarrow> later | Some m \<Rightarrow> (m # fst later, snd later)))))"
  by auto
termination
  by (relation "measure (\<lambda>(b, f). length f)")
    (auto simp: LINE_SIZE_def numeral_eq_Suc dest!: fgets_progress [OF sym])

declare conf_run.simps [simp del]

text \<open>
  Without the file the result is \<open>-1\<close>; after the loop the function ends without a
  \<open>return\<close>, so its result has no value (\<open>None\<close>).
\<close>

definition autolink_mcu_read_conf ::
  "bool \<Rightarrow> byte list option \<Rightarrow> (int option \<times> (byte \<times> byte list) list \<times> conf_stop option)" where
  "autolink_mcu_read_conf char_signed file =
     (case file of
        None \<Rightarrow> (Some (-1), [], None)
      | Some s \<Rightarrow> (case conf_run char_signed s of (sent, stop) \<Rightarrow> (None, sent, stop)))"


subsection \<open>The thread only adds up reads\<close>

text \<open>The bytes that reach the receiver: all reads that woke the thread for its descriptor.\<close>

definition mcu_woken :: "int \<Rightarrow> mcu_wake list \<Rightarrow> byte list" where
  "mcu_woken fd ws =
     concat (map (\<lambda>w. case w of WaitFailed \<Rightarrow> [] | Woken fd' rs \<Rightarrow> (if fd' = fd then mcu_reads rs else [])) ws)"

lemma mcu_service_feed: "mcu_service s ws = mcu_feed s (mcu_woken (mcufd s) ws)"
proof (induction s ws rule: mcu_service.induct)
  case (3 s fd rs ws)
  show ?case
  proof (cases "fd = mcufd s")
    case True
    show ?thesis
    proof (cases "mcu_drain s rs")
      case None
      with True show ?thesis
        by (simp add: mcu_drain_feed mcu_feed_append mcu_woken_def)
    next
      case (Some r)
      obtain ms s' where r: "r = (ms, s')" by (cases r)
      have "mcufd s' = mcufd s"
        using Some r mcu_feed_frame by (simp add: mcu_drain_feed)
      with 3(1) [OF True Some, of ms s'] Some r True show ?thesis
        by (simp add: mcu_drain_feed mcu_feed_append mcu_woken_def)
    qed
  qed (use 3(2) in \<open>simp add: mcu_woken_def\<close>)
qed (simp_all add: mcu_woken_def)

subsection \<open>Writing what the reader understands\<close>

definition hex_char :: "byte \<Rightarrow> byte" where
  "hex_char d = (if d < 10 then 48 + d else 55 + d)"

definition hex_byte :: "byte \<Rightarrow> byte list" where
  "hex_byte b = [hex_char (drop_bit 4 b), hex_char (take_bit 4 b)]"

fun comma_join :: "byte list list \<Rightarrow> byte list" where
  "comma_join [] = []"
| "comma_join [t] = t"
| "comma_join (t # ts) = t @ ascii CHR '','' # comma_join ts"

definition conf_body :: "byte \<times> byte list \<Rightarrow> byte list" where
  "conf_body m = comma_join (map hex_byte (fst m # snd m))"

definition conf_text :: "byte \<times> byte list \<Rightarrow> byte list" where
  "conf_text m = MCU_TO_ARM_FALG @ conf_body m @ [10]"

definition conf_fits :: "bool \<Rightarrow> byte \<times> byte list \<Rightarrow> bool" where
  "conf_fits char_signed m \<longleftrightarrow> length (snd m) < (if char_signed then 39 else 79)"

lemma nibble_cases:
  fixes d :: byte
  assumes "d < 16"
  shows "d \<in> {0, 1, 2, 3, 4, 5, 6, 7, 8, 9, 10, 11, 12, 13, 14, 15}"
proof -
  have "unat d < 16" using assms by (simp add: word_less_nat_alt)
  then have "unat d \<in> {0, 1, 2, 3, 4, 5, 6, 7, 8, 9, 10, 11, 12, 13, 14, 15}"
    by (simp add: numeral_eq_Suc less_Suc_eq)
  then have "of_nat (unat d) \<in> (of_nat :: nat \<Rightarrow> byte) ` {0, 1, 2, 3, 4, 5, 6, 7, 8, 9, 10, 11, 12, 13, 14, 15}"
    by (rule imageI)
  then show ?thesis by simp
qed

lemma hex_ascii:
  "ascii CHR ''0'' = 48" "ascii CHR ''9'' = 57" "ascii CHR ''A'' = 65" "ascii CHR ''F'' = 70"
  "ascii CHR ''a'' = 97" "ascii CHR ''f'' = 102" "ascii CHR '','' = 44"
  by (simp_all add: ascii_def)

lemma hex_digit_char: "d < 16 \<Longrightarrow> hex_digit (hex_char d) = Some d"
  by (drule nibble_cases, unfold insert_iff) (elim disjE; simp add: hex_digit_def hex_char_def hex_ascii)

lemma hex_char_plain:
  "d < 16 \<Longrightarrow> hex_char d \<noteq> 0 \<and> hex_char d \<noteq> 10 \<and> hex_char d \<noteq> 13 \<and> hex_char d \<noteq> ascii CHR '',''"
  by (drule nibble_cases, unfold insert_iff) (elim disjE; simp add: hex_char_def hex_ascii)

lemma nibbles: "drop_bit 4 (b :: byte) < 16" "take_bit 4 (b :: byte) < 16"
proof -
  have "unat b < 256" using unsigned_less [of b] by simp
  then show "drop_bit 4 b < 16" "take_bit 4 b < 16"
    by (simp_all add: word_less_nat_alt drop_bit_eq_div take_bit_eq_mod unat_div unat_mod)
qed

lemma HexStrToChar_byte: "HexStrToChar (hex_byte b) = Inr b"
proof -
  have "push_bit 4 (drop_bit 4 b) OR take_bit 4 b = b"
    by (simp add: bit_eq_iff bit_simps) (auto simp: bit_simps)
  then show ?thesis
    by (simp add: HexStrToChar_def hex_byte_def hex_digit_char nibbles)
qed

text \<open>A body has no byte that ends a line or a string, and its commas separate the bytes.\<close>

lemma set_comma_join: "set (comma_join ts) \<subseteq> insert (ascii CHR '','') (\<Union>t\<in>set ts. set t)"
  by (induction ts rule: comma_join.induct) auto

lemma conf_body_plain: "c \<in> set (conf_body m) \<Longrightarrow> c \<noteq> 0 \<and> c \<noteq> 10 \<and> c \<noteq> 13"
  using set_comma_join [of "map hex_byte (fst m # snd m)"] hex_char_plain nibbles
  by (auto simp: conf_body_def hex_byte_def hex_ascii)

lemma commas_token: "ascii CHR '','' \<notin> set t \<Longrightarrow> commas t = [t]"
  by (induction t) auto

lemma commas_append:
  "ascii CHR '','' \<notin> set t \<Longrightarrow> commas (t @ ascii CHR '','' # r) = t # commas r"
  by (induction t) auto

lemma commas_join:
  "\<forall>t\<in>set ts. ascii CHR '','' \<notin> set t \<Longrightarrow> ts \<noteq> [] \<Longrightarrow> commas (comma_join ts) = ts"
  by (induction ts rule: comma_join.induct) (simp_all add: commas_token commas_append)

lemma commas_body: "commas (conf_body m) = map hex_byte (fst m # snd m)"
  unfolding conf_body_def
  using hex_char_plain nibbles by (intro commas_join) (fastforce simp: hex_byte_def)+

lemma length_conf_body: "length (conf_body m) = 3 * length (snd m) + 2"
proof -
  have "length (comma_join (map hex_byte (b # bs))) = 3 * length bs + 2" for b bs
    by (induction bs arbitrary: b) (simp_all add: hex_byte_def)
  then show ?thesis by (simp add: conf_body_def)
qed

lemma conf_body_not_Nil: "conf_body m \<noteq> []"
  using length_conf_body [of m] by auto

lemma conf_tokens_data:
  "0 < i \<Longrightarrow> i + length dat \<le> 255 \<Longrightarrow> conf_tokens i cmd msg (map hex_byte dat) = Inr (cmd, msg @ dat)"
  by (induction dat arbitrary: i msg) (simp_all add: HexStrToChar_byte LINE_SIZE_def)

lemma conf_tokens_body:
  "length (snd m) < 255 \<Longrightarrow> conf_tokens 0 0 [] (commas (conf_body m)) = Inr m"
  by (cases m) (simp add: commas_body HexStrToChar_byte conf_tokens_data)

lemma fgets_line: "10 \<notin> set l \<Longrightarrow> length l < n \<Longrightarrow> fgets n (l @ 10 # r) = (l @ [10], r, False)"
proof (induction l arbitrary: n)
  case Nil
  then show ?case by (cases n) simp_all
next
  case (Cons c l)
  then show ?case by (cases n) simp_all
qed

lemma c_str_append: "0 \<notin> set l \<Longrightarrow> c_str (l @ 0 # r) = l"
  by (simp add: c_str_def takeWhile_append)

lemma strip_end_line:
  assumes "l \<noteq> []" and "last l \<noteq> 13" and "last l \<noteq> 10" and "last l \<noteq> 0"
  shows "strip_end (l @ 10 # r) (length l + 1) = l @ 0 # r"
proof -
  obtain k where k: "length l = Suc k" using assms(1) by (cases l) simp_all
  then have "l ! k = last l" using assms(1) by (simp add: last_conv_nth)
  moreover have "(l @ 10 # r)[Suc k := 0] = l @ 0 # r"
    using k by (simp add: list_update_append)
  ultimately show ?thesis using assms k by (simp add: nth_append)
qed

definition conf_head :: "byte \<times> byte list \<Rightarrow> byte list" where
  "conf_head m = MCU_TO_ARM_FALG @ conf_body m"

lemma conf_head:
  "length (conf_head m) = 3 * length (snd m) + 10" "conf_head m \<noteq> []"
  "take 8 (conf_head m) = MCU_TO_ARM_FALG" "drop 8 (conf_head m) = conf_body m"
  "conf_head m ! 0 = 77"
  by (simp_all add: conf_head_def MCU_TO_ARM_FALG_def length_conf_body ascii_def)

lemma conf_head_plain: "c \<in> set (conf_head m) \<Longrightarrow> c \<noteq> 0 \<and> c \<noteq> 10 \<and> c \<noteq> 13"
  using conf_body_plain [of c m] by (auto simp: conf_head_def MCU_TO_ARM_FALG_def ascii_def)

lemma conf_line_head:
  assumes "length (snd m) \<le> 81"
  shows "conf_line char_signed (conf_head m @ [10]) =
    (if conf_fits char_signed m then Inr (Some m) else Inl ConfFault)"
proof -
  let ?h = "conf_head m" and ?z = "replicate (244 - 3 * length (snd m)) (0 :: byte)"
  have z: "?z = 0 # replicate (243 - 3 * length (snd m)) 0"
    using assms by (simp add: Suc_diff_le flip: replicate_Suc)
  have plain: "0 \<notin> set ?h" "last ?h \<noteq> 13" "last ?h \<noteq> 10" "last ?h \<noteq> 0"
    using conf_head_plain [of _ m] last_in_set [OF conf_head(2) [of m]] by blast+
  have buf: "(?h @ [10]) @ replicate (LINE_SIZE - length (?h @ [10])) 0 = ?h @ 10 # ?z"
    by (simp add: LINE_SIZE_def conf_head)
  have c1: "c_str (?h @ 10 # ?z) = ?h @ [10]"
    using c_str_append [of "?h @ [10]"] plain(1) by (simp add: z)
  have strip: "strip_end (?h @ 10 # ?z) (length (c_str (?h @ 10 # ?z))) = ?h @ 0 # ?z"
    using strip_end_line [OF conf_head(2) [of m] plain(2-4), of ?z] by (simp add: c1)
  have c2: "c_str (?h @ 0 # ?z) = ?h"
    using plain(1) by (rule c_str_append)
  have len: "(11 + 3 * length (snd m)) mod 256 = 11 + 3 * length (snd m)" using assms by simp
  have hash: "ascii CHR ''#'' = 35" by (simp add: ascii_def)
  have first: "(?h @ 10 # ?z) ! 0 = 77" by (simp add: nth_append conf_head)
  have c3: "c_str (take k (conf_body m @ 0 # ?z)) = conf_body m" if "length (conf_body m) < k" for k
  proof -
    have "k - length (conf_body m) = Suc (k - length (conf_body m) - 1)" using that by simp
    then obtain j where "k - length (conf_body m) = Suc j" by blast
    moreover have "0 \<notin> set (conf_body m)" using conf_body_plain by blast
    ultimately show ?thesis by (simp add: c_str_append)
  qed
  show ?thesis
    unfolding conf_line_def Let_def buf strip c2 first
    by (simp add: conf_head c3 length_conf_body conf_tokens_body conf_fits_def LINE_SIZE_def
        len hex_ascii hash del: take_append)
qed

lemma conf_run_line:
  assumes "length (snd m) \<le> 81"
  shows "conf_run char_signed (conf_text m @ rest) =
    (if conf_fits char_signed m
     then (m # fst (conf_run char_signed rest), snd (conf_run char_signed rest))
     else ([], Some ConfFault))"
proof -
  have "fgets 254 (conf_head m @ 10 # rest) = (conf_head m @ [10], rest, False)"
    using assms conf_head_plain [of 10 m] by (intro fgets_line) (auto simp: conf_head)
  then show ?thesis
    using conf_line_head [OF assms, of char_signed]
    by (subst conf_run.simps) (simp add: conf_text_def conf_head_def LINE_SIZE_def Let_def)
qed

lemma conf_run_Nil: "conf_run char_signed [] = ([], None)"
proof -
  have "conf_line char_signed [] = Inr None"
    by (simp add: conf_line_def c_str_def LINE_SIZE_def MCU_TO_ARM_FALG_def ascii_def)
  moreover have "fgets 254 [] = ([], [], True)"
    by (simp add: numeral_eq_Suc)
  ultimately show ?thesis
    by (subst conf_run.simps) (simp add: LINE_SIZE_def)
qed

lemma conf_run_texts:
  "list_all (conf_fits char_signed) ms \<Longrightarrow>
   conf_run char_signed (concat (map conf_text ms) @ rest) =
     (ms @ fst (conf_run char_signed rest), snd (conf_run char_signed rest))"
  by (induction ms) (auto simp: conf_run_line conf_fits_def split: if_splits)

lemma conf_fits_deliverable: "list_all (conf_fits char_signed) ms \<Longrightarrow> list_all mcu_deliverable ms"
  by (induction ms) (auto simp: conf_fits_def mcu_deliverable_def split: if_split_asm)

subsection \<open>Properties\<close>

text \<open>
  C27: From the file to the receiver: a file with one line \<open>MCU-ARM:cmd,data,...\<close> per message,
  each of at most 38 data bytes (78 where char is unsigned), is read as exactly these messages,
  and their frames, however the reads of the service thread at the other end cut them up, are
  received with one success each and nothing else.
\<close>

theorem mcu_conf_delivered:
  assumes "list_all (conf_fits char_signed) ms" and "mcu_idle s"
    and "mcu_woken (mcufd s) ws = concat (map mcu_packet ms)"
  shows "autolink_mcu_read_conf char_signed (Some (concat (map conf_text ms))) = (None, ms, None) \<and>
    (\<exists>s'. mcu_service s ws = Some (replicate (length ms) McuSuccess, s') \<and> mcu_idle s')"
proof
  show "autolink_mcu_read_conf char_signed (Some (concat (map conf_text ms))) = (None, ms, None)"
    using conf_run_texts [OF assms(1), of "[]"] by (simp add: autolink_mcu_read_conf_def conf_run_Nil)
next
  obtain ess t where r: "mcu_feed s (concat (map mcu_packet ms)) = Some (concat ess, t)" "mcu_idle t"
      "list_all2 (\<lambda>p es. es = [McuSuccess]) ms ess"
    using mcu_link.feed_stream [OF assms(2) conf_fits_deliverable [OF assms(1)]] by blast
  from r(3) have "concat ess = replicate (length ms) McuSuccess"
    by (induction ms ess rule: list_all2_induct) simp_all
  with r show "\<exists>s'. mcu_service s ws = Some (replicate (length ms) McuSuccess, s') \<and> mcu_idle s'"
    by (simp add: mcu_service_feed assms(3))
qed

lemma mcu_conf_delivered_witness:
  "autolink_mcu_read_conf True (Some (concat (map conf_text [(0xA0, [0x82, 0]), (0x20, [])]))) =
      (None, [(0xA0, [0x82, 0]), (0x20, [])], None) \<and>
    (\<exists>s'. mcu_service mcuinfo_zero
        [WaitFailed, Woken 0 [McuRead (mcu_packet (0xA0, [0x82, 0])), McuEintr], Woken 5 [],
         Woken 0 [McuRead (mcu_packet (0x20, []))]] =
      Some (replicate (length [(0xA0 :: byte, [0x82, 0 :: byte]), (0x20, [])]) McuSuccess, s') \<and> mcu_idle s')"
  by (rule mcu_conf_delivered, simp add: conf_fits_def, rule mcu_idle_zero)
    (simp add: mcu_woken_def mcuinfo_zero_def mcu_packet_def mcu_frame_def mcu_consts)

text \<open>
  A longer message is not cut short but ends the program: with 39 to 81 data bytes where char
  is signed (79 to 81 where it is not), after any readable messages, the copy of the line runs
  over its buffers and nothing of the rest of the file is sent.
\<close>

theorem mcu_conf_long_line:
  assumes "list_all (conf_fits char_signed) ms" and "\<not> conf_fits char_signed m" and "length (snd m) \<le> 81"
  shows "autolink_mcu_read_conf char_signed (Some (concat (map conf_text ms) @ conf_text m @ rest)) =
    (None, ms, Some ConfFault)"
  using conf_run_texts [OF assms(1), of "conf_text m @ rest"] assms(2,3)
  by (simp add: autolink_mcu_read_conf_def conf_run_line)

lemma mcu_conf_long_line_witness:
  "autolink_mcu_read_conf True (Some (concat (map conf_text [(1, [])]) @ conf_text (2, replicate 39 0) @ [])) =
    (None, [(1, [])], Some ConfFault)"
  by (rule mcu_conf_long_line) (simp_all add: conf_fits_def)

end
