(* ===== verification/DdTypes.thy ===== *)
theory DdTypes
  imports Prelude
begin

text \<open>
  The data of \<open>testcode/android/dd\<close>: the stream state, the statistics and the option flags
  of \<open>dd.h\<close>, the globals of \<open>dd.c\<close>, and the part of the operating system that the
  program talks to.

  The outside world is explicit in the state. What \<open>read\<close> will deliver is a list of
  events, what \<open>write\<close> will do is a list of events (an exhausted list means that writes
  are complete), and the output file is a byte list with a position. Diagnostics on the
  standard error stream are a list of messages, latest first.
\<close>

subsection \<open>Option flags\<close>

text \<open>The \<open>C_*\<close> constants are distinct single bits of \<open>ddflags\<close>: a set of flags.\<close>

datatype ddflag = C_ASCII | C_BLOCK | C_BS | C_CBS | C_COUNT | C_EBCDIC | C_FILES | C_IBS
  | C_IF | C_LCASE | C_NOERROR | C_NOTRUNC | C_OBS | C_OF | C_SEEK | C_SKIP | C_SWAB | C_SYNC
  | C_UCASE | C_UNBLOCK | C_OSYNC | C_SPARSE | C_FDATASYNC

subsection \<open>Streams and statistics\<close>

text \<open>
  \<open>IO\<close>: buffer pointers are offsets into the stream's buffer. The flag bits of \<open>flags\<close>
  are one field each.
\<close>

record IO =
  dbp :: nat
  dbcnt :: nat
  dbrcnt :: nat
  dbsz :: nat
  ISCHR :: bool
  ISPIPE :: bool
  ISTAPE :: bool
  NOREAD :: bool
  io_name :: "string option"
  fd :: int
  offset :: nat

record STAT =
  in_full :: u64
  in_part :: u64
  out_full :: u64
  out_part :: u64
  trunc :: u64
  swab :: u64
  sparse :: u64
  st_bytes :: u64

datatype errno = EINTR | EIO | EINVAL | ESPIPE | ENOSPC

text \<open>
  What a read delivers: a chunk is handed out in pieces of at most the requested size and
  an empty chunk is an end-of-file mark; an error is reported once.
\<close>

datatype read_ev = Chunk "byte list" | ReadError errno

text \<open>What a write does: takes at most so many bytes, or fails.\<close>

datatype write_ev = Accept nat | WriteError errno

datatype dd_msg = MsgReadError | MsgSeekError | MsgSparseSeekError | MsgEndOfDevice
  | MsgWriteError | MsgShortChr | MsgShortTape | MsgShortRecord | MsgProgress | MsgText string
  | MsgSummary "string list"

text \<open>The conversion functions \<open>cfunc\<close> can point to.\<close>

datatype convfn = Def | Block | Unblock

text \<open>
  The globals of \<open>dd.c\<close>, the function-local statics (\<open>intrunc\<close> of \<open>block\<close>, \<open>warned\<close>
  of \<open>dd_out\<close>) and the world. \<open>in.db\<close> is \<open>inbuf\<close>; \<open>out.db\<close> is the same memory when
  \<open>shared\<close> (no record conversion) and \<open>outbuf\<close> otherwise.
\<close>

record dd =
  inp :: IO
  outp :: IO
  st :: STAT
  cfunc :: convfn
  cpy_cnt :: nat
  pending :: int
  ddflags :: "ddflag set"
  cbsz :: nat
  files_cnt :: nat
  progress :: bool
  ctab :: "(byte \<Rightarrow> byte) option"
  intrunc :: bool
  warned :: bool
  inbuf :: "byte list"
  outbuf :: "byte list"
  shared :: bool
  src :: "read_ev list"
  wscript :: "write_ev list"
  ofile :: "byte list"
  opos :: nat
  oseek :: bool
  fsync_err :: "errno option"
  close_ok :: bool
  stderr :: "dd_msg list"

subsection \<open>Outcomes\<close>

text \<open>
  A routine returns, ends the process with a status, touches memory outside its buffers
  (or divides by zero), or does not return. Loops carry fuel; running out is \<open>Diverge\<close>,
  and the theories show how much is enough.
\<close>

datatype 'a outcome = Ret 'a | Exit nat dd | Fault | Diverge

primrec bindo :: "'a outcome \<Rightarrow> ('a \<Rightarrow> 'b outcome) \<Rightarrow> 'b outcome" where
  "bindo (Ret x) f = f x"
| "bindo (Exit n s) f = Exit n s"
| "bindo Fault f = Fault"
| "bindo Diverge f = Diverge"

definition need :: "'a option \<Rightarrow> 'a outcome" where
  "need x = (case x of None \<Rightarrow> Fault | Some v \<Rightarrow> Ret v)"

lemma need_simps [simp]: "need (Some v) = Ret v" "need None = Fault"
  by (simp_all add: need_def)

text \<open>
  Specifications of a routine: what holds when it returns and when it exits. A routine
  that satisfies one neither faults nor diverges.
\<close>

primrec outcome_sat :: "('a \<Rightarrow> bool) \<Rightarrow> (nat \<Rightarrow> dd \<Rightarrow> bool) \<Rightarrow> 'a outcome \<Rightarrow> bool" where
  "outcome_sat Q E (Ret x) = Q x"
| "outcome_sat Q E (Exit n s) = E n s"
| "outcome_sat Q E Fault = False"
| "outcome_sat Q E Diverge = False"

lemma outcome_sat_bind:
  assumes "outcome_sat P E r" and "\<And>x. P x \<Longrightarrow> outcome_sat Q E (f x)"
  shows "outcome_sat Q E (bindo r f)"
  using assms by (cases r) simp_all

lemma outcome_sat_mono:
  assumes "outcome_sat P E r" and "\<And>x. P x \<Longrightarrow> Q x" and "\<And>n s. E n s \<Longrightarrow> E' n s"
  shows "outcome_sat Q E' r"
  using assms by (cases r) simp_all

lemma bindo_assoc: "bindo (bindo r f) g = bindo r (\<lambda>x. bindo (f x) g)"
  by (cases r) simp_all

lemma bindo_Ret: "bindo r f = Ret x \<longleftrightarrow> (\<exists>y. r = Ret y \<and> f y = Ret x)"
  by (cases r) simp_all

lemma need_Ret: "need r = Ret x \<longleftrightarrow> r = Some x"
  by (cases r) simp_all

lemma outcome_sat_Ret:
  "outcome_sat P E r \<Longrightarrow> (\<And>x. r = Ret x \<Longrightarrow> P x \<Longrightarrow> Q x) \<Longrightarrow> outcome_sat Q E r"
  by (cases r) simp_all

subsection \<open>Small accessors\<close>

definition obuf :: "dd \<Rightarrow> byte list" where
  "obuf s = (if shared s then inbuf s else outbuf s)"

definition set_obuf :: "byte list \<Rightarrow> dd \<Rightarrow> dd" where
  "set_obuf b s = (if shared s then s\<lparr>inbuf := b\<rparr> else s\<lparr>outbuf := b\<rparr>)"

definition say :: "dd_msg \<Rightarrow> dd \<Rightarrow> dd" where
  "say m s = s\<lparr>stderr := m # stderr s\<rparr>"

definition upd_in :: "(IO \<Rightarrow> IO) \<Rightarrow> dd \<Rightarrow> dd" where
  "upd_in f s = s\<lparr>inp := f (inp s)\<rparr>"

definition upd_out :: "(IO \<Rightarrow> IO) \<Rightarrow> dd \<Rightarrow> dd" where
  "upd_out f s = s\<lparr>outp := f (outp s)\<rparr>"

definition upd_st :: "(STAT \<Rightarrow> STAT) \<Rightarrow> dd \<Rightarrow> dd" where
  "upd_st f s = s\<lparr>st := f (st s)\<rparr>"

lemma obuf_set_obuf [simp]: "obuf (set_obuf b s) = b"
  by (simp add: obuf_def set_obuf_def)

lemma set_obuf_fields [simp]:
  "inp (set_obuf b s) = inp s" "outp (set_obuf b s) = outp s" "st (set_obuf b s) = st s"
  "cfunc (set_obuf b s) = cfunc s" "cpy_cnt (set_obuf b s) = cpy_cnt s"
  "pending (set_obuf b s) = pending s" "ddflags (set_obuf b s) = ddflags s"
  "cbsz (set_obuf b s) = cbsz s" "files_cnt (set_obuf b s) = files_cnt s"
  "progress (set_obuf b s) = progress s" "ctab (set_obuf b s) = ctab s"
  "intrunc (set_obuf b s) = intrunc s" "warned (set_obuf b s) = warned s"
  "shared (set_obuf b s) = shared s" "src (set_obuf b s) = src s"
  "wscript (set_obuf b s) = wscript s" "ofile (set_obuf b s) = ofile s"
  "opos (set_obuf b s) = opos s" "oseek (set_obuf b s) = oseek s"
  "fsync_err (set_obuf b s) = fsync_err s" "close_ok (set_obuf b s) = close_ok s"
  "stderr (set_obuf b s) = stderr s"
  by (simp_all add: set_obuf_def)

text \<open>\<open>uint64_t\<close> counters.\<close>

definition bump :: "nat \<Rightarrow> u64 \<Rightarrow> u64" where
  "bump n w = w + of_nat n"

end
