(* ===== verification/DdOut.thy ===== *)
theory DdOut
  imports DdTypes "HOL-Library.Sublist"
begin

text \<open>
  Writing blocks: \<open>bwrite\<close> and \<open>dd_out\<close> of \<open>testcode/android/dd/dd.c\<close>, with partial and
  interrupted writes, sparse blocks kept back as a pending seek, and the reassembly of
  the left-over bytes at the front of the output buffer.
\<close>

subsection \<open>The output file\<close>

text \<open>A write at a position beyond the end fills the gap with zero bytes.\<close>

definition file_write :: "byte list \<Rightarrow> nat \<Rightarrow> byte list \<Rightarrow> byte list" where
  "file_write f pos bs =
     (let g = f @ replicate (pos - length f) 0
      in take pos g @ bs @ drop (pos + length bs) g)"

datatype write_res = Wrote nat | WFailed errno

definition bwrite :: "byte list \<Rightarrow> dd \<Rightarrow> write_res \<times> dd" where
  "bwrite bs s =
     (case wscript s of
        [] \<Rightarrow> (Wrote (length bs),
               s\<lparr>ofile := file_write (ofile s) (opos s) bs, opos := opos s + length bs\<rparr>)
      | Accept k # ws \<Rightarrow>
          (let m = min k (length bs)
           in (Wrote m, s\<lparr>wscript := ws, ofile := file_write (ofile s) (opos s) (take m bs),
                          opos := opos s + m\<rparr>))
      | WriteError e # ws \<Rightarrow> (WFailed e, s\<lparr>wscript := ws\<rparr>))"

text \<open>\<open>lseek(out.fd, n, SEEK_CUR)\<close>: fails on a pipe and before the start of the file.\<close>

definition lseek_out :: "int \<Rightarrow> dd \<Rightarrow> dd option" where
  "lseek_out n s =
     (if oseek s \<and> 0 \<le> int (opos s) + n then Some (s\<lparr>opos := nat (int (opos s) + n)\<rparr>)
      else None)"

subsection \<open>One pass of the inner loop of \<open>dd_out\<close>\<close>

text \<open>
  \<open>pending\<close> is signed and \<open>out.dbsz\<close> unsigned, so the quotient is taken modulo \<open>2 ^ 64\<close>.
  The pass ends the inner loop (\<open>Done\<close>, with the buffer cursor) or goes round again with a
  smaller count (\<open>Again\<close>).
\<close>

datatype pass = Done nat | Again nat nat

definition seek_pending :: "dd \<Rightarrow> dd outcome" where
  "seek_pending s =
     (if pending s = 0 then Ret s
      else (case lseek_out (pending s) s of
              None \<Rightarrow> Exit 1 (say MsgSparseSeekError s)
            | Some s' \<Rightarrow> Ret s'))"

definition write_block :: "nat \<Rightarrow> nat \<Rightarrow> dd \<Rightarrow> (nat \<times> dd) outcome" where
  "write_block op cnt s =
     bindo (need (mem_read (obuf s) op cnt)) (\<lambda>bs.
       (case bwrite bs s of
          (Wrote nw, s') \<Rightarrow> if nw = 0 then Exit 1 (say MsgEndOfDevice s') else Ret (nw, s')
        | (WFailed e, s') \<Rightarrow> if e \<noteq> EINTR then Exit 1 (say MsgWriteError s') else Ret (0, s')))"

definition settle_pending :: "dd \<Rightarrow> dd outcome" where
  "settle_pending s =
     (if pending s = 0 then Ret s
      else if dbsz (outp s) = 0 then Fault
      else (let blocks = of_nat (nat (pending s mod 2 ^ 64) div dbsz (outp s))
            in Ret ((upd_st (\<lambda>t. t\<lparr>st_bytes := st_bytes t + of_int (pending s),
                                    sparse := sparse t + blocks,
                                    out_full := out_full t + blocks\<rparr>) s)\<lparr>pending := 0\<rparr>)))"

definition count_write :: "nat \<Rightarrow> nat \<Rightarrow> nat \<Rightarrow> nat \<Rightarrow> dd \<Rightarrow> (pass \<times> dd) outcome" where
  "count_write n cnt op nw s =
     (let s1 = upd_st (\<lambda>t. t\<lparr>st_bytes := st_bytes t + of_nat nw\<rparr>) s;
          part = upd_st (\<lambda>t. t\<lparr>out_part := out_part t + 1\<rparr>)
      in if nw = n then
           Ret (Done (op + nw),
                if n \<noteq> dbsz (outp s1) then part s1
                else upd_st (\<lambda>t. t\<lparr>out_full := out_full t + 1\<rparr>) s1)
         else if nw = cnt then Ret (Done (op + nw), part s1)
         else
           (let s2 = part s1;
                s3 = (if ISCHR (outp s2) \<and> \<not> warned s2
                      then say MsgShortChr (s2\<lparr>warned := True\<rparr>) else s2)
            in if ISTAPE (outp s3) then Exit 1 (say MsgShortTape s3)
               else Ret (Again (op + nw) (cnt - nw), s3)))"

definition dd_out_pass :: "bool \<Rightarrow> nat \<Rightarrow> nat \<Rightarrow> nat \<Rightarrow> dd \<Rightarrow> (pass \<times> dd) outcome" where
  "dd_out_pass force n cnt op s =
     bindo (if \<not> force \<and> C_SPARSE \<in> ddflags s
            then bindo (need (mem_read (obuf s) op cnt)) (\<lambda>bs. Ret (list_all (\<lambda>b. b = 0) bs))
            else Ret False)
       (\<lambda>is_sparse.
          if is_sparse then Ret (Done (op + cnt), s\<lparr>pending := pending s + int cnt\<rparr>)
          else bindo (seek_pending s) (\<lambda>s1.
                 bindo (write_block op cnt s1) (\<lambda>(nw, s2).
                   bindo (settle_pending s2) (\<lambda>s3. count_write n cnt op nw s3))))"

text \<open>
  The inner loop. Going round again always consumes a write event, so the length of the
  event list bounds the number of passes.
\<close>

fun dd_out_inner :: "nat \<Rightarrow> bool \<Rightarrow> nat \<Rightarrow> nat \<Rightarrow> nat \<Rightarrow> dd \<Rightarrow> (nat \<times> dd) outcome" where
  "dd_out_inner 0 force n cnt op s = Diverge"
| "dd_out_inner (Suc fuel) force n cnt op s =
     bindo (dd_out_pass force n cnt op s) (\<lambda>(p, s').
       (case p of
          Done op' \<Rightarrow> Ret (op', s')
        | Again op' cnt' \<Rightarrow> dd_out_inner fuel force n cnt' op' s'))"

text \<open>
  The outer loop: the first block has the size given, the following ones \<open>out.dbsz\<close>, until
  less than a block is left.
\<close>

fun dd_out_loop :: "nat \<Rightarrow> bool \<Rightarrow> nat \<Rightarrow> nat \<Rightarrow> dd \<Rightarrow> dd outcome" where
  "dd_out_loop 0 force n op s = Diverge"
| "dd_out_loop (Suc fuel) force n op s =
     bindo (dd_out_inner (Suc (length (wscript s))) force n n op s) (\<lambda>(op', s1).
       (let s2 = upd_out (\<lambda>io. io\<lparr>dbcnt := sub64 (dbcnt io) n\<rparr>) s1
        in if dbcnt (outp s2) < dbsz (outp s2) then Ret s2
           else dd_out_loop fuel force (dbsz (outp s2)) op' s2))"

definition reassemble :: "dd \<Rightarrow> dd outcome" where
  "reassemble s =
     (let n = dbcnt (outp s); p = dbp (outp s);
          done_ptr = upd_out (\<lambda>io. io\<lparr>dbp := n\<rparr>)
      in if n = 0 then Ret (done_ptr s)
         else if p < n then Fault
         else bindo (need (mem_read (obuf s) (p - n) n)) (\<lambda>bs.
                bindo (need (mem_write (obuf s) 0 bs)) (\<lambda>b. Ret (done_ptr (set_obuf b s)))))"

definition dd_out :: "bool \<Rightarrow> dd \<Rightarrow> dd outcome" where
  "dd_out force s =
     bindo (dd_out_loop (Suc (dbcnt (outp s))) force
              (if force then dbcnt (outp s) else dbsz (outp s)) 0 s) (\<lambda>s1.
       bindo (reassemble s1) (\<lambda>s2.
         Ret (if progress s2 then say MsgProgress s2 else s2)))"

subsection \<open>The logical output\<close>

text \<open>
  What the file amounts to once the position and the pending seek are counted: the gap up
  to the next write will be zeros.
\<close>

definition emitted :: "dd \<Rightarrow> byte list" where
  "emitted s = ofile s @ replicate (opos s + nat (pending s) - length (ofile s)) 0"

definition out_wf :: "dd \<Rightarrow> bool" where
  "out_wf s \<longleftrightarrow> length (ofile s) \<le> opos s \<and> 0 \<le> pending s \<and> 0 < dbsz (outp s)"

text \<open>Bytes accounted for: those counted and those still pending.\<close>

definition acct :: "dd \<Rightarrow> u64" where
  "acct s = st_bytes (st s) + of_int (pending s)"

text \<open>What writing leaves alone.\<close>

definition out_frame :: "dd \<Rightarrow> dd \<Rightarrow> bool" where
  "out_frame s t \<longleftrightarrow> inp t = inp s \<and> outp t = outp s \<and> cfunc t = cfunc s \<and> cpy_cnt t = cpy_cnt s
    \<and> ddflags t = ddflags s \<and> cbsz t = cbsz s \<and> files_cnt t = files_cnt s
    \<and> progress t = progress s \<and> ctab t = ctab s \<and> intrunc t = intrunc s \<and> inbuf t = inbuf s
    \<and> outbuf t = outbuf s \<and> shared t = shared s \<and> src t = src s \<and> oseek t = oseek s
    \<and> in_full (st t) = in_full (st s) \<and> in_part (st t) = in_part (st s)
    \<and> trunc (st t) = trunc (st s) \<and> fsync_err t = fsync_err s \<and> close_ok t = close_ok s"

lemma out_frame_refl: "out_frame s s"
  by (simp add: out_frame_def)

lemma out_frame_trans: "out_frame s t \<Longrightarrow> out_frame t u \<Longrightarrow> out_frame s u"
  by (simp add: out_frame_def)

lemma out_frame_obuf: "out_frame s t \<Longrightarrow> obuf t = obuf s"
  by (simp add: out_frame_def obuf_def)

lemma out_frame_say: "out_frame s (say m s)"
  by (simp add: out_frame_def say_def)

lemma file_write_end:
  "length f \<le> pos \<Longrightarrow> file_write f pos bs = f @ replicate (pos - length f) 0 @ bs"
  by (simp add: file_write_def Let_def)

lemma file_write_nil: "pos \<le> length f \<Longrightarrow> file_write f pos [] = f"
  by (simp add: file_write_def)

lemma seek_pending_sat:
  assumes "out_wf s"
  shows "outcome_sat (\<lambda>t. t = s\<lparr>opos := opos s + nat (pending s)\<rparr>)
    (\<lambda>c t. c = 1 \<and> ofile t = ofile s) (seek_pending s)"
  using assms
  by (auto simp: seek_pending_def lseek_out_def out_wf_def say_def nat_add_distrib)

lemma write_block_sat:
  assumes "op + cnt \<le> length (obuf s)" and "length (ofile s) \<le> opos s"
  shows "outcome_sat
    (\<lambda>(nw, t). nw \<le> cnt \<and> (nw < cnt \<longrightarrow> length (wscript t) < length (wscript s))
      \<and> set (wscript t) \<subseteq> set (wscript s)
      \<and> (nw = cnt \<or> nw = 0 \<or> Accept nw \<in> set (wscript s))
      \<and> t = s\<lparr>wscript := wscript t, ofile := ofile t, opos := opos s + nw\<rparr>
      \<and> length (ofile t) \<le> opos t
      \<and> ofile t @ replicate (opos t - length (ofile t)) 0 =
          ofile s @ replicate (opos s - length (ofile s)) 0 @ take nw (drop op (obuf s)))
    (\<lambda>c t. c = 1 \<and> ofile t @ replicate (opos t - length (ofile t)) 0 =
       ofile s @ replicate (opos s - length (ofile s)) 0)
    (write_block op cnt s)"
  using assms
  by (auto simp: write_block_def bwrite_def file_write_end Let_def min_def say_def
      split: list.split write_ev.split)

text \<open>
  One pass either finishes the count or makes progress: \<open>nw\<close> bytes from the cursor join the
  emitted output and are accounted for.
\<close>

definition pass_ok :: "dd \<Rightarrow> nat \<Rightarrow> nat \<Rightarrow> pass \<times> dd \<Rightarrow> bool" where
  "pass_ok s cnt op r = (case r of (p, t) \<Rightarrow> out_wf t \<and> out_frame s t \<and>
     set (wscript t) \<subseteq> set (wscript s) \<and>
     (\<exists>nw \<le> cnt. emitted t = emitted s @ take nw (drop op (obuf s))
        \<and> acct t = acct s + of_nat nw
        \<and> (nw = cnt \<or> nw = 0 \<or> Accept nw \<in> set (wscript s))
        \<and> (case p of
             Done op' \<Rightarrow> op' = op + cnt \<and> nw = cnt
           | Again op' cnt' \<Rightarrow> op' = op + nw \<and> cnt' = cnt - nw \<and> nw < cnt
               \<and> length (wscript t) < length (wscript s))))"

definition out_exit :: "byte list \<Rightarrow> nat \<Rightarrow> dd \<Rightarrow> bool" where
  "out_exit out c t \<longleftrightarrow> c = 1 \<and> prefix (ofile t) out"

lemma out_exit_append: "out_exit out c t \<Longrightarrow> out_exit (out @ rest) c t"
  by (auto simp: out_exit_def)

lemma settle_pending_sat:
  assumes "0 < dbsz (outp s)"
  shows "outcome_sat (\<lambda>t. t = s\<lparr>st := st t, pending := 0\<rparr> \<and> out_frame s t \<and> acct t = acct s)
    E (settle_pending s)"
  using assms
  by (simp add: settle_pending_def out_frame_def acct_def upd_st_def Let_def)

lemma count_write_sat:
  assumes "pending s = 0" and "0 < dbsz (outp s)" and "length (ofile s) \<le> opos s"
    and "nw \<le> cnt" and "cnt \<le> n"
  shows "outcome_sat (\<lambda>(p, t). out_wf t \<and> out_frame s t \<and> emitted t = emitted s
      \<and> wscript t = wscript s \<and> acct t = acct s + of_nat nw
      \<and> (case p of Done op' \<Rightarrow> op' = op + cnt \<and> nw = cnt
          | Again op' cnt' \<Rightarrow> op' = op + nw \<and> cnt' = cnt - nw \<and> nw < cnt))
    (\<lambda>c t. c = 1 \<and> ofile t = ofile s) (count_write n cnt op nw s)"
proof -
  have frames: "out_frame s (upd_st (\<lambda>t. t\<lparr>st_bytes := b, out_part := p, out_full := f\<rparr>) s)" for b p f
    by (simp add: out_frame_def upd_st_def)
  show ?thesis
    using assms
    by (auto simp: count_write_def Let_def out_wf_def out_frame_def emitted_def acct_def
        upd_st_def say_def)
qed

text \<open>The state after the write of a pass, before the counters are settled.\<close>

definition wrote :: "dd \<Rightarrow> nat \<Rightarrow> nat \<Rightarrow> nat \<times> dd \<Rightarrow> bool" where
  "wrote s cnt op r = (case r of (nw, t) \<Rightarrow>
     nw \<le> cnt \<and> (nw < cnt \<longrightarrow> length (wscript t) < length (wscript s))
     \<and> set (wscript t) \<subseteq> set (wscript s)
     \<and> (nw = cnt \<or> nw = 0 \<or> Accept nw \<in> set (wscript s))
     \<and> out_frame s t \<and> pending t = pending s \<and> st t = st s \<and> length (ofile t) \<le> opos t
     \<and> ofile t @ replicate (opos t - length (ofile t)) 0 = emitted s @ take nw (drop op (obuf s)))"

lemma out_frame_write:
  "t = s\<lparr>wscript := w, ofile := f, opos := p\<rparr> \<Longrightarrow> out_frame s t \<and> pending t = pending s \<and> st t = st s"
  by (simp add: out_frame_def)

lemma write_stage_sat:
  assumes wf: "out_wf s" and op: "op + cnt \<le> length (obuf s)"
  shows "outcome_sat (wrote s cnt op) (out_exit (emitted s))
    (bindo (seek_pending s) (write_block op cnt))"
proof (rule outcome_sat_bind)
  let ?s1 = "s\<lparr>opos := opos s + nat (pending s)\<rparr>"
  show "outcome_sat (\<lambda>t. t = ?s1) (out_exit (emitted s)) (seek_pending s)"
    using seek_pending_sat [OF wf]
    by (rule outcome_sat_mono) (auto simp: out_exit_def emitted_def)
  fix s1 assume s1: "s1 = ?s1"
  have em: "ofile s1 @ replicate (opos s1 - length (ofile s1)) 0 = emitted s"
    by (simp add: s1 emitted_def)
  have "op + cnt \<le> length (obuf s1)" and "length (ofile s1) \<le> opos s1"
    using op wf by (simp_all add: s1 obuf_def out_wf_def split: if_splits)
  note write_block_sat [OF this]
  then show "outcome_sat (wrote s cnt op) (out_exit (emitted s)) (write_block op cnt s1)"
  proof (rule outcome_sat_mono, goal_cases)
    case (1 r)
    then obtain nw t where r: "r = (nw, t)"
      and t: "t = s1\<lparr>wscript := wscript t, ofile := ofile t, opos := opos s1 + nw\<rparr>"
      by (cases r) auto
    have "t = s\<lparr>wscript := wscript t, ofile := ofile t, opos := opos s1 + nw\<rparr>"
      by (subst t) (simp add: s1)
    note out_frame_write [OF this]
    moreover have "wscript s1 = wscript s" and "obuf s1 = obuf s"
      by (simp_all add: s1 obuf_def)
    ultimately show ?case
      using 1 em unfolding wrote_def r by simp
  next
    case (2 c t)
    then have "c = 1" and "ofile t @ replicate (opos t - length (ofile t)) 0 = emitted s"
      using em by simp_all
    then show ?case unfolding out_exit_def by (metis prefixI)
  qed
qed

lemma finish_write_sat:
  assumes w: "wrote s cnt op (nw, t)" and sz: "0 < dbsz (outp s)" and n: "cnt \<le> n"
  shows "outcome_sat (pass_ok s cnt op) (out_exit (emitted s @ take cnt (drop op (obuf s))))
    (bindo (settle_pending t) (count_write n cnt op nw))"
proof (rule outcome_sat_bind)
  have fr: "out_frame s t" and st: "st t = st s" "pending t = pending s"
    using w by (simp_all add: wrote_def)
  then have "0 < dbsz (outp t)" using sz by (simp add: out_frame_def)
  then show "outcome_sat (\<lambda>u. u = t\<lparr>st := st u, pending := 0\<rparr> \<and> out_frame t u \<and> acct u = acct t)
     (out_exit (emitted s @ take cnt (drop op (obuf s)))) (settle_pending t)"
    by (rule settle_pending_sat)
  fix u assume u: "u = t\<lparr>st := st u, pending := 0\<rparr> \<and> out_frame t u \<and> acct u = acct t"
  obtain x where x: "u = t\<lparr>st := x, pending := 0\<rparr>" using u by blast
  have fu: "out_frame s u" using fr u by (auto intro: out_frame_trans)
  have em: "emitted u = emitted s @ take nw (drop op (obuf s))"
    using w by (simp add: x wrote_def emitted_def)
  have ac: "acct u = acct s" using u st by (simp add: acct_def)
  have "pending u = 0" "0 < dbsz (outp u)" "length (ofile u) \<le> opos u" "nw \<le> cnt"
    using w sz fu by (simp_all add: x wrote_def out_frame_def)
  note count_write_sat [OF this n, of op]
  then show "outcome_sat (pass_ok s cnt op) (out_exit (emitted s @ take cnt (drop op (obuf s))))
     (count_write n cnt op nw u)"
  proof (rule outcome_sat_mono, goal_cases)
    case (1 r)
    then show ?case
      using w fu em ac x
      by (auto simp: pass_ok_def wrote_def split: pass.splits intro!: exI [of _ nw]
          intro: out_frame_trans)
  next
    case (2 c v)
    have "prefix (emitted u) (emitted s @ take cnt (drop op (obuf s)))"
      using w by (simp add: em wrote_def) (metis min.absorb1 take_is_prefix take_take)
    moreover have "prefix (ofile v) (emitted u)" using 2 by (simp add: emitted_def)
    ultimately show ?case
      using 2 unfolding out_exit_def by (blast intro: prefix_order.trans)
  qed
qed

lemma sparse_pass_ok:
  assumes "out_wf s" and "op + cnt \<le> length (obuf s)"
    and "list_all (\<lambda>b. b = 0) (take cnt (drop op (obuf s)))"
  shows "pass_ok s cnt op (Done (op + cnt), s\<lparr>pending := pending s + int cnt\<rparr>)"
proof -
  let ?t = "s\<lparr>pending := pending s + int cnt\<rparr>"
  have "take cnt (drop op (obuf s)) = replicate cnt 0"
    using assms(2,3) by (intro replicate_eqI) (auto simp: list_all_iff)
  then have "emitted ?t = emitted s @ take cnt (drop op (obuf s))"
    using assms(1)
    by (simp add: emitted_def out_wf_def nat_add_distrib replicate_add [symmetric])
  moreover have "out_wf ?t" and "out_frame s ?t" and "acct ?t = acct s + of_nat cnt"
    using assms(1) by (simp_all add: out_wf_def out_frame_def acct_def)
  ultimately show ?thesis by (simp add: pass_ok_def)
qed

lemma dd_out_pass_sat:
  assumes wf: "out_wf s" and op: "op + cnt \<le> length (obuf s)" and n: "cnt \<le> n"
  shows "outcome_sat (pass_ok s cnt op)
    (out_exit (emitted s @ take cnt (drop op (obuf s)))) (dd_out_pass force n cnt op s)"
proof -
  let ?E = "out_exit (emitted s @ take cnt (drop op (obuf s)))"
  have "outcome_sat (pass_ok s cnt op) ?E
      (bindo (bindo (seek_pending s) (write_block op cnt)) (\<lambda>(nw, s2).
         bindo (settle_pending s2) (count_write n cnt op nw)))"
  proof (rule outcome_sat_bind)
    show "outcome_sat (wrote s cnt op) ?E (bindo (seek_pending s) (write_block op cnt))"
      using write_stage_sat [OF wf op]
      by (rule outcome_sat_mono) (auto intro: out_exit_append)
    show "outcome_sat (pass_ok s cnt op) ?E (case x of (nw, s2) \<Rightarrow>
         bindo (settle_pending s2) (count_write n cnt op nw))" if "wrote s cnt op x" for x
      using that finish_write_sat wf n by (cases x) (auto simp: out_wf_def)
  qed
  moreover have "mem_read (obuf s) op cnt = Some (take cnt (drop op (obuf s)))"
    using op by simp
  ultimately show ?thesis
    using sparse_pass_ok [OF wf op] by (simp add: dd_out_pass_def bindo_assoc)
qed

subsection \<open>The loops of \<open>dd_out\<close>\<close>

definition emits :: "dd \<Rightarrow> nat \<Rightarrow> nat \<Rightarrow> dd \<Rightarrow> bool" where
  "emits s op n t \<longleftrightarrow> out_wf t \<and> set (wscript t) \<subseteq> set (wscript s)
     \<and> emitted t = emitted s @ take n (drop op (obuf s)) \<and> acct t = acct s + of_nat n"

lemma take_split: "n \<le> m \<Longrightarrow> take m xs = take n xs @ take (m - n) (drop n xs)"
  by (metis append_take_drop_id drop_take take_take min.absorb1)

lemma dd_out_inner_sat:
  assumes "out_wf s" and "op + cnt \<le> length (obuf s)" and "cnt \<le> n"
    and "length (wscript s) < fuel"
  shows "outcome_sat (\<lambda>(op', t). op' = op + cnt \<and> out_frame s t \<and> emits s op cnt t)
    (out_exit (emitted s @ take cnt (drop op (obuf s)))) (dd_out_inner fuel force n cnt op s)"
  using assms
proof (induction fuel arbitrary: s op cnt)
  case 0
  then show ?case by simp
next
  case (Suc fuel)
  let ?Q = "\<lambda>(op', t). op' = op + cnt \<and> out_frame s t \<and> emits s op cnt t"
  let ?E = "out_exit (emitted s @ take cnt (drop op (obuf s)))"
  have "outcome_sat ?Q ?E (bindo (dd_out_pass force n cnt op s) (\<lambda>(p, s').
       (case p of Done op' \<Rightarrow> Ret (op', s') | Again op' cnt' \<Rightarrow> dd_out_inner fuel force n cnt' op' s')))"
  proof (rule outcome_sat_bind [OF dd_out_pass_sat [OF Suc.prems(1-3)]], goal_cases)
    case (1 x)
    obtain p t where x: "x = (p, t)" by (cases x)
    show ?case
    proof (cases p)
      case (Done op')
      with 1 show ?thesis by (auto simp: x pass_ok_def emits_def)
    next
      case (Again op' cnt')
      then obtain nw where nw: "nw < cnt" "op' = op + nw" "cnt' = cnt - nw"
          "emitted t = emitted s @ take nw (drop op (obuf s))" "acct t = acct s + of_nat nw"
          "out_wf t" "out_frame s t" "length (wscript t) < length (wscript s)"
          "set (wscript t) \<subseteq> set (wscript s)"
        using 1 by (auto simp: x pass_ok_def)
      have ob: "obuf t = obuf s" using nw(7) by (rule out_frame_obuf)
      have tk: "take cnt (drop op (obuf s)) =
          take nw (drop op (obuf s)) @ take cnt' (drop op' (obuf s))"
        using nw(1-3) take_split [of nw cnt "drop op (obuf s)"] by (simp add: add.commute)
      have "outcome_sat (\<lambda>(op'', u). op'' = op' + cnt' \<and> out_frame t u \<and> emits t op' cnt' u)
          (out_exit (emitted t @ take cnt' (drop op' (obuf t)))) (dd_out_inner fuel force n cnt' op' t)"
        by (rule Suc.IH) (use nw ob Suc.prems in auto)
      then show ?thesis
        unfolding x Again prod.case pass.case
        by (rule outcome_sat_mono)
          (use nw ob tk in \<open>auto simp: emits_def intro: out_frame_trans\<close>)
    qed
  qed
  then show ?case by simp
qed

text \<open>
  The outer loop leaves less than a block, having emitted the rest of the buffer.
\<close>

definition drained :: "dd \<Rightarrow> nat \<Rightarrow> dd \<Rightarrow> bool" where
  "drained s op t \<longleftrightarrow> dbcnt (outp t) \<le> dbcnt (outp s) \<and> dbcnt (outp t) < dbsz (outp s)
     \<and> out_frame (s\<lparr>outp := (outp s)\<lparr>dbcnt := dbcnt (outp t)\<rparr>\<rparr>) t
     \<and> emits s op (dbcnt (outp s) - dbcnt (outp t)) t"

lemma upd_out_keeps [simp]:
  "emitted (upd_out f s) = emitted s" "acct (upd_out f s) = acct s" "obuf (upd_out f s) = obuf s"
  "wscript (upd_out f s) = wscript s" "outp (upd_out f s) = f (outp s)"
  by (simp_all add: upd_out_def emitted_def acct_def obuf_def)

lemma take_drop_split:
  "n \<le> m \<Longrightarrow> take m (drop op xs) = take n (drop op xs) @ take (m - n) (drop (op + n) xs)"
  using take_split [of n m "drop op xs"] by (simp add: add.commute)

text \<open>The state between two blocks: \<open>n\<close> bytes gone from the count.\<close>

definition next_block :: "nat \<Rightarrow> dd \<Rightarrow> dd" where
  "next_block n t = upd_out (\<lambda>io. io\<lparr>dbcnt := sub64 (dbcnt io) n\<rparr>) t"

lemma next_block_facts:
  assumes "out_frame s t" and "emits s op n t" and "n \<le> dbcnt (outp s)"
  shows "outp (next_block n t) = (outp s)\<lparr>dbcnt := dbcnt (outp s) - n\<rparr>"
    and "out_wf (next_block n t)" and "obuf (next_block n t) = obuf s"
    and "out_frame (s\<lparr>outp := (outp s)\<lparr>dbcnt := dbcnt (outp s) - n\<rparr>\<rparr>) (next_block n t)"
    and "emits s op n (next_block n t)"
  using assms out_frame_obuf [OF assms(1)]
  by (simp_all add: next_block_def upd_out_def out_frame_def emits_def out_wf_def emitted_def
      acct_def obuf_def)

lemma drained_step:
  assumes "out_frame s t" and "emits s op n t" and "n \<le> dbcnt (outp s)"
    and "drained (next_block n t) (op + n) u"
  shows "drained s op u"
proof -
  note nb = next_block_facts [OF assms(1-3)]
  let ?d = "dbcnt (outp s)" and ?e = "dbcnt (outp u)"
  have u: "?e \<le> ?d - n" "?e < dbsz (outp s)"
    and eu: "emits (next_block n t) (op + n) (?d - n - ?e) u"
    using assms(4) by (simp_all add: drained_def nb(1))
  have "out_frame (s\<lparr>outp := (outp s)\<lparr>dbcnt := ?e\<rparr>\<rparr>) u"
    using assms(4) nb(1,4) by (simp add: drained_def out_frame_def)
  moreover have "n + (?d - n - ?e) = ?d - ?e" and "?e \<le> ?d"
    using u(1) assms(3) by simp_all
  moreover from this have "take (?d - ?e) (drop op (obuf s)) =
      take n (drop op (obuf s)) @ take (?d - n - ?e) (drop (op + n) (obuf s))"
    by (metis le_add1 add_diff_cancel_left' take_drop_split)
  moreover have "acct u = acct s + of_nat (?d - ?e)"
    using eu nb(5) calculation(2) unfolding emits_def by (metis add.assoc of_nat_add)
  ultimately show ?thesis
    using u(2) eu nb(3,5) by (auto simp: drained_def emits_def simp del: of_nat_diff)
qed

lemma dd_out_loop_sat:
  assumes "out_wf s" and "op + dbcnt (outp s) \<le> length (obuf s)" and "n \<le> dbcnt (outp s)"
    and "n = 0 \<longrightarrow> dbcnt (outp s) = 0" and "dbcnt (outp s) < fuel"
  shows "outcome_sat (\<lambda>t. drained s op t \<and> (n = dbcnt (outp s) \<longrightarrow> dbcnt (outp t) = 0))
    (out_exit (emitted s @ take (dbcnt (outp s)) (drop op (obuf s)))) (dd_out_loop fuel force n op s)"
  using assms
proof (induction fuel arbitrary: s op n)
  case 0
  then show ?case by simp
next
  case (Suc fuel)
  let ?d = "dbcnt (outp s)"
  let ?E = "out_exit (emitted s @ take ?d (drop op (obuf s)))"
  note tk = take_drop_split [OF Suc.prems(3), of op "obuf s"]
  have inner: "outcome_sat (\<lambda>(op', t). op' = op + n \<and> out_frame s t \<and> emits s op n t)
      ?E (dd_out_inner (Suc (length (wscript s))) force n n op s)"
    by (rule outcome_sat_mono [OF dd_out_inner_sat])
      (use Suc.prems in \<open>auto simp: tk simp flip: append_assoc intro: out_exit_append\<close>)
  show ?case
    unfolding dd_out_loop.simps
  proof (rule outcome_sat_bind [OF inner], goal_cases)
    case (1 x)
    then obtain t where x: "x = (op + n, t)" and fr: "out_frame s t" and em: "emits s op n t"
      by (cases x) auto
    note nb = next_block_facts [OF fr em Suc.prems(3)]
    show ?case
    proof (cases "?d - n < dbsz (outp s)")
      case True
      then show ?thesis
        using nb Suc.prems(3) by (auto simp: x Let_def drained_def simp flip: next_block_def)
    next
      case False
      have "0 < n" using False Suc.prems(1,4) by (auto simp: out_wf_def)
      then have "outcome_sat
          (\<lambda>u. drained (next_block n t) (op + n) u \<and> (dbsz (outp s) = ?d - n \<longrightarrow> dbcnt (outp u) = 0))
          (out_exit (emitted (next_block n t) @ take (?d - n) (drop (op + n) (obuf s))))
          (dd_out_loop fuel force (dbsz (outp s)) (op + n) (next_block n t))"
        using Suc.IH [of "next_block n t" "op + n" "dbsz (outp s)"] nb Suc.prems False
        by (simp add: out_wf_def)
      then have "outcome_sat (\<lambda>u. drained s op u \<and> (n = ?d \<longrightarrow> dbcnt (outp u) = 0)) ?E
          (dd_out_loop fuel force (dbsz (outp s)) (op + n) (next_block n t))"
      proof (rule outcome_sat_mono, goal_cases)
        case (1 u)
        then have "drained s op u" using drained_step [OF fr em Suc.prems(3)] by blast
        moreover have "n \<noteq> ?d" using False Suc.prems(1) by (auto simp: out_wf_def)
        ultimately show ?case by simp
      next
        case (2 c u)
        then show ?case using nb(5) by (simp add: emits_def tk)
      qed
      then show ?thesis
        using False nb(1) by (simp add: x Let_def flip: next_block_def)
    qed
  qed
qed

declare dd_out_inner.simps [simp del] and dd_out_loop.simps [simp del]

text \<open>
  The contract of \<open>dd_out\<close>: all but less than a block of the buffer has been emitted, and
  what is left has moved to the front.
\<close>

definition flushed :: "dd \<Rightarrow> dd \<Rightarrow> bool" where
  "flushed s t \<longleftrightarrow> (let d = dbcnt (outp s); e = dbcnt (outp t) in
     e \<le> d \<and> e < dbsz (outp s) \<and> outp t = (outp s)\<lparr>dbcnt := e, dbp := e\<rparr>
     \<and> out_frame (set_obuf (obuf t) (s\<lparr>outp := outp t\<rparr>)) t
     \<and> length (obuf t) = length (obuf s)
     \<and> take e (obuf t) = drop (d - e) (take d (obuf s))
     \<and> emits s 0 (d - e) t)"

lemma say_keeps [simp]:
  "emitted (say m s) = emitted s" "acct (say m s) = acct s" "obuf (say m s) = obuf s"
  "wscript (say m s) = wscript s" "outp (say m s) = outp s" "out_wf (say m s) = out_wf s"
  "out_frame s' (say m s) = out_frame s' s" "ofile (say m s) = ofile s" "pending (say m s) = pending s"
  by (simp_all add: say_def emitted_def acct_def obuf_def out_wf_def out_frame_def)

lemma set_obuf_keeps [simp]:
  "emitted (set_obuf b s) = emitted s" "acct (set_obuf b s) = acct s" "out_wf (set_obuf b s) = out_wf s"
  by (simp_all add: emitted_def acct_def out_wf_def)

lemma reassemble_sat:
  assumes "dbcnt (outp s) \<le> p" and "p \<le> length (obuf s)"
    and "dbcnt (outp s) = 0 \<or> dbp (outp s) = p"
  shows "outcome_sat (\<lambda>t. \<exists>b. t = upd_out (\<lambda>io. io\<lparr>dbp := dbcnt io\<rparr>) (set_obuf b s)
      \<and> length b = length (obuf s)
      \<and> take (dbcnt (outp s)) b = drop (p - dbcnt (outp s)) (take p (obuf s))) E (reassemble s)"
proof -
  let ?n = "dbcnt (outp s)"
  have same: "set_obuf (obuf s) s = s" by (simp add: set_obuf_def obuf_def)
  show ?thesis
  proof (cases "?n = 0")
    case True
    then have "reassemble s = Ret (upd_out (\<lambda>io. io\<lparr>dbp := dbcnt io\<rparr>) s)"
      by (simp add: reassemble_def upd_out_def)
    then show ?thesis
      using True assms(2) by (simp, intro exI [of _ "obuf s"]) (simp add: same)
  next
    case False
    let ?bs = "take ?n (drop (p - ?n) (obuf s))"
    let ?b = "?bs @ drop ?n (obuf s)"
    have lb: "length ?bs = ?n" using assms(1,2) by simp
    have "mem_read (obuf s) (p - ?n) ?n = Some ?bs" and "mem_write (obuf s) 0 ?bs = Some ?b"
      using assms(1,2) lb by (simp_all del: length_take length_drop)
    then have "reassemble s = Ret (upd_out (\<lambda>io. io\<lparr>dbp := ?n\<rparr>) (set_obuf ?b s))"
      using False assms by (simp add: reassemble_def Let_def)
    also have "upd_out (\<lambda>io. io\<lparr>dbp := ?n\<rparr>) (set_obuf ?b s) =
        upd_out (\<lambda>io. io\<lparr>dbp := dbcnt io\<rparr>) (set_obuf ?b s)"
      by (simp add: upd_out_def)
    moreover have "?bs = drop (p - ?n) (take p (obuf s))"
      using assms(1) by (simp add: drop_take)
    moreover have "length ?b = length (obuf s)" using lb assms(1,2) by simp
    ultimately show ?thesis using lb by (simp, intro exI [of _ ?b]) simp
  qed
qed

lemma dd_out_sat:
  assumes wf: "out_wf s" and len: "dbcnt (outp s) \<le> length (obuf s)"
    and mode: "force \<or> dbsz (outp s) \<le> dbcnt (outp s) \<and> dbp (outp s) = dbcnt (outp s)"
  shows "outcome_sat (\<lambda>t. flushed s t \<and> (force \<longrightarrow> dbcnt (outp t) = 0))
    (out_exit (emitted s @ take (dbcnt (outp s)) (obuf s))) (dd_out force s)"
proof -
  let ?d = "dbcnt (outp s)"
  let ?n = "if force then ?d else dbsz (outp s)"
  let ?E = "out_exit (emitted s @ take ?d (obuf s))"
  have loop: "outcome_sat (\<lambda>t. drained s 0 t \<and> (?n = ?d \<longrightarrow> dbcnt (outp t) = 0)) ?E
      (dd_out_loop (Suc ?d) force ?n 0 s)"
    using dd_out_loop_sat [OF wf, of 0 ?n "Suc ?d" force] wf len mode
    by (auto simp: out_wf_def)
  show ?thesis
    unfolding dd_out_def
  proof (rule outcome_sat_bind [OF loop])
    fix t assume t: "drained s 0 t \<and> (?n = ?d \<longrightarrow> dbcnt (outp t) = 0)"
    let ?e = "dbcnt (outp t)"
    have fr: "out_frame (s\<lparr>outp := (outp s)\<lparr>dbcnt := ?e\<rparr>\<rparr>) t" and e: "?e \<le> ?d" "?e < dbsz (outp s)"
      and em: "emits s 0 (?d - ?e) t"
      using t by (simp_all add: drained_def)
    then have io: "outp t = (outp s)\<lparr>dbcnt := ?e\<rparr>" and ob: "obuf t = obuf s"
      by (simp_all add: out_frame_def obuf_def)
    have e0: "force \<longrightarrow> ?e = 0" using t by simp
    have "?e = 0 \<or> dbp (outp t) = ?d" using mode e0 by (subst io) auto
    note reassemble_sat [OF _ _ this, where E = ?E]
    then have "outcome_sat (\<lambda>u. flushed s u \<and> (force \<longrightarrow> dbcnt (outp u) = 0)) ?E (reassemble t)"
    proof (rule outcome_sat_mono, goal_cases)
      case (3 u)
      then obtain b where u: "u = upd_out (\<lambda>io. io\<lparr>dbp := dbcnt io\<rparr>) (set_obuf b t)"
        and b: "length b = length (obuf t)" "take ?e b = drop (?d - ?e) (take ?d (obuf t))"
        by blast
      have ou: "outp u = (outp s)\<lparr>dbcnt := ?e, dbp := ?e\<rparr>"
        unfolding u by (simp, subst io) simp
      have "out_frame (set_obuf (obuf u) (s\<lparr>outp := outp u\<rparr>)) u"
        using fr by (simp add: u out_frame_def upd_out_def set_obuf_def obuf_def)
      moreover have "emits s 0 (?d - ?e) u"
      proof -
        have "out_wf u = out_wf t" by (simp add: u out_wf_def upd_out_def)
        with em show ?thesis unfolding emits_def by (simp add: u)
      qed
      ultimately show ?case
        using e e0 ou b ob by (simp add: flushed_def Let_def u)
    qed (use len e ob in simp_all)
    then show "outcome_sat (\<lambda>u. flushed s u \<and> (force \<longrightarrow> dbcnt (outp u) = 0)) ?E
        (bindo (reassemble t) (\<lambda>s2. Ret (if progress s2 then say MsgProgress s2 else s2)))"
      by (rule outcome_sat_bind) (auto simp: flushed_def Let_def emits_def)
  qed
qed

subsection \<open>Pending seeks stay whole blocks\<close>

text \<open>
  Without \<open>conv=sparse\<close> nothing is ever pending; with it, and when no write is short,
  whole blocks are.
\<close>

definition whole_writes :: "dd \<Rightarrow> bool" where
  "whole_writes s \<longleftrightarrow> (\<forall>k. Accept k \<notin> set (wscript s))"

definition pend_ok :: "dd \<Rightarrow> bool" where
  "pend_ok s \<longleftrightarrow> (if C_SPARSE \<in> ddflags s then whole_writes s \<and> pending s mod int (dbsz (outp s)) = 0
     else pending s = 0)"

definition same_flags :: "dd \<Rightarrow> dd \<Rightarrow> bool" where
  "same_flags s t \<longleftrightarrow> ddflags t = ddflags s \<and> dbsz (outp t) = dbsz (outp s)
     \<and> (whole_writes s \<longrightarrow> whole_writes t)"

lemma pend_okI:
  assumes "pend_ok s" "same_flags s t" "pending t = pending s \<or> pending t = 0"
  shows "pend_ok t"
  using assms(1,2) assms(3) unfolding pend_ok_def same_flags_def
  by (elim disjE) (simp_all split: if_split_asm)

lemma lseek_out_Some: "lseek_out n s = Some t \<Longrightarrow> \<exists>p. t = s\<lparr>opos := p\<rparr>"
  unfolding lseek_out_def by (simp split: if_split_asm) blast

lemma seek_pending_Ret:
  "seek_pending s = Ret t \<Longrightarrow> same_flags s t \<and> wscript t = wscript s \<and> pending t = pending s"
  by (auto simp: seek_pending_def same_flags_def whole_writes_def split: if_splits option.splits
      dest: lseek_out_Some)

lemma write_block_Ret:
  assumes "write_block op cnt s = Ret (nw, t)"
  shows "same_flags s t" "pending t = pending s" "whole_writes s \<Longrightarrow> nw = cnt \<or> nw = 0"
proof -
  obtain bs where bs: "mem_read (obuf s) op cnt = Some bs" "length bs = cnt"
    using assms by (auto simp: write_block_def bindo_Ret need_Ret mem_read_def split: if_splits)
  have w: "(case bwrite bs s of
          (Wrote nw, s') \<Rightarrow> if nw = 0 then Exit 1 (say MsgEndOfDevice s') else Ret (nw, s')
        | (WFailed e, s') \<Rightarrow> if e \<noteq> EINTR then Exit 1 (say MsgWriteError s') else Ret (0, s')) = Ret (nw, t)"
    using assms bs by (simp add: write_block_def)
  have "same_flags s t \<and> pending t = pending s \<and> (whole_writes s \<longrightarrow> nw = cnt \<or> nw = 0)"
  proof (cases "wscript s")
    case Nil
    then show ?thesis using w bs(2)
      by (auto simp: bwrite_def same_flags_def whole_writes_def split: if_splits)
  next
    case (Cons a list)
    then show ?thesis using w bs(2)
      by (cases a) (auto simp: bwrite_def same_flags_def whole_writes_def Let_def split: if_splits)
  qed
  then show "same_flags s t" "pending t = pending s" "whole_writes s \<Longrightarrow> nw = cnt \<or> nw = 0" by auto
qed

lemma settle_pending_Ret:
  "settle_pending s = Ret t \<Longrightarrow> same_flags s t \<and> pending t = 0"
  by (auto simp: settle_pending_def same_flags_def whole_writes_def upd_st_def Let_def split: if_splits)

lemma same_flags_keeps [simp]:
  "same_flags s (upd_st f t) = same_flags s t" "pending (upd_st f t) = pending t"
  "same_flags s (say m t) = same_flags s t" "same_flags s (t\<lparr>warned := w\<rparr>) = same_flags s t"
  "same_flags s s"
  by (simp_all add: same_flags_def whole_writes_def upd_st_def say_def)

lemma count_write_Ret:
  assumes "count_write n cnt op nw s = Ret (p, t)"
  shows "same_flags s t \<and> pending t = pending s \<and>
    (case p of Done op' \<Rightarrow> True | Again op' cnt' \<Rightarrow> cnt' = cnt - nw \<and> nw \<noteq> cnt)"
  using assms unfolding count_write_def Let_def
  by (cases "nw = n"; cases "nw = cnt") (auto split: if_splits)

lemma same_flags_trans: "same_flags s t \<Longrightarrow> same_flags t u \<Longrightarrow> same_flags s u"
  by (simp add: same_flags_def)

lemma pend_ok_zero:
  assumes "pend_ok s" "same_flags s t" "pending t = 0" shows "pend_ok t"
  using assms by (rule_tac pend_okI) auto

lemma dd_out_pass_pend:
  assumes run: "dd_out_pass force n cnt op s = Ret (p, t)" and ok: "pend_ok s"
    and whole: "\<not> force \<Longrightarrow> C_SPARSE \<in> ddflags s \<Longrightarrow> int cnt mod int (dbsz (outp s)) = 0"
  shows "pend_ok t \<and> same_flags s t \<and> (case p of Done op' \<Rightarrow> True
     | Again op' cnt' \<Rightarrow> C_SPARSE \<in> ddflags s \<longrightarrow> cnt' = cnt)"
proof -
  obtain z where z: "(if \<not> force \<and> C_SPARSE \<in> ddflags s
      then bindo (need (mem_read (obuf s) op cnt)) (\<lambda>bs. Ret (list_all (\<lambda>b. b = 0) bs)) else Ret False) = Ret z"
    and rest: "(if z then Ret (Done (op + cnt), s\<lparr>pending := pending s + int cnt\<rparr>)
          else bindo (seek_pending s) (\<lambda>s1. bindo (write_block op cnt s1) (\<lambda>(nw, s2).
                   bindo (settle_pending s2) (\<lambda>s3. count_write n cnt op nw s3)))) = Ret (p, t)"
    using run unfolding dd_out_pass_def bindo_Ret by blast
  show ?thesis
  proof (cases z)
    case True
    then have "\<not> force" "C_SPARSE \<in> ddflags s" using z by (auto split: if_splits)
    moreover have "p = Done (op + cnt)" "t = s\<lparr>pending := pending s + int cnt\<rparr>"
      using rest True by simp_all
    ultimately show ?thesis
      using ok whole by (auto simp: pend_ok_def same_flags_def whole_writes_def mod_add_eq)
  next
    case False
    then obtain s1 nw s2 s3 where "seek_pending s = Ret s1" "write_block op cnt s1 = Ret (nw, s2)"
        "settle_pending s2 = Ret s3" "count_write n cnt op nw s3 = Ret (p, t)"
      using rest by (auto simp: bindo_Ret)
    note r = this
    note w = write_block_Ret [OF r(2)] and c = count_write_Ret [OF r(4)]
    have fl: "same_flags s s1" using seek_pending_Ret [OF r(1)] by simp
    have p0: "pending s3 = 0" "same_flags s2 s3" using settle_pending_Ret [OF r(3)] by simp_all
    have ft: "same_flags s t"
      using fl w(1) p0(2) c by (blast intro: same_flags_trans)
    have "pending t = 0" using c p0(1) by simp
    then have "pend_ok t" by (rule pend_ok_zero [OF ok ft])
    moreover have nw: "nw = cnt \<or> nw = 0" if "C_SPARSE \<in> ddflags s"
    proof -
      have "whole_writes s1" using ok fl that by (simp add: pend_ok_def same_flags_def)
      then show ?thesis by (rule w(3))
    qed
    moreover have "case p of Done op' \<Rightarrow> True | Again op' cnt' \<Rightarrow> C_SPARSE \<in> ddflags s \<longrightarrow> cnt' = cnt"
    proof (cases p)
      case (Again op' cnt')
      with c have "cnt' = cnt - nw" "nw \<noteq> cnt" by simp_all
      with nw Again show ?thesis by auto
    qed simp
    ultimately show ?thesis using ft by blast
  qed
qed

lemma next_block_flags: "same_flags s t \<Longrightarrow> same_flags s (upd_out (\<lambda>io. io\<lparr>dbcnt := f io\<rparr>) t)"
  by (simp add: same_flags_def whole_writes_def upd_out_def)

lemma upd_out_pending [simp]: "pending (upd_out f t) = pending t"
  by (simp add: upd_out_def)

lemma dd_out_inner_pend:
  assumes "dd_out_inner fuel force n cnt op s = Ret (op', t)" and "pend_ok s"
    and "\<not> force \<Longrightarrow> C_SPARSE \<in> ddflags s \<Longrightarrow> int cnt mod int (dbsz (outp s)) = 0"
  shows "pend_ok t \<and> same_flags s t"
  using assms
proof (induction fuel arbitrary: cnt op s)
  case 0
  then show ?case by (simp add: dd_out_inner.simps)
next
  case (Suc fuel)
  obtain p u where u: "dd_out_pass force n cnt op s = Ret (p, u)"
    and rest: "(case p of Done op' \<Rightarrow> Ret (op', u) | Again op' cnt' \<Rightarrow> dd_out_inner fuel force n cnt' op' u)
      = Ret (op', t)"
    using Suc.prems(1) unfolding dd_out_inner.simps bindo_Ret by auto
  note pu = dd_out_pass_pend [OF u Suc.prems(2,3)]
  show ?case
  proof (cases p)
    case (Done q)
    with rest pu show ?thesis by simp
  next
    case (Again q c)
    have "pend_ok t \<and> same_flags u t"
    proof (rule Suc.IH)
      show "dd_out_inner fuel force n c q u = Ret (op', t)" using rest Again by simp
      show "pend_ok u" using pu by simp
      show "int c mod int (dbsz (outp u)) = 0" if "\<not> force" "C_SPARSE \<in> ddflags u"
        using that pu Suc.prems(3) Again by (simp add: same_flags_def)
    qed
    with pu show ?thesis by (blast intro: same_flags_trans)
  qed
qed

lemma dd_out_loop_pend:
  assumes "dd_out_loop fuel force n op s = Ret t" and "pend_ok s"
    and "\<not> force \<Longrightarrow> n = dbsz (outp s)"
  shows "pend_ok t \<and> same_flags s t"
  using assms
proof (induction fuel arbitrary: n op s)
  case 0
  then show ?case by (simp add: dd_out_loop.simps)
next
  case (Suc fuel)
  obtain q u where u: "dd_out_inner (Suc (length (wscript s))) force n n op s = Ret (q, u)"
    and rest: "(let s2 = upd_out (\<lambda>io. io\<lparr>dbcnt := sub64 (dbcnt io) n\<rparr>) u
        in if dbcnt (outp s2) < dbsz (outp s2) then Ret s2
           else dd_out_loop fuel force (dbsz (outp s2)) q s2) = Ret t"
    using Suc.prems(1) unfolding dd_out_loop.simps bindo_Ret by auto
  let ?v = "upd_out (\<lambda>io. io\<lparr>dbcnt := sub64 (dbcnt io) n\<rparr>) u"
  have pu: "pend_ok u \<and> same_flags s u"
    by (rule dd_out_inner_pend [OF u Suc.prems(2)]) (use Suc.prems(3) in simp)
  then have v: "same_flags s ?v" "same_flags u ?v"
    using next_block_flags [of s u "\<lambda>io. sub64 (dbcnt io) n"]
      next_block_flags [of u u "\<lambda>io. sub64 (dbcnt io) n"] by simp_all
  have pv: "pend_ok ?v" by (rule pend_okI [of u]) (use pu v in simp_all)
  show ?case
  proof (cases "dbcnt (outp ?v) < dbsz (outp ?v)")
    case True
    with rest v pv show ?thesis by (simp add: Let_def)
  next
    case False
    then have "dd_out_loop fuel force (dbsz (outp ?v)) q ?v = Ret t"
      using rest unfolding Let_def by simp
    from Suc.IH [OF this pv] v show ?thesis by (blast intro: same_flags_trans)
  qed
qed

lemma reassemble_flags:
  "reassemble s = Ret t \<Longrightarrow> same_flags s t \<and> pending t = pending s"
  by (auto simp: reassemble_def Let_def bindo_Ret same_flags_def whole_writes_def upd_out_def split: if_split_asm)

lemma dd_out_pend:
  assumes "dd_out force s = Ret t" and "pend_ok s"
  shows "pend_ok t"
proof -
  obtain u v where u: "dd_out_loop (Suc (dbcnt (outp s))) force
              (if force then dbcnt (outp s) else dbsz (outp s)) 0 s = Ret u"
    and v: "reassemble u = Ret v" and t: "t = (if progress v then say MsgProgress v else v)"
    using assms(1) unfolding dd_out_def bindo_Ret by auto
  have pu: "pend_ok u \<and> same_flags s u"
    by (rule dd_out_loop_pend [OF u assms(2)]) simp
  have "same_flags u t \<and> pending t = pending u"
    using reassemble_flags [OF v] by (simp add: t say_def same_flags_def whole_writes_def)
  note ut = this
  show ?thesis by (rule pend_okI [of u]) (use pu ut in simp_all)
qed

subsection \<open>The file ends at the position\<close>

text \<open>
  Between blocks the file position is the end of the file: a pending seek is only carried
  out together with a write, and an interrupted write is tried again before anything else.
\<close>

definition tight :: "dd \<Rightarrow> bool" where
  "tight s \<longleftrightarrow> opos s = length (ofile s)"

definition retry_ok :: "bool \<Rightarrow> nat \<Rightarrow> nat \<Rightarrow> dd \<Rightarrow> bool" where
  "retry_ok force op cnt s \<longleftrightarrow> tight s \<or> force \<or> C_SPARSE \<notin> ddflags s
     \<or> \<not> list_all (\<lambda>b. b = 0) (take cnt (drop op (obuf s)))"

definition pos_ok :: "dd \<Rightarrow> bool" where
  "pos_ok s \<longleftrightarrow> length (ofile s) \<le> opos s \<and> 0 \<le> pending s"

definition same_bytes :: "dd \<Rightarrow> dd \<Rightarrow> bool" where
  "same_bytes s t \<longleftrightarrow> ofile t = ofile s \<and> opos t = opos s \<and> obuf t = obuf s \<and> ddflags t = ddflags s
     \<and> pending t = pending s"

lemma same_bytes_keeps [simp]:
  "same_bytes s (upd_st f t) = same_bytes s t" "same_bytes s (say m t) = same_bytes s t"
  "same_bytes s (t\<lparr>warned := w\<rparr>) = same_bytes s t" "same_bytes s s"
  by (simp_all add: same_bytes_def upd_st_def say_def obuf_def)

lemma obuf_updates [simp]:
  "obuf (s\<lparr>pending := x\<rparr>) = obuf s" "obuf (s\<lparr>opos := y\<rparr>) = obuf s"
  "obuf (upd_st f s) = obuf s" "ofile (upd_st f s) = ofile s" "opos (upd_st f s) = opos s"
  "ddflags (upd_st f s) = ddflags s"
  by (simp_all add: obuf_def upd_st_def)

lemma seek_pending_bytes:
  "seek_pending s = Ret t \<Longrightarrow> pos_ok s \<Longrightarrow> length (ofile t) \<le> opos t \<and> obuf t = obuf s \<and> ddflags t = ddflags s"
  unfolding seek_pending_def
  by (cases "pending s = 0"; cases "lseek_out (pending s) s")
    (auto simp: pos_ok_def lseek_out_def obuf_def split: if_split_asm)

lemma bwrite_cases:
  obtains (wrote) m ws where "m \<le> length bs"
      "bwrite bs s = (Wrote m, s\<lparr>wscript := ws, ofile := file_write (ofile s) (opos s) (take m bs), opos := opos s + m\<rparr>)"
  | (failed) e ws where "bwrite bs s = (WFailed e, s\<lparr>wscript := ws\<rparr>)"
proof (cases "wscript s")
  case Nil
  then show ?thesis using wrote [of "length bs" "[]"] by (simp add: bwrite_def)
next
  case (Cons a ws)
  show ?thesis
  proof (cases a)
    case (Accept k)
    then show ?thesis using Cons wrote [of "min k (length bs)" ws] by (simp add: bwrite_def Let_def)
  next
    case (WriteError e)
    then show ?thesis using Cons failed [of e ws] by (simp add: bwrite_def)
  qed
qed

lemma write_block_bytes:
  assumes "write_block op cnt s = Ret (nw, t)" and "length (ofile s) \<le> opos s"
  shows "nw \<le> cnt" "obuf t = obuf s" "ddflags t = ddflags s" "length (ofile t) \<le> opos t"
    "0 < nw \<Longrightarrow> tight t"
proof -
  obtain bs where bs: "mem_read (obuf s) op cnt = Some bs" "length bs = cnt"
    using assms(1) by (auto simp: write_block_def bindo_Ret need_Ret mem_read_def split: if_splits)
  have w: "(case bwrite bs s of
          (Wrote nw, s') \<Rightarrow> if nw = 0 then Exit 1 (say MsgEndOfDevice s') else Ret (nw, s')
        | (WFailed e, s') \<Rightarrow> if e \<noteq> EINTR then Exit 1 (say MsgWriteError s') else Ret (0, s')) = Ret (nw, t)"
    using assms bs by (simp add: write_block_def)
  have "nw \<le> cnt \<and> obuf t = obuf s \<and> ddflags t = ddflags s \<and> length (ofile t) \<le> opos t
      \<and> (0 < nw \<longrightarrow> tight t)"
  proof (cases rule: bwrite_cases [of bs s])
      case (wrote m ws)
    then show ?thesis using w bs(2) assms(2)
      by (cases "m = 0") (auto simp: obuf_def tight_def file_write_end)
  next
      case (failed e ws)
    then show ?thesis using w assms(2) by (cases "e = EINTR") (auto simp: obuf_def)
  qed
  then show "nw \<le> cnt" "obuf t = obuf s" "ddflags t = ddflags s" "length (ofile t) \<le> opos t"
    "0 < nw \<Longrightarrow> tight t" by auto
qed

lemma settle_pending_bytes:
  "settle_pending s = Ret t \<Longrightarrow> same_bytes (s\<lparr>pending := 0\<rparr>) t"
  unfolding settle_pending_def Let_def
  by (cases "pending s = 0"; cases "dbsz (outp s) = 0") (auto simp: same_bytes_def)

lemma count_write_bytes:
  assumes "count_write n cnt op nw s = Ret (p, t)"
  shows "same_bytes s t \<and>
    (case p of Done op' \<Rightarrow> nw = n \<or> nw = cnt | Again op' cnt' \<Rightarrow> op' = op + nw \<and> cnt' = cnt - nw \<and> nw \<noteq> cnt)"
  using assms unfolding count_write_def Let_def
  by (cases "nw = n"; cases "nw = cnt") (auto split: if_splits)

lemma dd_out_pass_tight:
  assumes run: "dd_out_pass force n cnt op s = Ret (p, t)" and pos: "pos_ok s"
    and cnt: "0 < cnt" "cnt \<le> n" and retry: "retry_ok force op cnt s"
  shows "pos_ok t \<and> ddflags t = ddflags s \<and> (force \<longrightarrow> pending t = 0) \<and>
    (case p of Done op' \<Rightarrow> tight t | Again op' cnt' \<Rightarrow> 0 < cnt' \<and> cnt' \<le> n \<and> retry_ok force op' cnt' t)"
proof -
  obtain z where z: "(if \<not> force \<and> C_SPARSE \<in> ddflags s
      then bindo (need (mem_read (obuf s) op cnt)) (\<lambda>bs. Ret (list_all (\<lambda>b. b = 0) bs)) else Ret False) = Ret z"
    and rest: "(if z then Ret (Done (op + cnt), s\<lparr>pending := pending s + int cnt\<rparr>)
          else bindo (seek_pending s) (\<lambda>s1. bindo (write_block op cnt s1) (\<lambda>(nw, s2).
                   bindo (settle_pending s2) (\<lambda>s3. count_write n cnt op nw s3)))) = Ret (p, t)"
    using run unfolding dd_out_pass_def bindo_Ret by blast
  have zeros: "z = list_all (\<lambda>b. b = 0) (take cnt (drop op (obuf s)))" if "\<not> force" "C_SPARSE \<in> ddflags s"
    using z that by (auto simp: bindo_Ret need_Ret mem_read_def split: if_splits)
  show ?thesis
  proof (cases z)
    case True
    then have f: "\<not> force" "C_SPARSE \<in> ddflags s" using z by (auto split: if_splits)
    then have "tight s" using retry zeros True by (simp add: retry_ok_def)
    moreover have "p = Done (op + cnt)" "t = s\<lparr>pending := pending s + int cnt\<rparr>"
      using rest True by simp_all
    ultimately show ?thesis using pos f by (simp add: pos_ok_def tight_def)
  next
    case False
    then obtain s1 nw s2 s3 where r: "seek_pending s = Ret s1" "write_block op cnt s1 = Ret (nw, s2)"
        "settle_pending s2 = Ret s3" "count_write n cnt op nw s3 = Ret (p, t)"
      using rest by (auto simp: bindo_Ret)
    have a: "length (ofile s1) \<le> opos s1" "obuf s1 = obuf s" "ddflags s1 = ddflags s"
      using seek_pending_bytes [OF r(1) pos] by simp_all
    note w = write_block_bytes [OF r(2) a(1)]
    have "same_bytes (s2\<lparr>pending := 0\<rparr>) s3" using settle_pending_bytes [OF r(3)] .
    moreover have "same_bytes s3 t" using count_write_bytes [OF r(4)] by simp
    ultimately have t: "ofile t = ofile s2" "opos t = opos s2" "obuf t = obuf s" "ddflags t = ddflags s"
        "pending t = 0"
      using w(2,3) a(2,3) by (simp_all add: same_bytes_def)
    then have pt: "pos_ok t" "0 < nw \<Longrightarrow> tight t" using w(4,5) by (simp_all add: pos_ok_def tight_def)
    show ?thesis
    proof (cases p)
      case (Done op')
      then have "0 < nw" using count_write_bytes [OF r(4)] cnt by auto
      with Done pt t show ?thesis by simp
    next
      case (Again op' cnt')
      then have c: "op' = op + nw" "cnt' = cnt - nw" "nw \<noteq> cnt"
        using count_write_bytes [OF r(4)] by simp_all
      have "retry_ok force op' cnt' t"
      proof (cases "nw = 0")
        case True
        then show ?thesis using c t zeros False by (auto simp: retry_ok_def)
      qed (use pt in \<open>simp add: retry_ok_def\<close>)
      then show ?thesis using Again c w(1) cnt pt t by simp
    qed
  qed
qed

lemma dd_out_inner_tight:
  assumes "dd_out_inner fuel force n cnt op s = Ret (op', t)" and "pos_ok s"
    and "0 < cnt" "cnt \<le> n" and "retry_ok force op cnt s"
  shows "pos_ok t \<and> tight t \<and> (force \<longrightarrow> pending t = 0)"
  using assms
proof (induction fuel arbitrary: cnt op s)
  case 0
  then show ?case by (simp add: dd_out_inner.simps)
next
  case (Suc fuel)
  obtain p u where u: "dd_out_pass force n cnt op s = Ret (p, u)"
    and rest: "(case p of Done op' \<Rightarrow> Ret (op', u) | Again op' cnt' \<Rightarrow> dd_out_inner fuel force n cnt' op' u)
      = Ret (op', t)"
    using Suc.prems(1) unfolding dd_out_inner.simps bindo_Ret by auto
  note pu = dd_out_pass_tight [OF u Suc.prems(2-5)]
  show ?case
  proof (cases p)
    case (Done q)
    with rest pu show ?thesis by simp
  next
    case (Again q c)
    show ?thesis
      by (rule Suc.IH [of c q u]) (use rest pu Again in simp_all)
  qed
qed

lemma dd_out_loop_tight:
  assumes "dd_out_loop fuel force n op s = Ret t" and "pos_ok s" and "tight s" and "0 < n"
    and "0 < dbsz (outp s)" and "pend_ok s" and "\<not> force \<Longrightarrow> n = dbsz (outp s)"
  shows "tight t \<and> (force \<longrightarrow> pending t = 0)"
  using assms
proof (induction fuel arbitrary: n op s)
  case 0
  then show ?case by (simp add: dd_out_loop.simps)
next
  case (Suc fuel)
  obtain q u where u: "dd_out_inner (Suc (length (wscript s))) force n n op s = Ret (q, u)"
    and rest: "(let s2 = upd_out (\<lambda>io. io\<lparr>dbcnt := sub64 (dbcnt io) n\<rparr>) u
        in if dbcnt (outp s2) < dbsz (outp s2) then Ret s2
           else dd_out_loop fuel force (dbsz (outp s2)) q s2) = Ret t"
    using Suc.prems(1) unfolding dd_out_loop.simps bindo_Ret by auto
  let ?v = "upd_out (\<lambda>io. io\<lparr>dbcnt := sub64 (dbcnt io) n\<rparr>) u"
  have pu: "pos_ok u \<and> tight u \<and> (force \<longrightarrow> pending u = 0)"
    by (rule dd_out_inner_tight [OF u Suc.prems(2,4) order_refl]) (use Suc.prems(3) in \<open>simp add: retry_ok_def\<close>)
  have fl: "pend_ok u \<and> same_flags s u"
    by (rule dd_out_inner_pend [OF u Suc.prems(6)]) (use Suc.prems(7) in simp)
  have v: "pos_ok ?v" "tight ?v" "pending ?v = pending u" "dbsz (outp ?v) = dbsz (outp s)"
    using pu fl by (simp_all add: pos_ok_def tight_def upd_out_def same_flags_def)
  have pv: "pend_ok ?v" by (rule pend_okI [of u]) (use fl in \<open>simp_all add: next_block_flags\<close>)
  show ?case
  proof (cases "dbcnt (outp ?v) < dbsz (outp ?v)")
    case True
    then have t: "t = ?v" using rest unfolding Let_def by simp
    show ?thesis using v(2,3) pu unfolding t by simp
  next
    case False
    then have "dd_out_loop fuel force (dbsz (outp ?v)) q ?v = Ret t"
      using rest unfolding Let_def by simp
    from Suc.IH [OF this v(1,2) _ _ pv] v(4) Suc.prems(5) show ?thesis by simp
  qed
qed

lemma dd_out_tight:
  assumes "dd_out force s = Ret t" and "out_wf s" and "pend_ok s" and "tight s"
    and "0 < dbcnt (outp s)"
  shows "tight t \<and> (force \<longrightarrow> pending t = 0)"
proof -
  obtain u v where u: "dd_out_loop (Suc (dbcnt (outp s))) force
              (if force then dbcnt (outp s) else dbsz (outp s)) 0 s = Ret u"
    and v: "reassemble u = Ret v" and t: "t = (if progress v then say MsgProgress v else v)"
    using assms(1) unfolding dd_out_def bindo_Ret by auto
  have "tight u \<and> (force \<longrightarrow> pending u = 0)"
    by (rule dd_out_loop_tight [OF u]) (use assms in \<open>simp_all add: out_wf_def pos_ok_def\<close>)
  moreover have "ofile v = ofile u \<and> opos v = opos u \<and> pending v = pending u"
    using v by (auto simp: reassemble_def Let_def bindo_Ret upd_out_def split: if_split_asm)
  ultimately show ?thesis by (simp add: t say_def tight_def)
qed

text \<open>Both together: what holds of the file between two blocks.\<close>

definition file_ok :: "dd \<Rightarrow> bool" where
  "file_ok s \<longleftrightarrow> pend_ok s \<and> tight s"

end
