(* ===== verification/DdConv.thy ===== *)
theory DdConv
  imports DdOut
begin

text \<open>
  The three conversion functions of \<open>testcode/android/dd/dd.c\<close> and their closing halves:
  \<open>def\<close> (plain copy), \<open>block\<close> (newline-terminated records to fixed length) and \<open>unblock\<close>
  (fixed length to newline-terminated). Pointers are offsets; every load and store is
  checked against its buffer.
\<close>

definition NL :: byte where "NL = 10"
definition SP :: byte where "SP = 32"

subsection \<open>Plain copy\<close>

text \<open>\<open>for (inp = in.dbp - (cnt = in.dbrcnt); cnt--; ++inp) *inp = t[*inp];\<close>\<close>

definition translate :: "dd \<Rightarrow> dd outcome" where
  "translate s =
     (case ctab s of
        None \<Rightarrow> Ret s
      | Some t \<Rightarrow>
          (let p = dbp (inp s); n = dbrcnt (inp s)
           in if p < n then Fault
              else bindo (need (mem_read (inbuf s) (p - n) n)) (\<lambda>bs.
                   bindo (need (mem_write (inbuf s) (p - n) (map t bs))) (\<lambda>b.
                     Ret (s\<lparr>inbuf := b\<rparr>)))))"

definition dd_def :: "dd \<Rightarrow> dd outcome" where
  "dd_def s =
     bindo (translate s) (\<lambda>s1.
       (let s2 = upd_out (\<lambda>io. io\<lparr>dbp := dbp (inp s1), dbcnt := dbcnt (inp s1)\<rparr>) s1
        in if dbsz (outp s2) \<le> dbcnt (inp s2) then
             bindo (dd_out False s2) (\<lambda>s3.
               Ret (upd_in (\<lambda>io. io\<lparr>dbp := dbp (outp s3), dbcnt := dbcnt (outp s3)\<rparr>) s3))
           else Ret s2))"

definition def_close :: "dd \<Rightarrow> dd outcome" where
  "def_close s =
     Ret (if dbcnt (inp s) \<noteq> 0 then upd_out (\<lambda>io. io\<lparr>dbcnt := dbcnt (inp s)\<rparr>) s else s)"

subsection \<open>Fixed-length records from lines\<close>

text \<open>
  The copying loop of \<open>block\<close>: at most \<open>k\<close> characters up to a newline, from offset \<open>i\<close> of
  the input buffer to offset \<open>o\<close> of the output buffer. The result is the last character
  read, both cursors, the number of characters copied and the output buffer.
\<close>

fun block_copy :: "(byte \<Rightarrow> byte) \<Rightarrow> nat \<Rightarrow> byte list \<Rightarrow> nat \<Rightarrow> byte list \<Rightarrow> nat \<Rightarrow> byte \<Rightarrow> nat
    \<Rightarrow> (byte \<times> nat \<times> nat \<times> nat \<times> byte list) option" where
  "block_copy t 0 im i om op ch cnt = Some (ch, i, op, cnt, om)"
| "block_copy t (Suc k) im i om op ch cnt =
     (if i < length im then
        (let ch' = im ! i
         in if ch' = NL then Some (ch', Suc i, op, cnt, om)
            else if op < length om
                 then block_copy t k im (Suc i) (om[op := t ch']) (Suc op) ch' (Suc cnt)
                 else None)
      else None)"

text \<open>
  \<open>for (; n && *inp++ != '\n'; --n);\<close> as it stands both at the start of \<open>block\<close> and after
  a truncated record: the cursor is past the newline and the count still includes it, or
  the count is zero.
\<close>

fun toss :: "byte list \<Rightarrow> nat \<Rightarrow> nat \<Rightarrow> (nat \<times> nat) option" where
  "toss im i 0 = Some (i, 0)"
| "toss im i (Suc n) =
     (if i < length im then
        if im ! i = NL then Some (Suc i, Suc n) else toss im (Suc i) n
      else None)"

definition pad_char :: "dd \<Rightarrow> byte" where
  "pad_char s = (case ctab s of None \<Rightarrow> SP | Some t \<Rightarrow> t SP)"

definition xlat :: "dd \<Rightarrow> byte \<Rightarrow> byte" where
  "xlat s = (case ctab s of None \<Rightarrow> \<lambda>c. c | Some t \<Rightarrow> t)"

text \<open>Continue a truncated record: toss up to the newline.\<close>

definition block_resume :: "dd \<Rightarrow> (bool \<times> dd) outcome" where
  "block_resume s =
     (if intrunc s then
        bindo (need (toss (inbuf s) 0 (dbrcnt (inp s)))) (\<lambda>(i, cnt).
          if cnt = 0 then Ret (False, upd_in (\<lambda>io. io\<lparr>dbcnt := 0, dbp := 0\<rparr>) s)
          else Ret (True, upd_in (\<lambda>io. io\<lparr>dbcnt := cnt - 1, dbp := i + cnt - 1\<rparr>)
                       (s\<lparr>intrunc := False\<rparr>)))
      else Ret (True, s))"

text \<open>After a full record without a newline: count the truncation and toss the rest.\<close>

definition block_truncate :: "nat \<Rightarrow> dd \<Rightarrow> (nat \<times> dd) outcome" where
  "block_truncate i s =
     (let n = dbcnt (inp s)
      in bindo (if n = 0 then Ret True else bindo (need (mem_read (inbuf s) i 1)) (\<lambda>bs. Ret (bs \<noteq> [NL])))
           (\<lambda>cut.
              (let s1 = (if cut then upd_st (\<lambda>t. t\<lparr>trunc := trunc t + 1\<rparr>) s else s)
               in bindo (need (toss (inbuf s) i n)) (\<lambda>(i', n').
                    if n' = 0 then Ret (i', upd_in (\<lambda>io. io\<lparr>dbcnt := 0\<rparr>) (s1\<lparr>intrunc := True\<rparr>))
                    else Ret (i', upd_in (\<lambda>io. io\<lparr>dbcnt := n' - 1\<rparr>) s1)))))"

text \<open>A short record without a newline moves to the front of the input buffer.\<close>

definition block_short :: "dd \<Rightarrow> dd outcome" where
  "block_short s =
     (let n = dbcnt (inp s)
      in if dbp (inp s) < n then Fault
         else bindo (need (mem_read (inbuf s) (dbp (inp s) - n) n)) (\<lambda>bs.
              bindo (need (mem_write (inbuf s) 0 bs)) (\<lambda>b. Ret (s\<lparr>inbuf := b\<rparr>))))"

text \<open>
  A complete record: the input count drops by what was copied and by the newline, the
  record is padded or the rest of its line tossed, and the output buffer is written when
  it holds a block. \<open>i\<close> and \<open>op\<close> are the cursors after the copying loop.
\<close>

definition block_record :: "byte \<Rightarrow> nat \<Rightarrow> nat \<Rightarrow> nat \<Rightarrow> dd \<Rightarrow> (nat \<times> dd) outcome" where
  "block_record ch i op cnt s =
     (let s1 = upd_in (\<lambda>io. io\<lparr>dbcnt := sub64 (dbcnt io) cnt\<rparr>) s;
          s2 = (if ch = NL then upd_in (\<lambda>io. io\<lparr>dbcnt := sub64 (dbcnt io) 1\<rparr>) s1 else s1)
      in bindo (if cnt < cbsz s2
                then bindo (need (mem_write (obuf s2) op (replicate (cbsz s2 - cnt) (pad_char s2))))
                       (\<lambda>b. Ret (i, set_obuf b s2))
                else block_truncate i s2)
           (\<lambda>(i', s3).
              (let s4 = upd_out (\<lambda>io. io\<lparr>dbp := dbp io + cbsz s3, dbcnt := dbcnt io + cbsz s3\<rparr>) s3
               in bindo (if dbsz (outp s4) \<le> dbcnt (outp s4) then dd_out False s4 else Ret s4)
                    (\<lambda>s5. Ret (i', s5)))))"

text \<open>
  The record loop. Every round but the last consumes input, so the count bounds it.
\<close>

fun block_loop :: "nat \<Rightarrow> nat \<Rightarrow> byte \<Rightarrow> dd \<Rightarrow> dd outcome" where
  "block_loop 0 i ch s = Diverge"
| "block_loop (Suc fuel) i ch s =
     (if dbcnt (inp s) = 0 then Ret s
      else
        bindo (need (block_copy (xlat s) (min (cbsz s) (dbcnt (inp s))) (inbuf s) i
                       (obuf s) (dbp (outp s)) ch 0))
          (\<lambda>(ch', i', op', cnt, om).
             if ch' \<noteq> NL \<and> dbcnt (inp s) < cbsz s then block_short (set_obuf om s)
             else bindo (block_record ch' i' op' cnt (set_obuf om s)) (\<lambda>(i'', s').
                    block_loop fuel i'' ch' s')))"

definition dd_block :: "dd \<Rightarrow> dd outcome" where
  "dd_block s =
     bindo (block_resume s) (\<lambda>(go, s1).
       if \<not> go then Ret s1
       else if dbp (inp s1) < dbcnt (inp s1) then Fault
       else bindo (block_loop (Suc (dbcnt (inp s1))) (dbp (inp s1) - dbcnt (inp s1)) 0 s1) (\<lambda>s2.
              Ret (upd_in (\<lambda>io. io\<lparr>dbp := dbcnt io\<rparr>) s2)))"

definition block_close :: "dd \<Rightarrow> dd outcome" where
  "block_close s =
     (let n = dbcnt (inp s)
      in if n = 0 then Ret s
         else if dbp (inp s) < n then Fault
         else
           (let s1 = upd_st (\<lambda>t. t\<lparr>trunc := trunc t + 1\<rparr>) s
            in bindo (need (mem_read (inbuf s1) (dbp (inp s1) - n) n)) (\<lambda>bs.
               bindo (need (mem_write (obuf s1) (dbp (outp s1)) bs)) (\<lambda>b.
               bindo (need (mem_write b (dbp (outp s1) + n) (replicate (sub64 (cbsz s1) n) (pad_char s1)))) (\<lambda>b'.
                 Ret (upd_out (\<lambda>io. io\<lparr>dbcnt := dbcnt io + cbsz s1\<rparr>) (set_obuf b' s1)))))))"

subsection \<open>Lines from fixed-length records\<close>

text \<open>
  \<open>for (t = inp + n - 1; t >= inp && *t == ' '; --t);\<close>: the number of bytes up to the last
  one that is not a blank.
\<close>

fun trim_len :: "byte list \<Rightarrow> nat \<Rightarrow> nat \<Rightarrow> nat option" where
  "trim_len m i 0 = Some 0"
| "trim_len m i (Suc k) =
     (if i + k < length m then if m ! (i + k) = SP then trim_len m i k else Some (Suc k)
      else None)"

text \<open>One record: its bytes without trailing blanks, then a newline.\<close>

definition put_line :: "nat \<Rightarrow> nat \<Rightarrow> dd \<Rightarrow> dd outcome" where
  "put_line i n s =
     bindo (need (trim_len (inbuf s) i n)) (\<lambda>cnt.
     bindo (need (mem_read (inbuf s) i cnt)) (\<lambda>bs.
     bindo (need (mem_write (obuf s) (dbp (outp s)) (bs @ [NL]))) (\<lambda>b.
       Ret (upd_out (\<lambda>io. io\<lparr>dbp := dbp io + cnt + 1, dbcnt := dbcnt io + cnt + 1\<rparr>)
              (set_obuf b s)))))"

fun unblock_loop :: "nat \<Rightarrow> nat \<Rightarrow> dd \<Rightarrow> dd outcome" where
  "unblock_loop 0 i s = Diverge"
| "unblock_loop (Suc fuel) i s =
     (if dbcnt (inp s) < cbsz s then Ret s
      else
        bindo (put_line i (cbsz s) s) (\<lambda>s1.
        bindo (if dbsz (outp s1) \<le> dbcnt (outp s1) then dd_out False s1 else Ret s1) (\<lambda>s2.
          unblock_loop fuel (i + cbsz s2)
            (upd_in (\<lambda>io. io\<lparr>dbcnt := dbcnt io - cbsz s2\<rparr>) s2))))"

definition in_to_front :: "dd \<Rightarrow> dd outcome" where
  "in_to_front s =
     (let n = dbcnt (inp s); fin = upd_in (\<lambda>io. io\<lparr>dbp := n\<rparr>)
      in if n = 0 then Ret (fin s)
         else if dbp (inp s) < n then Fault
         else bindo (need (mem_read (inbuf s) (dbp (inp s) - n) n)) (\<lambda>bs.
              bindo (need (mem_write (inbuf s) 0 bs)) (\<lambda>b. Ret (fin (s\<lparr>inbuf := b\<rparr>)))))"

definition dd_unblock :: "dd \<Rightarrow> dd outcome" where
  "dd_unblock s =
     bindo (translate s) (\<lambda>s1.
     bindo (unblock_loop (Suc (dbcnt (inp s1))) 0 s1) in_to_front)"

definition unblock_close :: "dd \<Rightarrow> dd outcome" where
  "unblock_close s =
     (if dbcnt (inp s) = 0 then Ret s
      else put_line 0 (dbcnt (inp s)) (say MsgShortRecord s))"

definition run_conv :: "dd \<Rightarrow> dd outcome" where
  "run_conv s = (case cfunc s of Def \<Rightarrow> dd_def s | Block \<Rightarrow> dd_block s | Unblock \<Rightarrow> dd_unblock s)"

definition run_close :: "dd \<Rightarrow> dd outcome" where
  "run_close s =
     (case cfunc s of Def \<Rightarrow> def_close s | Block \<Rightarrow> block_close s | Unblock \<Rightarrow> unblock_close s)"

end
