(* ===== verification/DdMain.thy ===== *)
theory DdMain
  imports DdConv
begin

text \<open>
  The copying process of \<open>testcode/android/dd/dd.c\<close>: the read loop \<open>dd_in\<close>, the final flush
  \<open>dd_close\<close>, the statistics report \<open>summary\<close> and the part of \<open>main\<close> after the set-up.
\<close>

subsection \<open>The report\<close>

text \<open>Decimal digits of an unsigned number, as \<open>%llu\<close> prints them.\<close>

fun digits :: "nat \<Rightarrow> string" where
  "digits n =
     (if n < 10 then [char_of (48 + n)] else digits (n div 10) @ [char_of (48 + n mod 10)])"

declare digits.simps [simp del]

text \<open>\<open>snprintf(buf, sizeof(buf), ...)\<close> with \<open>char buf[100]\<close> keeps at most 99 characters.\<close>

definition snprintf100 :: "string \<Rightarrow> string" where
  "snprintf100 s = take 99 s"

definition pad3 :: "nat \<Rightarrow> string" where
  "pad3 n = replicate (3 - length (digits n)) (CHR ''0'') @ digits n"

definition u64_str :: "u64 \<Rightarrow> string" where
  "u64_str w = digits (unat w)"

text \<open>
  The lines of \<open>summary\<close>, each written with its own \<open>write\<close>; \<open>mS\<close> is the elapsed time in
  milliseconds, at least 1.
\<close>

definition summary_lines :: "STAT \<Rightarrow> nat \<Rightarrow> string list" where
  "summary_lines t mS =
     [snprintf100 (u64_str (in_full t) @ ''+'' @ u64_str (in_part t) @ '' records in'' @ [char_of (10::nat)] @
        u64_str (out_full t) @ ''+'' @ u64_str (out_part t) @ '' records out'' @ [char_of (10::nat)])] @
     (if swab t = 0 then []
      else [snprintf100 (u64_str (swab t) @ '' odd length swab '' @
              (if swab t = 1 then ''block'' else ''blocks'') @ [char_of (10::nat)])]) @
     (if trunc t = 0 then []
      else [snprintf100 (u64_str (trunc t) @ '' truncated '' @
              (if trunc t = 1 then ''block'' else ''blocks'') @ [char_of (10::nat)])]) @
     (if sparse t = 0 then []
      else [snprintf100 (u64_str (sparse t) @ '' sparse output '' @
              (if sparse t = 1 then ''block'' else ''blocks'') @ [char_of (10::nat)])]) @
     [snprintf100 (u64_str (st_bytes t) @ '' bytes transferred in '' @ digits (mS div 1000) @ ''.'' @
        pad3 (mS mod 1000) @ '' secs ('' @ u64_str (st_bytes t * 1000 div of_nat mS) @
        '' bytes/sec)'' @ [char_of (10::nat)])]"

text \<open>\<open>elapsed\<close> is what the two \<open>gettimeofday\<close> readings differ by; zero is reported as one.\<close>

definition summary :: "nat \<Rightarrow> dd \<Rightarrow> dd" where
  "summary elapsed s =
     (let s1 = (if progress s then say (MsgText [char_of (10::nat)]) s else s);
          mS = (if elapsed = 0 then 1 else elapsed)
      in say (MsgSummary (summary_lines (st s1) mS)) s1)"

subsection \<open>Reading\<close>

datatype read_res = RData "byte list" | RFail errno

fun read_src :: "nat \<Rightarrow> read_ev list \<Rightarrow> read_res \<times> read_ev list" where
  "read_src n [] = (RData [], [])"
| "read_src n (Chunk bs # es) =
     (if length bs \<le> n then (RData bs, es) else (RData (take n bs), Chunk (drop n bs) # es))"
| "read_src n (ReadError e # es) = (RFail e, es)"

text \<open>The buffer is cleared before each read when \<open>conv=sync\<close> is set.\<close>

definition sync_pad :: "dd \<Rightarrow> byte" where
  "sync_pad s = (if ddflags s \<inter> {C_BLOCK, C_UNBLOCK} \<noteq> {} then SP else 0)"

definition sync_clear :: "dd \<Rightarrow> dd outcome" where
  "sync_clear s =
     (if C_SYNC \<in> ddflags s
      then bindo (need (mem_write (inbuf s) (dbp (inp s)) (replicate (dbsz (inp s)) (sync_pad s))))
             (\<lambda>b. Ret (s\<lparr>inbuf := b\<rparr>))
      else Ret s)"

text \<open>
  What happens to a block that has been read: with \<open>bs\<close> semantics it is written out at
  once, otherwise it is handed to the conversion function.
\<close>

definition deliver :: "dd \<Rightarrow> dd outcome" where
  "deliver s =
     (if C_BS \<in> ddflags s then
        bindo (dd_out True (upd_out (\<lambda>io. io\<lparr>dbcnt := dbcnt (inp s)\<rparr>) s)) (\<lambda>s1.
          Ret (upd_in (\<lambda>io. io\<lparr>dbcnt := 0\<rparr>) s1))
      else run_conv (upd_in (\<lambda>io. io\<lparr>dbp := dbp io + dbrcnt io\<rparr>) s))"

definition count_in :: "nat \<Rightarrow> (STAT \<Rightarrow> STAT) \<Rightarrow> dd \<Rightarrow> dd" where
  "count_in n f s = upd_st f (upd_in (\<lambda>io. io\<lparr>dbcnt := dbcnt io + n, dbrcnt := n\<rparr>) s)"

definition full_block :: "STAT \<Rightarrow> STAT" where
  "full_block t = t\<lparr>in_full := in_full t + 1\<rparr>"

definition part_block :: "STAT \<Rightarrow> STAT" where
  "part_block t = t\<lparr>in_part := in_part t + 1\<rparr>"

text \<open>
  After a read error \<open>lseek\<close> returns the new offset or \<open>-1\<close>, never zero for a non-empty
  block, so the seek diagnostic is always given on a seekable input.
\<close>

definition seek_past :: "dd \<Rightarrow> dd" where
  "seek_past s =
     (if \<not> ISPIPE (inp s) \<and> \<not> ISTAPE (inp s) \<and> dbsz (inp s) \<noteq> 0
      then say MsgSeekError s else s)"

text \<open>
  One round of \<open>dd_in\<close>: \<open>(False, s)\<close> when the routine returns, \<open>(True, s)\<close> when it goes
  on.
\<close>

definition dd_in_round :: "nat \<Rightarrow> dd \<Rightarrow> (bool \<times> dd) outcome" where
  "dd_in_round now s =
     (if cpy_cnt s \<noteq> 0 \<and> cpy_cnt s \<le> unat (in_full (st s) + in_part (st s)) then Ret (False, s)
      else
        bindo (sync_clear s) (\<lambda>s1.
          (case read_src (dbsz (inp s1)) (src s1) of
             (RData [], es) \<Rightarrow>
               Ret (False, upd_in (\<lambda>io. io\<lparr>dbrcnt := 0\<rparr>) (s1\<lparr>src := es\<rparr>))
           | (RFail e, es) \<Rightarrow>
               (let s2 = say MsgReadError (s1\<lparr>src := es\<rparr>)
                in if C_NOERROR \<notin> ddflags s2 then Exit 1 s2
                   else
                     (let s4 = seek_past (summary now s2)
                      in if C_SYNC \<notin> ddflags s4 then Ret (True, s4)
                         else bindo (deliver (count_in (dbsz (inp s4)) full_block s4)) (\<lambda>s5.
                                Ret (True, s5))))
           | (RData bs, es) \<Rightarrow>
               bindo (need (mem_write (inbuf s1) (dbp (inp s1)) bs)) (\<lambda>b.
                 (let s2 = s1\<lparr>src := es, inbuf := b\<rparr>;
                      n = length bs;
                      s3 = (if n = dbsz (inp s2) then count_in n full_block s2
                            else count_in (if C_SYNC \<in> ddflags s2 then dbsz (inp s2) else n) part_block s2)
                  in bindo (deliver s3) (\<lambda>s4. Ret (True, s4)))))))"

text \<open>
  The loop: every round but the last takes something from the source, so its size (bytes
  and events) bounds the number of rounds.
\<close>

fun src_size :: "read_ev list \<Rightarrow> nat" where
  "src_size [] = 0"
| "src_size (Chunk bs # es) = Suc (length bs + src_size es)"
| "src_size (ReadError e # es) = Suc (src_size es)"

fun dd_in_loop :: "nat \<Rightarrow> nat \<Rightarrow> dd \<Rightarrow> dd outcome" where
  "dd_in_loop 0 now s = Diverge"
| "dd_in_loop (Suc fuel) now s =
     bindo (dd_in_round now s) (\<lambda>(go, s'). if go then dd_in_loop fuel now s' else Ret s')"

definition dd_in :: "nat \<Rightarrow> dd \<Rightarrow> dd outcome" where
  "dd_in now s = dd_in_loop (Suc (src_size (src s))) now s"

subsection \<open>Closing\<close>

definition osync_fill :: "dd \<Rightarrow> dd outcome" where
  "osync_fill s =
     (if C_OSYNC \<in> ddflags s \<and> dbcnt (outp s) < dbsz (outp s)
      then bindo (need (mem_write (obuf s) (dbp (outp s))
                          (replicate (dbsz (outp s) - dbcnt (outp s)) 0)))
             (\<lambda>b. Ret (upd_out (\<lambda>io. io\<lparr>dbcnt := dbsz io\<rparr>) (set_obuf b s)))
      else Ret s)"

definition final_sparse :: "dd \<Rightarrow> dd outcome" where
  "final_sparse s =
     (if dbcnt (outp s) = 0 \<and> pending s \<noteq> 0
      then bindo (need (mem_write (obuf s) 0 (replicate (dbsz (outp s)) 0)))
             (\<lambda>b. Ret ((upd_out (\<lambda>io. io\<lparr>dbcnt := dbsz io, dbp := dbsz io\<rparr>) (set_obuf b s))
                        \<lparr>pending := pending s - int (dbsz (outp s))\<rparr>))
      else Ret s)"

definition close_out :: "dd \<Rightarrow> dd outcome" where
  "close_out s =
     (case fsync_err s of
        Some e \<Rightarrow>
          if fd (outp s) = 1 \<and> e \<noteq> EINVAL then Exit 1 (say (MsgText ''fsync stdout'') s)
          else if \<not> close_ok s then Exit 1 (say (MsgText ''close'') s) else Ret s
      | None \<Rightarrow> if \<not> close_ok s then Exit 1 (say (MsgText ''close'') s) else Ret s)"

definition dd_close :: "dd \<Rightarrow> dd outcome" where
  "dd_close s =
     bindo (run_close s) (\<lambda>s1.
     bindo (osync_fill s1) (\<lambda>s2.
     bindo (final_sparse s2) (\<lambda>s3.
     bindo (if dbcnt (outp s3) \<noteq> 0 then dd_out True s3 else Ret s3) close_out)))"

text \<open>\<open>while (files_cnt--) dd_in(); dd_close(); exit(0);\<close> with \<open>summary\<close> at exit.\<close>

fun dd_files :: "nat \<Rightarrow> nat \<Rightarrow> dd \<Rightarrow> dd outcome" where
  "dd_files now 0 s = Ret s"
| "dd_files now (Suc k) s = bindo (dd_in now s) (dd_files now k)"

definition at_exit :: "nat \<Rightarrow> 'a outcome \<Rightarrow> 'a outcome" where
  "at_exit now r = (case r of Exit n s \<Rightarrow> Exit n (summary now s) | _ \<Rightarrow> r)"

definition dd_main :: "nat \<Rightarrow> dd \<Rightarrow> dd outcome" where
  "dd_main now s = at_exit now (bindo (dd_files now (files_cnt s) s) (\<lambda>s1.
     bindo (dd_close s1) (\<lambda>s2. Exit 0 s2)))"

end
