(* ===== verification/DdRead.thy ===== *)
theory DdRead
  imports DdMain
begin

text \<open>
  The read loop and the conversion it calls through \<open>cfunc\<close>: the interface between them as
  a locale, and what the loop achieves for every conversion that keeps the interface.
\<close>

subsection \<open>The input as a sequence of blocks\<close>

text \<open>
  What successive reads hand to the conversion: pieces of at most \<open>n\<close> bytes up to the end
  of file or the count limit; a failed block is dropped, replaced by padding, or ends the
  input; with \<open>conv=sync\<close> every block is padded to full size.
\<close>

definition pad_to :: "nat \<Rightarrow> byte option \<Rightarrow> byte list \<Rightarrow> byte list" where
  "pad_to n p bs = (case p of None \<Rightarrow> bs | Some c \<Rightarrow> bs @ replicate (n - length bs) c)"

definition dec :: "nat option \<Rightarrow> nat option" where
  "dec = map_option (\<lambda>k. k - 1)"

function in_blocks :: "nat \<Rightarrow> bool \<Rightarrow> byte option \<Rightarrow> nat option \<Rightarrow> read_ev list \<Rightarrow> byte list list" where
  "in_blocks n ne p lim [] = []"
| "in_blocks n ne p lim (Chunk bs # es) =
     (if n = 0 \<or> lim = Some 0 \<or> bs = [] then []
      else if length bs \<le> n then pad_to n p bs # in_blocks n ne p (dec lim) es
      else take n bs # in_blocks n ne p (dec lim) (Chunk (drop n bs) # es))"
| "in_blocks n ne p lim (ReadError e # es) =
     (if n = 0 \<or> lim = Some 0 \<or> \<not> ne then []
      else (case p of
              None \<Rightarrow> in_blocks n ne p lim es
            | Some c \<Rightarrow> replicate n c # in_blocks n ne p (dec lim) es))"
  by pat_completeness auto
termination
  by (relation "measure (\<lambda>(n, ne, p, lim, es). src_size es)") auto

declare in_blocks.simps [simp del]

definition limit :: "dd \<Rightarrow> nat option" where
  "limit s = (if cpy_cnt s = 0 then None
              else Some (cpy_cnt s - unat (in_full (st s) + in_part (st s))))"

definition pad_opt :: "dd \<Rightarrow> byte option" where
  "pad_opt s = (if C_SYNC \<in> ddflags s then Some (sync_pad s) else None)"

definition blocks :: "dd \<Rightarrow> byte list list" where
  "blocks s = in_blocks (dbsz (inp s)) (C_NOERROR \<in> ddflags s) (pad_opt s) (limit s) (src s)"

text \<open>
  \<open>quiet s t\<close>: reading changed nothing the conversion can see. \<open>reads s bs t\<close>: the block
  \<open>bs\<close> stands at \<open>in.dbp\<close> and is counted.
\<close>

definition quiet :: "dd \<Rightarrow> dd \<Rightarrow> bool" where
  "quiet s t \<longleftrightarrow> length (inbuf t) = length (inbuf s)
     \<and> take (dbp (inp s)) (inbuf t) = take (dbp (inp s)) (inbuf s)
     \<and> t = s\<lparr>src := src t, stderr := stderr t, inbuf := inbuf t,
             inp := (inp s)\<lparr>dbrcnt := dbrcnt (inp t)\<rparr>\<rparr>"

definition reads :: "dd \<Rightarrow> byte list \<Rightarrow> dd \<Rightarrow> bool" where
  "reads s bs t \<longleftrightarrow> length (inbuf t) = length (inbuf s)
     \<and> take (dbp (inp s) + length bs) (inbuf t) = take (dbp (inp s)) (inbuf s) @ bs
     \<and> t = s\<lparr>src := src t, stderr := stderr t, inbuf := inbuf t,
             st := (st s)\<lparr>in_full := in_full (st t), in_part := in_part (st t)\<rparr>,
             inp := (inp s)\<lparr>dbcnt := dbcnt (inp s) + length bs, dbrcnt := length bs\<rparr>\<rparr>"

text \<open>What delivering a block leaves to the reader.\<close>

definition reader_same :: "dd \<Rightarrow> dd \<Rightarrow> bool" where
  "reader_same s t \<longleftrightarrow> src t = src s \<and> ddflags t = ddflags s \<and> cpy_cnt t = cpy_cnt s
     \<and> dbsz (inp t) = dbsz (inp s) \<and> in_full (st t) = in_full (st s)
     \<and> in_part (st t) = in_part (st s)"

subsection \<open>The interface\<close>

text \<open>
  \<open>J I s\<close>: the blocks read so far concatenate to \<open>I\<close> and \<open>s\<close> is a state between two
  reads. \<open>emit I\<close> is the most that may have reached the output file by then.
\<close>

locale dd_conversion =
  fixes J :: "byte list \<Rightarrow> dd \<Rightarrow> bool"
    and emit :: "byte list \<Rightarrow> byte list"
  assumes emit_mono: "prefix (emit I) (emit (I @ bs))"
    and J_room: "J I s \<Longrightarrow> 0 < dbsz (inp s) \<and> cpy_cnt s < 2 ^ 64
          \<and> dbp (inp s) + dbsz (inp s) \<le> length (inbuf s)"
    and J_prefix: "J I s \<Longrightarrow> prefix (ofile s) (emit I)"
    and J_quiet: "J I s \<Longrightarrow> quiet s t \<Longrightarrow> J I t"
    and J_deliver: "J I s \<Longrightarrow> reads s bs t \<Longrightarrow> bs \<noteq> [] \<Longrightarrow> length bs \<le> dbsz (inp s) \<Longrightarrow>
          outcome_sat (\<lambda>u. J (I @ bs) u \<and> reader_same t u) (out_exit (emit (I @ bs))) (deliver t)"
begin

lemma emit_prefix: "prefix (emit I) (emit (I @ concat bss))"
  by (rule emit_mono)

lemma out_exit_emit: "out_exit (emit I) c t \<Longrightarrow> out_exit (emit (I @ bs)) c t"
  using emit_mono by (auto simp: out_exit_def intro: prefix_order.trans)

end

lemma sync_clear_quiet:
  assumes "dbp (inp s) + dbsz (inp s) \<le> length (inbuf s)"
  shows "\<exists>b. sync_clear s = Ret (s\<lparr>inbuf := b\<rparr>) \<and> length b = length (inbuf s)
    \<and> take (dbp (inp s)) b = take (dbp (inp s)) (inbuf s)
    \<and> (C_SYNC \<in> ddflags s \<longrightarrow>
        take (dbsz (inp s)) (drop (dbp (inp s)) b) = replicate (dbsz (inp s)) (sync_pad s))"
proof (cases "C_SYNC \<in> ddflags s")
  case True
  let ?z = "replicate (dbsz (inp s)) (sync_pad s)"
  let ?b = "take (dbp (inp s)) (inbuf s) @ ?z @ drop (dbp (inp s) + dbsz (inp s)) (inbuf s)"
  have "mem_write (inbuf s) (dbp (inp s)) ?z = Some ?b"
    using assms by simp
  then show ?thesis
    using True assms by (intro exI [of _ ?b]) (simp add: sync_clear_def)
next
  case False
  then show ?thesis by (intro exI [of _ "inbuf s"]) (simp add: sync_clear_def)
qed

text \<open>The blocks of a state after one read.\<close>

lemma blocks_cong:
  "dbsz (inp t) = dbsz (inp s) \<Longrightarrow> ddflags t = ddflags s \<Longrightarrow>
     blocks t = in_blocks (dbsz (inp s)) (C_NOERROR \<in> ddflags s) (pad_opt s) (limit t) (src t)"
  by (simp add: blocks_def pad_opt_def sync_pad_def)

lemma limit_open:
  assumes "cpy_cnt s < 2 ^ 64"
    and "\<not> (cpy_cnt s \<noteq> 0 \<and> cpy_cnt s \<le> unat (in_full (st s) + in_part (st s)))"
  shows "limit s \<noteq> Some 0"
    and "cpy_cnt t = cpy_cnt s \<Longrightarrow> in_full (st t) + in_part (st t) = in_full (st s) + in_part (st s) + 1
           \<Longrightarrow> limit t = dec (limit s)"
    and "cpy_cnt t = cpy_cnt s \<Longrightarrow> in_full (st t) = in_full (st s) \<Longrightarrow> in_part (st t) = in_part (st s)
           \<Longrightarrow> limit t = limit s"
proof -
  let ?w = "in_full (st s) + in_part (st s)"
  show "limit s \<noteq> Some 0" using assms by (auto simp: limit_def)
  show "limit t = limit s"
    if "cpy_cnt t = cpy_cnt s" "in_full (st t) = in_full (st s)" "in_part (st t) = in_part (st s)"
    using that by (simp add: limit_def)
  show "limit t = dec (limit s)"
    if c: "cpy_cnt t = cpy_cnt s" and w: "in_full (st t) + in_part (st t) = ?w + 1"
  proof (cases "cpy_cnt s = 0")
    case False
    then have "unat ?w + 1 < 2 ^ 64" using assms by simp
    then have "unat (?w + 1) = unat ?w + 1"
      by (simp add: unat_word_ariths)
    with c w False show ?thesis by (simp add: limit_def dec_def)
  qed (use c in \<open>simp add: limit_def dec_def\<close>)
qed

lemma in_blocks_limit: "in_blocks n ne p (Some 0) es = []"
  by (cases "(n, ne, p, Some (0 :: nat), es)" rule: in_blocks.cases) (simp_all add: in_blocks.simps)

lemma limit_closed:
  "cpy_cnt s \<noteq> 0 \<Longrightarrow> cpy_cnt s \<le> unat (in_full (st s) + in_part (st s)) \<Longrightarrow> blocks s = []"
  by (simp add: blocks_def limit_def in_blocks_limit)

lemma read_src_blocks:
  assumes "read_src n es = (RData bs, es')" and "0 < n" and "lim \<noteq> Some 0"
  shows "(bs = [] \<longrightarrow> in_blocks n ne p lim es = [])
    \<and> (bs \<noteq> [] \<longrightarrow> in_blocks n ne p lim es = pad_to n p bs # in_blocks n ne p (dec lim) es'
        \<and> length bs \<le> n \<and> src_size es' < src_size es)"
proof (cases es)
  case Nil
  then show ?thesis using assms by (simp add: in_blocks.simps)
next
  case (Cons e r)
  then obtain cs where es: "es = Chunk cs # r" using assms(1) by (cases e) auto
  show ?thesis
  proof (cases "length cs \<le> n")
    case True
    then show ?thesis
      using assms by (auto simp: es in_blocks.simps(2) [of n ne p lim])
  next
    case False
    then have bs: "bs = take n cs" "es' = Chunk (drop n cs) # r" "length bs = n"
      using assms(1) by (auto simp: es)
    then have "pad_to n p bs = bs" by (simp add: pad_to_def split: option.split)
    with bs False assms(2,3) show ?thesis
      unfolding es by (subst (2) in_blocks.simps(2)) (auto simp del: take_all_iff)
  qed
qed

lemma read_src_fail:
  assumes "read_src n es = (RFail e, es')"
  shows "es = ReadError e # es'"
  using assms by (cases "(n, es)" rule: read_src.cases) (auto split: if_splits)

lemma reads_count_in:
  assumes "length b = length (inbuf s)"
    and "take (dbp (inp s) + length bs) b = take (dbp (inp s)) (inbuf s) @ bs"
    and "f = full_block \<or> f = part_block"
  shows "reads s bs (count_in (length bs) f (s\<lparr>src := es, stderr := m, inbuf := b\<rparr>))"
  using assms
  by (auto simp: reads_def count_in_def upd_st_def upd_in_def full_block_def part_block_def)

lemma count_in_once:
  "f = full_block \<or> f = part_block \<Longrightarrow>
     in_full (st (count_in n f s)) + in_part (st (count_in n f s)) = in_full (st s) + in_part (st s) + 1"
  by (auto simp: count_in_def upd_st_def upd_in_def full_block_def part_block_def)

lemma count_in_fields [simp]:
  "src (count_in n f s) = src s" "dbsz (inp (count_in n f s)) = dbsz (inp s)"
  "ddflags (count_in n f s) = ddflags s" "cpy_cnt (count_in n f s) = cpy_cnt s"
  by (simp_all add: count_in_def upd_st_def upd_in_def)

subsection \<open>The loop under the interface\<close>

text \<open>What a round leaves for the next one.\<close>

definition reader_next :: "dd \<Rightarrow> dd \<Rightarrow> bool" where
  "reader_next s t \<longleftrightarrow> ddflags t = ddflags s \<and> dbsz (inp t) = dbsz (inp s)
     \<and> (\<forall>e. ReadError e \<in> set (src t) \<longrightarrow> ReadError e \<in> set (src s))"

lemma read_src_errors:
  "read_src n es = (r, es') \<Longrightarrow> ReadError e \<in> set es' \<Longrightarrow> ReadError e \<in> set es"
  by (cases "(n, es)" rule: read_src.cases) (auto split: if_splits)

lemma blocks_same:
  "reader_same t u \<Longrightarrow> blocks u = blocks t"
  by (simp add: reader_same_def blocks_def pad_opt_def sync_pad_def limit_def)

lemma quiet_blocks:
  "quiet s t \<Longrightarrow> src t = src s \<Longrightarrow> blocks t = blocks s"
  by (subst (asm) quiet_def, elim conjE, erule ssubst)
    (simp add: blocks_def pad_opt_def sync_pad_def limit_def)

lemma quiet_fields:
  assumes "quiet s t"
  shows "dbsz (inp t) = dbsz (inp s)" "ddflags t = ddflags s" "limit t = limit s"
    "dbp (inp t) = dbp (inp s)" "length (inbuf t) = length (inbuf s)"
proof -
  obtain a b c d where t: "t = s\<lparr>src := a, stderr := b, inbuf := c, inp := (inp s)\<lparr>dbrcnt := d\<rparr>\<rparr>"
    using assms unfolding quiet_def by blast
  show "dbsz (inp t) = dbsz (inp s)" "ddflags t = ddflags s" "limit t = limit s"
    "dbp (inp t) = dbp (inp s)"
    by (simp_all add: t limit_def)
  show "length (inbuf t) = length (inbuf s)" using assms by (simp add: quiet_def)
qed

context dd_conversion
begin

definition advanced :: "byte list \<Rightarrow> dd \<Rightarrow> bool \<times> dd \<Rightarrow> bool" where
  "advanced I s r = (case r of (go, t) \<Rightarrow>
     if go then src_size (src t) < src_size (src s) \<and> reader_next s t
       \<and> (\<exists>I'. J I' t \<and> I @ concat (blocks s) = I' @ concat (blocks t))
     else J (I @ concat (blocks s)) t)"

lemma deliver_block:
  assumes J: "J I s" and bs: "bs \<noteq> []" "length bs \<le> dbsz (inp s)"
    and t: "reads s bs t" and b: "blocks s = bs # blocks t"
    and sz: "src_size (src t) < src_size (src s)" and nx: "reader_next s t"
  shows "outcome_sat (advanced I s) (out_exit (emit (I @ concat (blocks s))))
    (bindo (deliver t) (\<lambda>u. Ret (True, u)))"
proof (rule outcome_sat_bind)
  show "outcome_sat (\<lambda>u. J (I @ bs) u \<and> reader_same t u) (out_exit (emit (I @ concat (blocks s))))
      (deliver t)"
    using J_deliver [OF J t bs]
    by (rule outcome_sat_mono) (auto simp: b dest: out_exit_emit [where bs = "concat (blocks t)"])
  fix u assume u: "J (I @ bs) u \<and> reader_same t u"
  then have "src u = src t" "reader_next s u" using nx by (simp_all add: reader_same_def reader_next_def)
  then show "outcome_sat (advanced I s) (out_exit (emit (I @ concat (blocks s)))) (Ret (True, u))"
    using u b sz by (auto simp: advanced_def blocks_same intro!: exI [of _ "I @ bs"])
qed

text \<open>A block that was read, padded when \<open>conv=sync\<close> is set, is delivered.\<close>

lemma round_block:
  assumes J: "J I s" and open_lim: "\<not> (cpy_cnt s \<noteq> 0 \<and> cpy_cnt s \<le> unat (in_full (st s) + in_part (st s)))"
    and rd: "blocks s = bs # in_blocks (dbsz (inp s)) (C_NOERROR \<in> ddflags s) (pad_opt s) (dec (limit s)) es"
    and bs: "bs \<noteq> []" "length bs \<le> dbsz (inp s)"
    and b: "length b = length (inbuf s)"
      "take (dbp (inp s) + length bs) b = take (dbp (inp s)) (inbuf s) @ bs"
    and f: "f = full_block \<or> f = part_block" and sz: "src_size es < src_size (src s)"
    and er: "\<And>e. ReadError e \<in> set es \<Longrightarrow> ReadError e \<in> set (src s)"
  shows "outcome_sat (advanced I s) (out_exit (emit (I @ concat (blocks s))))
    (bindo (deliver (count_in (length bs) f (s\<lparr>src := es, stderr := m, inbuf := b\<rparr>)))
       (\<lambda>u. Ret (True, u)))"
proof -
  let ?t = "count_in (length bs) f (s\<lparr>src := es, stderr := m, inbuf := b\<rparr>)"
  have t: "reads s bs ?t" by (rule reads_count_in(1) [OF b f])
  have src: "src ?t = es" and cfg: "dbsz (inp ?t) = dbsz (inp s)" "ddflags ?t = ddflags s"
      "cpy_cnt ?t = cpy_cnt s"
    by simp_all
  have "limit ?t = dec (limit s)"
    using count_in_once [OF f, of "length bs" "s\<lparr>src := es, stderr := m, inbuf := b\<rparr>"]
      J_room [OF J] open_lim cfg(3)
    by (intro limit_open(2)) simp_all
  then have "blocks s = bs # blocks ?t"
    using rd blocks_cong [OF cfg(1,2)] src by simp
  then show ?thesis
    by (rule deliver_block [OF J bs t]) (use er in \<open>auto simp: src sz reader_next_def\<close>)
qed

text \<open>After a failed read: the error ends the process, is skipped, or stands for a block.\<close>

lemma round_failed:
  assumes J: "J I s" and open_lim: "\<not> (cpy_cnt s \<noteq> 0 \<and> cpy_cnt s \<le> unat (in_full (st s) + in_part (st s)))"
    and src: "src s = ReadError e # es" and ne: "C_NOERROR \<in> ddflags s" and ns: "C_SYNC \<notin> ddflags s"
    and t: "quiet s t" and tsrc: "src t = es"
  shows "advanced I s (True, t)"
proof -
  have lim: "limit s \<noteq> Some 0" and n: "dbsz (inp s) \<noteq> 0"
    using limit_open(1) J_room [OF J] open_lim by auto
  note cfg = quiet_fields [OF t]
  have "blocks s = blocks t"
    using lim n ne ns
    by (simp add: blocks_def src in_blocks.simps pad_opt_def cfg tsrc)
  then show ?thesis
    using J_quiet [OF J t] by (auto simp: advanced_def reader_next_def cfg src tsrc)
qed

end

text \<open>Diagnostics change nothing but the message list.\<close>

definition only_says :: "dd \<Rightarrow> dd \<Rightarrow> bool" where
  "only_says s t \<longleftrightarrow> (\<exists>m. t = s\<lparr>stderr := m\<rparr>)"

lemma only_says_refl [simp]: "only_says s s"
  unfolding only_says_def by (rule exI [of _ "stderr s"]) simp

lemma only_says_say [simp]: "only_says s t \<Longrightarrow> only_says s (say m t)"
  by (auto simp: only_says_def say_def)

lemma only_says_summary [simp]: "only_says s t \<Longrightarrow> only_says s (summary now t)"
  by (simp add: summary_def Let_def)

lemma only_says_seek_past [simp]: "only_says s t \<Longrightarrow> only_says s (seek_past t)"
  by (simp add: seek_past_def)

lemma only_saysE:
  assumes "only_says s t" obtains m where "t = s\<lparr>stderr := m\<rparr>"
  using assms by (auto simp: only_says_def)

context dd_conversion
begin

lemma round_error:
  assumes J: "J I s" and open_lim: "\<not> (cpy_cnt s \<noteq> 0 \<and> cpy_cnt s \<le> unat (in_full (st s) + in_part (st s)))"
    and src: "src s = ReadError e # es" and clear: "sync_clear s = Ret (s\<lparr>inbuf := b\<rparr>)"
    and b: "length b = length (inbuf s)" "take (dbp (inp s)) b = take (dbp (inp s)) (inbuf s)"
      "C_SYNC \<in> ddflags s \<longrightarrow> take (dbsz (inp s)) (drop (dbp (inp s)) b) = replicate (dbsz (inp s)) (sync_pad s)"
  shows "outcome_sat (advanced I s) (out_exit (emit (I @ concat (blocks s)))) (dd_in_round now s)"
proof -
  note room = J_room [OF J]
  let ?s1 = "s\<lparr>inbuf := b\<rparr>"
  let ?s2 = "say MsgReadError (?s1\<lparr>src := es\<rparr>)"
  have step: "dd_in_round now s =
      (if C_NOERROR \<notin> ddflags s then Exit 1 ?s2
       else let s4 = seek_past (summary now ?s2) in
         if C_SYNC \<notin> ddflags s4 then Ret (True, s4)
         else bindo (deliver (count_in (dbsz (inp s4)) full_block s4)) (\<lambda>s5. Ret (True, s5)))"
    using open_lim by (simp add: dd_in_round_def clear src say_def del: de_Morgan_conj)
  show ?thesis
  proof (cases "C_NOERROR \<in> ddflags s")
    case False
    have "prefix (ofile s) (emit (I @ concat (blocks s)))"
      using J_prefix [OF J] emit_prefix by (rule prefix_order.trans)
    with False show ?thesis by (simp add: step out_exit_def say_def)
  next
    case ne: True
    have "only_says ?s2 (seek_past (summary now ?s2))" by simp
    then obtain m where "seek_past (summary now ?s2) = ?s2\<lparr>stderr := m\<rparr>"
      by (rule only_saysE)
    then have s4: "seek_past (summary now ?s2) = s\<lparr>src := es, stderr := m, inbuf := b\<rparr>"
      by (simp add: say_def)
    show ?thesis
    proof (cases "C_SYNC \<in> ddflags s")
      case False
      have "quiet s (s\<lparr>src := es, stderr := m, inbuf := b\<rparr>)"
        using b by (simp add: quiet_def)
      with round_failed [OF J open_lim src ne False] False ne show ?thesis
        by (simp add: step s4)
    next
      case True
      let ?bs = "replicate (dbsz (inp s)) (sync_pad s)"
      have lim: "limit s \<noteq> Some 0" using limit_open(1) room open_lim by blast
      have "blocks s = ?bs # in_blocks (dbsz (inp s)) (C_NOERROR \<in> ddflags s) (pad_opt s) (dec (limit s)) es"
        using lim room ne True by (simp add: blocks_def src in_blocks.simps pad_opt_def)
      moreover have "take (dbp (inp s) + length ?bs) b = take (dbp (inp s)) (inbuf s) @ ?bs"
        using b True by (simp add: take_add)
      ultimately have "outcome_sat (advanced I s) (out_exit (emit (I @ concat (blocks s))))
         (bindo (deliver (count_in (length ?bs) full_block (s\<lparr>src := es, stderr := m, inbuf := b\<rparr>)))
            (\<lambda>u. Ret (True, u)))"
        by (intro round_block [OF J open_lim]) (use room b src in auto)
      then show ?thesis using True ne by (simp add: step s4)
    qed
  qed
qed

end

lemma dd_in_round_data:
  assumes "\<not> (cpy_cnt s \<noteq> 0 \<and> cpy_cnt s \<le> unat (in_full (st s) + in_part (st s)))"
    and "sync_clear s = Ret (s\<lparr>inbuf := b\<rparr>)" and "read_src (dbsz (inp s)) (src s) = (RData bs, es)"
    and "bs \<noteq> []" and "mem_write b (dbp (inp s)) bs = Some b'"
  shows "dd_in_round now s =
    bindo (deliver (count_in (if length bs = dbsz (inp s) \<or> C_SYNC \<notin> ddflags s then length bs else dbsz (inp s))
                      (if length bs = dbsz (inp s) then full_block else part_block)
                      (s\<lparr>src := es, inbuf := b'\<rparr>)))
      (\<lambda>u. Ret (True, u))"
proof -
  obtain c cs where "bs = c # cs" using assms(4) by (cases bs) auto
  then show ?thesis
    using assms unfolding dd_in_round_def
    by (cases "length bs = dbsz (inp s)"; cases "C_SYNC \<in> ddflags s")
      (simp_all add: Let_def del: de_Morgan_conj mem_write_ok)
qed

context dd_conversion
begin

text \<open>A read that delivers bytes, or the end of the file.\<close>

lemma round_data:
  assumes J: "J I s" and open_lim: "\<not> (cpy_cnt s \<noteq> 0 \<and> cpy_cnt s \<le> unat (in_full (st s) + in_part (st s)))"
    and rd: "read_src (dbsz (inp s)) (src s) = (RData bs, es)" and clear: "sync_clear s = Ret (s\<lparr>inbuf := b\<rparr>)"
    and b: "length b = length (inbuf s)" "take (dbp (inp s)) b = take (dbp (inp s)) (inbuf s)"
      "C_SYNC \<in> ddflags s \<longrightarrow> take (dbsz (inp s)) (drop (dbp (inp s)) b) = replicate (dbsz (inp s)) (sync_pad s)"
  shows "outcome_sat (advanced I s) (out_exit (emit (I @ concat (blocks s)))) (dd_in_round now s)"
proof -
  note room = J_room [OF J]
  let ?n = "dbsz (inp s)" and ?p = "dbp (inp s)"
  have lim: "limit s \<noteq> Some 0" using limit_open(1) room open_lim by blast
  note rb = read_src_blocks [OF rd, of "limit s" "C_NOERROR \<in> ddflags s" "pad_opt s"]
  show ?thesis
  proof (cases bs)
    case Nil
    let ?t = "upd_in (\<lambda>io. io\<lparr>dbrcnt := 0\<rparr>) (s\<lparr>inbuf := b, src := es\<rparr>)"
    have "dd_in_round now s = Ret (False, ?t)"
      using open_lim rd by (simp add: dd_in_round_def clear Nil del: de_Morgan_conj)
    moreover have "quiet s ?t" using b by (simp add: quiet_def upd_in_def)
    moreover have "blocks s = []" using rb room lim Nil by (simp add: blocks_def)
    ultimately show ?thesis using J_quiet [OF J] by (simp add: advanced_def)
  next
    case (Cons c cs)
    then have ne: "bs \<noteq> []" and len: "length bs \<le> ?n" and sz: "src_size es < src_size (src s)"
      and bl: "blocks s = pad_to ?n (pad_opt s) bs
          # in_blocks ?n (C_NOERROR \<in> ddflags s) (pad_opt s) (dec (limit s)) es"
      using rb room lim by (simp_all add: blocks_def)
    let ?b = "take ?p b @ bs @ drop (?p + length bs) b"
    have wr: "mem_write b ?p bs = Some ?b" using room len b(1) by simp
    have lb: "length ?b = length (inbuf s)" using room len b(1) by simp
    let ?pb = "pad_to ?n (pad_opt s) bs"
    let ?f = "if length bs = ?n then full_block else part_block"
    have lp: "length ?pb = (if length bs = ?n \<or> C_SYNC \<notin> ddflags s then length bs else ?n)"
      using len by (simp add: pad_to_def pad_opt_def)
    have same: "s\<lparr>src := es, stderr := stderr s, inbuf := ?b\<rparr> = s\<lparr>src := es, inbuf := ?b\<rparr>" by simp
    have run: "dd_in_round now s = bindo (deliver (count_in (length ?pb) ?f (s\<lparr>src := es, stderr := stderr s, inbuf := ?b\<rparr>)))
        (\<lambda>u. Ret (True, u))"
      using dd_in_round_data [OF open_lim clear rd ne wr] by (simp only: lp same)
    have "take (?p + length ?pb) ?b = take ?p (inbuf s) @ ?pb"
    proof (cases "C_SYNC \<in> ddflags s")
      case True
      have "take (?n - length bs) (drop (?p + length bs) b) = drop (length bs) (take ?n (drop ?p b))"
        by (simp add: drop_take add.commute)
      also have "\<dots> = replicate (?n - length bs) (sync_pad s)" using True b(3) by simp
      finally show ?thesis
        using True room len b by (simp add: pad_to_def pad_opt_def)
    qed (use room len b in \<open>simp add: pad_to_def pad_opt_def\<close>)
    moreover have "?pb \<noteq> []" using ne by (simp add: pad_to_def split: option.split)
    moreover have "length ?pb \<le> ?n" using lp len by (simp split: if_splits)
    moreover have "?f = full_block \<or> ?f = part_block" by simp
    ultimately show ?thesis
      unfolding run using lb sz read_src_errors [OF rd] by (intro round_block [OF J open_lim bl])
  qed
qed

lemma round_sat:
  assumes J: "J I s"
  shows "outcome_sat (advanced I s) (out_exit (emit (I @ concat (blocks s)))) (dd_in_round now s)"
proof (cases "cpy_cnt s \<noteq> 0 \<and> cpy_cnt s \<le> unat (in_full (st s) + in_part (st s))")
  case True
  then show ?thesis using J limit_closed by (simp add: dd_in_round_def advanced_def)
next
  case False
  note room = J_room [OF J]
  obtain b where b: "sync_clear s = Ret (s\<lparr>inbuf := b\<rparr>)" "length b = length (inbuf s)"
      "take (dbp (inp s)) b = take (dbp (inp s)) (inbuf s)"
      "C_SYNC \<in> ddflags s \<longrightarrow> take (dbsz (inp s)) (drop (dbp (inp s)) b) = replicate (dbsz (inp s)) (sync_pad s)"
    using sync_clear_quiet [of s] room by blast
  show ?thesis
  proof (cases "read_src (dbsz (inp s)) (src s)")
    case (Pair r es)
    show ?thesis
    proof (cases r)
      case (RData bs)
      with Pair show ?thesis by (intro round_data [OF J False _ b]) simp
    next
      case (RFail e)
      with Pair have "src s = ReadError e # es" by (intro read_src_fail) simp
      then show ?thesis by (rule round_error [OF J False _ b])
    qed
  qed
qed

lemma dd_in_loop_sat:
  assumes "J I s" and "src_size (src s) < fuel"
  shows "outcome_sat (J (I @ concat (blocks s))) (out_exit (emit (I @ concat (blocks s))))
    (dd_in_loop fuel now s)"
  using assms
proof (induction fuel arbitrary: I s)
  case (Suc fuel)
  show ?case
    unfolding dd_in_loop.simps
  proof (rule outcome_sat_bind [OF round_sat [OF Suc.prems(1)]], goal_cases)
    case (1 r)
    obtain go t where r: "r = (go, t)" by (cases r)
    show ?case
    proof (cases go)
      case True
      then obtain I' where "src_size (src t) < src_size (src s)" "J I' t"
          "I @ concat (blocks s) = I' @ concat (blocks t)"
        using 1 by (auto simp: r advanced_def)
      then show ?thesis using Suc.IH [of I' t] Suc.prems(2) True by (simp add: r)
    next
      case False
      with 1 show ?thesis by (simp add: r advanced_def)
    qed
  qed
qed simp

text \<open>
  The read loop returns with everything read and counted, or exits with a prefix written.
\<close>

theorem dd_in_sat:
  "J I s \<Longrightarrow> outcome_sat (J (I @ concat (blocks s))) (out_exit (emit (I @ concat (blocks s)))) (dd_in now s)"
  unfolding dd_in_def by (rule dd_in_loop_sat) simp_all

end

end
