(* ===== verification/DdInv.thy ===== *)
theory DdInv
  imports DdRead
begin

text \<open>
  What the conversions share: the logical output (what has been written, what is pending and
  what stands in the output buffer), and what writing keeps of it.
\<close>

subsection \<open>The configuration of a run\<close>

definition same_cfg :: "dd \<Rightarrow> dd \<Rightarrow> bool" where
  "same_cfg s t \<longleftrightarrow> ddflags t = ddflags s \<and> cbsz t = cbsz s \<and> ctab t = ctab s \<and> cfunc t = cfunc s
     \<and> shared t = shared s \<and> cpy_cnt t = cpy_cnt s \<and> files_cnt t = files_cnt s
     \<and> dbsz (inp t) = dbsz (inp s) \<and> dbsz (outp t) = dbsz (outp s) \<and> fd (outp t) = fd (outp s)
     \<and> fsync_err t = fsync_err s \<and> close_ok t = close_ok s \<and> oseek t = oseek s"

lemma same_cfg_refl [simp]: "same_cfg s s"
  by (simp add: same_cfg_def)

lemma same_cfg_trans: "same_cfg s t \<Longrightarrow> same_cfg t u \<Longrightarrow> same_cfg s u"
  by (simp add: same_cfg_def)

lemma same_cfgD:
  assumes "same_cfg s t"
  shows "ddflags t = ddflags s" "cbsz t = cbsz s" "ctab t = ctab s" "cfunc t = cfunc s"
    "shared t = shared s" "cpy_cnt t = cpy_cnt s" "dbsz (inp t) = dbsz (inp s)"
    "dbsz (outp t) = dbsz (outp s)" "fd (outp t) = fd (outp s)" "fsync_err t = fsync_err s"
    "close_ok t = close_ok s"
  using assms by (simp_all add: same_cfg_def)

lemma same_cfg_xlat: "same_cfg s t \<Longrightarrow> xlat t = xlat s"
  by (simp add: same_cfg_def xlat_def)

lemma out_frame_cfg: "out_frame s t \<Longrightarrow> same_cfg s t"
  by (simp add: out_frame_def same_cfg_def)

subsection \<open>The logical output\<close>

definition logical :: "dd \<Rightarrow> byte list" where
  "logical s = emitted s @ take (dbcnt (outp s)) (obuf s)"

definition counted :: "dd \<Rightarrow> u64" where
  "counted s = acct s + of_nat (dbcnt (outp s))"

text \<open>
  What writing blocks keeps: the logical output and its count, and everything on the input
  side.
\<close>

definition written :: "dd \<Rightarrow> dd \<Rightarrow> bool" where
  "written s t \<longleftrightarrow> logical t = logical s \<and> counted t = counted s \<and> out_wf t \<and> file_ok t
     \<and> dbp (outp t) = dbcnt (outp t) \<and> dbcnt (outp t) < dbsz (outp t)
     \<and> length (obuf t) = length (obuf s) \<and> same_cfg s t \<and> reader_same s t \<and> inp t = inp s
     \<and> intrunc t = intrunc s \<and> (\<not> shared s \<longrightarrow> inbuf t = inbuf s)"

lemma writtenD:
  assumes "written s t"
  shows "logical t = logical s" "counted t = counted s" "out_wf t" "file_ok t"
    "dbp (outp t) = dbcnt (outp t)" "dbcnt (outp t) < dbsz (outp t)"
    "length (obuf t) = length (obuf s)" "same_cfg s t" "reader_same s t" "inp t = inp s"
    "intrunc t = intrunc s" "\<not> shared s \<Longrightarrow> inbuf t = inbuf s"
  using assms unfolding written_def by blast+

lemma flushed_written:
  assumes "flushed s t" and "file_ok t"
  shows "written s t"
proof -
  let ?d = "dbcnt (outp s)" and ?e = "dbcnt (outp t)"
  have e: "?e \<le> ?d" "?e < dbsz (outp s)" and o: "outp t = (outp s)\<lparr>dbcnt := ?e, dbp := ?e\<rparr>"
    and fr: "out_frame (set_obuf (obuf t) (s\<lparr>outp := outp t\<rparr>)) t"
    and len: "length (obuf t) = length (obuf s)"
    and tk: "take ?e (obuf t) = drop (?d - ?e) (take ?d (obuf s))" and em: "emits s 0 (?d - ?e) t"
    using assms(1) by (simp_all add: flushed_def Let_def)
  have io: "dbsz (outp t) = dbsz (outp s)" "fd (outp t) = fd (outp s)" "dbp (outp t) = ?e"
    by (subst o, simp)+
  have "take (?d - ?e) (obuf s) = take (?d - ?e) (take ?d (obuf s))" by (simp add: min_def)
  then have "logical t = logical s"
    using em tk by (simp add: logical_def emits_def del: take_take)
  moreover have "counted t = counted s"
    using em e by (simp add: counted_def emits_def)
  moreover have "same_cfg s t \<and> reader_same s t \<and> inp t = inp s \<and> intrunc t = intrunc s
      \<and> (\<not> shared s \<longrightarrow> inbuf t = inbuf s)"
    using fr io by (simp add: out_frame_def same_cfg_def reader_same_def set_obuf_def split: if_split_asm)
  ultimately show ?thesis
    using em e len io assms(2) by (simp add: written_def emits_def)
qed

lemma dd_out_written:
  assumes "out_wf s" and "file_ok s" and "dbcnt (outp s) \<le> length (obuf s)"
    and "force \<and> 0 < dbcnt (outp s) \<or> dbsz (outp s) \<le> dbcnt (outp s) \<and> dbp (outp s) = dbcnt (outp s)"
  shows "outcome_sat (\<lambda>t. written s t \<and> (force \<longrightarrow> dbcnt (outp t) = 0 \<and> pending t = 0))
    (out_exit (logical s)) (dd_out force s)"
proof -
  have f: "pend_ok s" "tight s" and pos: "0 < dbcnt (outp s)"
    and mode: "force \<or> dbsz (outp s) \<le> dbcnt (outp s) \<and> dbp (outp s) = dbcnt (outp s)"
    using assms by (auto simp: file_ok_def out_wf_def)
  show ?thesis
    using dd_out_sat [OF assms(1,3) mode] unfolding logical_def
  proof (rule outcome_sat_Ret)
    fix t assume t: "dd_out force s = Ret t" and fl: "flushed s t \<and> (force \<longrightarrow> dbcnt (outp t) = 0)"
    have "tight t \<and> (force \<longrightarrow> pending t = 0)" by (rule dd_out_tight [OF t assms(1) f pos])
    moreover have "pend_ok t" by (rule dd_out_pend [OF t f(1)])
    ultimately show "written s t \<and> (force \<longrightarrow> dbcnt (outp t) = 0 \<and> pending t = 0)"
      using fl flushed_written by (auto simp: file_ok_def)
  qed
qed

lemma ofile_logical: "prefix (ofile s) (logical s)"
  by (simp add: logical_def emitted_def prefix_def)

end
