(* ===== verification/DdCopy.thy ===== *)
theory DdCopy
  imports DdInv
begin

text \<open>
  Plain copying: \<open>def\<close> through the single shared buffer, and the unbuffered \<open>bs=\<close> path.
\<close>

lemma upd_in_keeps [simp]:
  "emitted (upd_in f s) = emitted s" "acct (upd_in f s) = acct s" "obuf (upd_in f s) = obuf s"
  "logical (upd_in f s) = logical s" "counted (upd_in f s) = counted s"
  "out_wf (upd_in f s) = out_wf s" "file_ok (upd_in f s) = file_ok s"
  "inp (upd_in f s) = f (inp s)" "outp (upd_in f s) = outp s" "st (upd_in f s) = st s"
  "cfunc (upd_in f s) = cfunc s" "cpy_cnt (upd_in f s) = cpy_cnt s" "src (upd_in f s) = src s"
  "pending (upd_in f s) = pending s" "ddflags (upd_in f s) = ddflags s" "cbsz (upd_in f s) = cbsz s"
  "ctab (upd_in f s) = ctab s" "intrunc (upd_in f s) = intrunc s" "inbuf (upd_in f s) = inbuf s"
  "shared (upd_in f s) = shared s" "xlat (upd_in f s) = xlat s"
  by (simp_all add: upd_in_def emitted_def acct_def obuf_def logical_def counted_def out_wf_def
      file_ok_def tight_def pend_ok_def whole_writes_def xlat_def)

lemma same_cfg_upd_in [simp]:
  "dbsz (f (inp t)) = dbsz (inp t) \<Longrightarrow> same_cfg s (upd_in f t) = same_cfg s t"
  by (simp add: same_cfg_def upd_in_def)

lemma reader_same_upd_in [simp]:
  "dbsz (f (inp t)) = dbsz (inp t) \<Longrightarrow> reader_same s (upd_in f t) = reader_same s t"
  by (simp add: reader_same_def upd_in_def)

lemma reader_same_trans: "reader_same s t \<Longrightarrow> reader_same t u \<Longrightarrow> reader_same s u"
  by (simp add: reader_same_def)

subsection \<open>Translation in place\<close>

lemma translate_ok:
  assumes "dbp (inp s) = length pre + length bs" "dbrcnt (inp s) = length bs"
    and "take (length pre + length bs) (inbuf s) = pre @ bs"
    and "length pre + length bs \<le> length (inbuf s)"
  shows "\<exists>b. translate s = Ret (s\<lparr>inbuf := b\<rparr>) \<and> length b = length (inbuf s)
    \<and> take (length pre + length bs) b = pre @ map (xlat s) bs"
proof (cases "ctab s")
  case None
  then have "translate s = Ret s" "xlat s = (\<lambda>c. c)"
    by (simp_all add: translate_def xlat_def)
  then show ?thesis using assms by (intro exI [of _ "inbuf s"]) simp
next
  case (Some t)
  obtain post where post: "inbuf s = pre @ bs @ post"
    using assms(3) by (metis append_take_drop_id append_assoc)
  then have rd: "mem_read (inbuf s) (length pre) (length bs) = Some bs" by simp
  moreover have "mem_write (inbuf s) (length pre) (map t bs) = Some (pre @ map t bs @ post)"
    by (simp add: post)
  ultimately have "translate s = Ret (s\<lparr>inbuf := pre @ map t bs @ post\<rparr>)"
    using assms(1,2) by (simp add: translate_def Some)
  then show ?thesis
    by (intro exI [of _ "pre @ map t bs @ post"]) (simp add: post Some xlat_def)
qed

subsection \<open>What reading does to the state\<close>

lemma quiet_obtain:
  assumes "quiet s t"
  obtains a m b d where "t = s\<lparr>src := a, stderr := m, inbuf := b, inp := (inp s)\<lparr>dbrcnt := d\<rparr>\<rparr>"
    and "length b = length (inbuf s)" and "take (dbp (inp s)) b = take (dbp (inp s)) (inbuf s)"
  using assms unfolding quiet_def by blast

lemma reads_obtain:
  assumes "reads s bs t"
  obtains a m b x y where "t = s\<lparr>src := a, stderr := m, inbuf := b,
      st := (st s)\<lparr>in_full := x, in_part := y\<rparr>,
      inp := (inp s)\<lparr>dbcnt := dbcnt (inp s) + length bs, dbrcnt := length bs\<rparr>\<rparr>"
    and "length b = length (inbuf s)"
    and "take (dbp (inp s) + length bs) b = take (dbp (inp s)) (inbuf s) @ bs"
  using assms unfolding reads_def by blast

lemma take_le_cong: "take n xs = take n ys \<Longrightarrow> m \<le> n \<Longrightarrow> take m xs = take m ys"
  by (metis min.absorb1 take_take)

lemma count_more:
  "(a :: u64) + of_nat d = c + of_nat n \<Longrightarrow> a + of_nat (d + b) = c + of_nat (n + b)"
  by (simp add: add.assoc [symmetric])

subsection \<open>The buffered copy\<close>

definition copy_inv :: "dd \<Rightarrow> byte list \<Rightarrow> dd \<Rightarrow> bool" where
  "copy_inv s0 I s \<longleftrightarrow> same_cfg s0 s \<and> out_wf s \<and> file_ok s \<and> cfunc s = Def \<and> C_BS \<notin> ddflags s
     \<and> shared s \<and> 0 < dbsz (inp s) \<and> cpy_cnt s < 2 ^ 64
     \<and> dbp (inp s) = dbcnt (inp s) \<and> dbp (outp s) = dbcnt (inp s) \<and> dbcnt (outp s) = dbcnt (inp s)
     \<and> dbcnt (inp s) < dbsz (outp s) \<and> dbsz (outp s) + dbsz (inp s) \<le> length (inbuf s) + 1
     \<and> logical s = emitted s0 @ map (xlat s0) I
     \<and> counted s = acct s0 + of_nat (length I)"

lemma copy_invD:
  assumes "copy_inv s0 I s"
  shows "same_cfg s0 s" "out_wf s" "file_ok s" "cfunc s = Def" "C_BS \<notin> ddflags s" "shared s"
    "dbcnt (outp s) = dbcnt (inp s)"
  using assms unfolding copy_inv_def by blast+

lemma copy_quiet:
  assumes J: "copy_inv s0 I s" and t: "quiet s t"
  shows "copy_inv s0 I t"
proof -
  obtain a m b d where t: "t = s\<lparr>src := a, stderr := m, inbuf := b, inp := (inp s)\<lparr>dbrcnt := d\<rparr>\<rparr>"
    and b: "length b = length (inbuf s)" "take (dbp (inp s)) b = take (dbp (inp s)) (inbuf s)"
    using t by (rule quiet_obtain)
  have "logical t = logical s" "counted t = counted s" "same_cfg s t" "out_wf t = out_wf s"
      "file_ok t = file_ok s"
    using J b by (simp_all add: t logical_def counted_def emitted_def acct_def obuf_def copy_inv_def
        same_cfg_def out_wf_def file_ok_def tight_def pend_ok_def whole_writes_def)
  moreover have "same_cfg s0 t" using J \<open>same_cfg s t\<close> by (auto simp: copy_inv_def intro: same_cfg_trans)
  ultimately show ?thesis using J b(1) by (simp add: copy_inv_def t)
qed

text \<open>The state \<open>def\<close> hands to \<open>dd_out\<close>: the whole region is the output buffer.\<close>

lemma copy_deliver:
  assumes J: "copy_inv s0 I s" and t: "reads s bs t" and len: "length bs \<le> dbsz (inp s)"
  shows "outcome_sat (\<lambda>u. copy_inv s0 (I @ bs) u \<and> reader_same t u)
    (out_exit (emitted s0 @ map (xlat s0) (I @ bs))) (deliver t)"
proof -
  let ?d = "dbcnt (inp s)"
  obtain a m b x y where t: "t = s\<lparr>src := a, stderr := m, inbuf := b,
      st := (st s)\<lparr>in_full := x, in_part := y\<rparr>,
      inp := (inp s)\<lparr>dbcnt := ?d + length bs, dbrcnt := length bs\<rparr>\<rparr>"
    and b: "length b = length (inbuf s)" "take (dbp (inp s) + length bs) b = take (dbp (inp s)) (inbuf s) @ bs"
    using t by (rule reads_obtain)
  let ?pre = "take ?d (inbuf s)"
  let ?u = "upd_in (\<lambda>io. io\<lparr>dbp := dbp io + dbrcnt io\<rparr>) t"
  have pre: "length ?pre = ?d" and room: "?d + length bs \<le> length (inbuf s)"
    using J len by (simp_all add: copy_inv_def)
  obtain c where c: "translate ?u = Ret (?u\<lparr>inbuf := c\<rparr>)" "length c = length (inbuf s)"
      "take (?d + length bs) c = ?pre @ map (xlat ?u) bs"
    using translate_ok [of ?u ?pre bs] J b room pre by (auto simp: t upd_in_def copy_inv_def)
  have x: "xlat ?u = xlat s0"
    using J by (simp add: t upd_in_def xlat_def copy_inv_def same_cfg_def)
  let ?v = "upd_out (\<lambda>io. io\<lparr>dbp := ?d + length bs, dbcnt := ?d + length bs\<rparr>) (?u\<lparr>inbuf := c\<rparr>)"
  have flags: "C_BS \<notin> ddflags t" "cfunc t = Def" using J by (simp_all add: t copy_inv_def)
  have run: "deliver t = (if dbsz (outp s) \<le> ?d + length bs then
             bindo (dd_out False ?v) (\<lambda>s3.
               Ret (upd_in (\<lambda>io. io\<lparr>dbp := dbp (outp s3), dbcnt := dbcnt (outp s3)\<rparr>) s3))
           else Ret ?v)"
  proof -
    have "cfunc ?u = Def" using flags by (simp add: upd_in_def)
    then have "deliver t = dd_def ?u" using flags by (simp add: deliver_def run_conv_def)
    also have "\<dots> = (let s2 = ?v in if dbsz (outp s2) \<le> dbcnt (inp s2) then
             bindo (dd_out False s2) (\<lambda>s3.
               Ret (upd_in (\<lambda>io. io\<lparr>dbp := dbp (outp s3), dbcnt := dbcnt (outp s3)\<rparr>) s3))
           else Ret s2)"
      using J by (simp only: dd_def_def c(1) bindo.simps) (simp add: t upd_in_def copy_inv_def)
    finally show ?thesis by (simp add: Let_def) (simp add: t upd_in_def upd_out_def)
  qed
  have v: "logical ?v = emitted s0 @ map (xlat s0) (I @ bs)"
      "counted ?v = acct s0 + of_nat (length (I @ bs))" "out_wf ?v" "file_ok ?v" "same_cfg s0 ?v"
      "reader_same t ?v"
  proof -
    have keep: "emitted ?v = emitted s" "acct ?v = acct s" "file_ok ?v = file_ok s" "out_wf ?v = out_wf s"
        "same_cfg s ?v" "shared ?v = shared s" "inbuf ?v = c" "dbcnt (outp ?v) = ?d + length bs"
      by (simp_all add: t emitted_def acct_def upd_in_def upd_out_def out_wf_def file_ok_def tight_def pend_ok_def
          whole_writes_def same_cfg_def)
    have "?pre = take (dbcnt (outp s)) (obuf s)" and sh: "shared s"
      using J by (simp_all add: copy_inv_def obuf_def)
    then have "emitted s @ ?pre = emitted s0 @ map (xlat s0) I"
      using J unfolding copy_inv_def logical_def by (elim conjE) simp
    moreover have "logical ?v = emitted s @ ?pre @ map (xlat s0) bs"
      unfolding logical_def keep obuf_def using sh by (simp only: c(3) x if_True append_assoc keep)
    ultimately show "logical ?v = emitted s0 @ map (xlat s0) (I @ bs)"
      by (simp only: map_append append_assoc [symmetric])
    show "counted ?v = acct s0 + of_nat (length (I @ bs))"
    proof -
      have "acct s + of_nat ?d = acct s0 + of_nat (length I)"
        using J unfolding copy_inv_def counted_def by (elim conjE) simp
      then show ?thesis unfolding counted_def keep length_append by (rule count_more)
    qed
    have j: "out_wf s" "file_ok s" "same_cfg s0 s" using J by (simp_all add: copy_inv_def)
    show "out_wf ?v" "file_ok ?v" unfolding keep by (rule j)+
    show "same_cfg s0 ?v" by (rule same_cfg_trans [OF j(3) keep(5)])
    show "reader_same t ?v" by (simp add: reader_same_def upd_in_def upd_out_def)
  qed
  show ?thesis
  proof (cases "dbsz (outp s) \<le> ?d + length bs")
    case False
    then have "copy_inv s0 (I @ bs) ?v"
      using J v c by (simp add: copy_inv_def)
        (simp add: t upd_in_def upd_out_def)
    with False v show ?thesis by (simp add: run)
  next
    case True
    have "outcome_sat (\<lambda>w. written ?v w \<and> (False \<longrightarrow> dbcnt (outp w) = 0 \<and> pending w = 0))
        (out_exit (logical ?v)) (dd_out False ?v)"
      using v c J room True by (intro dd_out_written) (simp_all add: copy_inv_def t upd_in_def upd_out_def obuf_def)
    then have w: "outcome_sat (written ?v) (out_exit (emitted s0 @ map (xlat s0) (I @ bs))) (dd_out False ?v)"
      by (rule outcome_sat_mono) (simp_all only: v)
    have after: "copy_inv s0 (I @ bs) (upd_in (\<lambda>io. io\<lparr>dbp := dbp (outp w), dbcnt := dbcnt (outp w)\<rparr>) w)
        \<and> reader_same t (upd_in (\<lambda>io. io\<lparr>dbp := dbp (outp w), dbcnt := dbcnt (outp w)\<rparr>) w)"
      if w: "written ?v w" for w
    proof -
      let ?w = "upd_in (\<lambda>io. io\<lparr>dbp := dbp (outp w), dbcnt := dbcnt (outp w)\<rparr>) w"
      note d = writtenD [OF w]
      note cfg = same_cfg_trans [OF v(5) d(8)] and rd = reader_same_trans [OF v(6) d(9)]
      have "shared ?v" "obuf ?v = c" using J by (simp_all add: copy_inv_def obuf_def t upd_in_def upd_out_def)
      then have "shared w" "length (inbuf w) = length (inbuf s)"
        using same_cfgD(5) [OF d(8)] d(7) c(2) by (simp_all add: obuf_def)
      moreover have "cfunc w = Def" "C_BS \<notin> ddflags w" "dbsz (inp w) = dbsz (inp s)"
          "dbsz (outp w) = dbsz (outp s)" "cpy_cnt w = cpy_cnt s"
        using same_cfgD [OF cfg] same_cfgD [OF copy_invD(1) [OF J]] copy_invD(4,5) [OF J] by simp_all
      moreover have "logical w = emitted s0 @ map (xlat s0) (I @ bs)"
          "counted w = acct s0 + of_nat (length (I @ bs))"
        by (simp_all only: d(1,2) v(1,2))
      ultimately show ?thesis using J d(3-6) cfg rd
        by (simp add: copy_inv_def)
    qed
    then show ?thesis using True unfolding run
      by (simp del: map_append) (rule outcome_sat_bind [OF w], simp)
  qed
qed

interpretation copy: dd_conversion "copy_inv s0" "\<lambda>I. emitted s0 @ map (xlat s0) I" for s0
proof
  fix I bs s t
  show "prefix (emitted s0 @ map (xlat s0) I) (emitted s0 @ map (xlat s0) (I @ bs))" by simp
  show "0 < dbsz (inp s) \<and> cpy_cnt s < 2 ^ 64 \<and> dbp (inp s) + dbsz (inp s) \<le> length (inbuf s)"
    if "copy_inv s0 I s" using that by (simp add: copy_inv_def)
  show "prefix (ofile s) (emitted s0 @ map (xlat s0) I)" if "copy_inv s0 I s"
    using that ofile_logical [of s] by (simp add: copy_inv_def)
  show "copy_inv s0 I t" if "copy_inv s0 I s" "quiet s t" using that by (rule copy_quiet)
  show "outcome_sat (\<lambda>u. copy_inv s0 (I @ bs) u \<and> reader_same t u)
      (out_exit (emitted s0 @ map (xlat s0) (I @ bs))) (deliver t)"
    if "copy_inv s0 I s" "reads s bs t" "bs \<noteq> []" "length bs \<le> dbsz (inp s)"
    using that by (intro copy_deliver) auto
qed

subsection \<open>The unbuffered copy\<close>

definition direct_inv :: "dd \<Rightarrow> byte list \<Rightarrow> dd \<Rightarrow> bool" where
  "direct_inv s0 I s \<longleftrightarrow> same_cfg s0 s \<and> out_wf s \<and> file_ok s \<and> cfunc s = Def \<and> C_BS \<in> ddflags s
     \<and> shared s \<and> 0 < dbsz (inp s) \<and> cpy_cnt s < 2 ^ 64
     \<and> dbp (inp s) = 0 \<and> dbcnt (inp s) = 0 \<and> dbp (outp s) = 0 \<and> dbcnt (outp s) = 0
     \<and> dbsz (inp s) \<le> length (inbuf s) \<and> dbsz (outp s) \<le> length (inbuf s)
     \<and> logical s = emitted s0 @ I \<and> counted s = acct s0 + of_nat (length I)"

lemma direct_invD:
  assumes "direct_inv s0 I s"
  shows "same_cfg s0 s" "out_wf s" "file_ok s" "cfunc s = Def" "C_BS \<in> ddflags s" "shared s"
    "dbcnt (outp s) = 0" "logical s = emitted s0 @ I" "counted s = acct s0 + of_nat (length I)"
    "dbp (inp s) = 0" "dbcnt (inp s) = 0"
  using assms unfolding direct_inv_def by blast+

lemma direct_quiet:
  assumes J: "direct_inv s0 I s" and t: "quiet s t"
  shows "direct_inv s0 I t"
proof -
  obtain a m b d where t: "t = s\<lparr>src := a, stderr := m, inbuf := b, inp := (inp s)\<lparr>dbrcnt := d\<rparr>\<rparr>"
    and b: "length b = length (inbuf s)" "take (dbp (inp s)) b = take (dbp (inp s)) (inbuf s)"
    using t by (rule quiet_obtain)
  have "logical t = logical s" "counted t = counted s" "same_cfg s t" "out_wf t = out_wf s"
      "file_ok t = file_ok s"
    using J b by (simp_all add: t logical_def counted_def emitted_def acct_def obuf_def direct_inv_def
        same_cfg_def out_wf_def file_ok_def tight_def pend_ok_def whole_writes_def)
  moreover have "same_cfg s0 t" using direct_invD(1) [OF J] \<open>same_cfg s t\<close> by (rule same_cfg_trans)
  ultimately show ?thesis using J b(1) by (simp add: direct_inv_def t)
qed

lemma direct_deliver:
  assumes J: "direct_inv s0 I s" and t: "reads s bs t" and ne: "bs \<noteq> []" and len: "length bs \<le> dbsz (inp s)"
  shows "outcome_sat (\<lambda>u. direct_inv s0 (I @ bs) u \<and> reader_same t u)
    (out_exit (emitted s0 @ (I @ bs))) (deliver t)"
proof -
  obtain a m b x y where t: "t = s\<lparr>src := a, stderr := m, inbuf := b,
      st := (st s)\<lparr>in_full := x, in_part := y\<rparr>,
      inp := (inp s)\<lparr>dbcnt := dbcnt (inp s) + length bs, dbrcnt := length bs\<rparr>\<rparr>"
    and b: "length b = length (inbuf s)" "take (dbp (inp s) + length bs) b = take (dbp (inp s)) (inbuf s) @ bs"
    using t by (rule reads_obtain)
  have tk: "take (length bs) b = bs" using b(2) direct_invD(10) [OF J] by simp
  let ?v = "upd_out (\<lambda>io. io\<lparr>dbcnt := length bs\<rparr>) t"
  have run: "deliver t = bindo (dd_out True ?v) (\<lambda>w. Ret (upd_in (\<lambda>io. io\<lparr>dbcnt := 0\<rparr>) w))"
  proof -
    have "C_BS \<in> ddflags t" "dbcnt (inp t) = length bs"
      using direct_invD(5,11) [OF J] by (simp_all add: t)
    then show ?thesis by (simp add: deliver_def)
  qed
  have keep: "emitted ?v = emitted s" "acct ?v = acct s" "file_ok ?v = file_ok s" "out_wf ?v = out_wf s"
      "same_cfg s ?v" "shared ?v = shared s" "inbuf ?v = b" "dbcnt (outp ?v) = length bs"
    by (simp_all add: t emitted_def acct_def upd_out_def out_wf_def file_ok_def tight_def pend_ok_def
        whole_writes_def same_cfg_def)
  have s: "emitted s = emitted s0 @ I" "acct s = acct s0 + of_nat (length I)"
    using direct_invD(7-9) [OF J] by (simp_all add: logical_def counted_def)
  have ob: "obuf ?v = b" using keep(6,7) direct_invD(6) [OF J] by (simp add: obuf_def)
  have v: "logical ?v = emitted s0 @ (I @ bs)" "counted ?v = acct s0 + of_nat (length (I @ bs))"
    unfolding logical_def counted_def keep ob tk by (simp_all add: s)
  have v': "out_wf ?v" "file_ok ?v" "same_cfg s0 ?v" "reader_same t ?v"
    using direct_invD(2,3) [OF J] same_cfg_trans [OF direct_invD(1) [OF J] keep(5)]
    by (simp_all only: keep) (simp add: reader_same_def upd_out_def)
  have "outcome_sat (\<lambda>w. written ?v w \<and> (True \<longrightarrow> dbcnt (outp w) = 0 \<and> pending w = 0)) (out_exit (logical ?v)) (dd_out True ?v)"
  proof (rule dd_out_written [OF v'(1,2)])
    show "dbcnt (outp ?v) \<le> length (obuf ?v)"
      using b len J unfolding keep ob by (simp add: direct_inv_def)
  qed (use ne keep(8) in simp)
  then have w: "outcome_sat (\<lambda>w. written ?v w \<and> dbcnt (outp w) = 0) (out_exit (emitted s0 @ (I @ bs))) (dd_out True ?v)"
    by (rule outcome_sat_mono) (simp_all only: v HOL.simp_thms)
  have after: "direct_inv s0 (I @ bs) (upd_in (\<lambda>io. io\<lparr>dbcnt := 0\<rparr>) w)
      \<and> reader_same t (upd_in (\<lambda>io. io\<lparr>dbcnt := 0\<rparr>) w)"
    if w: "written ?v w" and z: "dbcnt (outp w) = 0" for w
  proof -
    note d = writtenD [OF w]
    note cfg = same_cfg_trans [OF v'(3) d(8)] and rd = reader_same_trans [OF v'(4) d(9)]
    have "shared w" "length (inbuf w) = length (inbuf s)"
      using same_cfgD(5) [OF d(8)] d(7) b(1) keep(6) direct_invD(6) [OF J] by (simp_all add: obuf_def keep(7))
    moreover have "cfunc w = Def" "C_BS \<in> ddflags w" "dbsz (inp w) = dbsz (inp s)"
        "dbsz (outp w) = dbsz (outp s)" "cpy_cnt w = cpy_cnt s"
      using same_cfgD [OF cfg] same_cfgD [OF direct_invD(1) [OF J]] direct_invD(4,5) [OF J] by simp_all
    moreover have "logical w = emitted s0 @ (I @ bs)"
        "counted w = acct s0 + of_nat (length (I @ bs))"
      by (simp_all only: d(1,2) v(1,2))
    moreover have "dbp (inp w) = 0" "dbp (outp w) = 0"
      using d(5,10) z direct_invD(10) [OF J] by (simp_all add: t upd_out_def)
    ultimately show ?thesis using J d(3,4) cfg rd z
      by (simp add: direct_inv_def)
  qed
  show ?thesis
    unfolding run by (rule outcome_sat_bind [OF w]) (use after in simp)
qed

interpretation direct: dd_conversion "direct_inv s0" "\<lambda>I. emitted s0 @ I" for s0
proof
  fix I bs s t
  show "prefix (emitted s0 @ I) (emitted s0 @ (I @ bs))" by simp
  show "0 < dbsz (inp s) \<and> cpy_cnt s < 2 ^ 64 \<and> dbp (inp s) + dbsz (inp s) \<le> length (inbuf s)"
    if "direct_inv s0 I s" using that by (simp add: direct_inv_def)
  show "prefix (ofile s) (emitted s0 @ I)" if "direct_inv s0 I s"
    using that ofile_logical [of s] by (simp add: direct_inv_def)
  show "direct_inv s0 I t" if "direct_inv s0 I s" "quiet s t" using that by (rule direct_quiet)
  show "outcome_sat (\<lambda>u. direct_inv s0 (I @ bs) u \<and> reader_same t u)
      (out_exit (emitted s0 @ I @ bs)) (deliver t)"
    if "direct_inv s0 I s" "reads s bs t" "bs \<noteq> []" "length bs \<le> dbsz (inp s)"
    using direct_deliver [OF that] by simp
qed

end
