(* ===== verification/DdClose.thy ===== *)
theory DdClose
  imports DdCopy
begin

text \<open>
  The end of a run: what \<open>dd_close\<close> adds to the logical output and that the whole of it is
  then in the file, and the run from \<open>main\<close> for every conversion that keeps the interface.
\<close>

subsection \<open>Flushing\<close>

definition out_fill :: "dd \<Rightarrow> byte list" where
  "out_fill s = (if C_OSYNC \<in> ddflags s \<and> dbcnt (outp s) < dbsz (outp s)
     then replicate (dbsz (outp s) - dbcnt (outp s)) 0 else [])"

text \<open>A state ready to be flushed: its output is in order and fits the buffer.\<close>

definition out_ready :: "dd \<Rightarrow> bool" where
  "out_ready s \<longleftrightarrow> out_wf s \<and> file_ok s \<and> dbcnt (outp s) \<le> length (obuf s)
     \<and> dbsz (outp s) \<le> length (obuf s)"

definition in_counts :: "dd \<Rightarrow> u64 \<times> u64" where
  "in_counts s = (in_full (st s), in_part (st s))"

lemma out_ready_set_obuf:
  assumes "out_ready s" and "length b = length (obuf s)" and "n \<le> length (obuf s)"
    and t: "t = upd_out (\<lambda>io. io\<lparr>dbcnt := n, dbp := p io\<rparr>) (set_obuf b s)"
  shows "out_ready t" "logical t = emitted s @ take n b" "counted t = acct s + of_nat n"
    "in_counts t = in_counts s" "pending t = pending s" "dbcnt (outp t) = n" "ddflags t = ddflags s"
    "dbsz (outp t) = dbsz (outp s)"
proof -
  have keep: "file_ok t = file_ok s" "out_wf t = out_wf s" "emitted t = emitted s" "acct t = acct s"
      "in_counts t = in_counts s" "pending t = pending s" "ddflags t = ddflags s"
      "dbsz (outp t) = dbsz (outp s)" "dbcnt (outp t) = n"
    by (simp_all add: t upd_out_def emitted_def acct_def out_wf_def file_ok_def tight_def
        pend_ok_def whole_writes_def in_counts_def)
  have ob: "obuf t = b" by (simp add: t)
  show "out_ready t" using assms(1-3) by (simp add: out_ready_def keep ob)
  show "logical t = emitted s @ take n b" by (simp add: logical_def keep ob)
  show "counted t = acct s + of_nat n" by (simp add: counted_def keep)
qed (simp_all add: t upd_out_def in_counts_def)

lemma osync_fill_sat:
  assumes r: "out_ready s"
    and p: "C_OSYNC \<in> ddflags s \<Longrightarrow> dbcnt (outp s) < dbsz (outp s) \<Longrightarrow> dbp (outp s) = dbcnt (outp s)"
  shows "outcome_sat (\<lambda>t. out_ready t \<and> logical t = logical s @ out_fill s
      \<and> counted t = counted s + of_nat (length (out_fill s)) \<and> in_counts t = in_counts s) E (osync_fill s)"
proof (cases "C_OSYNC \<in> ddflags s \<and> dbcnt (outp s) < dbsz (outp s)")
  case True
  let ?n = "dbcnt (outp s)" and ?z = "replicate (dbsz (outp s) - dbcnt (outp s)) (0 :: byte)"
  let ?b = "take ?n (obuf s) @ ?z @ drop (dbsz (outp s)) (obuf s)"
  have len: "?n < dbsz (outp s)" "dbsz (outp s) \<le> length (obuf s)" using r True by (simp_all add: out_ready_def)
  then have "mem_write (obuf s) (dbp (outp s)) ?z = Some ?b" using p True by simp
  then have run: "osync_fill s = Ret (upd_out (\<lambda>io. io\<lparr>dbcnt := dbsz io\<rparr>) (set_obuf ?b s))"
    using True by (simp add: osync_fill_def)
  have eq: "upd_out (\<lambda>io. io\<lparr>dbcnt := dbsz io\<rparr>) (set_obuf ?b s) =
      upd_out (\<lambda>io. io\<lparr>dbcnt := dbsz (outp s), dbp := dbp io\<rparr>) (set_obuf ?b s)"
    by (simp add: upd_out_def)
  have lb: "length ?b = length (obuf s)" using len by simp
  note f = out_ready_set_obuf [OF r lb len(2) eq]
  have "take (dbsz (outp s)) ?b = take ?n (obuf s) @ ?z" using len by simp
  then have "logical (upd_out (\<lambda>io. io\<lparr>dbcnt := dbsz io\<rparr>) (set_obuf ?b s)) = logical s @ out_fill s"
    using True by (simp only: f(2)) (simp add: logical_def out_fill_def)
  moreover have "acct s + of_nat (dbsz (outp s)) = counted s + of_nat (length (out_fill s))"
    using True by (simp add: counted_def out_fill_def add.assoc)
  ultimately show ?thesis unfolding run using f(1,3,4) by simp
next
  case False
  then have "osync_fill s = Ret s" "out_fill s = []" by (auto simp: osync_fill_def out_fill_def)
  with r show ?thesis by simp
qed

lemma final_sparse_sat:
  assumes r: "out_ready s"
  shows "outcome_sat (\<lambda>t. out_ready t \<and> logical t = logical s \<and> counted t = counted s
      \<and> in_counts t = in_counts s \<and> (dbcnt (outp t) = 0 \<longrightarrow> pending t = 0)) E (final_sparse s)"
proof (cases "dbcnt (outp s) = 0 \<and> pending s \<noteq> 0")
  case True
  let ?n = "dbsz (outp s)"
  let ?b = "replicate ?n 0 @ drop ?n (obuf s)"
  have len: "?n \<le> length (obuf s)" "0 < ?n" using r by (simp_all add: out_ready_def out_wf_def)
  then have "mem_write (obuf s) 0 (replicate ?n 0) = Some ?b" by simp
  moreover define u where "u = upd_out (\<lambda>io. io\<lparr>dbcnt := ?n, dbp := dbsz io\<rparr>) (set_obuf ?b s)"
  ultimately have run: "final_sparse s = Ret (u\<lparr>pending := pending s - int ?n\<rparr>)"
    using True by (simp add: final_sparse_def upd_out_def)
  have lb: "length ?b = length (obuf s)" using len by simp
  note f = out_ready_set_obuf [OF r lb len(1) u_def]
  have sp: "C_SPARSE \<in> ddflags s" "whole_writes s" "pending s mod int ?n = 0" "0 \<le> pending s" "tight s"
    using r True by (auto simp: out_ready_def file_ok_def pend_ok_def out_wf_def split: if_splits)
  then have ge: "int ?n \<le> pending s" using True len(2)
    by (metis dvd_imp_le_int abs_of_nonneg dvd_imp_mod_0 mod_0_imp_dvd of_nat_0_le_iff)
  let ?t = "u\<lparr>pending := pending s - int ?n\<rparr>"
  have "out_ready ?t"
    using f(1,7,8) sp ge
    by (simp add: out_ready_def out_wf_def file_ok_def tight_def pend_ok_def whole_writes_def mod_diff_eq)
  moreover have "logical ?t = logical s"
  proof -
    have n: "nat (pending s) = nat (pending s - int ?n) + ?n" using ge by (simp add: nat_diff_distrib)
    have o: "ofile u = ofile s" "opos u = opos s" "obuf u = ?b" "dbcnt (outp u) = ?n"
      by (simp_all add: u_def upd_out_def obuf_def set_obuf_def)
    have "logical s = ofile s @ replicate (nat (pending s)) 0"
      using True sp(5) by (simp add: logical_def emitted_def tight_def)
    also have "\<dots> = ofile s @ replicate (nat (pending s - int ?n)) 0 @ replicate ?n 0"
      by (simp only: n replicate_add)
    also have "\<dots> = logical ?t"
      using sp(5) o by (simp add: logical_def emitted_def tight_def)
    finally show ?thesis ..
  qed
  moreover have "counted ?t = counted s"
    using f(3) True by (simp add: counted_def acct_def u_def upd_out_def)
  moreover have "in_counts ?t = in_counts s" using f(4) by (simp add: in_counts_def)
  moreover have "dbcnt (outp ?t) \<noteq> 0" using f(6) len(2) by simp
  ultimately show ?thesis unfolding run by simp
next
  case False
  then have "final_sparse s = Ret s" by (auto simp: final_sparse_def)
  with r False show ?thesis by auto
qed

lemma reader_same_counts: "reader_same s t \<Longrightarrow> in_counts t = in_counts s"
  by (simp add: reader_same_def in_counts_def)

lemma last_flush_sat:
  assumes r: "out_ready s" and z: "dbcnt (outp s) = 0 \<longrightarrow> pending s = 0"
  shows "outcome_sat (\<lambda>t. ofile t = logical s \<and> st_bytes (st t) = counted s \<and> in_counts t = in_counts s)
    (out_exit (logical s)) (if dbcnt (outp s) \<noteq> 0 then dd_out True s else Ret s)"
proof (cases "dbcnt (outp s) = 0")
  case True
  then show ?thesis
    using r z by (simp add: logical_def counted_def acct_def emitted_def out_ready_def file_ok_def tight_def)
next
  case False
  have "outcome_sat (\<lambda>t. written s t \<and> (True \<longrightarrow> dbcnt (outp t) = 0 \<and> pending t = 0))
      (out_exit (logical s)) (dd_out True s)"
    by (rule dd_out_written) (use r False in \<open>simp_all add: out_ready_def\<close>)
  then have "outcome_sat (\<lambda>t. ofile t = logical s \<and> st_bytes (st t) = counted s \<and> in_counts t = in_counts s)
      (out_exit (logical s)) (dd_out True s)"
  proof (rule outcome_sat_mono)
    fix t assume t: "written s t \<and> (True \<longrightarrow> dbcnt (outp t) = 0 \<and> pending t = 0)"
    then have w: "written s t" and z: "dbcnt (outp t) = 0" "pending t = 0" by simp_all
    note d = writtenD [OF w]
    have "tight t" using d(4) by (simp add: file_ok_def)
    then have "logical t = ofile t" "counted t = st_bytes (st t)"
      using z by (simp_all add: logical_def emitted_def tight_def counted_def acct_def)
    then show "ofile t = logical s \<and> st_bytes (st t) = counted s \<and> in_counts t = in_counts s"
      using d(1,2) reader_same_counts [OF d(9)] by simp
  qed simp
  with False show ?thesis by simp
qed

lemma close_out_sat:
  "outcome_sat (\<lambda>t. t = s) (\<lambda>c t. c = 1 \<and> ofile t = ofile s) (close_out s)"
  by (simp add: close_out_def say_def split: option.split)

definition finished :: "dd \<Rightarrow> dd \<Rightarrow> bool" where
  "finished s t \<longleftrightarrow> ofile t = logical s @ out_fill s
     \<and> st_bytes (st t) = counted s + of_nat (length (out_fill s)) \<and> in_counts t = in_counts s"

theorem flush_sat:
  assumes r: "out_ready s"
    and p: "C_OSYNC \<in> ddflags s \<Longrightarrow> dbcnt (outp s) < dbsz (outp s) \<Longrightarrow> dbp (outp s) = dbcnt (outp s)"
  shows "outcome_sat (finished s) (out_exit (logical s @ out_fill s))
    (bindo (osync_fill s) (\<lambda>s2. bindo (final_sparse s2) (\<lambda>s3.
       bindo (if dbcnt (outp s3) \<noteq> 0 then dd_out True s3 else Ret s3) close_out)))"
proof (rule outcome_sat_bind [OF osync_fill_sat [OF r p]], assumption+, goal_cases)
  case (1 s2)
  then have s2: "out_ready s2" "logical s2 = logical s @ out_fill s"
      "counted s2 = counted s + of_nat (length (out_fill s))" "in_counts s2 = in_counts s" by simp_all
  show ?case
  proof (rule outcome_sat_bind [OF final_sparse_sat [OF s2(1)]], goal_cases)
    case (1 s3)
    then have s3: "out_ready s3" "dbcnt (outp s3) = 0 \<longrightarrow> pending s3 = 0" "logical s3 = logical s2"
        "counted s3 = counted s2" "in_counts s3 = in_counts s2" by simp_all
    have e: "out_exit (logical s3) = out_exit (logical s @ out_fill s)" by (simp only: s2 s3)
    show ?case
    proof (rule outcome_sat_bind [OF last_flush_sat [OF s3(1,2), unfolded e]], goal_cases)
      case (1 t)
      then have t: "finished s t" by (simp add: finished_def s2 s3)
      show ?case
        using close_out_sat [of t]
        by (rule outcome_sat_mono) (use t in \<open>simp_all add: out_exit_def finished_def\<close>)
    qed
  qed
qed

subsection \<open>The run of the program\<close>

text \<open>
  \<open>whole I\<close> is what a run over the input \<open>I\<close> adds to the file, before the padding of
  \<open>conv=osync\<close>.
\<close>

definition closable :: "dd \<Rightarrow> bool" where
  "closable s \<longleftrightarrow> out_ready s \<and>
     (C_OSYNC \<in> ddflags s \<longrightarrow> dbcnt (outp s) < dbsz (outp s) \<longrightarrow> dbp (outp s) = dbcnt (outp s))"

definition osync_pad :: "dd \<Rightarrow> nat \<Rightarrow> bool" where
  "osync_pad s k \<longleftrightarrow> k \<le> dbsz (outp s) \<and> (C_OSYNC \<notin> ddflags s \<longrightarrow> k = 0)"

locale dd_run = dd_conversion J emit for J emit +
  fixes s0 :: dd and whole :: "byte list \<Rightarrow> byte list"
  assumes emit_whole: "prefix (emit I) (emitted s0 @ whole I)"
    and J_cfg: "J I s \<Longrightarrow> same_cfg s0 s"
    and J_close: "J I s \<Longrightarrow> outcome_sat (\<lambda>t. closable t \<and> logical t = emitted s0 @ whole I
          \<and> counted t = acct s0 + of_nat (length (whole I)) \<and> same_cfg s t) (\<lambda>c t. False) (run_close s)"
begin

text \<open>The whole output with \<open>k\<close> bytes of padding, and the bytes counted.\<close>

definition complete :: "byte list \<Rightarrow> nat \<Rightarrow> dd \<Rightarrow> bool" where
  "complete I k t \<longleftrightarrow> ofile t = emitted s0 @ whole I @ replicate k 0
     \<and> st_bytes (st t) = acct s0 + of_nat (length (whole I) + k)"

lemma dd_close_sat:
  assumes "J I s"
  shows "\<exists>k. osync_pad s0 k \<and>
    outcome_sat (complete I k) (out_exit (emitted s0 @ whole I @ replicate k 0)) (dd_close s)"
proof -
  obtain t where t: "run_close s = Ret t" "closable t" "logical t = emitted s0 @ whole I"
      "counted t = acct s0 + of_nat (length (whole I))" "same_cfg s t"
    using J_close [OF assms] by (cases "run_close s") simp_all
  have r: "out_ready t"
    and p: "C_OSYNC \<in> ddflags t \<Longrightarrow> dbcnt (outp t) < dbsz (outp t) \<Longrightarrow> dbp (outp t) = dbcnt (outp t)"
    using t(2) by (simp_all add: closable_def)
  obtain k where k: "out_fill t = replicate k 0" "k \<le> dbsz (outp t)" "C_OSYNC \<notin> ddflags t \<longrightarrow> k = 0"
    by (simp add: out_fill_def)
      (metis diff_le_self le0 replicate_0)
  have "outcome_sat (finished t) (out_exit (logical t @ out_fill t)) (dd_close s)"
    using flush_sat [OF r p] by (simp add: dd_close_def t(1))
  then have "outcome_sat (complete I k) (out_exit (emitted s0 @ whole I @ replicate k 0)) (dd_close s)"
    by (rule outcome_sat_mono) (simp_all add: finished_def complete_def t k add.assoc)
  moreover have "osync_pad s0 k"
    using k(2,3) same_cfgD(1,8) [OF J_cfg [OF assms]] same_cfgD(1,8) [OF t(5)]
    by (simp add: osync_pad_def)
  ultimately show ?thesis by blast
qed

lemma at_exit_sat:
  "outcome_sat Q E r \<Longrightarrow> \<exists>c t. at_exit now (bindo r (\<lambda>s. Exit 0 s)) = Exit c (summary now t)
     \<and> (c = 0 \<and> Q t \<or> E c t)"
  by (cases r) (auto simp: at_exit_def)

theorem dd_main_sat:
  assumes J: "J I s" and one: "files_cnt s = 1" and I': "I' = I @ concat (blocks s)"
  shows "\<exists>k c t. osync_pad s0 k \<and> dd_main now s = Exit c (summary now t)
    \<and> (c = 0 \<and> complete I' k t \<or> out_exit (emitted s0 @ whole I' @ replicate k 0) c t)"
proof -
  have inn: "outcome_sat (J I') (out_exit (emit I')) (dd_in now s)"
    unfolding I' by (rule dd_in_sat [OF J])
  have run: "dd_main now s = at_exit now (bindo (bindo (dd_in now s) dd_close) (\<lambda>s. Exit 0 s))"
    by (simp add: dd_main_def one numeral_1_eq_Suc_0 bindo_assoc)
  show ?thesis
  proof (cases "dd_in now s")
    case (Ret u)
    then have "J I' u" using inn by simp
    then obtain k where k: "osync_pad s0 k"
        "outcome_sat (complete I' k) (out_exit (emitted s0 @ whole I' @ replicate k 0)) (dd_close u)"
      using dd_close_sat by blast
    show ?thesis
      using at_exit_sat [OF k(2), of now] k(1) unfolding run Ret bindo.simps by blast
  next
    case (Exit c u)
    then have "out_exit (emit I') c u" using inn by simp
    then have "out_exit (emitted s0 @ whole I') c u"
      using emit_whole by (auto simp: out_exit_def intro: prefix_order.trans)
    then show ?thesis
      unfolding run Exit
      by (intro exI [of _ 0] exI [of _ c] exI [of _ u]) (simp add: osync_pad_def at_exit_def)
  qed (use inn in simp_all)
qed

end

lemma copy_close:
  assumes J: "copy_inv s0 I s"
  shows "outcome_sat (\<lambda>t. closable t \<and> logical t = emitted s0 @ map (xlat s0) I
      \<and> counted t = acct s0 + of_nat (length (map (xlat s0) I)) \<and> same_cfg s t) (\<lambda>c t. False) (run_close s)"
proof -
  have "outp s\<lparr>dbcnt := dbcnt (outp s)\<rparr> = outp s" by simp
  then have same: "upd_out (\<lambda>io. io\<lparr>dbcnt := dbcnt (outp s)\<rparr>) s = s"
    by (simp add: upd_out_def)
  have "run_close s = Ret s"
    using copy_invD(4,7) [OF J] same by (simp add: run_close_def def_close_def)
  moreover have "closable s"
    using J by (auto simp: copy_inv_def closable_def out_ready_def out_wf_def obuf_def)
  ultimately show ?thesis using J by (simp add: copy_inv_def)
qed

interpretation copy_run: dd_run "copy_inv s0" "\<lambda>I. emitted s0 @ map (xlat s0) I" s0 "map (xlat s0)" for s0
  by unfold_locales (simp_all add: copy_invD(1), rule copy_close [simplified])

lemma direct_close:
  assumes J: "direct_inv s0 I s"
  shows "outcome_sat (\<lambda>t. closable t \<and> logical t = emitted s0 @ I
      \<and> counted t = acct s0 + of_nat (length I) \<and> same_cfg s t) (\<lambda>c t. False) (run_close s)"
proof -
  have "run_close s = Ret s"
    using direct_invD(4,11) [OF J] by (simp add: run_close_def def_close_def)
  moreover have "closable s"
    using J by (auto simp: direct_inv_def closable_def out_ready_def out_wf_def obuf_def)
  ultimately show ?thesis using J by (simp add: direct_inv_def)
qed

interpretation direct_run: dd_run "direct_inv s0" "\<lambda>I. emitted s0 @ I" s0 "\<lambda>I. I" for s0
  by unfold_locales (simp_all add: direct_invD(1) direct_close)

end
