(* ===== verification/DdClean.thy ===== *)
theory DdClean
  imports DdClose
begin

text \<open>
  When nothing fails: in an environment whose reads and writes succeed (or are short or
  interrupted), no part of the program takes an error exit.
\<close>

subsection \<open>Runs without an error exit\<close>

text \<open>
  An environment in which writing cannot fail: every write is complete, short but not empty,
  or interrupted; the output is not a tape, can seek when it must, and closes.
\<close>

primrec ok_write :: "write_ev \<Rightarrow> bool" where
  "ok_write (Accept k) = (0 < k)"
| "ok_write (WriteError e) = (e = EINTR)"

definition benign :: "dd \<Rightarrow> bool" where
  "benign s \<longleftrightarrow> list_all ok_write (wscript s) \<and> (C_SPARSE \<in> ddflags s \<or> pending s \<noteq> 0 \<longrightarrow> oseek s)
     \<and> 0 \<le> pending s \<and> \<not> ISTAPE (outp s) \<and> 0 < dbsz (outp s)
     \<and> close_ok s \<and> fsync_err s = None"

primrec clean :: "('a \<Rightarrow> bool) \<Rightarrow> 'a outcome \<Rightarrow> bool" where
  "clean P (Ret x) = P x"
| "clean P (Exit n s) = False"
| "clean P Fault = True"
| "clean P Diverge = True"

lemma clean_bind:
  assumes "clean P r" and "\<And>x. P x \<Longrightarrow> clean Q (f x)"
  shows "clean Q (bindo r f)"
  using assms by (cases r) simp_all

lemma clean_need: "clean (\<lambda>x. v = Some x) (need v)"
  by (cases v) simp_all

lemma benign_keeps [simp]:
  "benign (upd_st f s) = benign s" "benign (say m s) = benign s" "benign (s\<lparr>warned := w\<rparr>) = benign s"
  "benign (set_obuf b s) = benign s" "benign (s\<lparr>inbuf := b\<rparr>) = benign s"
  "benign (s\<lparr>intrunc := i\<rparr>) = benign s" "benign (upd_in g s) = benign s"
  "benign (s\<lparr>src := es\<rparr>) = benign s"
  by (simp_all add: benign_def upd_st_def say_def upd_in_def)

lemma benign_upd_out [simp]:
  "ISTAPE (f (outp s)) = ISTAPE (outp s) \<Longrightarrow> dbsz (f (outp s)) = dbsz (outp s) \<Longrightarrow> benign (upd_out f s) = benign s"
  by (simp add: benign_def upd_out_def)

lemma seek_pending_clean: "benign s \<Longrightarrow> clean benign (seek_pending s)"
  by (simp add: seek_pending_def lseek_out_def benign_def)

lemma write_block_clean:
  assumes "benign s" and "0 < cnt"
  shows "clean (\<lambda>(nw, t). benign t \<and> nw \<le> cnt) (write_block op cnt s)"
  unfolding write_block_def
proof (rule clean_bind [OF clean_need])
  fix bs assume "mem_read (obuf s) op cnt = Some bs"
  then have bs: "length bs = cnt" by (auto simp: mem_read_def split: if_splits)
  show "clean (\<lambda>(nw, t). benign t \<and> nw \<le> cnt) (case bwrite bs s of
          (Wrote nw, s') \<Rightarrow> if nw = 0 then Exit 1 (say MsgEndOfDevice s') else Ret (nw, s')
        | (WFailed e, s') \<Rightarrow> if e \<noteq> EINTR then Exit 1 (say MsgWriteError s') else Ret (0, s'))"
  proof (cases "wscript s")
    case Nil
    then show ?thesis using assms bs by (simp add: bwrite_def benign_def)
  next
    case (Cons a ws)
    then show ?thesis using assms bs
      by (cases a) (auto simp: bwrite_def benign_def Let_def)
  qed
qed

lemma settle_pending_clean: "benign s \<Longrightarrow> clean benign (settle_pending s)"
  by (simp add: settle_pending_def Let_def) (simp add: benign_def upd_st_def)

lemma count_write_clean:
  assumes "benign s" and "nw \<le> cnt"
  shows "clean (\<lambda>(p, t). benign t \<and> (\<forall>op' c. p = Again op' c \<longrightarrow> 0 < c)) (count_write n cnt op nw s)"
proof -
  have "\<not> ISTAPE (outp s)" using assms(1) by (simp add: benign_def)
  moreover have "outp (upd_st f t) = outp t" "outp (t\<lparr>warned := w\<rparr>) = outp t" for f t w
    by (simp_all add: upd_st_def)
  ultimately show ?thesis
    using assms by (simp add: count_write_def Let_def)
qed

lemma dd_out_pass_clean:
  assumes b: "benign s" and c: "0 < cnt"
  shows "clean (\<lambda>(p, t). benign t \<and> (\<forall>op' c. p = Again op' c \<longrightarrow> 0 < c)) (dd_out_pass force n cnt op s)"
  unfolding dd_out_pass_def
proof (rule clean_bind [where P = "\<lambda>z. z \<longrightarrow> \<not> force \<and> C_SPARSE \<in> ddflags s"])
  show "clean (\<lambda>z. z \<longrightarrow> \<not> force \<and> C_SPARSE \<in> ddflags s)
      (if \<not> force \<and> C_SPARSE \<in> ddflags s
       then bindo (need (mem_read (obuf s) op cnt)) (\<lambda>bs. Ret (list_all (\<lambda>b. b = 0) bs)) else Ret False)"
    by (auto intro: clean_bind [OF clean_need])
  fix z assume z: "z \<longrightarrow> \<not> force \<and> C_SPARSE \<in> ddflags s"
  let ?Q = "\<lambda>(p, t). benign t \<and> (\<forall>op' c. p = Again op' c \<longrightarrow> 0 < c)"
  have "clean ?Q (bindo (seek_pending s) (\<lambda>s1. bindo (write_block op cnt s1) (\<lambda>(nw, s2).
                   bindo (settle_pending s2) (\<lambda>s3. count_write n cnt op nw s3))))"
  proof (rule clean_bind [OF seek_pending_clean [OF b]], rule clean_bind [OF write_block_clean [OF _ c]], assumption)
    fix x s1 assume "case x of (nw, t) \<Rightarrow> benign t \<and> nw \<le> cnt"
    then show "clean ?Q (case x of (nw, s2) \<Rightarrow> bindo (settle_pending s2) (\<lambda>s3. count_write n cnt op nw s3))"
      by (cases x) (auto intro!: clean_bind [OF settle_pending_clean] count_write_clean)
  qed
  moreover have "benign (s\<lparr>pending := pending s + int cnt\<rparr>)" if z using z that b by (simp add: benign_def)
  ultimately show "clean ?Q (if z then Ret (Done (op + cnt), s\<lparr>pending := pending s + int cnt\<rparr>)
      else bindo (seek_pending s) (\<lambda>s1. bindo (write_block op cnt s1) (\<lambda>(nw, s2).
                   bindo (settle_pending s2) (\<lambda>s3. count_write n cnt op nw s3))))"
    by simp
qed

lemma dd_out_inner_clean:
  "benign s \<Longrightarrow> 0 < cnt \<Longrightarrow> clean (\<lambda>(op', t). benign t) (dd_out_inner fuel force n cnt op s)"
proof (induction fuel arbitrary: cnt op s)
  case (Suc fuel)
  show ?case
    unfolding dd_out_inner.simps
  proof (rule clean_bind [OF dd_out_pass_clean [OF Suc.prems]])
    fix x :: "pass \<times> dd"
    assume x: "case x of (p, t) \<Rightarrow> benign t \<and> (\<forall>op' c. p = Again op' c \<longrightarrow> 0 < c)"
    then show "clean (\<lambda>(op', t). benign t) (case x of (p, s') \<Rightarrow>
        (case p of Done op' \<Rightarrow> Ret (op', s') | Again op' cnt' \<Rightarrow> dd_out_inner fuel force n cnt' op' s'))"
      using Suc.IH by (cases x) (auto split: pass.split)
  qed
qed (simp add: dd_out_inner.simps)

lemma dd_out_loop_clean:
  "benign s \<Longrightarrow> 0 < n \<Longrightarrow> clean benign (dd_out_loop fuel force n op s)"
proof (induction fuel arbitrary: n op s)
  case (Suc fuel)
  show ?case
    unfolding dd_out_loop.simps
  proof (rule clean_bind [OF dd_out_inner_clean [OF Suc.prems]])
    fix x :: "nat \<times> dd"
    assume "case x of (op', t) \<Rightarrow> benign t"
    then obtain q t where x: "x = (q, t)" "benign t" by (cases x) auto
    let ?u = "upd_out (\<lambda>io. io\<lparr>dbcnt := sub64 (dbcnt io) n\<rparr>) t"
    have b: "benign ?u" using x(2) by simp
    show "clean benign (case x of (op', s1) \<Rightarrow>
       (let s2 = upd_out (\<lambda>io. io\<lparr>dbcnt := sub64 (dbcnt io) n\<rparr>) s1
        in if dbcnt (outp s2) < dbsz (outp s2) then Ret s2
           else dd_out_loop fuel force (dbsz (outp s2)) op' s2))"
      using b Suc.IH [OF b, of "dbsz (outp t)"] x(2) by (simp add: x(1) Let_def benign_def [of t])
  qed
qed (simp add: dd_out_loop.simps)

lemma reassemble_clean: "benign s \<Longrightarrow> clean benign (reassemble s)"
  by (auto simp: reassemble_def Let_def intro!: clean_bind [OF clean_need])

lemma dd_out_clean:
  assumes b: "benign s" and f: "force \<Longrightarrow> 0 < dbcnt (outp s)"
  shows "clean benign (dd_out force s)"
proof -
  have "0 < (if force then dbcnt (outp s) else dbsz (outp s))" using assms by (simp add: benign_def)
  then show ?thesis
    unfolding dd_out_def
    by (intro clean_bind [OF dd_out_loop_clean [OF b]] clean_bind [OF reassemble_clean]) simp_all
qed

subsection \<open>The conversions\<close>

lemma dd_out_if_clean:
  "benign s \<Longrightarrow> clean benign (if dbsz (outp s) \<le> dbcnt (outp s) then dd_out False s else Ret s)"
  by (simp add: dd_out_clean)

lemma translate_clean: "benign s \<Longrightarrow> clean benign (translate s)"
  by (auto simp: translate_def Let_def split: option.split intro!: clean_bind [OF clean_need])

lemma dd_def_clean: "benign s \<Longrightarrow> clean benign (dd_def s)"
  unfolding dd_def_def Let_def
  by (rule clean_bind [OF translate_clean]) (auto intro!: clean_bind [OF dd_out_clean])

lemma block_resume_clean: "benign s \<Longrightarrow> clean (\<lambda>(go, t). benign t) (block_resume s)"
  unfolding block_resume_def by (auto intro!: clean_bind [OF clean_need] split: prod.split)

lemma block_truncate_clean: "benign s \<Longrightarrow> clean (\<lambda>(i, t). benign t) (block_truncate i s)"
  unfolding block_truncate_def Let_def
  by (rule clean_bind [where P = "\<lambda>_. True"])
    (auto intro!: clean_bind [OF clean_need] simp: Let_def split: prod.split)

lemma block_record_clean:
  assumes "benign s" shows "clean (\<lambda>(i, t). benign t) (block_record ch i op cnt s)"
  unfolding block_record_def Let_def
proof (rule clean_bind [where P = "\<lambda>(i, t). benign t"], goal_cases)
  case 1
  then show ?case
    using assms by (auto intro!: clean_bind [OF clean_need] block_truncate_clean)
next
  case (2 x)
  obtain i' t where x: "x = (i', t)" and t: "benign t" using 2 by (cases x) auto
  show ?case
    unfolding x prod.case by (rule clean_bind [OF dd_out_if_clean]) (use t in simp_all)
qed

lemma block_loop_clean: "benign s \<Longrightarrow> clean benign (block_loop fuel i ch s)"
proof (induction fuel arbitrary: i ch s)
  case (Suc fuel)
  show ?case
  proof (cases "dbcnt (inp s) = 0")
    case False
    have short: "clean benign (block_short (set_obuf om s))" for om
      using Suc.prems by (auto simp: block_short_def Let_def intro!: clean_bind [OF clean_need])
    have "clean benign (bindo (block_record ch' i' op' cnt (set_obuf om s)) (\<lambda>(i'', s').
                    block_loop fuel i'' ch' s'))" for ch' i' op' cnt om
      by (rule clean_bind [OF block_record_clean]) (use Suc in auto)
    with False short show ?thesis
      by (auto intro!: clean_bind [OF clean_need] split: prod.split)
  qed (use Suc.prems in simp)
qed simp

lemma dd_block_clean: "benign s \<Longrightarrow> clean benign (dd_block s)"
  unfolding dd_block_def
  by (rule clean_bind [OF block_resume_clean])
    (auto intro!: clean_bind [OF block_loop_clean] simp del: block_loop.simps)

lemma put_line_clean: "benign s \<Longrightarrow> clean benign (put_line i n s)"
  unfolding put_line_def by (auto intro!: clean_bind [OF clean_need])

lemma unblock_loop_clean: "benign s \<Longrightarrow> clean benign (unblock_loop fuel i s)"
proof (induction fuel arbitrary: i s)
  case (Suc fuel)
  then show ?case
    by (auto intro!: clean_bind [OF put_line_clean] clean_bind [OF dd_out_if_clean])
qed simp

lemma dd_unblock_clean: "benign s \<Longrightarrow> clean benign (dd_unblock s)"
  unfolding dd_unblock_def
  by (intro clean_bind [OF translate_clean] clean_bind [OF unblock_loop_clean])
    (auto simp: in_to_front_def Let_def intro!: clean_bind [OF clean_need])

lemma run_conv_clean: "benign s \<Longrightarrow> clean benign (run_conv s)"
  by (cases "cfunc s") (simp_all add: run_conv_def dd_def_clean dd_block_clean dd_unblock_clean)

lemma run_close_clean: "benign s \<Longrightarrow> clean benign (run_close s)"
  by (cases "cfunc s")
    (auto simp: run_close_def def_close_def block_close_def unblock_close_def Let_def
      intro!: clean_bind [OF clean_need] put_line_clean)

lemma deliver_clean:
  assumes "benign s" and "0 < dbcnt (inp s)"
  shows "clean benign (deliver s)"
  using assms by (auto simp: deliver_def run_conv_clean intro!: clean_bind [OF dd_out_clean])

subsection \<open>Reading and closing\<close>

text \<open>Nothing on the input side fails: no error is reported, or \<open>noerror\<close> is set.\<close>

definition readable :: "dd \<Rightarrow> bool" where
  "readable s \<longleftrightarrow> 0 < dbsz (inp s) \<and> (C_NOERROR \<in> ddflags s \<or> (\<forall>e. ReadError e \<notin> set (src s)))"


lemma summary_keeps [simp]:
  "benign (summary now s) = benign s" "benign (seek_past s) = benign s"
  "ddflags (summary now s) = ddflags s" "ddflags (seek_past s) = ddflags s"
  "inp (summary now s) = inp s" "inp (seek_past s) = inp s"
  by (simp_all add: summary_def seek_past_def Let_def) (simp_all add: say_def)

lemma sync_clear_clean:
  "clean (\<lambda>t. \<exists>b. t = s\<lparr>inbuf := b\<rparr>) (sync_clear s)"
  unfolding sync_clear_def
proof (cases "C_SYNC \<in> ddflags s")
  case True
  then show "clean (\<lambda>t. \<exists>b. t = s\<lparr>inbuf := b\<rparr>) (if C_SYNC \<in> ddflags s
      then bindo (need (mem_write (inbuf s) (dbp (inp s)) (replicate (dbsz (inp s)) (sync_pad s))))
             (\<lambda>b. Ret (s\<lparr>inbuf := b\<rparr>)) else Ret s)"
    by (auto intro!: clean_bind [OF clean_need])
next
  case False
  show "clean (\<lambda>t. \<exists>b. t = s\<lparr>inbuf := b\<rparr>) (if C_SYNC \<in> ddflags s
      then bindo (need (mem_write (inbuf s) (dbp (inp s)) (replicate (dbsz (inp s)) (sync_pad s))))
             (\<lambda>b. Ret (s\<lparr>inbuf := b\<rparr>)) else Ret s)"
    unfolding if_not_P [OF False] clean.simps by (rule exI [of _ "inbuf s"]) simp
qed

lemma count_in_clean [simp]: "benign (count_in n f s) = benign s" "dbcnt (inp (count_in n f s)) = dbcnt (inp s) + n"
  by (simp_all add: count_in_def) (simp add: upd_st_def)

lemma deliver_count_clean:
  "benign s \<Longrightarrow> 0 < n \<Longrightarrow> clean (\<lambda>(go, t). benign t) (bindo (deliver (count_in n f s)) (\<lambda>u. Ret (True, u)))"
  by (rule clean_bind [OF deliver_clean]) simp_all

lemma dd_in_round_clean:
  assumes b: "benign s" and r: "readable s"
  shows "clean (\<lambda>(go, t). benign t) (dd_in_round now s)"
proof (cases "cpy_cnt s \<noteq> 0 \<and> cpy_cnt s \<le> unat (in_full (st s) + in_part (st s))")
  case True
  with b show ?thesis by (simp add: dd_in_round_def)
next
  case False
  have n: "0 < dbsz (inp s)" using r by (simp add: readable_def)
  obtain res es where rd: "read_src (dbsz (inp s)) (src s) = (res, es)" by fastforce
  show ?thesis
    unfolding dd_in_round_def if_not_P [OF False]
  proof (rule clean_bind [OF sync_clear_clean])
    fix s1 assume "\<exists>b. s1 = s\<lparr>inbuf := b\<rparr>"
    then obtain c where s1: "s1 = s\<lparr>inbuf := c\<rparr>" by blast
    have b1: "benign s1" using b by (simp add: s1)
    have data: "clean (\<lambda>(go, t). benign t)
        (bindo (need (mem_write (inbuf s1) (dbp (inp s1)) bs)) (\<lambda>b.
                 (let s2 = s1\<lparr>src := es, inbuf := b\<rparr>;
                      n = length bs;
                      s3 = (if n = dbsz (inp s2) then count_in n full_block s2
                            else count_in (if C_SYNC \<in> ddflags s2 then dbsz (inp s2) else n) part_block s2)
                  in bindo (deliver s3) (\<lambda>s4. Ret (True, s4)))))" if "bs \<noteq> []" for bs
    proof (rule clean_bind [OF clean_need], goal_cases)
      case (1 b)
      have "benign (s1\<lparr>src := es, inbuf := b\<rparr>)" using b1 by simp
      note dc = deliver_count_clean [OF this]
      show ?case
        using dc [of "length bs" full_block] dc [of "length bs" part_block]
          dc [of "dbsz (inp s)" part_block]
          dc [of "dbsz (inp s)" full_block] that n
        by (simp add: Let_def s1)
    qed
    have noerr: "C_NOERROR \<in> ddflags s" if "res = RFail e" for e
      using r read_src_fail [of "dbsz (inp s)" "src s" e es] rd that by (auto simp: readable_def)
    have sync: "clean (\<lambda>(go, t). benign t) (bindo (deliver (count_in (dbsz (inp s)) full_block
        (seek_past (summary now (say MsgReadError (s1\<lparr>src := es\<rparr>)))))) (\<lambda>u. Ret (True, u)))"
      by (rule deliver_count_clean) (use b1 n in simp_all)
    show "clean (\<lambda>(go, t). benign t) (case read_src (dbsz (inp s1)) (src s1) of
             (RData [], es) \<Rightarrow>
               Ret (False, upd_in (\<lambda>io. io\<lparr>dbrcnt := 0\<rparr>) (s1\<lparr>src := es\<rparr>))
           | (RFail e, es) \<Rightarrow>
               (let s2 = say MsgReadError (s1\<lparr>src := es\<rparr>)
                in if C_NOERROR \<notin> ddflags s2 then Exit 1 s2
                   else
                     (let s4 = seek_past (summary now s2)
                      in if C_SYNC \<notin> ddflags s4 then Ret (True, s4)
                         else bindo (deliver (count_in (dbsz (inp s4)) full_block s4)) (\<lambda>s5.
                                Ret (True, s5))))
           | (RData bs, es) \<Rightarrow>
               bindo (need (mem_write (inbuf s1) (dbp (inp s1)) bs)) (\<lambda>b.
                 (let s2 = s1\<lparr>src := es, inbuf := b\<rparr>;
                      n = length bs;
                      s3 = (if n = dbsz (inp s2) then count_in n full_block s2
                            else count_in (if C_SYNC \<in> ddflags s2 then dbsz (inp s2) else n) part_block s2)
                  in bindo (deliver s3) (\<lambda>s4. Ret (True, s4)))))"
    proof (cases res)
      case (RFail e)
      with noerr sync rd b1 show ?thesis by (simp add: s1 Let_def) (simp add: say_def)
    next
      case (RData bs)
      then show ?thesis
      proof (cases bs)
        case Nil
        with RData rd b1 show ?thesis by (simp add: s1)
      next
        case (Cons c cs)
        with RData rd data [of bs] show ?thesis by (simp add: s1)
      qed
    qed
  qed
qed


context dd_conversion
begin

lemma dd_in_loop_clean:
  assumes "J I s" and "benign s" and "readable s"
  shows "clean benign (dd_in_loop fuel now s)"
  using assms
proof (induction fuel arbitrary: I s)
  case (Suc fuel)
  note rs = round_sat [OF Suc.prems(1), of now] and rc = dd_in_round_clean [OF Suc.prems(2,3), of now]
  show ?case
  proof (cases "dd_in_round now s")
    case (Ret r)
    obtain go t where r: "r = (go, t)" by (cases r)
    have b: "benign t" using rc by (simp add: Ret r)
    show ?thesis
    proof (cases go)
      case True
      then obtain I' where "J I' t" "reader_next s t"
        using rs by (auto simp: Ret r advanced_def)
      moreover from this have "readable t" using Suc.prems(3) by (auto simp: readable_def reader_next_def)
      ultimately show ?thesis using Suc.IH b True by (simp add: Ret r)
    qed (use b in \<open>simp add: Ret r\<close>)
  qed (use rc in simp_all)
qed simp

lemma dd_in_clean: "J I s \<Longrightarrow> benign s \<Longrightarrow> readable s \<Longrightarrow> clean benign (dd_in now s)"
  unfolding dd_in_def by (rule dd_in_loop_clean)

end

lemma osync_fill_clean: "benign s \<Longrightarrow> clean benign (osync_fill s)"
  unfolding osync_fill_def by (auto intro!: clean_bind [OF clean_need])

lemma final_sparse_clean:
  assumes b: "benign s" and r: "out_ready s"
  shows "clean benign (final_sparse s)"
proof (cases "final_sparse s")
  case (Ret t)
  have "out_ready t" using final_sparse_sat [OF r, of "\<lambda>c t. True"] by (simp add: Ret)
  then have "0 \<le> pending t" by (simp add: out_ready_def out_wf_def)
  moreover have "t = s \<or> benign (t\<lparr>pending := pending s\<rparr>) \<and> pending s \<noteq> 0"
    using Ret b by (auto simp: final_sparse_def bindo_Ret simp flip: set_obuf_def split: if_splits)
      (auto simp: benign_def upd_out_def)
  ultimately show ?thesis using b by (auto simp: Ret) (simp add: benign_def)
next
  case (Exit c t)
  then show ?thesis by (cases "mem_write (obuf s) 0 (replicate (dbsz (outp s)) 0)")
      (auto simp: final_sparse_def split: if_splits)
qed simp_all

lemma close_out_clean: "benign s \<Longrightarrow> clean (\<lambda>_. True) (close_out s)"
  by (simp add: close_out_def benign_def)

lemma flush_clean:
  assumes b: "benign s" and r: "closable s"
  shows "clean (\<lambda>_. True) (bindo (osync_fill s) (\<lambda>s2. bindo (final_sparse s2) (\<lambda>s3.
       bindo (if dbcnt (outp s3) \<noteq> 0 then dd_out True s3 else Ret s3) close_out)))"
proof -
  have cl: "out_ready s"
    "C_OSYNC \<in> ddflags s \<Longrightarrow> dbcnt (outp s) < dbsz (outp s) \<Longrightarrow> dbp (outp s) = dbcnt (outp s)"
    using r by (simp_all add: closable_def)
  show ?thesis
  proof (cases "osync_fill s")
    case (Ret s2)
    have "out_ready s2" using osync_fill_sat [OF cl, of "\<lambda>c t. True"] by (simp add: Ret)
    moreover have "benign s2" using osync_fill_clean [OF b] by (simp add: Ret)
    ultimately show ?thesis
      unfolding Ret bindo.simps
      by (intro clean_bind [OF final_sparse_clean] clean_bind [where P = benign])
        (auto intro: dd_out_clean close_out_clean)
  qed (use osync_fill_clean [OF b] in simp_all)
qed

context dd_run
begin

lemma dd_close_clean:
  assumes J: "J I s" and b: "benign s"
  shows "clean (\<lambda>_. True) (dd_close s)"
proof (cases "run_close s")
  case (Ret t)
  have "closable t" using J_close [OF J] by (simp add: Ret)
  moreover have "benign t" using run_close_clean [OF b] by (simp add: Ret)
  ultimately show ?thesis
    using flush_clean by (simp add: dd_close_def Ret)
qed (use run_close_clean [OF b] in \<open>simp_all add: dd_close_def\<close>)

text \<open>When nothing fails the run ends with status 0 and the whole output is in the file.\<close>

theorem dd_main_clean:
  assumes J: "J I s" and one: "files_cnt s = 1" and I': "I' = I @ concat (blocks s)"
    and b: "benign s" and r: "readable s"
  shows "\<exists>k t. osync_pad s0 k \<and> dd_main now s = Exit 0 (summary now t) \<and> complete I' k t"
proof -
  have inn: "outcome_sat (J I') (out_exit (emit I')) (dd_in now s)"
    unfolding I' by (rule dd_in_sat [OF J])
  obtain u where u: "dd_in now s = Ret u" "J I' u" "benign u"
    using inn dd_in_clean [OF J b r, of now] by (cases "dd_in now s") simp_all
  obtain k where k: "osync_pad s0 k"
      "outcome_sat (complete I' k) (out_exit (emitted s0 @ whole I' @ replicate k 0)) (dd_close u)"
    using dd_close_sat [OF u(2)] by blast
  obtain t where "dd_close u = Ret t" "complete I' k t"
    using k(2) dd_close_clean [OF u(2,3)] by (cases "dd_close u") simp_all
  then show ?thesis
    using k(1) u(1) by (simp add: dd_main_def one numeral_1_eq_Suc_0 at_exit_def) blast
qed

end
end
