(* ===== verification/DdBlock.thy ===== *)
theory DdBlock
  imports DdClean
begin

text \<open>
  Fixed-length records from lines: \<open>block\<close> and \<open>block_close\<close> against their specification by
  lines.
\<close>

subsection \<open>Lines\<close>

text \<open>The complete lines of a text, without their newlines, and the unterminated rest.\<close>

fun split_lines :: "byte list \<Rightarrow> byte list list \<times> byte list" where
  "split_lines [] = ([], [])"
| "split_lines (c # cs) =
     (case split_lines cs of (ls, r) \<Rightarrow>
        if c = NL then ([] # ls, r)
        else (case ls of [] \<Rightarrow> ([], c # r) | l # ls' \<Rightarrow> ((c # l) # ls', r)))"

lemma split_lines_plain: "NL \<notin> set xs \<Longrightarrow> split_lines xs = ([], xs)"
  by (induction xs) auto

lemma split_lines_line:
  "NL \<notin> set xs \<Longrightarrow> split_lines (xs @ NL # ys) = (xs # fst (split_lines ys), snd (split_lines ys))"
  by (induction xs) (auto split: prod.split)

lemma split_lines_cases:
  obtains (rest) "NL \<notin> set xs" | (line) l ys where "NL \<notin> set l" "xs = l @ NL # ys"
  by (metis in_set_conv_decomp_first)

lemma split_lines_rest: "NL \<notin> set (snd (split_lines xs))"
proof (induction "length xs" arbitrary: xs rule: less_induct)
  case less
  show ?case
  proof (cases xs rule: split_lines_cases)
    case rest
    then show ?thesis by (simp add: split_lines_plain)
  next
    case (line l ys)
    then show ?thesis using less [of ys] by (simp add: split_lines_line)
  qed
qed

lemma split_lines_append:
  "split_lines (xs @ ys) =
     (fst (split_lines xs) @ fst (split_lines (snd (split_lines xs) @ ys)),
      snd (split_lines (snd (split_lines xs) @ ys)))"
proof (induction "length xs" arbitrary: xs rule: less_induct)
  case less
  show ?case
  proof (cases xs rule: split_lines_cases)
    case rest
    then show ?thesis by (simp add: split_lines_plain)
  next
    case (line l zs)
    then show ?thesis using less [of zs] by (simp add: split_lines_line)
  qed
qed

subsection \<open>What blocking produces\<close>

text \<open>A record: the line cut to size, translated, and padded.\<close>

definition fit :: "nat \<Rightarrow> (byte \<Rightarrow> byte) \<Rightarrow> byte list \<Rightarrow> byte list" where
  "fit cbs f l = map f (take cbs l) @ replicate (cbs - length l) (f SP)"

definition block_emit :: "nat \<Rightarrow> (byte \<Rightarrow> byte) \<Rightarrow> byte list \<Rightarrow> byte list" where
  "block_emit cbs f I = concat (map (fit cbs f) (fst (split_lines I)))
     @ (if length (snd (split_lines I)) < cbs then [] else map f (take cbs (snd (split_lines I))))"

text \<open>The last, unterminated line is padded but not translated.\<close>

definition block_whole :: "nat \<Rightarrow> (byte \<Rightarrow> byte) \<Rightarrow> byte list \<Rightarrow> byte list" where
  "block_whole cbs f I = block_emit cbs f I @
     (let r = snd (split_lines I)
      in if r \<noteq> [] \<and> length r < cbs then r @ replicate (cbs - length r) (f SP) else [])"

lemma block_emit_plain:
  "NL \<notin> set xs \<Longrightarrow> block_emit cbs f xs = (if length xs < cbs then [] else map f (take cbs xs))"
  by (simp add: block_emit_def split_lines_plain)

lemma block_emit_line:
  "NL \<notin> set l \<Longrightarrow> block_emit cbs f (l @ NL # ys) = fit cbs f l @ block_emit cbs f ys"
  by (simp add: block_emit_def split_lines_line)

lemma fit_long: "cbs \<le> length r \<Longrightarrow> fit cbs f (r @ xs) = map f (take cbs r)"
  by (simp add: fit_def)

text \<open>Continuing after a short rest, and after one that has been cut.\<close>

lemma block_emit_short:
  "length (snd (split_lines I)) < cbs \<Longrightarrow>
     block_emit cbs f (I @ bs) = block_emit cbs f I @ block_emit cbs f (snd (split_lines I) @ bs)"
  by (simp add: block_emit_def split_lines_append [of I bs])

lemma block_emit_cut_none:
  assumes "cbs \<le> length (snd (split_lines I))" and "NL \<notin> set bs"
  shows "block_emit cbs f (I @ bs) = block_emit cbs f I"
    and "snd (split_lines (I @ bs)) = snd (split_lines I) @ bs"
proof -
  have "split_lines (snd (split_lines I) @ bs) = ([], snd (split_lines I) @ bs)"
    using assms(2) split_lines_rest [of I] by (simp add: split_lines_plain)
  then show "snd (split_lines (I @ bs)) = snd (split_lines I) @ bs"
      "block_emit cbs f (I @ bs) = block_emit cbs f I"
    using assms(1) by (simp_all add: block_emit_def split_lines_append [of I bs])
qed

lemma block_emit_cut_line:
  assumes "cbs \<le> length (snd (split_lines I))" and "NL \<notin> set l"
  shows "block_emit cbs f (I @ l @ NL # ys) = block_emit cbs f I @ block_emit cbs f ys"
    and "snd (split_lines (I @ l @ NL # ys)) = snd (split_lines ys)"
proof -
  have "split_lines (snd (split_lines I) @ l @ NL # ys) =
      ((snd (split_lines I) @ l) # fst (split_lines ys), snd (split_lines ys))"
    using split_lines_line [of "snd (split_lines I) @ l" ys] assms(2) split_lines_rest [of I] by simp
  then show "snd (split_lines (I @ l @ NL # ys)) = snd (split_lines ys)"
      "block_emit cbs f (I @ l @ NL # ys) = block_emit cbs f I @ block_emit cbs f ys"
    using assms(1) by (simp_all add: block_emit_def split_lines_append [of I "l @ NL # ys"] fit_long)
qed

lemma block_emit_mono: "prefix (block_emit cbs f I) (block_emit cbs f (I @ bs))"
proof (cases "length (snd (split_lines I)) < cbs")
  case True
  then show ?thesis by (simp add: block_emit_short)
next
  case False
  then show ?thesis
    by (cases bs rule: split_lines_cases) (simp_all add: block_emit_cut_none block_emit_cut_line)
qed

subsection \<open>The loops\<close>

lemma take_Suc_drop:
  "i < length xs \<Longrightarrow> take (Suc k) (drop i xs) = xs ! i # take k (drop (Suc i) xs)"
  by (metis Cons_nth_drop_Suc take_Suc_Cons)

lemma block_copy_spec:
  assumes "i + k \<le> length im" and "op + k \<le> length om"
  shows "block_copy t k im i om op ch cnt =
    (let d = take k (drop i im); l = takeWhile (\<lambda>c. c \<noteq> NL) d;
         om' = take op om @ map t l @ drop (op + length l) om
     in if length l = k then Some (if k = 0 then ch else last d, i + k, op + k, cnt + k, om')
        else Some (NL, i + length l + 1, op + length l, cnt + length l, om'))"
  using assms
proof (induction k arbitrary: i om op ch cnt)
  case 0
  then show ?case by simp
next
  case (Suc k)
  have d: "take (Suc k) (drop i im) = im ! i # take k (drop (Suc i) im)"
    using Suc.prems(1) by (intro take_Suc_drop) simp
  show ?case
  proof (cases "im ! i = NL")
    case True
    then show ?thesis using Suc.prems d by simp
  next
    case False
    let ?om = "om[op := t (im ! i)]"
    have u: "?om = take op om @ t (im ! i) # drop (Suc op) om"
      using Suc.prems(2) by (simp add: upd_conv_take_nth_drop)
    have tk: "take (Suc op) ?om @ xs = take op om @ t (im ! i) # xs" for xs
      using Suc.prems(2) by (simp add: u)
    have dr: "drop (Suc op + n) ?om = drop (Suc op + n) om" for n
      by simp
    have "last (take k (drop (Suc i) im)) = last (take (Suc k) (drop i im))" if "k \<noteq> 0"
      using that Suc.prems(1) by (simp add: d)
    then show ?thesis
      using Suc.IH [of "Suc i" "Suc op" ?om "im ! i" "Suc cnt"] Suc.prems False
      by (simp add: Let_def d tk dr)
  qed
qed

lemma toss_none:
  "i + n \<le> length im \<Longrightarrow> NL \<notin> set (take n (drop i im)) \<Longrightarrow> toss im i n = Some (i + n, 0)"
proof (induction n arbitrary: i)
  case (Suc n)
  have d: "take (Suc n) (drop i im) = im ! i # take n (drop (Suc i) im)"
    using Suc.prems(1) by (intro take_Suc_drop) simp
  show ?case using Suc by (auto simp: d)
qed simp

lemma toss_line:
  "i + n \<le> length im \<Longrightarrow> take n (drop i im) = l @ NL # ys \<Longrightarrow> NL \<notin> set l \<Longrightarrow>
     toss im i n = Some (i + length l + 1, n - length l)"
proof (induction l arbitrary: i n)
  case Nil
  then obtain m where n: "n = Suc m" by (cases n) simp_all
  have "im ! i = NL" using Nil.prems by (metis append_Nil hd_drop_conv_nth hd_take list.sel(1)
        list.distinct(1) n not_le take_eq_Nil zero_less_Suc drop_eq_Nil)
  then show ?case using Nil.prems by (simp add: n)
next
  case (Cons c l)
  then obtain m where n: "n = Suc m" by (cases n) simp_all
  have d: "take n (drop i im) = im ! i # take m (drop (Suc i) im)"
    using Cons.prems(1) unfolding n by (intro take_Suc_drop) simp
  then have "c = im ! i" "take m (drop (Suc i) im) = l @ NL # ys" using Cons.prems(2) by simp_all
  then show ?case using Cons by (auto simp: n)
qed

subsection \<open>Putting a record into the output buffer\<close>

text \<open>The output side of a state with its own output buffer, between two records.\<close>

definition blk_st :: "dd \<Rightarrow> bool" where
  "blk_st s \<longleftrightarrow> \<not> shared s \<and> out_wf s \<and> file_ok s \<and> 0 < cbsz s
     \<and> dbp (outp s) = dbcnt (outp s) \<and> dbcnt (outp s) < dbsz (outp s)
     \<and> dbsz (outp s) + cbsz s \<le> length (outbuf s)"

text \<open>Changes on the input side only.\<close>

definition in_side :: "dd \<Rightarrow> dd \<Rightarrow> bool" where
  "in_side s u \<longleftrightarrow> dbsz (inp u) = dbsz (inp s)
     \<and> u = s\<lparr>inp := inp u, intrunc := intrunc u, st := (st s)\<lparr>trunc := trunc (st u)\<rparr>, inbuf := inbuf u\<rparr>"

lemma in_side_obtain:
  assumes "in_side s u"
  obtains io tr w b where "u = s\<lparr>inp := io, intrunc := tr, st := (st s)\<lparr>trunc := w\<rparr>, inbuf := b\<rparr>"
    and "dbsz io = dbsz (inp s)"
  using assms unfolding in_side_def by metis

definition recorded :: "dd \<Rightarrow> dd \<Rightarrow> byte list \<Rightarrow> dd \<Rightarrow> bool" where
  "recorded s u r t \<longleftrightarrow> blk_st t \<and> logical t = logical s @ r
     \<and> counted t = counted s + of_nat (length r) \<and> same_cfg s t \<and> reader_same s t
     \<and> inp t = inp u \<and> intrunc t = intrunc u \<and> inbuf t = inbuf u"

lemma put_record:
  assumes blk: "blk_st s" and side: "in_side s u" and b: "length b = length (outbuf s)"
      "take (dbcnt (outp s) + length r) b = take (dbcnt (outp s)) (outbuf s) @ r"
    and len: "length r \<le> cbsz s + 1"
    and v: "v = upd_out (\<lambda>io. io\<lparr>dbp := dbp io + length r, dbcnt := dbcnt io + length r\<rparr>) (set_obuf b u)"
  shows "outcome_sat (recorded s u r) (out_exit (logical s @ r))
    (if dbsz (outp v) \<le> dbcnt (outp v) then dd_out False v else Ret v)"
proof -
  obtain io tr w c where u: "u = s\<lparr>inp := io, intrunc := tr, st := (st s)\<lparr>trunc := w\<rparr>, inbuf := c\<rparr>"
    and io: "dbsz io = dbsz (inp s)"
    using side by (rule in_side_obtain)
  have ns: "\<not> shared s" using blk by (simp add: blk_st_def)
  have keep: "emitted v = emitted s" "acct v = acct s" "out_wf v = out_wf s" "file_ok v = file_ok s"
      "same_cfg s v" "reader_same s v" "inp v = inp u" "intrunc v = intrunc u" "inbuf v = inbuf u"
      "outbuf v = b" "shared v = shared s"
      "outp v = (outp s)\<lparr>dbp := dbp (outp s) + length r, dbcnt := dbcnt (outp s) + length r\<rparr>"
    using ns io by (simp_all add: v u upd_out_def set_obuf_def emitted_def acct_def out_wf_def
        file_ok_def tight_def pend_ok_def whole_writes_def same_cfg_def reader_same_def)
  have ob: "obuf v = b" "obuf s = outbuf s" using keep(10,11) ns by (simp_all add: obuf_def)
  have lv: "logical v = logical s @ r"
    using b(2) by (simp add: logical_def keep(1,12) ob)
  have cv: "counted v = counted s + of_nat (length r)"
    by (simp add: counted_def keep(2,12) add.assoc)
  show ?thesis
  proof (cases "dbsz (outp v) \<le> dbcnt (outp v)")
    case False
    have "recorded s u r v"
      using blk False lv cv keep b(1) ob by (simp add: recorded_def blk_st_def same_cfgD(2) [OF keep(5)])
    with False show ?thesis by simp
  next
    case True
    have "outcome_sat (\<lambda>t. written v t \<and> (False \<longrightarrow> dbcnt (outp t) = 0 \<and> pending t = 0))
        (out_exit (logical v)) (dd_out False v)"
    proof (rule dd_out_written)
      show "out_wf v" "file_ok v" using blk keep(3,4) by (simp_all add: blk_st_def)
      show "dbcnt (outp v) \<le> length (obuf v)" using blk b(1) len by (simp add: blk_st_def keep(12) ob)
    qed (use True blk keep(12) in \<open>simp add: blk_st_def\<close>)
    then have "outcome_sat (recorded s u r) (out_exit (logical s @ r)) (dd_out False v)"
    proof (rule outcome_sat_mono)
      fix t assume "written v t \<and> (False \<longrightarrow> dbcnt (outp t) = 0 \<and> pending t = 0)"
      then have w: "written v t" by simp
      note d = writtenD [OF w]
      have ns': "\<not> shared v" "\<not> shared t" using ns keep(11) same_cfgD(5) [OF d(8)] by simp_all
      have "length (outbuf t) = length (outbuf s)" using d(7) ns' b(1) keep(10) by (simp add: obuf_def)
      moreover have "cbsz t = cbsz s" "dbsz (outp t) = dbsz (outp s)"
        using same_cfgD(2,8) [OF d(8)] same_cfgD(2,8) [OF keep(5)] by simp_all
      ultimately have "blk_st t" using blk d(3-6) ns' by (simp add: blk_st_def)
      then show "recorded s u r t"
        unfolding recorded_def using d(1,2,10,11) d(12) [OF ns'(1)] lv cv keep(7-9)
          same_cfg_trans [OF keep(5) d(8)] reader_same_trans [OF keep(6) d(9)] by simp
    qed (simp only: lv)
    with True show ?thesis by simp
  qed
qed

lemma upd_in_twice: "upd_in f (upd_in g s) = upd_in (\<lambda>io. f (g io)) s"
  by (simp add: upd_in_def)

lemma upd_in_set_obuf: "upd_in f (set_obuf b s) = set_obuf b (upd_in f s)"
  by (simp add: upd_in_def set_obuf_def)

lemma set_obuf_twice: "set_obuf b (set_obuf c s) = set_obuf b s"
  by (simp add: set_obuf_def)

text \<open>A line shorter than the record.\<close>

lemma block_record_line:
  assumes blk: "blk_st s" and l: "length l < cbsz s" "length l + 1 \<le> dbcnt (inp s)"
    and om: "om = take (dbp (outp s)) (outbuf s) @ map (xlat s) l @ drop (dbp (outp s) + length l) (outbuf s)"
  shows "outcome_sat (\<lambda>(i', t). i' = i \<and>
      recorded s (upd_in (\<lambda>io. io\<lparr>dbcnt := dbcnt io - (length l + 1)\<rparr>) s) (fit (cbsz s) (xlat s) l) t)
    (out_exit (logical s @ fit (cbsz s) (xlat s) l))
    (block_record NL i (dbp (outp s) + length l) (length l) (set_obuf om s))"
proof -
  let ?p = "dbp (outp s)" and ?n = "cbsz s - length l" and ?r = "fit (cbsz s) (xlat s) l"
  let ?u = "upd_in (\<lambda>io. io\<lparr>dbcnt := dbcnt io - (length l + 1)\<rparr>) s"
  let ?b = "take ?p (outbuf s) @ ?r @ drop (?p + cbsz s) (outbuf s)"
  have ns: "\<not> shared s" and room: "?p + cbsz s \<le> length (outbuf s)" and pc: "?p = dbcnt (outp s)"
    using blk by (simp_all add: blk_st_def)
  have pc': "pad_char s = xlat s SP" by (simp add: pad_char_def xlat_def split: option.split)
  have lr: "length ?r = cbsz s" using l by (simp add: fit_def)
  have wr: "mem_write om (?p + length l) (replicate ?n (pad_char s)) = Some ?b"
    using room l by (simp add: om fit_def pc' add.commute)
  have lo: "length om = length (outbuf s)" using room l by (simp add: om)
  have w: "upd_in (\<lambda>io. io\<lparr>dbcnt := sub64 (dbcnt io) 1\<rparr>)
      (upd_in (\<lambda>io. io\<lparr>dbcnt := sub64 (dbcnt io) (length l)\<rparr>) (set_obuf om s)) = set_obuf om ?u"
    using l(2) by (simp add: upd_in_def set_obuf_def)
  let ?v = "upd_out (\<lambda>io. io\<lparr>dbp := dbp io + length ?r, dbcnt := dbcnt io + length ?r\<rparr>) (set_obuf ?b ?u)"
  have run: "block_record NL i (?p + length l) (length l) (set_obuf om s) =
      bindo (if dbsz (outp ?v) \<le> dbcnt (outp ?v) then dd_out False ?v else Ret ?v) (\<lambda>t. Ret (i, t))"
  proof -
    have c: "cbsz (set_obuf om ?u) = cbsz s" "pad_char (set_obuf om ?u) = pad_char s"
      by (simp_all add: pad_char_def)
    have "bindo (need (mem_write (obuf (set_obuf om ?u)) (?p + length l)
        (replicate (cbsz (set_obuf om ?u) - length l) (pad_char (set_obuf om ?u)))))
        (\<lambda>b. Ret (i, set_obuf b (set_obuf om ?u))) = Ret (i, set_obuf ?b ?u)"
      by (simp only: c obuf_set_obuf wr need_simps bindo.simps set_obuf_twice)
    moreover have "length l < cbsz (set_obuf om ?u)" using l(1) c(1) by simp
    moreover have "cbsz (set_obuf om ?u) = length ?r" by (simp add: lr c)
    ultimately show ?thesis
      unfolding block_record_def Let_def if_P [OF refl] w by (simp only: if_True bindo.simps prod.case) simp
  qed
  have "outcome_sat (recorded s ?u ?r) (out_exit (logical s @ ?r))
      (if dbsz (outp ?v) \<le> dbcnt (outp ?v) then dd_out False ?v else Ret ?v)"
  proof (rule put_record [OF blk])
    show "in_side s ?u" by (simp add: in_side_def upd_in_def)
    show "length ?b = length (outbuf s)" using room lr by simp
    show "take (dbcnt (outp s) + length ?r) ?b = take (dbcnt (outp s)) (outbuf s) @ ?r"
      using room pc by simp
    show "length ?r \<le> cbsz s + 1" by (simp add: lr)
  qed (rule refl)
  then show ?thesis unfolding run by (rule outcome_sat_bind) simp
qed


text \<open>A full record without a newline: the rest of the line is tossed.\<close>

definition cut_done :: "nat \<Rightarrow> dd \<Rightarrow> dd \<Rightarrow> bool" where
  "cut_done n s u \<longleftrightarrow> in_side s u \<and> inbuf u = inbuf s \<and> inp u = (inp s)\<lparr>dbcnt := n\<rparr>"

lemma block_truncate_none:
  assumes "i + dbcnt (inp s) \<le> length (inbuf s)" and "NL \<notin> set (take (dbcnt (inp s)) (drop i (inbuf s)))"
  shows "\<exists>u. block_truncate i s = Ret (i + dbcnt (inp s), u) \<and> cut_done 0 s u \<and> intrunc u"
  using assms toss_none [OF assms]
  by (cases "dbcnt (inp s) = 0")
    (auto simp: block_truncate_def Let_def cut_done_def in_side_def upd_in_def upd_st_def)

lemma block_truncate_line:
  assumes "i + dbcnt (inp s) \<le> length (inbuf s)"
    and "take (dbcnt (inp s)) (drop i (inbuf s)) = l @ NL # ys" and "NL \<notin> set l"
  shows "\<exists>u. block_truncate i s = Ret (i + length l + 1, u) \<and> cut_done (length ys) s u
    \<and> intrunc u = intrunc s"
proof -
  have n: "dbcnt (inp s) = length l + 1 + length ys"
    using arg_cong [OF assms(2), of length] assms(1) by simp
  have rd: "mem_read (inbuf s) i (Suc 0) = Some [inbuf s ! i]"
    using assms(1) n by (simp add: take_Suc_drop)
  have "toss (inbuf s) i (dbcnt (inp s)) = Some (i + length l + 1, length ys + 1)"
    using toss_line [OF assms] n by simp
  moreover have "dbcnt (inp s) \<noteq> 0" using n by simp
  ultimately show ?thesis
    by (cases "inbuf s ! i = NL")
      (simp_all add: block_truncate_def Let_def rd cut_done_def in_side_def upd_in_def upd_st_def)
qed

lemma block_record_cut:
  assumes blk: "blk_st s" and l: "length l = cbsz s" "cbsz s \<le> dbcnt (inp s)"
    and om: "om = take (dbp (outp s)) (outbuf s) @ map (xlat s) l @ drop (dbp (outp s) + length l) (outbuf s)"
    and ch: "ch \<noteq> NL"
    and cut: "block_truncate i (set_obuf om (upd_in (\<lambda>io. io\<lparr>dbcnt := dbcnt io - cbsz s\<rparr>) s)) = Ret (i', w)"
      "cut_done n (set_obuf om (upd_in (\<lambda>io. io\<lparr>dbcnt := dbcnt io - cbsz s\<rparr>) s)) w"
  shows "outcome_sat (\<lambda>(j, t). j = i' \<and> recorded s w (map (xlat s) l) t)
    (out_exit (logical s @ map (xlat s) l))
    (block_record ch i op (length l) (set_obuf om s))"
proof -
  let ?p = "dbp (outp s)" and ?r = "map (xlat s) l"
  let ?u = "upd_in (\<lambda>io. io\<lparr>dbcnt := dbcnt io - cbsz s\<rparr>) s"
  have ns: "\<not> shared s" and room: "?p + cbsz s \<le> length (outbuf s)" and pc: "?p = dbcnt (outp s)"
    using blk by (simp_all add: blk_st_def)
  have w: "upd_in (\<lambda>io. io\<lparr>dbcnt := sub64 (dbcnt io) (cbsz s)\<rparr>) (set_obuf om s) = set_obuf om ?u"
    using l(2) by (simp add: upd_in_def set_obuf_def)
  have "in_side (set_obuf om ?u) w" using cut(2) by (simp add: cut_done_def)
  then obtain io tr x c where wf: "w = (set_obuf om ?u)\<lparr>inp := io, intrunc := tr,
      st := (st (set_obuf om ?u))\<lparr>trunc := x\<rparr>, inbuf := c\<rparr>" and io: "dbsz io = dbsz (inp (set_obuf om ?u))"
    by (rule in_side_obtain)
  define z where "z = s\<lparr>inp := io, intrunc := tr, st := (st s)\<lparr>trunc := x\<rparr>, inbuf := c\<rparr>"
  have z: "in_side s z" "w = set_obuf om z" "inp z = inp w" "intrunc z = intrunc w" "inbuf z = inbuf w"
    using io ns by (simp_all add: z_def in_side_def wf set_obuf_def upd_in_def)
  let ?v = "upd_out (\<lambda>io. io\<lparr>dbp := dbp io + length ?r, dbcnt := dbcnt io + length ?r\<rparr>) (set_obuf om z)"
  have cb: "cbsz w = cbsz s" "cbsz (set_obuf om ?u) = cbsz s"
    by (simp_all add: z(2)) (simp add: z_def)
  have run: "block_record ch i op (length l) (set_obuf om s) =
      bindo (if dbsz (outp ?v) \<le> dbcnt (outp ?v) then dd_out False ?v else Ret ?v) (\<lambda>t. Ret (i', t))"
    using cut(1) l cb ch
    by (simp add: block_record_def Let_def w z(2) del: set_obuf_fields)
  have "outcome_sat (recorded s z ?r) (out_exit (logical s @ ?r))
      (if dbsz (outp ?v) \<le> dbcnt (outp ?v) then dd_out False ?v else Ret ?v)"
    by (rule put_record [OF blk z(1) _ _ _ refl]) (use room l pc in \<open>simp_all add: om\<close>)
  moreover have "recorded s z ?r = recorded s w ?r"
    by (rule ext) (simp add: recorded_def z(3-5))
  ultimately have "outcome_sat (recorded s w ?r) (out_exit (logical s @ ?r))
      (if dbsz (outp ?v) \<le> dbcnt (outp ?v) then dd_out False ?v else Ret ?v)"
    by (simp only:)
  then show ?thesis unfolding run by (rule outcome_sat_bind) simp
qed

subsection \<open>The record loop\<close>

lemma takeWhile_lines:
  "NL \<notin> set xs \<Longrightarrow> takeWhile (\<lambda>c. c \<noteq> NL) xs = xs"
  "NL \<notin> set xs \<Longrightarrow> takeWhile (\<lambda>c. c \<noteq> NL) (xs @ NL # ys) = xs"
  by (induction xs) auto

lemma block_copy_plain:
  assumes "i + k \<le> length im" and "op + k \<le> length om" and "NL \<notin> set (take k (drop i im))" and "0 < k"
  shows "block_copy t k im i om op ch cnt = Some (last (take k (drop i im)), i + k, op + k, cnt + k,
    take op om @ map t (take k (drop i im)) @ drop (op + k) om)"
proof -
  have "takeWhile (\<lambda>c. c \<noteq> NL) (take k (drop i im)) = take k (drop i im)"
    by (rule takeWhile_lines(1) [OF assms(3)])
  moreover have "length (take k (drop i im)) = k" using assms(1) by simp
  ultimately show ?thesis
    using assms(4) unfolding block_copy_spec [OF assms(1,2)] Let_def by (simp only:) simp
qed

lemma block_copy_line:
  assumes "i + k \<le> length im" and "op + k \<le> length om"
    and d: "take k (drop i im) = l @ NL # zs" and l: "NL \<notin> set l"
  shows "block_copy t k im i om op ch cnt = Some (NL, i + length l + 1, op + length l, cnt + length l,
    take op om @ map t l @ drop (op + length l) om)"
proof -
  have tw: "takeWhile (\<lambda>c. c \<noteq> NL) (l @ NL # zs) = l"
    by (rule takeWhile_lines(2) [OF l])
  have "length (take k (drop i im)) = k" using assms(1) by simp
  then have "length l \<noteq> k" by (simp add: d)
  then show ?thesis
    unfolding block_copy_spec [OF assms(1,2)] d by (simp add: tw)
qed

definition blk_head :: "dd \<Rightarrow> nat \<Rightarrow> byte list \<Rightarrow> bool" where
  "blk_head s i d \<longleftrightarrow> blk_st s \<and> \<not> intrunc s \<and> dbp (inp s) = i + length d
     \<and> dbcnt (inp s) = length d \<and> dbp (inp s) \<le> length (inbuf s)
     \<and> take (length d) (drop i (inbuf s)) = d"

text \<open>What is left on the input side: a rest shorter than a record, or the truncation state.\<close>

definition blk_rest :: "byte list \<Rightarrow> dd \<Rightarrow> bool" where
  "blk_rest r t \<longleftrightarrow> (if length r < cbsz t
     then \<not> intrunc t \<and> dbcnt (inp t) = length r \<and> take (length r) (inbuf t) = r
     else intrunc t \<and> dbcnt (inp t) = 0)"

definition blk_post :: "dd \<Rightarrow> byte list \<Rightarrow> dd \<Rightarrow> bool" where
  "blk_post s d t \<longleftrightarrow> blk_st t \<and> logical t = logical s @ block_emit (cbsz s) (xlat s) d
     \<and> counted t = counted s + of_nat (length (block_emit (cbsz s) (xlat s) d))
     \<and> same_cfg s t \<and> reader_same s t \<and> length (inbuf t) = length (inbuf s)
     \<and> blk_rest (snd (split_lines d)) t"

lemma recorded_head:
  assumes "recorded s u r t" and "inp u = (inp s)\<lparr>dbcnt := length ys\<rparr>" and "inbuf u = inbuf s"
    and "\<not> intrunc u" and "dbp (inp s) = j + length ys" and "dbp (inp s) \<le> length (inbuf s)"
    and "take (length ys) (drop j (inbuf s)) = ys"
  shows "blk_head t j ys"
  using assms by (simp add: recorded_def blk_head_def)

lemma recorded_post:
  assumes r: "recorded s u r t" "inbuf u = inbuf s" and p: "blk_post t ys v"
    and e: "block_emit (cbsz s) (xlat s) d = r @ block_emit (cbsz s) (xlat s) ys"
      "snd (split_lines d) = snd (split_lines ys)"
  shows "blk_post s d v"
proof -
  have c: "same_cfg s t" "reader_same s t" "logical t = logical s @ r" "inbuf t = inbuf s"
      "counted t = counted s + of_nat (length r)"
    using r by (simp_all add: recorded_def)
  have x: "cbsz t = cbsz s" "xlat t = xlat s" using same_cfgD(2) [OF c(1)] same_cfg_xlat [OF c(1)] by simp_all
  have v: "same_cfg t v" "reader_same t v" "blk_st v" "length (inbuf v) = length (inbuf t)"
      "blk_rest (snd (split_lines ys)) v"
      "logical v = logical t @ block_emit (cbsz t) (xlat t) ys"
      "counted v = counted t + of_nat (length (block_emit (cbsz t) (xlat t) ys))"
    using p by (simp_all add: blk_post_def)
  show ?thesis
    unfolding blk_post_def using v(3,4,5) c e v(6,7) x
      same_cfg_trans [OF c(1) v(1)] reader_same_trans [OF c(2) v(2)] by (simp add: add.assoc)
qed

lemma recorded_stop:
  assumes r: "recorded s u (map (xlat s) (take (cbsz s) d)) t" "inbuf u = inbuf s" "dbcnt (inp u) = 0" "intrunc u"
    and d: "NL \<notin> set d" "cbsz s \<le> length d"
  shows "blk_post s d t"
proof -
  have "same_cfg s t" using r(1) by (simp add: recorded_def)
  note c = same_cfgD(2) [OF this]
  have e: "block_emit (cbsz s) (xlat s) d = map (xlat s) (take (cbsz s) d)"
    using d by (simp add: block_emit_plain)
  show ?thesis
    unfolding blk_post_def e using r d by (simp add: recorded_def blk_rest_def split_lines_plain c)
qed

lemma block_short_sat:
  assumes h: "blk_head s i d" and d: "NL \<notin> set d" "length d < cbsz s" and om: "length om = length (outbuf s)"
      "take (dbcnt (outp s)) om = take (dbcnt (outp s)) (outbuf s)"
  shows "outcome_sat (blk_post s d) E (block_short (set_obuf om s))"
proof -
  let ?n = "length d" and ?b = "d @ drop (length d) (inbuf s)"
  have s: "dbp (inp s) = i + ?n" "dbcnt (inp s) = ?n" "i + ?n \<le> length (inbuf s)"
      "take ?n (drop i (inbuf s)) = d" "blk_st s" "\<not> intrunc s"
    using h by (simp_all add: blk_head_def)
  have ns: "\<not> shared s" using s(5) by (simp add: blk_st_def)
  have ib: "inbuf (set_obuf om s) = inbuf s" using ns by (simp add: set_obuf_def)
  have run: "block_short (set_obuf om s) = Ret ((set_obuf om s)\<lparr>inbuf := ?b\<rparr>)"
    using s by (simp add: block_short_def Let_def ib)
  let ?t = "(set_obuf om s)\<lparr>inbuf := ?b\<rparr>"
  have keep: "emitted ?t = emitted s" "acct ?t = acct s" "out_wf ?t = out_wf s" "file_ok ?t = file_ok s"
      "same_cfg s ?t" "reader_same s ?t" "outp ?t = outp s" "obuf ?t = om" "shared ?t = shared s"
      "cbsz ?t = cbsz s" "intrunc ?t = intrunc s" "inp ?t = inp s" "outbuf ?t = om"
    using ns by (simp_all add: set_obuf_def emitted_def acct_def out_wf_def
        file_ok_def tight_def pend_ok_def whole_writes_def same_cfg_def reader_same_def obuf_def)
  have "logical ?t = logical s" "counted ?t = counted s"
    using om(2) ns by (simp_all only: logical_def counted_def keep) (simp add: obuf_def)
  moreover have "blk_st ?t" using s(5) om(1) by (simp add: blk_st_def keep)
  moreover have "length ?b = length (inbuf s)" using s(3) by simp
  ultimately have "blk_post s d ?t"
    using d s(2,6) keep(5,6)
    by (simp add: blk_post_def blk_rest_def split_lines_plain block_emit_plain keep(10-12) del: set_obuf_fields)
  then show ?thesis by (simp add: run)
qed


lemma outcome_sat_exit_mono:
  "outcome_sat Q (out_exit a) r \<Longrightarrow> outcome_sat Q (out_exit (a @ b)) r"
  by (erule outcome_sat_mono) (auto intro: out_exit_append)

lemma block_loop_step:
  assumes "dbcnt (inp s) = n" and "n \<noteq> 0"
    and "block_copy (xlat s) (min (cbsz s) n) (inbuf s) i (obuf s) (dbp (outp s)) ch 0 = Some (ch', i', op', cnt, om)"
  shows "block_loop (Suc fuel) i ch s =
    (if ch' \<noteq> NL \<and> n < cbsz s then block_short (set_obuf om s)
     else bindo (block_record ch' i' op' cnt (set_obuf om s)) (\<lambda>(i'', s'). block_loop fuel i'' ch' s'))"
  using assms by simp

lemma block_loop_sat:
  assumes "blk_head s i d" and "length d < fuel"
  shows "outcome_sat (blk_post s d) (out_exit (logical s @ block_emit (cbsz s) (xlat s) d))
    (block_loop fuel i ch s)"
  using assms
proof (induction fuel arbitrary: s i d ch)
  case 0
  then show ?case by simp
next
  case (Suc fuel)
  let ?f = "xlat s" and ?k = "min (cbsz s) (length d)" and ?p = "dbp (outp s)"
  let ?E = "out_exit (logical s @ block_emit (cbsz s) ?f d)"
  have s: "dbp (inp s) = i + length d" "dbcnt (inp s) = length d" "i + length d \<le> length (inbuf s)"
      "take (length d) (drop i (inbuf s)) = d" "blk_st s" "\<not> intrunc s"
    using Suc.prems(1) by (simp_all add: blk_head_def)
  have st: "\<not> shared s" "0 < cbsz s" "?p = dbcnt (outp s)" "?p + cbsz s \<le> length (outbuf s)"
    using s(5) by (simp_all add: blk_st_def)
  have ob: "obuf s = outbuf s" using st(1) by (simp add: obuf_def)
  have tk: "take m (drop i (inbuf s)) = take m d" if "m \<le> length d" for m
    using that by (metis s(4) min.absorb1 take_take)
  have rest: "take m (drop (i + j) (inbuf s)) = take m (drop j d)" if "m + j \<le> length d" for m j
  proof -
    have "take m (drop j d) = take m (drop j (take (length d) (drop i (inbuf s))))" by (simp only: s(4))
    also have "\<dots> = take m (drop (i + j) (inbuf s))"
      using that by (simp add: drop_take add.commute)
    finally show ?thesis ..
  qed
  have room: "i + ?k \<le> length (inbuf s)" "?p + ?k \<le> length (outbuf s)" using s(3) st(4) by auto
  show ?case
  proof (cases "d = []")
    case True
    then show ?thesis
      using s st by (simp add: blk_post_def block_emit_plain blk_rest_def reader_same_def)
  next
    case ne: False
    then have k: "0 < ?k" using st(2) by simp
    show ?thesis
    proof (cases d rule: split_lines_cases)
      case plain: rest
      then have nk: "NL \<notin> set (take ?k d)" by (meson in_set_takeD)
      let ?om = "take ?p (outbuf s) @ map ?f (take ?k d) @ drop (?p + ?k) (outbuf s)"
      have cp: "block_copy ?f ?k (inbuf s) i (obuf s) ?p ch 0 = Some (last (take ?k d), i + ?k, ?p + ?k, ?k, ?om)"
        using block_copy_plain [OF room _ k, of ?f ch 0] nk by (simp add: tk ob)
      have last: "last (take ?k d) \<noteq> NL" using nk k ne st(2) by (metis last_in_set min_0R take_eq_Nil not_gr0)
      show ?thesis
      proof (cases "length d < cbsz s")
        case True
        then have run: "block_loop (Suc fuel) i ch s = block_short (set_obuf ?om s)"
          using block_loop_step [OF s(2) _ cp] ne last True by simp
        show ?thesis
          unfolding run by (rule block_short_sat [OF Suc.prems(1) plain True]) (use st in auto)
      next
        case False
        then have kc: "?k = cbsz s" by simp
        let ?m = "length d - cbsz s" and ?r = "map ?f (take (cbsz s) d)"
        define z where "z = set_obuf ?om (upd_in (\<lambda>io. io\<lparr>dbcnt := dbcnt io - cbsz s\<rparr>) s)"
        have zi: "inbuf z = inbuf s" "dbcnt (inp z) = ?m"
          using st(1) s(2) by (simp_all add: z_def set_obuf_def)
        have "take ?m (drop (i + cbsz s) (inbuf s)) = drop (cbsz s) d"
          using rest [of ?m "cbsz s"] False by simp
        then have "NL \<notin> set (take ?m (drop (i + cbsz s) (inbuf s)))"
          using plain by (metis in_set_dropD)
        then obtain w where w: "block_truncate (i + cbsz s) z = Ret (i + cbsz s + ?m, w)" "cut_done 0 z w" "intrunc w"
          using block_truncate_none [of "i + cbsz s" z, unfolded zi] s(3) False by auto
        have cut: "outcome_sat (\<lambda>(j, t). j = i + cbsz s + ?m \<and> recorded s w (map ?f (take (cbsz s) d)) t)
            (out_exit (logical s @ ?r)) (block_record (last (take ?k d)) (i + ?k) (?p + ?k) (length (take (cbsz s) d)) (set_obuf ?om s))"
          unfolding kc by (rule block_record_cut [OF s(5) _ _ _ _ w(1)[unfolded z_def kc] w(2)[unfolded z_def kc]])
            (use False s(2) last kc in auto)
        have "length (take (cbsz s) d) = ?k" using False by simp
        with cut have cut': "outcome_sat (\<lambda>(j, t). j = i + cbsz s + ?m \<and> recorded s w ?r t)
            (out_exit (logical s @ ?r)) (block_record (last (take ?k d)) (i + ?k) (?p + ?k) ?k (set_obuf ?om s))"
          by (simp only:)
        have run: "block_loop (Suc fuel) i ch s = bindo (block_record (last (take ?k d)) (i + ?k) (?p + ?k) ?k (set_obuf ?om s))
            (\<lambda>(i'', s'). block_loop fuel i'' (last (take ?k d)) s')"
          using block_loop_step [OF s(2) _ cp] ne last False by simp
        have e: "block_emit (cbsz s) ?f d = ?r" using plain False by (simp add: block_emit_plain)
        show ?thesis
          unfolding run e
        proof (rule outcome_sat_bind [OF cut'])
          fix x :: "nat \<times> dd" assume "case x of (j, t) \<Rightarrow> j = i + cbsz s + ?m \<and> recorded s w ?r t"
          then obtain t where x: "x = (i + cbsz s + ?m, t)" and t: "recorded s w ?r t" by (cases x) auto
          have "inbuf w = inbuf s" "dbcnt (inp w) = 0" using w(2) zi(1) by (simp_all add: cut_done_def)
          then have p: "blk_post s d t" and z: "dbcnt (inp t) = 0"
            using recorded_stop [OF t _ _ w(3) plain] False t by (simp_all add: recorded_def)
          obtain g where "fuel = Suc g" using Suc.prems(2) ne by (cases fuel) auto
          with p z show "outcome_sat (blk_post s d) (out_exit (logical s @ ?r))
             (case x of (i'', s') \<Rightarrow> block_loop fuel i'' (last (take ?k d)) s')"
            by (simp add: x)
        qed
      qed
    next
      case (line l ys)
      have ly: "length d = length l + 1 + length ys" using line(2) by simp
      have dys: "take (length ys) (drop (i + (length l + 1)) (inbuf s)) = ys"
        using rest [of "length ys" "length l + 1"] line(2) by simp
      have e: "block_emit (cbsz s) ?f d = fit (cbsz s) ?f l @ block_emit (cbsz s) ?f ys"
          "snd (split_lines d) = snd (split_lines ys)"
        using line by (simp_all add: block_emit_line split_lines_line)
      have cont: "outcome_sat (blk_post s d) ?E (block_loop fuel j ch' t)"
        if t: "recorded s u (fit (cbsz s) ?f l) t" and u: "inp u = (inp s)\<lparr>dbcnt := length ys\<rparr>" "inbuf u = inbuf s"
          "\<not> intrunc u" and j: "j = i + (length l + 1)" for j ch' t u
      proof -
        have "blk_head t j ys"
          by (rule recorded_head [OF t u]) (use s ly dys j in simp_all)
        then have "outcome_sat (blk_post t ys) (out_exit (logical t @ block_emit (cbsz t) (xlat t) ys))
            (block_loop fuel j ch' t)"
          by (rule Suc.IH) (use Suc.prems(2) ly in simp)
        moreover have "cbsz t = cbsz s" "xlat t = xlat s" "logical t = logical s @ fit (cbsz s) ?f l"
          using t same_cfgD(2) same_cfg_xlat by (auto simp: recorded_def)
        ultimately have "outcome_sat (blk_post t ys) ?E (block_loop fuel j ch' t)"
          by (simp add: e)
        then show ?thesis
          by (rule outcome_sat_mono) (use recorded_post [OF t u(2) _ e] in auto)
      qed
      show ?thesis
      proof (cases "length l < cbsz s")
        case True
        have "take ?k d = l @ NL # take (?k - length l - 1) ys"
          using True line(2) ly by (simp add: take_Cons')
        then have cp: "block_copy ?f ?k (inbuf s) i (obuf s) ?p ch 0 = Some (NL, i + length l + 1, ?p + length l, length l,
            take ?p (outbuf s) @ map ?f l @ drop (?p + length l) (outbuf s))"
          using block_copy_line [OF room _ line(1), of _ ?f ch 0] by (simp add: tk ob)
        let ?om = "take ?p (outbuf s) @ map ?f l @ drop (?p + length l) (outbuf s)"
        have run: "block_loop (Suc fuel) i ch s = bindo (block_record NL (i + length l + 1) (?p + length l) (length l) (set_obuf ?om s))
            (\<lambda>(i'', s'). block_loop fuel i'' NL s')"
          using block_loop_step [OF s(2) _ cp] ne by simp
        let ?u = "upd_in (\<lambda>io. io\<lparr>dbcnt := dbcnt io - (length l + 1)\<rparr>) s"
        have "outcome_sat (\<lambda>(i', t). i' = i + length l + 1 \<and> recorded s ?u (fit (cbsz s) ?f l) t)
           (out_exit (logical s @ fit (cbsz s) ?f l)) (block_record NL (i + length l + 1) (?p + length l) (length l) (set_obuf ?om s))"
          by (rule block_record_line [OF s(5) True _ refl]) (use s(2) ly in simp)
        then have rec: "outcome_sat (\<lambda>(i', t). i' = i + length l + 1 \<and> recorded s ?u (fit (cbsz s) ?f l) t) ?E
            (block_record NL (i + length l + 1) (?p + length l) (length l) (set_obuf ?om s))"
          unfolding e append_assoc [symmetric] by (rule outcome_sat_exit_mono)
        show ?thesis
          unfolding run
        proof (rule outcome_sat_bind [OF rec], goal_cases)
          case (1 x)
          then obtain t where x: "x = (i + length l + 1, t)" "recorded s ?u (fit (cbsz s) ?f l) t" by (cases x) auto
          show ?case
            unfolding x(1) prod.case by (rule cont [OF x(2)]) (use s ly in simp_all)
        qed
      next
        case False
        then have kc: "?k = cbsz s" "cbsz s \<le> length d" using ly by simp_all
        have tl: "take (cbsz s) d = take (cbsz s) l" using False line(2) by simp
        then have nk: "NL \<notin> set (take ?k d)" using line(1) kc by (metis in_set_takeD)
        let ?om = "take ?p (outbuf s) @ map ?f (take ?k d) @ drop (?p + ?k) (outbuf s)"
        have cp: "block_copy ?f ?k (inbuf s) i (obuf s) ?p ch 0 = Some (last (take ?k d), i + ?k, ?p + ?k, ?k, ?om)"
          using block_copy_plain [OF room _ k, of ?f ch 0] nk by (simp add: tk ob)
        have last: "last (take ?k d) \<noteq> NL" using nk k ne st(2) by (metis last_in_set min_0R take_eq_Nil not_gr0)
        let ?m = "length d - cbsz s" and ?r = "map ?f (take (cbsz s) l)" and ?l' = "drop (cbsz s) l"
        define z where "z = set_obuf ?om (upd_in (\<lambda>io. io\<lparr>dbcnt := dbcnt io - cbsz s\<rparr>) s)"
        have zi: "inbuf z = inbuf s" "dbcnt (inp z) = ?m" "intrunc z = intrunc s"
          using st(1) s(2) by (simp_all add: z_def set_obuf_def)
        have "take ?m (drop (i + cbsz s) (inbuf s)) = ?l' @ NL # ys"
          using rest [of ?m "cbsz s"] kc(2) False line(2) by simp
        moreover have "NL \<notin> set ?l'" using line(1) by (metis in_set_dropD)
        ultimately obtain w where w: "block_truncate (i + cbsz s) z = Ret (i + cbsz s + length ?l' + 1, w)"
            "cut_done (length ys) z w" "intrunc w = intrunc z"
          using block_truncate_line [of "i + cbsz s" z ?l' ys, unfolded zi(1,2)] s(3) kc(2) by auto
        let ?j = "i + cbsz s + length ?l' + 1"
        have cut: "outcome_sat (\<lambda>(j, t). j = ?j \<and> recorded s w (map ?f (take (cbsz s) l)) t)
            (out_exit (logical s @ ?r)) (block_record (last (take ?k d)) (i + ?k) (?p + ?k) (length (take (cbsz s) l)) (set_obuf ?om s))"
          unfolding kc tl by (rule block_record_cut [OF s(5) _ _ _ _ w(1)[unfolded z_def kc tl] w(2)[unfolded z_def kc tl]])
            (use False s(2) last kc tl in auto)
        have lk: "length (take (cbsz s) l) = ?k" using False kc by simp
        have fr: "?r = fit (cbsz s) ?f l" using False by (simp add: fit_def)
        have rec: "outcome_sat (\<lambda>(j, t). j = ?j \<and> recorded s w (fit (cbsz s) ?f l) t) ?E
            (block_record (last (take ?k d)) (i + ?k) (?p + ?k) ?k (set_obuf ?om s))"
          using outcome_sat_exit_mono [OF cut [unfolded lk fr], of "block_emit (cbsz s) ?f ys"]
          by (simp only: e append_assoc)
        have run: "block_loop (Suc fuel) i ch s = bindo (block_record (last (take ?k d)) (i + ?k) (?p + ?k) ?k (set_obuf ?om s))
            (\<lambda>(i'', s'). block_loop fuel i'' (last (take ?k d)) s')"
          using block_loop_step [OF s(2) _ cp] ne kc(2) by simp
        show ?thesis
          unfolding run
        proof (rule outcome_sat_bind [OF rec], goal_cases)
          case (1 x)
          then obtain t where x: "x = (?j, t)" "recorded s w (fit (cbsz s) ?f l) t" by (cases x) auto
          have "inbuf w = inbuf s" "inp w = (inp s)\<lparr>dbcnt := length ys\<rparr>"
            using w(2) zi(1) by (simp_all add: cut_done_def z_def)
          then show ?case
            unfolding x(1) prod.case by (intro cont [OF x(2)]) (use s ly zi w False in simp_all)
        qed
      qed
    qed
  qed
qed

subsection \<open>The conversion between two reads\<close>

definition block_inv :: "dd \<Rightarrow> byte list \<Rightarrow> dd \<Rightarrow> bool" where
  "block_inv s0 I s \<longleftrightarrow> same_cfg s0 s \<and> blk_st s \<and> cfunc s = Block
     \<and> C_BS \<notin> ddflags s \<and> C_OSYNC \<notin> ddflags s \<and> 0 < dbsz (inp s) \<and> cpy_cnt s < 2 ^ 64
     \<and> dbp (inp s) = dbcnt (inp s) \<and> dbsz (inp s) + cbsz s \<le> length (inbuf s)
     \<and> logical s = emitted s0 @ block_emit (cbsz s0) (xlat s0) I
     \<and> counted s = acct s0 + of_nat (length (block_emit (cbsz s0) (xlat s0) I))
     \<and> blk_rest (snd (split_lines I)) s"

lemma block_invD:
  assumes "block_inv s0 I s"
  shows "same_cfg s0 s" "blk_st s" "cfunc s = Block" "C_BS \<notin> ddflags s" "C_OSYNC \<notin> ddflags s"
    "0 < dbsz (inp s)" "cpy_cnt s < 2 ^ 64" "dbp (inp s) = dbcnt (inp s)"
    "dbsz (inp s) + cbsz s \<le> length (inbuf s)"
    "logical s = emitted s0 @ block_emit (cbsz s0) (xlat s0) I"
    "counted s = acct s0 + of_nat (length (block_emit (cbsz s0) (xlat s0) I))"
    "blk_rest (snd (split_lines I)) s" "cbsz s = cbsz s0" "xlat s = xlat s0"
  using assms same_cfgD(2) [of s0 s] same_cfg_xlat [of s0 s] unfolding block_inv_def by blast+

text \<open>The output side of a state is that of another.\<close>

definition out_same :: "dd \<Rightarrow> dd \<Rightarrow> bool" where
  "out_same s t \<longleftrightarrow> (\<not> shared s \<longrightarrow> logical t = logical s) \<and> counted t = counted s
     \<and> (blk_st s \<longrightarrow> blk_st t) \<and> same_cfg s t"

lemma out_sameI:
  assumes "outp t = outp s" "outbuf t = outbuf s" "ofile t = ofile s" "opos t = opos s"
    "pending t = pending s" "wscript t = wscript s" "st_bytes (st t) = st_bytes (st s)" "same_cfg s t"
  shows "out_same s t"
  using assms same_cfgD [OF assms(8)]
  by (simp add: out_same_def logical_def counted_def emitted_def acct_def obuf_def blk_st_def
      out_wf_def file_ok_def tight_def pend_ok_def whole_writes_def)

lemma upd_in_keeps_more [simp]:
  "outbuf (upd_in f s) = outbuf s" "ofile (upd_in f s) = ofile s" "opos (upd_in f s) = opos s"
  "wscript (upd_in f s) = wscript s"
  by (simp_all add: upd_in_def)

lemma block_quiet:
  assumes J: "block_inv s0 I s" and t: "quiet s t"
  shows "block_inv s0 I t"
proof -
  obtain a m b d where t: "t = s\<lparr>src := a, stderr := m, inbuf := b, inp := (inp s)\<lparr>dbrcnt := d\<rparr>\<rparr>"
    and b: "length b = length (inbuf s)" "take (dbp (inp s)) b = take (dbp (inp s)) (inbuf s)"
    using t by (rule quiet_obtain)
  note j = block_invD [OF J]
  have "out_same s t" by (rule out_sameI) (simp_all add: t same_cfg_def)
  moreover have "blk_rest (snd (split_lines I)) t"
    using j(8,12) b(2) by (simp add: blk_rest_def t split: if_splits)
  ultimately show ?thesis
    using j b(1) same_cfg_trans [OF j(1)] by (auto simp: block_inv_def out_same_def blk_st_def t)
qed

lemma block_post_inv:
  assumes J: "block_inv s0 I s" and u: "out_same s u" "reader_same t u" "length (inbuf u) = length (inbuf s)"
    and v: "blk_post u d v"
    and e: "block_emit (cbsz s0) (xlat s0) (I @ bs) = block_emit (cbsz s0) (xlat s0) I @ block_emit (cbsz s0) (xlat s0) d"
      "snd (split_lines (I @ bs)) = snd (split_lines d)"
  shows "block_inv s0 (I @ bs) (upd_in (\<lambda>io. io\<lparr>dbp := dbcnt io\<rparr>) v)
    \<and> reader_same t (upd_in (\<lambda>io. io\<lparr>dbp := dbcnt io\<rparr>) v)"
proof -
  let ?w = "upd_in (\<lambda>io. io\<lparr>dbp := dbcnt io\<rparr>) v"
  note j = block_invD [OF J]
  have ns: "\<not> shared s" using j(2) by (simp add: blk_st_def)
  have uc: "same_cfg s u" "logical u = logical s" "counted u = counted s"
    using u(1) ns by (simp_all add: out_same_def)
  have ux: "cbsz u = cbsz s0" "xlat u = xlat s0"
    using same_cfgD(2) [OF uc(1)] same_cfg_xlat [OF uc(1)] j(13,14) by simp_all
  have vc: "same_cfg u v" "reader_same u v" "blk_st v" "length (inbuf v) = length (inbuf u)"
      "blk_rest (snd (split_lines d)) v"
      "logical v = logical u @ block_emit (cbsz u) (xlat u) d"
      "counted v = counted u + of_nat (length (block_emit (cbsz u) (xlat u) d))"
    using v by (simp_all add: blk_post_def)
  have c: "same_cfg s v" using uc(1) vc(1) by (rule same_cfg_trans)
  have "same_cfg s0 ?w" using same_cfg_trans [OF j(1) c] by simp
  moreover have "blk_st ?w" using vc(3) by (simp add: blk_st_def)
  moreover have "blk_rest (snd (split_lines (I @ bs))) ?w"
    using vc(5) by (simp add: e blk_rest_def)
  moreover have "reader_same t ?w" using reader_same_trans [OF u(2) vc(2)] by simp
  ultimately show ?thesis
    using j vc(4,6,7) u(3) uc ux same_cfgD [OF c] e by (simp add: block_inv_def add.assoc)
qed

lemma block_deliver:
  assumes J: "block_inv s0 I s" and t: "reads s bs t" and len: "length bs \<le> dbsz (inp s)"
  shows "outcome_sat (\<lambda>u. block_inv s0 (I @ bs) u \<and> reader_same t u)
    (out_exit (emitted s0 @ block_emit (cbsz s0) (xlat s0) (I @ bs))) (deliver t)"
proof -
  note j = block_invD [OF J]
  let ?r = "snd (split_lines I)" and ?e = "block_emit (cbsz s0) (xlat s0)"
  obtain a m b x y where t: "t = s\<lparr>src := a, stderr := m, inbuf := b,
      st := (st s)\<lparr>in_full := x, in_part := y\<rparr>,
      inp := (inp s)\<lparr>dbcnt := dbcnt (inp s) + length bs, dbrcnt := length bs\<rparr>\<rparr>"
    and b: "length b = length (inbuf s)" "take (dbp (inp s) + length bs) b = take (dbp (inp s)) (inbuf s) @ bs"
    using t by (rule reads_obtain)
  define u where "u = upd_in (\<lambda>io. io\<lparr>dbp := dbp io + dbrcnt io\<rparr>) t"
  have run: "deliver t = dd_block u"
    using j(3,4) by (simp add: deliver_def run_conv_def u_def) (simp add: t)
  have uo: "out_same s u" by (rule out_sameI) (simp_all add: t u_def upd_in_def same_cfg_def)
  have ur: "reader_same t u" by (simp add: u_def reader_same_def)
  have ub: "inbuf u = b" "dbp (inp u) = dbcnt (inp s) + length bs" "dbcnt (inp u) = dbcnt (inp s) + length bs"
      "intrunc u = intrunc s" "dbrcnt (inp u) = length bs"
    using j(8) by (simp_all add: u_def t)
  have ns: "\<not> shared s" using j(2) by (simp add: blk_st_def)
  have us: "blk_st u" "logical u = logical s" "cbsz u = cbsz s0" "xlat u = xlat s0"
    using uo j(2,13,14) ns same_cfgD(2) [of s u] same_cfg_xlat [of s u] by (simp_all add: out_same_def)
  show ?thesis
  proof (cases "length ?r < cbsz s0")
    case True
    then have r: "\<not> intrunc s" "dbcnt (inp s) = length ?r" "take (length ?r) (inbuf s) = ?r"
      using j(12,13) by (simp_all add: blk_rest_def)
    have d: "take (length ?r + length bs) b = ?r @ bs" using b(2) j(8) r(2,3) by simp
    have h: "blk_head u 0 (?r @ bs)"
      using us(1) ub r b(1) d j(9,13) len True by (simp add: blk_head_def)
    have "outcome_sat (blk_post u (?r @ bs)) (out_exit (logical u @ block_emit (cbsz u) (xlat u) (?r @ bs)))
        (block_loop (Suc (dbcnt (inp u))) 0 0 u)"
      by (rule block_loop_sat [OF h]) (simp add: ub r)
    then have l: "outcome_sat (blk_post u (?r @ bs)) (out_exit (emitted s0 @ ?e (I @ bs)))
        (block_loop (Suc (dbcnt (inp u))) 0 0 u)"
      using True by (simp add: us j(10) block_emit_short del: block_loop.simps)
    have "dd_block u = bindo (block_loop (Suc (dbcnt (inp u))) 0 0 u)
        (\<lambda>s2. Ret (upd_in (\<lambda>io. io\<lparr>dbp := dbcnt io\<rparr>) s2))"
      using r(1) ub by (simp add: dd_block_def block_resume_def del: block_loop.simps)
    then show ?thesis
      unfolding run
    proof (simp only:, intro outcome_sat_bind [OF l])
      fix v assume v: "blk_post u (?r @ bs) v"
      show "outcome_sat (\<lambda>u. block_inv s0 (I @ bs) u \<and> reader_same t u)
          (out_exit (emitted s0 @ ?e (I @ bs))) (Ret (upd_in (\<lambda>io. io\<lparr>dbp := dbcnt io\<rparr>) v))"
        using block_post_inv [OF J uo ur _ v] True b(1) ub(1) split_lines_append [of I bs]
        by (simp add: block_emit_short)
    qed
  next
    case False
    then have r: "intrunc s" "dbcnt (inp s) = 0" using j(12,13) by (simp_all add: blk_rest_def)
    have tb: "take (length bs) b = bs" and lb: "length bs \<le> length b"
      using b r(2) j(8,9) len by simp_all
    show ?thesis
    proof (cases bs rule: split_lines_cases)
      case rest
      then have "toss b 0 (length bs) = Some (length bs, 0)"
        using toss_none [of 0 "length bs" b] lb tb by simp
      then have "block_resume u = Ret (False, upd_in (\<lambda>io. io\<lparr>dbcnt := 0, dbp := 0\<rparr>) u)"
        using r(1) ub by (simp add: block_resume_def)
      then have run': "deliver t = Ret (upd_in (\<lambda>io. io\<lparr>dbcnt := 0, dbp := 0\<rparr>) u)"
        by (simp add: run dd_block_def)
      have emit: "?e (I @ bs) = ?e I" "snd (split_lines (I @ bs)) = ?r @ bs"
        using block_emit_cut_none [of "cbsz s0" I bs] rest False by simp_all
      have "blk_rest (?r @ bs) (upd_in (\<lambda>io. io\<lparr>dbcnt := 0, dbp := 0\<rparr>) u)"
        using False us(3) ub(4) r(1) by (simp add: blk_rest_def)
      moreover have "blk_st (upd_in (\<lambda>io. io\<lparr>dbcnt := 0, dbp := 0\<rparr>) u)" using us(1) by (simp add: blk_st_def)
      moreover have "same_cfg s u" "counted u = counted s" using uo by (simp_all add: out_same_def)
      ultimately show ?thesis
        using j same_cfg_trans [OF j(1)] same_cfgD [of s u] us(2) ur ub(1) b(1)
        by (simp add: run' block_inv_def emit)
    next
      case (line l ys)
      have ly: "length bs = length l + 1 + length ys" using line(2) by simp
      have "toss b 0 (length bs) = Some (length l + 1, length ys + 1)"
        using toss_line [of 0 "length bs" b l ys] lb tb line ly by simp
      then have res: "block_resume u = Ret (True, upd_in (\<lambda>io. io\<lparr>dbcnt := length ys, dbp := length bs\<rparr>)
          (u\<lparr>intrunc := False\<rparr>))"
        using r(1) ub ly by (simp add: block_resume_def upd_in_def)
      define w where "w = upd_in (\<lambda>io. io\<lparr>dbcnt := length ys, dbp := length bs\<rparr>) (u\<lparr>intrunc := False\<rparr>)"
      have wo: "out_same s w"
        by (rule out_sameI) (simp_all add: t u_def w_def upd_in_def same_cfg_def)
      have wr: "reader_same t w" using ur by (simp add: w_def reader_same_def)
      have wb: "inbuf w = b" "dbp (inp w) = length bs" "dbcnt (inp w) = length ys" "\<not> intrunc w"
        by (simp_all add: w_def ub)
      have ws: "blk_st w" "logical w = logical s" "cbsz w = cbsz s0" "xlat w = xlat s0"
        using wo j(2,13,14) ns same_cfgD(2) [of s w] same_cfg_xlat [of s w] by (simp_all add: out_same_def)
      have "drop (length l + 1) (take (length bs) b) = ys" using tb line(2) by simp
      then have "take (length ys) (drop (length l + 1) b) = ys" using ly by (simp add: drop_take)
      then have h: "blk_head w (length l + 1) ys"
        using ws(1) wb lb ly by (simp add: blk_head_def)
      have emit: "?e (I @ bs) = ?e I @ ?e ys" "snd (split_lines (I @ bs)) = snd (split_lines ys)"
        using block_emit_cut_line [of "cbsz s0" I l] line False by simp_all
      have "outcome_sat (blk_post w ys) (out_exit (logical w @ block_emit (cbsz w) (xlat w) ys))
          (block_loop (Suc (dbcnt (inp w))) (length l + 1) 0 w)"
        by (rule block_loop_sat [OF h]) (simp add: wb)
      then have lo: "outcome_sat (blk_post w ys) (out_exit (emitted s0 @ ?e (I @ bs)))
          (block_loop (Suc (dbcnt (inp w))) (length l + 1) 0 w)"
        by (simp add: ws j(10) emit del: block_loop.simps)
      have "dbp (inp w) - dbcnt (inp w) = length l + 1" "\<not> dbp (inp w) < dbcnt (inp w)" using wb ly by simp_all
      then have "dd_block u = bindo (block_loop (Suc (dbcnt (inp w))) (length l + 1) 0 w)
          (\<lambda>s2. Ret (upd_in (\<lambda>io. io\<lparr>dbp := dbcnt io\<rparr>) s2))"
        by (simp add: dd_block_def res del: block_loop.simps flip: w_def)
      then show ?thesis
        unfolding run
      proof (simp only:, intro outcome_sat_bind [OF lo])
        fix v assume v: "blk_post w ys v"
        show "outcome_sat (\<lambda>u. block_inv s0 (I @ bs) u \<and> reader_same t u)
            (out_exit (emitted s0 @ ?e (I @ bs))) (Ret (upd_in (\<lambda>io. io\<lparr>dbp := dbcnt io\<rparr>) v))"
          using block_post_inv [OF J wo wr _ v emit] b(1) wb(1) by simp
      qed
    qed
  qed
qed

subsection \<open>Closing, and the interface\<close>

lemma mem_write_put:
  assumes "length (xs @ ys) = k" and "p + k \<le> length m"
  shows "mem_write m p xs = Some (take p m @ xs @ drop (p + length xs) m)"
    and "mem_write (take p m @ xs @ drop (p + length xs) m) (p + length xs) ys
      = Some (take p m @ (xs @ ys) @ drop (p + k) m)"
  using assms by (auto simp: ac_simps)

lemma block_close_sat:
  assumes J: "block_inv s0 I s"
  shows "outcome_sat (\<lambda>t. closable t \<and> logical t = emitted s0 @ block_whole (cbsz s0) (xlat s0) I
      \<and> counted t = acct s0 + of_nat (length (block_whole (cbsz s0) (xlat s0) I)) \<and> same_cfg s t)
    (\<lambda>c t. False) (run_close s)"
proof -
  note j = block_invD [OF J]
  let ?r = "snd (split_lines I)"
  have st: "\<not> shared s" "out_wf s" "file_ok s" "dbp (outp s) = dbcnt (outp s)"
      "dbcnt (outp s) < dbsz (outp s)" "dbsz (outp s) + cbsz s \<le> length (outbuf s)"
    using j(2) by (simp_all add: blk_st_def)
  have ob: "obuf s = outbuf s" using st(1) by (simp add: obuf_def)
  show ?thesis
  proof (cases "?r \<noteq> [] \<and> length ?r < cbsz s0")
    case False
    then have z: "dbcnt (inp s) = 0" using j(12,13) by (auto simp: blk_rest_def split: if_splits)
    have "run_close s = Ret s" using j(3) z by (simp add: run_close_def block_close_def)
    moreover have "block_whole (cbsz s0) (xlat s0) I = block_emit (cbsz s0) (xlat s0) I"
      using False by (auto simp: block_whole_def Let_def)
    moreover have "closable s" using j(5) st by (simp add: closable_def out_ready_def ob)
    ultimately show ?thesis using j(10,11) by simp
  next
    case True
    then have r: "dbcnt (inp s) = length ?r" "take (length ?r) (inbuf s) = ?r" "length ?r < cbsz s"
      using j(12,13) by (simp_all add: blk_rest_def)
    let ?p = "dbp (outp s)" and ?pad = "replicate (cbsz s - length ?r) (xlat s SP)"
    let ?s1 = "upd_st (\<lambda>t. t\<lparr>trunc := trunc t + 1\<rparr>) s"
    let ?b = "take ?p (outbuf s) @ (?r @ ?pad) @ drop (?p + cbsz s) (outbuf s)"
    let ?t = "upd_out (\<lambda>io. io\<lparr>dbcnt := dbcnt io + cbsz s\<rparr>) (set_obuf ?b ?s1)"
    have pc: "pad_char s = xlat s SP" by (simp add: pad_char_def xlat_def split: option.split)
    have s1: "inp ?s1 = inp s" "inbuf ?s1 = inbuf s" "obuf ?s1 = outbuf s" "outp ?s1 = outp s"
        "cbsz ?s1 = cbsz s" "pad_char ?s1 = pad_char s"
      using st(1) by (simp_all add: upd_st_def obuf_def pad_char_def)
    have rd: "mem_read (inbuf s) (dbp (inp s) - dbcnt (inp s)) (dbcnt (inp s)) = Some ?r"
      using r j(8,9) by simp
    have room: "length (?r @ ?pad) = cbsz s" "?p + cbsz s \<le> length (outbuf s)" using r(3) st by simp_all
    note wr = mem_write_put [OF room]
    define t where "t = ?t"
    have "block_close s = Ret t"
      using r(1) True j(8) rd wr r(3)
      by (simp add: block_close_def Let_def s1 pc ob t_def del: mem_write_ok mem_read_ok)
    then have run: "run_close s = Ret t" using j(3) by (simp add: run_close_def)
    have keep: "emitted t = emitted s" "acct t = acct s" "out_wf t = out_wf s" "file_ok t = file_ok s"
        "same_cfg s t" "obuf t = ?b" "dbcnt (outp t) = dbcnt (outp s) + cbsz s" "ddflags t = ddflags s"
        "dbsz (outp t) = dbsz (outp s)"
      by (simp_all add: t_def upd_st_def upd_out_def emitted_def acct_def out_wf_def
        file_ok_def tight_def pend_ok_def whole_writes_def same_cfg_def)
        (simp_all add: t_def obuf_def set_obuf_def st(1))
    have "block_whole (cbsz s0) (xlat s0) I = block_emit (cbsz s0) (xlat s0) I @ ?r @ ?pad"
      using True j(13,14) by (simp add: block_whole_def Let_def)
    moreover have "logical t = logical s @ ?r @ ?pad"
      proof -
      have "take (dbcnt (outp s) + cbsz s) ?b = take (dbcnt (outp s)) (outbuf s) @ ?r @ ?pad"
        using room st(4) by simp
      then show ?thesis unfolding logical_def keep ob by (simp only: append_assoc)
    qed
    moreover have "closable t"
      using j(5) st room by (simp add: closable_def out_ready_def keep)
    moreover have "counted t = counted s + of_nat (cbsz s)"
      by (simp only: counted_def keep of_nat_add add.assoc)
    ultimately show ?thesis
      using j(10,11) keep(5) room(1) by (simp add: run add.assoc)
  qed
qed

interpretation block_run: dd_run "block_inv s0" "\<lambda>I. emitted s0 @ block_emit (cbsz s0) (xlat s0) I" s0
    "block_whole (cbsz s0) (xlat s0)" for s0
proof
  fix I bs s t
  let ?e = "block_emit (cbsz s0) (xlat s0)"
  show "prefix (emitted s0 @ ?e I) (emitted s0 @ ?e (I @ bs))" by (simp add: block_emit_mono)
  show "0 < dbsz (inp s) \<and> cpy_cnt s < 2 ^ 64 \<and> dbp (inp s) + dbsz (inp s) \<le> length (inbuf s)"
    if J: "block_inv s0 I s"
  proof -
    note j = block_invD [OF J]
    have "dbcnt (inp s) \<le> cbsz s" using j(12) by (auto simp: blk_rest_def split: if_splits)
    then show ?thesis using j(6-9) by simp
  qed
  show "prefix (ofile s) (emitted s0 @ ?e I)" if "block_inv s0 I s"
    using block_invD(10) [OF that] ofile_logical [of s] by simp
  show "block_inv s0 I t" if "block_inv s0 I s" "quiet s t" using that by (rule block_quiet)
  show "outcome_sat (\<lambda>u. block_inv s0 (I @ bs) u \<and> reader_same t u)
      (out_exit (emitted s0 @ ?e (I @ bs))) (deliver t)"
    if "block_inv s0 I s" "reads s bs t" "bs \<noteq> []" "length bs \<le> dbsz (inp s)"
    using that by (intro block_deliver) auto
  show "prefix (emitted s0 @ ?e I) (emitted s0 @ block_whole (cbsz s0) (xlat s0) I)"
    by (simp add: block_whole_def)
  show "same_cfg s0 s" if "block_inv s0 I s" using that by (rule block_invD(1))
qed (rule block_close_sat)

end
