(* ===== verification/DdUnblock.thy ===== *)
theory DdUnblock
  imports DdBlock
begin

text \<open>
  Lines from fixed-length records: \<open>unblock\<close> and \<open>unblock_close\<close> against their
  specification by records.
\<close>

subsection \<open>Records\<close>

text \<open>The full records of length \<open>n\<close> and the rest.\<close>

function chop :: "nat \<Rightarrow> byte list \<Rightarrow> byte list list \<times> byte list" where
  "chop n xs = (if n = 0 \<or> length xs < n then ([], xs)
     else (take n xs # fst (chop n (drop n xs)), snd (chop n (drop n xs))))"
  by pat_completeness auto
termination by (relation "measure (\<lambda>(n, xs). length xs)") auto

declare chop.simps [simp del]

lemma chop_short: "length xs < n \<Longrightarrow> chop n xs = ([], xs)"
  by (simp add: chop.simps)

lemma chop_rec: "0 < n \<Longrightarrow> length c = n \<Longrightarrow>
    chop n (c @ xs) = (c # fst (chop n xs), snd (chop n xs))"
  by (subst chop.simps) simp

lemma chop_cases:
  assumes "0 < n"
  obtains (short) "length xs < n" | (rec) c ys where "xs = c @ ys" "length c = n"
proof (cases "length xs < n")
  case False
  then show ?thesis using rec [of "take n xs" "drop n xs"] by simp
qed (rule short)

lemma chop_rest: "0 < n \<Longrightarrow> length (snd (chop n xs)) < n"
proof (induction "length xs" arbitrary: xs rule: less_induct)
  case less
  show ?case
    by (cases rule: chop_cases [OF less.prems, of xs]) (use less in \<open>auto simp: chop_short chop_rec\<close>)
qed

lemma chop_append:
  assumes "0 < n"
  shows "chop n (xs @ ys) = (fst (chop n xs) @ fst (chop n (snd (chop n xs) @ ys)),
    snd (chop n (snd (chop n xs) @ ys)))"
proof (induction "length xs" arbitrary: xs rule: less_induct)
  case less
  show ?case
  proof (cases rule: chop_cases [OF assms, of xs])
    case rec: (2 c zs)
    then show ?thesis using less [of zs] assms by (simp add: chop_rec)
  qed (simp add: chop_short)
qed

subsection \<open>What unblocking produces\<close>

definition trim :: "byte list \<Rightarrow> byte list" where
  "trim xs = rev (dropWhile (\<lambda>c. c = SP) (rev xs))"

definition as_line :: "byte list \<Rightarrow> byte list" where
  "as_line r = trim r @ [NL]"

definition unblock_emit :: "nat \<Rightarrow> byte list \<Rightarrow> byte list" where
  "unblock_emit n I = concat (map as_line (fst (chop n I)))"

definition unblock_whole :: "nat \<Rightarrow> byte list \<Rightarrow> byte list" where
  "unblock_whole n I = unblock_emit n I @ (let r = snd (chop n I) in if r = [] then [] else as_line r)"

lemma unblock_emit_append:
  "0 < n \<Longrightarrow> unblock_emit n (I @ bs) = unblock_emit n I @ unblock_emit n (snd (chop n I) @ bs)"
  by (simp add: unblock_emit_def chop_append [of n I])

lemma unblock_emit_rec:
  "0 < n \<Longrightarrow> length c = n \<Longrightarrow> unblock_emit n (c @ xs) = as_line c @ unblock_emit n xs"
  by (simp add: unblock_emit_def chop_rec)

lemma unblock_emit_short: "length xs < n \<Longrightarrow> unblock_emit n xs = []"
  by (simp add: unblock_emit_def chop_short)

lemma trim_prefix: "\<exists>ys. xs = trim xs @ ys \<and> set ys \<subseteq> {SP}"
proof -
  have "rev xs = takeWhile (\<lambda>c. c = SP) (rev xs) @ dropWhile (\<lambda>c. c = SP) (rev xs)" by simp
  then have "xs = trim xs @ rev (takeWhile (\<lambda>c. c = SP) (rev xs))"
    by (metis rev_append rev_rev_ident trim_def)
  then show ?thesis by (intro exI [of _ "rev (takeWhile (\<lambda>c. c = SP) (rev xs))"]) (auto dest: set_takeWhileD)
qed

lemma trim_length: "length (trim xs) \<le> length xs"
  using length_dropWhile_le [of "\<lambda>c. c = SP" "rev xs"] by (simp add: trim_def)

lemma take_trim: "take (length (trim xs)) xs = trim xs"
  using trim_prefix [of xs] by (metis append_eq_conv_conj)

lemma trim_snoc: "trim (xs @ [c]) = (if c = SP then trim xs else xs @ [c])"
  by (simp add: trim_def)

lemma trim_len_spec:
  "i + k \<le> length m \<Longrightarrow> trim_len m i k = Some (length (trim (take k (drop i m))))"
proof (induction k)
  case 0
  then show ?case by (simp add: trim_def)
next
  case (Suc k)
  have "take (Suc k) (drop i m) = take k (drop i m) @ [m ! (i + k)]"
    using Suc.prems by (simp add: take_Suc_conv_app_nth)
  then show ?case using Suc by (simp add: trim_snoc)
qed

lemma as_line_length: "length (as_line r) = length (trim r) + 1" "length (as_line r) \<le> length r + 1"
  using trim_length [of r] by (simp_all add: as_line_def)

subsection \<open>One record\<close>

lemma put_line_sat:
  assumes blk: "blk_st s" and d: "take n (drop i (inbuf s)) = d" "length d = n" "n \<le> cbsz s"
    and len: "i + n \<le> length (inbuf s)"
  shows "\<exists>b. put_line i n s = Ret (upd_out (\<lambda>io. io\<lparr>dbp := dbp io + length (as_line d),
        dbcnt := dbcnt io + length (as_line d)\<rparr>) (set_obuf b s))
    \<and> length b = length (outbuf s)
    \<and> take (dbcnt (outp s) + length (as_line d)) b = take (dbcnt (outp s)) (outbuf s) @ as_line d"
proof -
  let ?p = "dbp (outp s)"
  have st: "\<not> shared s" "?p = dbcnt (outp s)" "?p + cbsz s + 1 \<le> length (outbuf s)"
    using blk by (auto simp: blk_st_def)
  have ob: "obuf s = outbuf s" using st(1) by (simp add: obuf_def)
  let ?c = "length (trim d)"
  have tl: "trim_len (inbuf s) i n = Some ?c"
    using trim_len_spec [OF len] d by simp
  have c: "?c \<le> n" using trim_length [of d] d(2) by simp
  have tk: "take ?c (drop i (inbuf s)) = trim d"
    using c take_trim [of d] d(1) by (metis min.absorb1 take_take)
  have rd: "mem_read (inbuf s) i ?c = Some (trim d)" using c len tk by simp
  let ?b = "take ?p (outbuf s) @ as_line d @ drop (?p + length (as_line d)) (outbuf s)"
  have la: "?p + length (as_line d) \<le> length (outbuf s)" using st(3) d(3) c by (simp add: as_line_length)
  then have wr: "mem_write (outbuf s) ?p (trim d @ [NL]) = Some ?b"
    unfolding as_line_def [symmetric] by (rule mem_write_ok)
  have "put_line i n s = Ret (upd_out (\<lambda>io. io\<lparr>dbp := dbp io + length (as_line d),
        dbcnt := dbcnt io + length (as_line d)\<rparr>) (set_obuf ?b s))"
    by (simp add: put_line_def tl rd wr ob as_line_length del: mem_write_ok mem_read_ok)
  moreover have "length ?b = length (outbuf s)" using la by simp
  moreover have "take (dbcnt (outp s) + length (as_line d)) ?b = take (dbcnt (outp s)) (outbuf s) @ as_line d"
    using la st(2) by simp
  ultimately show ?thesis by blast
qed

lemma in_side_refl [simp]: "in_side s s"
  by (simp add: in_side_def)

lemma put_line_record:
  assumes blk: "blk_st s" and d: "take n (drop i (inbuf s)) = d" "length d = n" "n \<le> cbsz s"
    and len: "i + n \<le> length (inbuf s)"
  shows "outcome_sat (recorded s s (as_line d)) (out_exit (logical s @ as_line d))
    (bindo (put_line i n s) (\<lambda>s1. if dbsz (outp s1) \<le> dbcnt (outp s1) then dd_out False s1 else Ret s1))"
proof -
  obtain b where b: "put_line i n s = Ret (upd_out (\<lambda>io. io\<lparr>dbp := dbp io + length (as_line d),
        dbcnt := dbcnt io + length (as_line d)\<rparr>) (set_obuf b s))" "length b = length (outbuf s)"
      "take (dbcnt (outp s) + length (as_line d)) b = take (dbcnt (outp s)) (outbuf s) @ as_line d"
    using put_line_sat [OF assms] by blast
  show ?thesis
    unfolding b(1) bindo.simps
    by (rule put_record [OF blk _ b(2,3) _ refl]) (use as_line_length(2) [of d] d in simp_all)
qed

subsection \<open>The record loop\<close>

definition unb_head :: "dd \<Rightarrow> nat \<Rightarrow> byte list \<Rightarrow> bool" where
  "unb_head s i d \<longleftrightarrow> blk_st s \<and> dbp (inp s) = i + length d \<and> dbcnt (inp s) = length d
     \<and> dbp (inp s) \<le> length (inbuf s) \<and> take (length d) (drop i (inbuf s)) = d"

definition unb_post :: "dd \<Rightarrow> byte list \<Rightarrow> dd \<Rightarrow> bool" where
  "unb_post s d t \<longleftrightarrow> blk_st t \<and> logical t = logical s @ unblock_emit (cbsz s) d
     \<and> counted t = counted s + of_nat (length (unblock_emit (cbsz s) d))
     \<and> same_cfg s t \<and> reader_same s t \<and> length (inbuf t) = length (inbuf s)
     \<and> (\<exists>j. unb_head t j (snd (chop (cbsz s) d)))"

lemma unblock_loop_sat:
  assumes "unb_head s i d" and "length d < fuel"
  shows "outcome_sat (unb_post s d) (out_exit (logical s @ unblock_emit (cbsz s) d)) (unblock_loop fuel i s)"
  using assms
proof (induction fuel arbitrary: s i d)
  case 0
  then show ?case by simp
next
  case (Suc fuel)
  let ?n = "cbsz s"
  have s: "blk_st s" "dbp (inp s) = i + length d" "dbcnt (inp s) = length d" "i + length d \<le> length (inbuf s)"
      "take (length d) (drop i (inbuf s)) = d"
    using Suc.prems(1) by (simp_all add: unb_head_def)
  have n: "0 < ?n" using s(1) by (simp add: blk_st_def)
  show ?case
  proof (cases rule: chop_cases [OF n, of d])
    case 1
    then have "unb_post s d s"
      using s Suc.prems(1) by (auto simp: unb_post_def unblock_emit_short chop_short reader_same_def)
    then show ?thesis using s(3) 1 by simp
  next
    case rec: (2 c ys)
    have c: "take ?n (drop i (inbuf s)) = c"
      using s(5) rec by (metis append_eq_conv_conj min.absorb1 take_take le_add1 length_append)
    have ys: "take (length ys) (drop (i + ?n) (inbuf s)) = ys"
    proof -
      have "ys = drop ?n (take (length d) (drop i (inbuf s)))" using s(5) rec by simp
      also have "\<dots> = take (length ys) (drop (i + ?n) (inbuf s))" using rec by (simp add: drop_take add.commute)
      finally show ?thesis ..
    qed
    have ic: "i + ?n \<le> length (inbuf s)" using s(4) rec by simp
    have e: "unblock_emit ?n d = as_line c @ unblock_emit ?n ys" "snd (chop ?n d) = snd (chop ?n ys)"
      using rec n by (simp_all add: unblock_emit_rec chop_rec)
    have step: "outcome_sat (recorded s s (as_line c)) (out_exit (logical s @ unblock_emit ?n d))
        (bindo (put_line i ?n s) (\<lambda>s1. if dbsz (outp s1) \<le> dbcnt (outp s1) then dd_out False s1 else Ret s1))"
      using outcome_sat_exit_mono [OF put_line_record [OF s(1) c rec(2) order_refl ic], of "unblock_emit ?n ys"]
      by (simp only: e append_assoc)
    have run: "unblock_loop (Suc fuel) i s =
        bindo (bindo (put_line i ?n s) (\<lambda>s1. if dbsz (outp s1) \<le> dbcnt (outp s1) then dd_out False s1 else Ret s1))
         (\<lambda>s2. unblock_loop fuel (i + cbsz s2) (upd_in (\<lambda>io. io\<lparr>dbcnt := dbcnt io - cbsz s2\<rparr>) s2))"
      using s(3) rec by (simp add: bindo_assoc)
    show ?thesis
      unfolding run
    proof (rule outcome_sat_bind [OF step])
      fix t assume t: "recorded s s (as_line c) t"
      have tc: "blk_st t" "same_cfg s t" "reader_same s t" "inp t = inp s" "inbuf t = inbuf s"
          "logical t = logical s @ as_line c" "counted t = counted s + of_nat (length (as_line c))"
        using t by (simp_all add: recorded_def)
      have cb: "cbsz t = ?n" using same_cfgD(2) [OF tc(2)] .
      let ?t = "upd_in (\<lambda>io. io\<lparr>dbcnt := dbcnt io - cbsz t\<rparr>) t"
      have "unb_head ?t (i + ?n) ys"
        using tc(1,4,5) cb s rec ys by (simp add: unb_head_def blk_st_def)
      then have "outcome_sat (unb_post ?t ys) (out_exit (logical ?t @ unblock_emit (cbsz ?t) ys))
          (unblock_loop fuel (i + ?n) ?t)"
        by (rule Suc.IH) (use Suc.prems(2) rec n in simp)
      then have "outcome_sat (unb_post ?t ys) (out_exit (logical s @ unblock_emit ?n d))
          (unblock_loop fuel (i + cbsz t) ?t)"
        by (simp add: tc(6) cb e)
      then show "outcome_sat (unb_post s d) (out_exit (logical s @ unblock_emit ?n d))
          (unblock_loop fuel (i + cbsz t) ?t)"
      proof (rule outcome_sat_mono)
        fix v assume v: "unb_post ?t ys v"
        have "same_cfg s ?t" "reader_same s ?t" using tc(2,3) by simp_all
        moreover have "same_cfg ?t v" "reader_same ?t v" using v by (simp_all add: unb_post_def)
        ultimately have "same_cfg s v" "reader_same s v"
          by (blast intro: same_cfg_trans reader_same_trans)+
        then show "unb_post s d v"
          using v tc cb e by (simp add: unb_post_def add.assoc)
      qed
    qed
  qed
qed


subsection \<open>The conversion between two reads\<close>

definition unblock_inv :: "dd \<Rightarrow> byte list \<Rightarrow> dd \<Rightarrow> bool" where
  "unblock_inv s0 I s \<longleftrightarrow> same_cfg s0 s \<and> blk_st s \<and> cfunc s = Unblock
     \<and> C_BS \<notin> ddflags s \<and> 0 < dbsz (inp s) \<and> cpy_cnt s < 2 ^ 64
     \<and> dbp (inp s) = dbcnt (inp s) \<and> dbsz (inp s) + cbsz s \<le> length (inbuf s)
     \<and> logical s = emitted s0 @ unblock_emit (cbsz s0) (map (xlat s0) I)
     \<and> counted s = acct s0 + of_nat (length (unblock_emit (cbsz s0) (map (xlat s0) I)))
     \<and> dbcnt (inp s) = length (snd (chop (cbsz s0) (map (xlat s0) I)))
     \<and> take (dbcnt (inp s)) (inbuf s) = snd (chop (cbsz s0) (map (xlat s0) I))"

lemma unblock_invD:
  assumes "unblock_inv s0 I s"
  shows "same_cfg s0 s" "blk_st s" "cfunc s = Unblock" "C_BS \<notin> ddflags s"
    "0 < dbsz (inp s)" "cpy_cnt s < 2 ^ 64" "dbp (inp s) = dbcnt (inp s)"
    "dbsz (inp s) + cbsz s \<le> length (inbuf s)"
    "logical s = emitted s0 @ unblock_emit (cbsz s0) (map (xlat s0) I)"
    "counted s = acct s0 + of_nat (length (unblock_emit (cbsz s0) (map (xlat s0) I)))"
    "dbcnt (inp s) = length (snd (chop (cbsz s0) (map (xlat s0) I)))"
    "take (dbcnt (inp s)) (inbuf s) = snd (chop (cbsz s0) (map (xlat s0) I))"
    "cbsz s = cbsz s0" "xlat s = xlat s0" "0 < cbsz s0" "dbcnt (inp s) < cbsz s0"
proof -
  show 1: "same_cfg s0 s" "blk_st s" "cfunc s = Unblock" "C_BS \<notin> ddflags s"
    "0 < dbsz (inp s)" "cpy_cnt s < 2 ^ 64" "dbp (inp s) = dbcnt (inp s)"
    "dbsz (inp s) + cbsz s \<le> length (inbuf s)"
    "logical s = emitted s0 @ unblock_emit (cbsz s0) (map (xlat s0) I)"
    "counted s = acct s0 + of_nat (length (unblock_emit (cbsz s0) (map (xlat s0) I)))"
    "dbcnt (inp s) = length (snd (chop (cbsz s0) (map (xlat s0) I)))"
    "take (dbcnt (inp s)) (inbuf s) = snd (chop (cbsz s0) (map (xlat s0) I))"
    using assms unfolding unblock_inv_def by blast+
  show 2: "cbsz s = cbsz s0" "xlat s = xlat s0" using same_cfgD(2) [OF 1(1)] same_cfg_xlat [OF 1(1)] by simp_all
  show 3: "0 < cbsz s0" using 1(2) 2 by (simp add: blk_st_def)
  show "dbcnt (inp s) < cbsz s0" using chop_rest [OF 3] 1(11) by simp
qed

lemma unblock_quiet:
  assumes J: "unblock_inv s0 I s" and t: "quiet s t"
  shows "unblock_inv s0 I t"
proof -
  obtain a m b d where t: "t = s\<lparr>src := a, stderr := m, inbuf := b, inp := (inp s)\<lparr>dbrcnt := d\<rparr>\<rparr>"
    and b: "length b = length (inbuf s)" "take (dbp (inp s)) b = take (dbp (inp s)) (inbuf s)"
    using t by (rule quiet_obtain)
  note j = unblock_invD [OF J]
  have "out_same s t" by (rule out_sameI) (simp_all add: t same_cfg_def)
  then show ?thesis
    using j b same_cfg_trans [OF j(1)] by (auto simp: unblock_inv_def out_same_def blk_st_def t)
qed

lemma in_to_front_sat:
  assumes "unb_head s j r"
  shows "\<exists>b. in_to_front s = Ret (upd_in (\<lambda>io. io\<lparr>dbp := dbcnt io\<rparr>) (s\<lparr>inbuf := b\<rparr>))
    \<and> length b = length (inbuf s) \<and> take (length r) b = r"
proof -
  have s: "dbp (inp s) = j + length r" "dbcnt (inp s) = length r" "j + length r \<le> length (inbuf s)"
      "take (length r) (drop j (inbuf s)) = r"
    using assms by (simp_all add: unb_head_def)
  show ?thesis
  proof (cases "r = []")
    case True
    then show ?thesis
      using s by (intro exI [of _ "inbuf s"]) (simp add: in_to_front_def Let_def upd_in_def)
  next
    case False
    let ?b = "r @ drop (length r) (inbuf s)"
    have "in_to_front s = Ret (upd_in (\<lambda>io. io\<lparr>dbp := dbcnt io\<rparr>) (s\<lparr>inbuf := ?b\<rparr>))"
      using s False by (simp add: in_to_front_def Let_def) (simp add: upd_in_def)
    then show ?thesis using s(3) by (intro exI [of _ ?b]) simp
  qed
qed

lemma unblock_deliver:
  assumes J: "unblock_inv s0 I s" and t: "reads s bs t" and len: "length bs \<le> dbsz (inp s)"
  shows "outcome_sat (\<lambda>u. unblock_inv s0 (I @ bs) u \<and> reader_same t u)
    (out_exit (emitted s0 @ unblock_emit (cbsz s0) (map (xlat s0) (I @ bs)))) (deliver t)"
proof -
  note j = unblock_invD [OF J]
  let ?n = "cbsz s0" and ?f = "xlat s0"
  let ?r = "snd (chop ?n (map ?f I))"
  obtain a m b x y where t: "t = s\<lparr>src := a, stderr := m, inbuf := b,
      st := (st s)\<lparr>in_full := x, in_part := y\<rparr>,
      inp := (inp s)\<lparr>dbcnt := dbcnt (inp s) + length bs, dbrcnt := length bs\<rparr>\<rparr>"
    and b: "length b = length (inbuf s)" "take (dbp (inp s) + length bs) b = take (dbp (inp s)) (inbuf s) @ bs"
    using t by (rule reads_obtain)
  define u where "u = upd_in (\<lambda>io. io\<lparr>dbp := dbp io + dbrcnt io\<rparr>) t"
  have run: "deliver t = dd_unblock u"
    using j(3,4) by (simp add: deliver_def run_conv_def u_def) (simp add: t)
  have ub: "inbuf u = b" "dbp (inp u) = length ?r + length bs" "dbrcnt (inp u) = length bs"
      "dbcnt (inp u) = length ?r + length bs" "xlat u = ?f"
    using j(7,11,14) by (simp_all add: u_def t) (simp add: xlat_def)
  have tk: "take (length ?r + length bs) (inbuf u) = ?r @ bs" and room: "length ?r + length bs \<le> length (inbuf u)"
    using b j(7,8,11,12,13,16) len by (simp_all add: ub)
  obtain c where c: "translate u = Ret (u\<lparr>inbuf := c\<rparr>)" "length c = length (inbuf u)"
      "take (length ?r + length bs) c = ?r @ map ?f bs"
    using translate_ok [OF ub(2,3) tk room] ub(5) by auto
  define w where "w = u\<lparr>inbuf := c\<rparr>"
  have wo: "out_same s w" by (rule out_sameI) (simp_all add: t u_def w_def upd_in_def same_cfg_def)
  have ns: "\<not> shared s" using j(2) by (simp add: blk_st_def)
  have ws: "blk_st w" "logical w = logical s" "counted w = counted s" "same_cfg s w"
    using wo j(2) ns by (simp_all add: out_same_def)
  have wc: "cbsz w = ?n" using same_cfgD(2) [OF ws(4)] j(13) by simp
  have wr: "reader_same t w" by (simp add: w_def u_def reader_same_def)
  have h: "unb_head w 0 (?r @ map ?f bs)"
    using ws(1) c room ub by (simp add: unb_head_def w_def)
  have e: "unblock_emit ?n (map ?f (I @ bs)) = unblock_emit ?n (map ?f I) @ unblock_emit ?n (?r @ map ?f bs)"
      "snd (chop ?n (map ?f (I @ bs))) = snd (chop ?n (?r @ map ?f bs))"
    using arg_cong [OF chop_append [OF j(15), of "map ?f I" "map ?f bs"], of snd]
    by (simp_all only: map_append unblock_emit_append [OF j(15), of "map ?f I"] snd_conv)
  have "outcome_sat (unb_post w (?r @ map ?f bs)) (out_exit (logical w @ unblock_emit (cbsz w) (?r @ map ?f bs)))
      (unblock_loop (Suc (dbcnt (inp w))) 0 w)"
    by (rule unblock_loop_sat [OF h]) (simp add: w_def ub)
  then have l: "outcome_sat (unb_post w (?r @ map ?f bs)) (out_exit (emitted s0 @ unblock_emit ?n (map ?f (I @ bs))))
      (unblock_loop (Suc (dbcnt (inp w))) 0 w)"
    by (simp add: wc ws(2) j(9) e(1) del: unblock_loop.simps map_append)
  have run': "deliver t = bindo (unblock_loop (Suc (dbcnt (inp w))) 0 w) in_to_front"
    by (simp add: run dd_unblock_def c(1) w_def [symmetric] del: unblock_loop.simps)
  show ?thesis
    unfolding run'
  proof (rule outcome_sat_bind [OF l])
    fix v assume v: "unb_post w (?r @ map ?f bs) v"
    then obtain k where k: "unb_head v k (snd (chop ?n (?r @ map ?f bs)))"
      by (auto simp: unb_post_def wc)
    obtain d where d: "in_to_front v = Ret (upd_in (\<lambda>io. io\<lparr>dbp := dbcnt io\<rparr>) (v\<lparr>inbuf := d\<rparr>))"
        "length d = length (inbuf v)" "take (length (snd (chop ?n (?r @ map ?f bs)))) d = snd (chop ?n (?r @ map ?f bs))"
      using in_to_front_sat [OF k] by blast
    define z where "z = upd_in (\<lambda>io. io\<lparr>dbp := dbcnt io\<rparr>) (v\<lparr>inbuf := d\<rparr>)"
    have vc: "blk_st v" "same_cfg w v" "reader_same w v" "length (inbuf v) = length (inbuf w)"
        "logical v = logical w @ unblock_emit (cbsz w) (?r @ map ?f bs)"
        "counted v = counted w + of_nat (length (unblock_emit (cbsz w) (?r @ map ?f bs)))"
      using v by (simp_all add: unb_post_def)
    have vs: "\<not> shared v" using vc(1) by (simp add: blk_st_def)
    have zo: "out_same v z" by (rule out_sameI) (simp_all add: z_def same_cfg_def upd_in_def)
    have zs: "blk_st z" "logical z = logical v" "counted z = counted v" "same_cfg v z"
      using zo vc(1) vs by (simp_all add: out_same_def)
    have sc: "same_cfg s z" using same_cfg_trans [OF same_cfg_trans [OF ws(4) vc(2)] zs(4)] .
    have "reader_same v z" by (simp add: z_def reader_same_def)
    then have rz: "reader_same t z" using reader_same_trans [OF reader_same_trans [OF wr vc(3)]] by blast
    have zi: "dbcnt (inp z) = length (snd (chop ?n (?r @ map ?f bs)))" "dbp (inp z) = dbcnt (inp z)" "inbuf z = d"
      using k by (simp_all add: z_def unb_head_def)
    have wi: "inbuf w = c" by (simp add: w_def)
    have "unblock_inv s0 (I @ bs) z"
      unfolding unblock_inv_def e
      using j same_cfgD [OF sc] same_cfg_trans [OF j(1) sc] zs(1) zi d(2,3) vc(4) c(2) ub(1) b(1)
      by (simp add: wi zs(2,3) vc(5,6) ws(2,3) wc add.assoc)
    with rz show "outcome_sat (\<lambda>u. unblock_inv s0 (I @ bs) u \<and> reader_same t u)
        (out_exit (emitted s0 @ unblock_emit ?n (map ?f (I @ bs)))) (in_to_front v)"
      by (simp add: d(1) flip: z_def)
  qed
qed

subsection \<open>Closing, and the interface\<close>

lemma unblock_emit_zero: "unblock_emit 0 xs = []"
  by (simp add: unblock_emit_def chop.simps [of 0])

lemma unblock_close_sat:
  assumes J: "unblock_inv s0 I s"
  shows "outcome_sat (\<lambda>t. closable t \<and> logical t = emitted s0 @ unblock_whole (cbsz s0) (map (xlat s0) I)
      \<and> counted t = acct s0 + of_nat (length (unblock_whole (cbsz s0) (map (xlat s0) I))) \<and> same_cfg s t)
    (\<lambda>c t. False) (run_close s)"
proof -
  note j = unblock_invD [OF J]
  let ?r = "snd (chop (cbsz s0) (map (xlat s0) I))"
  have st: "\<not> shared s" "out_wf s" "file_ok s" "dbp (outp s) = dbcnt (outp s)"
      "dbcnt (outp s) < dbsz (outp s)" "dbsz (outp s) + cbsz s \<le> length (outbuf s)"
    using j(2) by (simp_all add: blk_st_def)
  have ob: "obuf s = outbuf s" using st(1) by (simp add: obuf_def)
  show ?thesis
  proof (cases "?r = []")
    case True
    then have "run_close s = Ret s" using j(3,11) by (simp add: run_close_def unblock_close_def)
    moreover have "closable s" using st by (simp add: closable_def out_ready_def ob)
    ultimately show ?thesis using j(9,10) True by (simp add: unblock_whole_def Let_def)
  next
    case False
    define u where "u = say MsgShortRecord s"
    have u: "blk_st u" "inbuf u = inbuf s" "outp u = outp s" "outbuf u = outbuf s" "emitted u = emitted s"
        "acct u = acct s" "file_ok u = file_ok s" "same_cfg s u" "cbsz u = cbsz s" "obuf u = outbuf s"
    proof -
      have "out_same s u" by (rule out_sameI) (simp_all add: u_def say_def same_cfg_def)
      then show b: "blk_st u" and "same_cfg s u" using j(2) by (simp_all add: out_same_def)
      show "file_ok u = file_ok s" using b st(3) by (simp add: blk_st_def)
    qed (simp_all add: u_def ob, simp_all add: say_def)
    have len: "0 + dbcnt (inp s) \<le> length (inbuf u)" "dbcnt (inp s) \<le> cbsz u"
      using j(5,8,13,16) u(2,9) by simp_all
    have d: "take (dbcnt (inp s)) (drop 0 (inbuf u)) = ?r" "length ?r = dbcnt (inp s)"
      using j(11,12) u(2) by simp_all
    obtain b where b: "put_line 0 (dbcnt (inp s)) u = Ret (upd_out (\<lambda>io. io\<lparr>dbp := dbp io + length (as_line ?r),
          dbcnt := dbcnt io + length (as_line ?r)\<rparr>) (set_obuf b u))" "length b = length (outbuf u)"
        "take (dbcnt (outp u) + length (as_line ?r)) b = take (dbcnt (outp u)) (outbuf u) @ as_line ?r"
      using put_line_sat [OF u(1) d len(2,1)] by blast
    define t where "t = upd_out (\<lambda>io. io\<lparr>dbp := dbp io + length (as_line ?r),
          dbcnt := dbcnt io + length (as_line ?r)\<rparr>) (set_obuf b u)"
    have "dbcnt (inp s) \<noteq> 0" using False j(11) by simp
    then have run: "run_close s = Ret t"
      using j(3) b(1) by (simp add: run_close_def unblock_close_def u_def t_def)
    have keep: "emitted t = emitted s" "acct t = acct s" "out_wf t = out_wf s" "file_ok t = file_ok s"
        "same_cfg s t" "obuf t = b" "dbcnt (outp t) = dbcnt (outp s) + length (as_line ?r)"
        "dbp (outp t) = dbp (outp s) + length (as_line ?r)" "dbsz (outp t) = dbsz (outp s)"
      by (simp_all add: t_def u_def upd_out_def say_def emitted_def acct_def out_wf_def
        file_ok_def tight_def pend_ok_def whole_writes_def same_cfg_def)
        (simp_all add: obuf_def set_obuf_def st(1))
    have "logical t = logical s @ as_line ?r"
      using b(3) u(3,4) by (simp only: logical_def keep ob append_assoc)
    moreover have "closable t"
      using st b(2) u(4) as_line_length(2) [of ?r] d(2) j(13,16)
      by (simp add: closable_def out_ready_def keep)
    moreover have "counted t = counted s + of_nat (length (as_line ?r))"
      by (simp only: counted_def keep of_nat_add add.assoc)
    ultimately show ?thesis
      using j(9,10) keep(5) False by (simp add: run unblock_whole_def Let_def add.assoc)
  qed
qed

interpretation unblock_run: dd_run "unblock_inv s0" "\<lambda>I. emitted s0 @ unblock_emit (cbsz s0) (map (xlat s0) I)" s0
    "\<lambda>I. unblock_whole (cbsz s0) (map (xlat s0) I)" for s0
proof
  fix I bs s t
  let ?e = "\<lambda>I. unblock_emit (cbsz s0) (map (xlat s0) I)"
  show "prefix (emitted s0 @ ?e I) (emitted s0 @ ?e (I @ bs))"
    using unblock_emit_append [of "cbsz s0" "map (xlat s0) I" "map (xlat s0) bs"]
    by (cases "cbsz s0 = 0") (simp_all add: unblock_emit_zero)
  show "0 < dbsz (inp s) \<and> cpy_cnt s < 2 ^ 64 \<and> dbp (inp s) + dbsz (inp s) \<le> length (inbuf s)"
    if J: "unblock_inv s0 I s"
    using unblock_invD [OF J] by simp
  show "prefix (ofile s) (emitted s0 @ ?e I)" if "unblock_inv s0 I s"
    using unblock_invD(9) [OF that] ofile_logical [of s] by simp
  show "unblock_inv s0 I t" if "unblock_inv s0 I s" "quiet s t" using that by (rule unblock_quiet)
  show "outcome_sat (\<lambda>u. unblock_inv s0 (I @ bs) u \<and> reader_same t u)
      (out_exit (emitted s0 @ ?e (I @ bs))) (deliver t)"
    if "unblock_inv s0 I s" "reads s bs t" "bs \<noteq> []" "length bs \<le> dbsz (inp s)"
    using that by (intro unblock_deliver) auto
  show "prefix (emitted s0 @ ?e I) (emitted s0 @ unblock_whole (cbsz s0) (map (xlat s0) I))"
    by (simp add: unblock_whole_def)
  show "same_cfg s0 s" if "unblock_inv s0 I s" using that by (rule unblock_invD(1))
qed (rule unblock_close_sat)

end
