(* ===== verification/DdRun.thy ===== *)
theory DdRun
  imports DdUnblock
begin

text \<open>
  Whole runs of \<open>dd\<close> from the state \<open>setup\<close> leaves: what is in the output file at the end,
  for each of the four ways a block can be delivered.
\<close>

subsection \<open>Fresh states\<close>

definition fresh :: "dd \<Rightarrow> bool" where
  "fresh s \<longleftrightarrow> tight s \<and> pending s = 0 \<and> files_cnt s = 1 \<and> \<not> intrunc s
     \<and> in_full (st s) = 0 \<and> in_part (st s) = 0 \<and> st_bytes (st s) = 0
     \<and> dbp (inp s) = 0 \<and> dbcnt (inp s) = 0 \<and> dbp (outp s) = 0 \<and> dbcnt (outp s) = 0
     \<and> 0 < dbsz (inp s) \<and> 0 < dbsz (outp s) \<and> cpy_cnt s < 2 ^ 64"

text \<open>With \<open>conv=sparse\<close> no write may be short.\<close>

definition sparse_safe :: "dd \<Rightarrow> bool" where
  "sparse_safe s \<longleftrightarrow> (C_SPARSE \<in> ddflags s \<longrightarrow> (\<forall>k. Accept k \<notin> set (wscript s)))"

definition copy_ready :: "dd \<Rightarrow> bool" where
  "copy_ready s \<longleftrightarrow> fresh s \<and> cfunc s = Def \<and> C_BS \<notin> ddflags s \<and> shared s
     \<and> dbsz (outp s) + dbsz (inp s) \<le> length (inbuf s) + 1"

definition direct_ready :: "dd \<Rightarrow> bool" where
  "direct_ready s \<longleftrightarrow> fresh s \<and> cfunc s = Def \<and> C_BS \<in> ddflags s \<and> shared s
     \<and> dbsz (outp s) + dbsz (inp s) \<le> length (inbuf s) + 1"

definition record_ready :: "convfn \<Rightarrow> dd \<Rightarrow> bool" where
  "record_ready f s \<longleftrightarrow> fresh s \<and> cfunc s = f \<and> C_BS \<notin> ddflags s \<and> \<not> shared s \<and> 0 < cbsz s
     \<and> dbsz (inp s) + cbsz s \<le> length (inbuf s) \<and> dbsz (outp s) + cbsz s \<le> length (outbuf s)"

lemma fresh_facts:
  assumes "fresh s" and "sparse_safe s"
  shows "out_wf s" "file_ok s" "emitted s = ofile s" "acct s = 0" "logical s = ofile s" "counted s = 0"
  using assms
  by (simp_all add: fresh_def sparse_safe_def out_wf_def file_ok_def tight_def pend_ok_def
      whole_writes_def emitted_def acct_def logical_def counted_def)

lemma copy_start: "copy_ready s \<Longrightarrow> sparse_safe s \<Longrightarrow> copy_inv s [] s"
  using fresh_facts [of s] by (simp add: copy_ready_def copy_inv_def) (simp add: fresh_def)

lemma direct_start: "direct_ready s \<Longrightarrow> sparse_safe s \<Longrightarrow> direct_inv s [] s"
  using fresh_facts [of s] by (simp add: direct_ready_def direct_inv_def) (auto simp: fresh_def)

lemma blk_st_start:
  "record_ready f s \<Longrightarrow> sparse_safe s \<Longrightarrow> blk_st s"
  using fresh_facts [of s] by (simp add: record_ready_def blk_st_def) (simp add: fresh_def)

lemma block_start:
  assumes "record_ready Block s" and "sparse_safe s" and "C_OSYNC \<notin> ddflags s"
  shows "block_inv s [] s"
  using assms(1,3) blk_st_start [OF assms(1,2)] fresh_facts [OF _ assms(2)]
  by (simp add: record_ready_def block_inv_def block_emit_plain blk_rest_def) (simp add: fresh_def)

lemma unblock_start:
  assumes "record_ready Unblock s" and "sparse_safe s"
  shows "unblock_inv s [] s"
  using assms(1) blk_st_start [OF assms(1,2)] fresh_facts [OF _ assms(2)]
  by (simp add: record_ready_def unblock_inv_def unblock_emit_short chop_short) (simp add: fresh_def)

subsection \<open>The blocks of a file\<close>

text \<open>A regular file is one chunk: its blocks concatenate to the part the count admits.\<close>

lemma in_blocks_chunk:
  assumes "0 < n"
  shows "concat (in_blocks n ne None lim [Chunk d]) = (case lim of None \<Rightarrow> d | Some k \<Rightarrow> take (k * n) d)"
proof (induction "length d" arbitrary: d lim rule: less_induct)
  case less
  show ?case
  proof (cases "lim = Some 0 \<or> d = []")
    case True
    then show ?thesis by (auto simp: in_blocks.simps split: option.split)
  next
    case False
    show ?thesis
    proof (cases "length d \<le> n")
      case True
      have "in_blocks n ne None lim [Chunk d] = [d]"
        by (subst in_blocks.simps(2)) (use True False assms in \<open>simp add: in_blocks.simps(1) pad_to_def\<close>)
      moreover have "take (k * n) d = d" if "lim = Some k" for k
      proof -
        have "1 * n \<le> k * n" using False that by (intro mult_le_mono1) simp
        then have "length d \<le> k * n" using True by linarith
        then show ?thesis by simp
      qed
      ultimately show ?thesis by (simp split: option.split)
    next
      case len: False
      have "concat (in_blocks n ne None lim [Chunk d]) =
          take n d @ concat (in_blocks n ne None (dec lim) [Chunk (drop n d)])"
        using False len assms by (subst in_blocks.simps(2)) simp
      also have "\<dots> = take n d @ (case dec lim of None \<Rightarrow> drop n d | Some k \<Rightarrow> take (k * n) (drop n d))"
        using less [of "drop n d" "dec lim"] len assms by simp
      also have "\<dots> = (case lim of None \<Rightarrow> d | Some k \<Rightarrow> take (k * n) d)"
      proof (cases lim)
        case (Some k)
        then obtain m where "k = Suc m" using False by (cases k) auto
        with Some show ?thesis by (simp add: dec_def take_add)
      qed (simp add: dec_def)
      finally show ?thesis .
    qed
  qed
qed

definition file_input :: "dd \<Rightarrow> byte list \<Rightarrow> byte list" where
  "file_input s d = (if cpy_cnt s = 0 then d else take (cpy_cnt s * dbsz (inp s)) d)"

lemma blocks_file:
  assumes "fresh s" and "src s = [Chunk d]" and "C_SYNC \<notin> ddflags s"
  shows "concat (blocks s) = file_input s d"
  using assms in_blocks_chunk [of "dbsz (inp s)" "C_NOERROR \<in> ddflags s" "limit s" d]
  by (simp add: blocks_def fresh_def pad_opt_def limit_def file_input_def)

lemma readable_file: "fresh s \<Longrightarrow> src s = [Chunk d] \<Longrightarrow> readable s"
  by (simp add: readable_def fresh_def)


subsection \<open>What a run leaves in the file\<close>

lemma osync_pad_none: "C_OSYNC \<notin> ddflags s \<Longrightarrow> osync_pad s k \<Longrightarrow> k = 0"
  by (simp add: osync_pad_def)

lemmas complete_defs = copy_run.complete_def direct_run.complete_def block_run.complete_def
  unblock_run.complete_def


text \<open>
  Copying a regular file: the output is the file, or its first \<open>count\<close> blocks.
\<close>

theorem dd_copy_file:
  assumes "copy_ready s" "sparse_safe s" "benign s" "src s = [Chunk d]" "ddflags s \<inter> {C_SYNC, C_OSYNC} = {}"
  shows "\<exists>t. dd_main now s = Exit 0 (summary now t)
    \<and> ofile t = ofile s @ map (xlat s) (if cpy_cnt s = 0 then d else take (cpy_cnt s * dbsz (inp s)) d)"
proof -
  have f: "fresh s" using assms(1) by (simp add: copy_ready_def)
  have fl: "C_SYNC \<notin> ddflags s" "C_OSYNC \<notin> ddflags s" using assms(5) by auto
  have "files_cnt s = 1" using f by (simp add: fresh_def)
  from copy_run.dd_main_clean [OF copy_start [OF assms(1,2)] this refl assms(3) readable_file [OF f assms(4)], of now]
  obtain k t where k: "osync_pad s k" and r: "dd_main now s = Exit 0 (summary now t)"
      "copy_run.complete s (concat (blocks s)) k t" by auto
  then show ?thesis
    using r fresh_facts [OF f assms(2)] osync_pad_none [OF fl(2) k] blocks_file [OF f assms(4) fl(1)]
    by (auto simp: complete_defs file_input_def)
qed

text \<open>
  C9: Plain copying, with any failures: the program never touches memory outside its buffer,
  divides by zero or hangs; it exits with status 0 and everything written, or with status 1
  and a prefix of it.
\<close>

theorem dd_copy_safe:
  assumes "copy_ready s" "sparse_safe s" "C_OSYNC \<notin> ddflags s"
  shows "\<exists>c t. dd_main now s = Exit c (summary now t) \<and>
    (c = 0 \<and> ofile t = ofile s @ map (xlat s) (concat (blocks s))
     \<or> c = 1 \<and> prefix (ofile t) (ofile s @ map (xlat s) (concat (blocks s))))"
proof -
  have f: "fresh s" using assms(1) by (simp add: copy_ready_def)
  then have "files_cnt s = 1" by (simp add: fresh_def)
  from copy_run.dd_main_sat [OF copy_start [OF assms(1,2)] this refl, of now]
  obtain k c t where k: "osync_pad s k" and m: "dd_main now s = Exit c (summary now t)"
    and r: "c = 0 \<and> copy_run.complete s (concat (blocks s)) k t \<or>
      out_exit (emitted s @ map (xlat s) (concat (blocks s)) @ replicate k 0) c t" by auto
  show ?thesis
    using m r fresh_facts [OF f assms(2)] osync_pad_none [OF assms(3) k]
    by (auto simp: complete_defs out_exit_def)
qed

text \<open>
  The unbuffered copy of \<open>bs=\<close>: every block is written as it is read.
\<close>

theorem dd_direct_output:
  assumes "direct_ready s" "sparse_safe s" "benign s" "readable s" "C_OSYNC \<notin> ddflags s"
  shows "\<exists>t. dd_main now s = Exit 0 (summary now t)
    \<and> ofile t = ofile s @ concat (blocks s)
    \<and> st_bytes (st t) = of_nat (length (concat (blocks s)))"
proof -
  have f: "fresh s" using assms(1) by (simp add: direct_ready_def)
  then have "files_cnt s = 1" by (simp add: fresh_def)
  from direct_run.dd_main_clean [OF direct_start [OF assms(1,2)] this refl assms(3,4), of now]
  obtain k t where k: "osync_pad s k" and r: "dd_main now s = Exit 0 (summary now t)"
      "direct_run.complete s (concat (blocks s)) k t" by auto
  then show ?thesis
    using r fresh_facts [OF f assms(2)] osync_pad_none [OF assms(5) k] by (auto simp: complete_defs)
qed



text \<open>
  C29: The record conversions with any failures: no fault and no hang, and what is in the
  file when the program gives up is a prefix of the output.
\<close>

theorem dd_records_safe:
  assumes "record_ready f s" "f \<noteq> Def" "sparse_safe s" "C_OSYNC \<notin> ddflags s"
  shows "\<exists>c t. dd_main now s = Exit c (summary now t) \<and>
    (let out = ofile s @ (if f = Block then block_whole (cbsz s) (xlat s) (concat (blocks s))
                          else unblock_whole (cbsz s) (map (xlat s) (concat (blocks s))))
     in c = 0 \<and> ofile t = out \<or> c = 1 \<and> prefix (ofile t) out)"
proof -
  have fr: "fresh s" using assms(1) by (simp add: record_ready_def)
  then have one: "files_cnt s = 1" by (simp add: fresh_def)
  note ff = fresh_facts [OF fr assms(3)]
  show ?thesis
  proof (cases "f = Block")
    case True
    then have "record_ready Block s" using assms(1) by simp
    from block_run.dd_main_sat [OF block_start [OF this assms(3,4)] one refl, of now]
    obtain k c t where k: "osync_pad s k" and m: "dd_main now s = Exit c (summary now t)"
      and r: "c = 0 \<and> block_run.complete s (concat (blocks s)) k t \<or>
        out_exit (emitted s @ block_whole (cbsz s) (xlat s) (concat (blocks s)) @ replicate k 0) c t" by auto
    show ?thesis
      using m r ff osync_pad_none [OF assms(4) k] True by (auto simp: complete_defs out_exit_def Let_def)
  next
    case False
    then have "record_ready Unblock s" using assms(1,2) by (cases f) simp_all
    from unblock_run.dd_main_sat [OF unblock_start [OF this assms(3)] one refl, of now]
    obtain k c t where k: "osync_pad s k" and m: "dd_main now s = Exit c (summary now t)"
      and r: "c = 0 \<and> unblock_run.complete s (concat (blocks s)) k t \<or>
        out_exit (emitted s @ unblock_whole (cbsz s) (map (xlat s) (concat (blocks s))) @ replicate k 0) c t" by auto
    show ?thesis
      using m r ff osync_pad_none [OF assms(4) k] False by (auto simp: complete_defs out_exit_def Let_def)
  qed
qed

subsection \<open>Concrete runs\<close>

text \<open>A state as \<open>setup\<close> leaves it, for the witnesses.\<close>

definition ex_io :: "nat \<Rightarrow> int \<Rightarrow> IO" where
  "ex_io n d = \<lparr>dbp = 0, dbcnt = 0, dbrcnt = 0, dbsz = n, ISCHR = False, ISPIPE = False,
     ISTAPE = False, NOREAD = False, io_name = None, fd = d, offset = 0\<rparr>"

definition ex_stat :: STAT where
  "ex_stat = \<lparr>in_full = 0, in_part = 0, out_full = 0, out_part = 0, trunc = 0, swab = 0,
     sparse = 0, st_bytes = 0\<rparr>"

definition ex_dd :: "ddflag set \<Rightarrow> convfn \<Rightarrow> nat \<Rightarrow> nat \<Rightarrow> nat \<Rightarrow> read_ev list \<Rightarrow> write_ev list \<Rightarrow> dd" where
  "ex_dd fl f ibs obs cbs es ws = \<lparr>inp = ex_io ibs 3, outp = ex_io obs 4, st = ex_stat, cfunc = f,
     cpy_cnt = 0, pending = 0, ddflags = fl, cbsz = cbs, files_cnt = 1, progress = False,
     ctab = None, intrunc = False, warned = False,
     inbuf = replicate (if f = Def then ibs + obs - 1 else max ibs cbs + cbs) 0,
     outbuf = replicate (if f = Def then 0 else obs + cbs) 0, shared = (f = Def),
     src = es, wscript = ws, ofile = [], opos = 0, oseek = True, fsync_err = None, close_ok = True,
     stderr = []\<rparr>"

lemmas ex_defs = ex_dd_def ex_io_def ex_stat_def fresh_def tight_def sparse_safe_def benign_def
  readable_def

lemma ex_fresh: "0 < ibs \<Longrightarrow> 0 < obs \<Longrightarrow> fresh (ex_dd fl f ibs obs cbs es ws)"
  by (simp add: ex_defs)

lemma ex_ready:
  "0 < ibs \<Longrightarrow> 0 < obs \<Longrightarrow> C_BS \<notin> fl \<Longrightarrow> copy_ready (ex_dd fl Def ibs obs cbs es ws)"
  "0 < ibs \<Longrightarrow> 0 < obs \<Longrightarrow> C_BS \<in> fl \<Longrightarrow> direct_ready (ex_dd fl Def ibs obs cbs es ws)"
  "0 < ibs \<Longrightarrow> 0 < obs \<Longrightarrow> 0 < cbs \<Longrightarrow> C_BS \<notin> fl \<Longrightarrow> f \<noteq> Def \<Longrightarrow>
     record_ready f (ex_dd fl f ibs obs cbs es ws)"
  using ex_fresh by (simp_all add: copy_ready_def direct_ready_def record_ready_def)
    (simp_all add: ex_dd_def ex_io_def)

lemma ex_fields:
  "xlat (ex_dd fl f ibs obs cbs es ws) = (\<lambda>c. c)" "ofile (ex_dd fl f ibs obs cbs es ws) = []"
  "cpy_cnt (ex_dd fl f ibs obs cbs es ws) = 0" "cbsz (ex_dd fl f ibs obs cbs es ws) = cbs"
  "src (ex_dd fl f ibs obs cbs es ws) = es" "ddflags (ex_dd fl f ibs obs cbs es ws) = fl"
  by (simp_all add: xlat_def ex_dd_def)

lemma ex_blocks:
  "C_SYNC \<notin> fl \<Longrightarrow> 0 < ibs \<Longrightarrow> 0 < obs \<Longrightarrow> concat (blocks (ex_dd fl f ibs obs cbs [Chunk d] ws)) = d"
  using blocks_file [OF ex_fresh, of ibs obs fl f cbs "[Chunk d]" ws d]
  by (simp add: ex_fields file_input_def)

lemma ex_clean:
  assumes "list_all ok_write ws" "0 < ibs" "0 < obs"
  shows "benign (ex_dd fl f ibs obs cbs [Chunk d] ws)" "readable (ex_dd fl f ibs obs cbs [Chunk d] ws)"
  using assms by (simp_all add: ex_defs)


theorem dd_copy_file_witness:
  "\<exists>t. dd_main 7 (ex_dd {C_SPARSE} Def 2 3 0 [Chunk [0, 0, 0, 0, 5]] []) = Exit 0 (summary 7 t)
    \<and> ofile t = [0, 0, 0, 0, 5]"
  using dd_copy_file [of "ex_dd {C_SPARSE} Def 2 3 0 [Chunk [0, 0, 0, 0, 5]] []" "[0, 0, 0, 0, 5]" 7]
    ex_ready(1) [of 2 3 "{C_SPARSE}"] ex_clean [of "[]" 2 3]
  by (simp add: sparse_safe_def ex_fields) (simp add: ex_dd_def)

theorem dd_copy_safe_witness:
  "\<exists>c t. dd_main 7 (ex_dd {} Def 2 3 0 [Chunk [1, 2, 3, 4, 5]] [Accept 1, WriteError EIO]) = Exit c (summary 7 t)
    \<and> (c = 0 \<and> ofile t = [1, 2, 3, 4, 5] \<or> c = 1 \<and> prefix (ofile t) [1, 2, 3, 4, 5])"
  using dd_copy_safe [of "ex_dd {} Def 2 3 0 [Chunk [1, 2, 3, 4, 5]] [Accept 1, WriteError EIO]" 7]
    ex_ready(1) [of 2 3 "{}"]
  by (simp add: sparse_safe_def ex_fields ex_blocks)

theorem dd_direct_output_witness:
  "\<exists>t. dd_main 7 (ex_dd {C_BS} Def 2 2 0 [Chunk [1, 2, 3]] [Accept 1]) = Exit 0 (summary 7 t)
    \<and> ofile t = [1, 2, 3] \<and> st_bytes (st t) = 3"
  using dd_direct_output [of "ex_dd {C_BS} Def 2 2 0 [Chunk [1, 2, 3]] [Accept 1]" 7]
    ex_ready(2) [of 2 2 "{C_BS}"] ex_clean [of "[Accept 1]" 2 2]
  by (simp add: sparse_safe_def ex_fields ex_blocks)



theorem dd_records_safe_witness:
  "\<exists>c t. dd_main 7 (ex_dd {C_UNBLOCK} Unblock 2 3 3 [ReadError EIO] []) = Exit c (summary 7 t) \<and>
    (c = 0 \<and> ofile t = [] \<or> c = 1 \<and> prefix (ofile t) [])"
proof -
  let ?s = "ex_dd {C_UNBLOCK} Unblock 2 3 3 [ReadError EIO] []"
  have "blocks ?s = []"
    by (simp add: blocks_def in_blocks.simps(3) ex_fields)
  then show ?thesis
    using dd_records_safe [of Unblock ?s 7] ex_ready(3) [of 2 3 3 "{C_UNBLOCK}" Unblock]
    by (simp add: sparse_safe_def ex_fields Let_def unblock_whole_def unblock_emit_short chop_short)
qed

end
