(* ===== verification/DdArgs.thy ===== *)
theory DdArgs
  imports DdRun "HOL-Library.List_Lexorder" "HOL-Library.Char_ord"
begin

text \<open>
  The operands of \<open>testcode/android/dd/dd.c\<close>: the tables \<open>args\<close> and \<open>clist\<close>, their lookup
  by binary search, the operand functions \<open>f_*\<close> and \<open>jcl\<close> with its final checks.
\<close>

subsection \<open>Numbers\<close>

text \<open>
  \<open>sscanf(arg, "%lld", &result)\<close>: leading white space, an optional sign, decimal digits, with
  the value clipped to \<open>long long\<close>. On an argument of white space alone nothing is stored,
  and the result is whatever the stack held (\<open>junk\<close>).
\<close>

datatype scan = ScanEOF | ScanNone | ScanInt int

definition is_space :: "char \<Rightarrow> bool" where
  "is_space c \<longleftrightarrow> c = CHR '' '' \<or> (9 \<le> (of_char c :: nat) \<and> (of_char c :: nat) \<le> 13)"

definition is_digit :: "char \<Rightarrow> bool" where
  "is_digit c \<longleftrightarrow> 48 \<le> (of_char c :: nat) \<and> (of_char c :: nat) \<le> 57"

fun dec_value :: "int \<Rightarrow> string \<Rightarrow> int" where
  "dec_value a [] = a"
| "dec_value a (c # cs) = (if is_digit c then dec_value (10 * a + int (of_char c - 48)) cs else a)"

definition clip64 :: "int \<Rightarrow> int" where
  "clip64 i = max (- (2 ^ 63)) (min (2 ^ 63 - 1) i)"

definition scan_lld :: "string \<Rightarrow> scan" where
  "scan_lld arg =
     (case dropWhile is_space arg of
        [] \<Rightarrow> ScanEOF
      | c # cs \<Rightarrow>
          (let sg = (if c = CHR ''-'' then - 1 else 1);
               ds = (if c = CHR ''-'' \<or> c = CHR ''+'' then cs else c # cs)
           in case ds of
                [] \<Rightarrow> ScanNone
              | d # _ \<Rightarrow> if is_digit d then ScanInt (clip64 (sg * dec_value 0 ds)) else ScanNone))"

definition strsuftoll :: "int \<Rightarrow> string \<Rightarrow> int \<Rightarrow> int" where
  "strsuftoll junk arg dflt =
     (case scan_lld arg of ScanEOF \<Rightarrow> junk | ScanNone \<Rightarrow> dflt | ScanInt i \<Rightarrow> i)"

text \<open>Assignments of a \<open>long long\<close> to \<open>uint64_t\<close> and \<open>u_int\<close>.\<close>

definition to_u64 :: "int \<Rightarrow> nat" where "to_u64 i = nat (i mod 2 ^ 64)"
definition to_u32 :: "int \<Rightarrow> nat" where "to_u32 i = nat (i mod 2 ^ 32)"

subsection \<open>The operand functions\<close>

definition quit :: "nat \<Rightarrow> string \<Rightarrow> dd \<Rightarrow> 'a outcome" where
  "quit n m s = Exit n (say (MsgText m) s)"

definition f_bs :: "int \<Rightarrow> string \<Rightarrow> dd \<Rightarrow> dd outcome" where
  "f_bs junk arg s =
     (let n = to_u64 (strsuftoll junk arg 1)
      in Ret (upd_in (\<lambda>io. io\<lparr>dbsz := n\<rparr>) (upd_out (\<lambda>io. io\<lparr>dbsz := n\<rparr>) s)))"

definition f_cbs :: "int \<Rightarrow> string \<Rightarrow> dd \<Rightarrow> dd outcome" where
  "f_cbs junk arg s = Ret (s\<lparr>cbsz := to_u64 (strsuftoll junk arg 1)\<rparr>)"

definition f_count :: "int \<Rightarrow> string \<Rightarrow> dd \<Rightarrow> dd outcome" where
  "f_count junk arg s =
     (let s1 = s\<lparr>cpy_cnt := to_u64 (strsuftoll junk arg 0)\<rparr>
      in if cpy_cnt s1 = 0 then Exit 0 s1 else Ret s1)"

definition f_files :: "int \<Rightarrow> string \<Rightarrow> dd \<Rightarrow> dd outcome" where
  "f_files junk arg s =
     (let s1 = s\<lparr>files_cnt := to_u32 (strsuftoll junk arg 0)\<rparr>
      in if files_cnt s1 = 0 then Exit 0 s1 else Ret s1)"

definition f_ibs :: "int \<Rightarrow> string \<Rightarrow> dd \<Rightarrow> dd outcome" where
  "f_ibs junk arg s =
     Ret (if C_BS \<in> ddflags s then s
          else upd_in (\<lambda>io. io\<lparr>dbsz := to_u64 (strsuftoll junk arg 1)\<rparr>) s)"

definition f_if :: "int \<Rightarrow> string \<Rightarrow> dd \<Rightarrow> dd outcome" where
  "f_if junk arg s = Ret (upd_in (\<lambda>io. io\<lparr>io_name := Some arg\<rparr>) s)"

definition f_obs :: "int \<Rightarrow> string \<Rightarrow> dd \<Rightarrow> dd outcome" where
  "f_obs junk arg s =
     Ret (if C_BS \<in> ddflags s then s
          else upd_out (\<lambda>io. io\<lparr>dbsz := to_u64 (strsuftoll junk arg 1)\<rparr>) s)"

definition f_of :: "int \<Rightarrow> string \<Rightarrow> dd \<Rightarrow> dd outcome" where
  "f_of junk arg s = Ret (upd_out (\<lambda>io. io\<lparr>io_name := Some arg\<rparr>) s)"

definition f_seek :: "int \<Rightarrow> string \<Rightarrow> dd \<Rightarrow> dd outcome" where
  "f_seek junk arg s = Ret (upd_out (\<lambda>io. io\<lparr>offset := to_u64 (strsuftoll junk arg 0)\<rparr>) s)"

definition f_skip :: "int \<Rightarrow> string \<Rightarrow> dd \<Rightarrow> dd outcome" where
  "f_skip junk arg s = Ret (upd_in (\<lambda>io. io\<lparr>offset := to_u64 (strsuftoll junk arg 0)\<rparr>) s)"

text \<open>\<open>*arg\<close> is not the terminator: \<open>jcl\<close> has checked it.\<close>

definition f_progress :: "int \<Rightarrow> string \<Rightarrow> dd \<Rightarrow> dd outcome" where
  "f_progress junk arg s = Ret (if hd arg \<noteq> CHR ''0'' then s\<lparr>progress := True\<rparr> else s)"

subsection \<open>Binary search\<close>

text \<open>
  The C library's \<open>bsearch\<close> over a table sorted by name, with the comparison functions
  \<open>c_arg\<close> and \<open>c_conv\<close>, both \<open>strcmp\<close> on the names.
\<close>

function bsearch :: "string \<Rightarrow> (string \<times> 'a) list \<Rightarrow> nat \<Rightarrow> nat \<Rightarrow> 'a option" where
  "bsearch k t lo hi =
     (if hi \<le> lo then None
      else (let mid = (lo + hi) div 2; e = t ! mid
            in if k < fst e then bsearch k t lo mid
               else if fst e < k then bsearch k t (Suc mid) hi
               else Some (snd e)))"
  by pat_completeness auto
termination by (relation "measure (\<lambda>(k, t, lo, hi). hi - lo)") auto

declare bsearch.simps [simp del]

lemma key_index:
  assumes "k \<in> fst ` set (drop lo (take hi t))"
  obtains i where "lo \<le> i" "i < hi" "i < length t" "k = fst (t ! i)"
proof -
  obtain e where e: "e \<in> set (drop lo (take hi t))" "k = fst e" using assms by blast
  then obtain i where i: "i < length (drop lo (take hi t))" "e = drop lo (take hi t) ! i"
    by (metis in_set_conv_nth)
  have "lo \<le> length (take hi t)" using i(1) unfolding length_drop by linarith
  then have "e = t ! (lo + i)" using i by simp
  then show ?thesis using that [of "lo + i"] i(1) e(2) by simp
qed

lemma table_keys:
  fixes t :: "(string \<times> 'a) list"
  assumes "sorted_wrt (<) (map fst t)" and "m < length t"
  shows "k < fst (t ! m) \<Longrightarrow> k \<notin> fst ` set (drop m (take hi t))"
    and "fst (t ! m) < k \<Longrightarrow> k \<notin> fst ` set (drop lo (take (Suc m) t))"
proof -
  have le: "fst (t ! i) \<le> fst (t ! j)" if "i \<le> j" "j < length t" for i j
    using that sorted_wrt_nth_less [OF assms(1), of i j] by (cases "i = j") auto
  show "k \<notin> fst ` set (drop m (take hi t))" if k: "k < fst (t ! m)"
  proof
    assume "k \<in> fst ` set (drop m (take hi t))"
    then obtain i where "m \<le> i" "i < length t" "k = fst (t ! i)" by (rule key_index)
    then show False using k le [of m i] by (simp add: leD)
  qed
  show "k \<notin> fst ` set (drop lo (take (Suc m) t))" if k: "fst (t ! m) < k"
  proof
    assume "k \<in> fst ` set (drop lo (take (Suc m) t))"
    then obtain i where "i < Suc m" "k = fst (t ! i)" by (rule key_index)
    then show False using k le [of i m] assms(2) by (simp add: leD)
  qed
qed

lemma map_of_drop_take:
  assumes "lo \<le> m" and "m \<le> hi" and "hi \<le> length t"
  shows "map_of (drop lo (take hi t)) = map_of (drop m (take hi t)) ++ map_of (drop lo (take m t))"
proof -
  have "take m (take hi t) = take m t" using assms(2) by (simp add: min_def)
  then have "drop lo (take hi t) = drop lo (take m t @ drop m (take hi t))"
    by (metis append_take_drop_id)
  also have "\<dots> = drop lo (take m t) @ drop m (take hi t)" using assms by simp
  finally have "drop lo (take hi t) = drop lo (take m t) @ drop m (take hi t)" .
  then show ?thesis by (simp add: map_of_append)
qed

text \<open>On a sorted table the search finds exactly the entry of the name.\<close>

lemma bsearch_range:
  assumes "sorted_wrt (<) (map fst t)" and "hi \<le> length t"
  shows "bsearch k t lo hi = map_of (drop lo (take hi t)) k"
  using assms
proof (induction k t lo hi rule: bsearch.induct)
  case (1 k t lo hi)
  show ?case
  proof (cases "hi \<le> lo")
    case True
    then show ?thesis by (simp add: bsearch.simps)
  next
    case False
    let ?m = "(lo + hi) div 2"
    have m: "lo \<le> ?m" "?m < hi" "?m < length t" using False 1(4) by auto
    note keys = table_keys [OF 1(3) m(3), of k]
    have dm: "drop ?m (take (Suc ?m) t) = [t ! ?m]"
      using m(3) by (simp add: take_Suc_conv_app_nth)
    consider "k < fst (t ! ?m)" | "fst (t ! ?m) < k" | "k = fst (t ! ?m)" by fastforce
    then show ?thesis
    proof cases
      case 1
      have "map_of (drop ?m (take hi t)) k = None"
        using keys(1) [OF 1] by (simp add: map_of_eq_None_iff)
      then have "map_of (drop lo (take hi t)) k = map_of (drop lo (take ?m t)) k"
        using map_of_drop_take [of lo ?m hi t] m 1 \<open>hi \<le> length t\<close>
        by (simp add: map_add_def split: option.split)
      then show ?thesis
        using 1 False "1.IH"(1) [OF False refl refl] m \<open>sorted_wrt (<) (map fst t)\<close>
        by (subst bsearch.simps) (simp add: Let_def)
    next
      case 2
      have "map_of (drop lo (take (Suc ?m) t)) k = None"
        using keys(2) [OF 2] by (simp add: map_of_eq_None_iff)
      then have "map_of (drop lo (take hi t)) k = map_of (drop (Suc ?m) (take hi t)) k"
        using map_of_drop_take [of lo "Suc ?m" hi t] m \<open>hi \<le> length t\<close>
        by (simp add: map_add_def split: option.split)
      then show ?thesis
        using 2 less_not_sym [OF 2] False "1.IH"(2) [OF False refl refl] m \<open>sorted_wrt (<) (map fst t)\<close> \<open>hi \<le> length t\<close>
        by (subst bsearch.simps) (simp add: Let_def)
    next
      case 3
      have "k \<notin> fst ` set (drop lo (take ?m t))"
      proof
        assume "k \<in> fst ` set (drop lo (take ?m t))"
        then obtain i where i: "i < ?m" "k = fst (t ! i)" by (rule key_index)
        then show False
          using 3 sorted_wrt_nth_less [OF \<open>sorted_wrt (<) (map fst t)\<close>, of i ?m] m by simp
      qed
      then have "map_of (drop lo (take ?m t)) k = None" by (simp add: map_of_eq_None_iff)
      moreover have "drop ?m (take hi t) = t ! ?m # drop (Suc ?m) (take hi t)"
        using m \<open>hi \<le> length t\<close> by (simp add: Cons_nth_drop_Suc [symmetric])
      ultimately have "map_of (drop lo (take hi t)) k = Some (snd (t ! ?m))"
        using map_of_drop_take [of lo ?m hi t] m 3 \<open>hi \<le> length t\<close> by (simp add: map_add_def)
      then show ?thesis
        using 3 False by (subst bsearch.simps) (simp add: Let_def)
    qed
  qed
qed

lemma bsearch_map_of:
  "sorted_wrt (<) (map fst t) \<Longrightarrow> bsearch k t 0 (length t) = map_of t k"
  by (simp add: bsearch_range)

subsection \<open>The tables\<close>

text \<open>\<open>struct arg\<close>: the function, the flags it sets and those it is illegal with.\<close>

record arg =
  arg_f :: "int \<Rightarrow> string \<Rightarrow> dd \<Rightarrow> dd outcome"
  arg_set :: "ddflag set"
  arg_noset :: "ddflag set"

record conv =
  conv_set :: "ddflag set"
  conv_noset :: "ddflag set"
  conv_ctab :: "(byte \<Rightarrow> byte) option"

definition clist :: "(string \<times> conv) list" where
  "clist =
     [(''block'', \<lparr>conv_set = {C_BLOCK}, conv_noset = {C_UNBLOCK}, conv_ctab = None\<rparr>),
      (''fdatasync'', \<lparr>conv_set = {C_FDATASYNC}, conv_noset = {}, conv_ctab = None\<rparr>),
      (''noerror'', \<lparr>conv_set = {C_NOERROR}, conv_noset = {}, conv_ctab = None\<rparr>),
      (''notrunc'', \<lparr>conv_set = {C_NOTRUNC}, conv_noset = {}, conv_ctab = None\<rparr>),
      (''osync'', \<lparr>conv_set = {C_OSYNC}, conv_noset = {C_BS}, conv_ctab = None\<rparr>),
      (''sparse'', \<lparr>conv_set = {C_SPARSE}, conv_noset = {}, conv_ctab = None\<rparr>),
      (''swab'', \<lparr>conv_set = {C_SWAB}, conv_noset = {}, conv_ctab = None\<rparr>),
      (''sync'', \<lparr>conv_set = {C_SYNC}, conv_noset = {}, conv_ctab = None\<rparr>),
      (''unblock'', \<lparr>conv_set = {C_UNBLOCK}, conv_noset = {C_BLOCK}, conv_ctab = None\<rparr>)]"

text \<open>\<open>strsep(&arg, ",")\<close> until the pointer is null: the pieces, empty ones included.\<close>

fun commas :: "string \<Rightarrow> string list" where
  "commas [] = [[]]"
| "commas (c # cs) =
     (if c = CHR '','' then [] # commas cs
      else (case commas cs of [] \<Rightarrow> [[c]] | p # ps \<Rightarrow> (c # p) # ps))"

fun conv_loop :: "string list \<Rightarrow> dd \<Rightarrow> dd outcome" where
  "conv_loop [] s = Ret s"
| "conv_loop (name # rest) s =
     (case bsearch name clist 0 (length clist) of
        None \<Rightarrow> quit 1 (''unknown conversion '' @ name) s
      | Some cp \<Rightarrow>
          if ddflags s \<inter> conv_noset cp \<noteq> {}
          then quit 1 (name @ '': illegal conversion combination'') s
          else (let s1 = s\<lparr>ddflags := ddflags s \<union> conv_set cp\<rparr>;
                    s2 = (case conv_ctab cp of None \<Rightarrow> s1 | Some t \<Rightarrow> s1\<lparr>ctab := Some t\<rparr>)
                in conv_loop rest s2))"

definition f_conv :: "int \<Rightarrow> string \<Rightarrow> dd \<Rightarrow> dd outcome" where
  "f_conv junk arg s = conv_loop (commas arg) s"

definition args :: "(string \<times> arg) list" where
  "args =
     [(''bs'', \<lparr>arg_f = f_bs, arg_set = {C_BS}, arg_noset = {C_BS, C_IBS, C_OBS, C_OSYNC}\<rparr>),
      (''cbs'', \<lparr>arg_f = f_cbs, arg_set = {C_CBS}, arg_noset = {C_CBS}\<rparr>),
      (''conv'', \<lparr>arg_f = f_conv, arg_set = {}, arg_noset = {}\<rparr>),
      (''count'', \<lparr>arg_f = f_count, arg_set = {C_COUNT}, arg_noset = {C_COUNT}\<rparr>),
      (''files'', \<lparr>arg_f = f_files, arg_set = {C_FILES}, arg_noset = {C_FILES}\<rparr>),
      (''ibs'', \<lparr>arg_f = f_ibs, arg_set = {C_IBS}, arg_noset = {C_BS, C_IBS}\<rparr>),
      (''if'', \<lparr>arg_f = f_if, arg_set = {C_IF}, arg_noset = {C_IF}\<rparr>),
      (''obs'', \<lparr>arg_f = f_obs, arg_set = {C_OBS}, arg_noset = {C_BS, C_OBS}\<rparr>),
      (''of'', \<lparr>arg_f = f_of, arg_set = {C_OF}, arg_noset = {C_OF}\<rparr>),
      (''progress'', \<lparr>arg_f = f_progress, arg_set = {}, arg_noset = {}\<rparr>),
      (''seek'', \<lparr>arg_f = f_seek, arg_set = {C_SEEK}, arg_noset = {C_SEEK}\<rparr>),
      (''skip'', \<lparr>arg_f = f_skip, arg_set = {C_SKIP}, arg_noset = {C_SKIP}\<rparr>)]"

lemma tables_sorted: "sorted_wrt (<) (map fst args)" "sorted_wrt (<) (map fst clist)"
  by (simp_all add: args_def clist_def less_char_def)

subsection \<open>Parsing the command line\<close>

fun split_eq :: "string \<Rightarrow> (string \<times> string) option" where
  "split_eq [] = None"
| "split_eq (c # cs) =
     (if c = CHR ''='' then Some ([], cs)
      else (case split_eq cs of None \<Rightarrow> None | Some (a, b) \<Rightarrow> Some (c # a, b)))"

fun jcl_loop :: "int \<Rightarrow> string list \<Rightarrow> dd \<Rightarrow> dd outcome" where
  "jcl_loop junk [] s = Ret s"
| "jcl_loop junk (oper # rest) s =
     (case split_eq oper of
        None \<Rightarrow> quit 1 (''unknown operand '' @ oper) s
      | Some (name, arg) \<Rightarrow>
          if arg = [] then quit 1 (''no value specified for '' @ name) s
          else (case bsearch name args 0 (length args) of
                  None \<Rightarrow> quit 1 (''unknown operand '' @ name) s
                | Some ap \<Rightarrow>
                    if ddflags s \<inter> arg_noset ap \<noteq> {}
                    then quit 1 (name @ '': illegal argument combination or already set'') s
                    else bindo (arg_f ap junk arg (s\<lparr>ddflags := ddflags s \<union> arg_set ap\<rparr>))
                           (jcl_loop junk rest)))"

definition jcl_bs :: "dd \<Rightarrow> dd" where
  "jcl_bs s =
     (if C_BS \<in> ddflags s then
        (let s1 = (if ddflags s \<inter> {C_BLOCK, C_LCASE, C_SWAB, C_UCASE, C_UNBLOCK, C_OSYNC, C_ASCII,
                                   C_EBCDIC, C_SPARSE} \<noteq> {}
                   then s\<lparr>ddflags := ddflags s - {C_BS} \<union> {C_IBS, C_OBS}\<rparr> else s)
         in if C_BS \<in> ddflags s1 \<and> ddflags s1 \<inter> {C_IBS, C_OBS} \<noteq> {}
            then say (MsgText ''bs supersedes ibs and obs'') s1 else s1)
      else s)"

definition jcl_conv :: "dd \<Rightarrow> dd outcome" where
  "jcl_conv s =
     (if ddflags s \<inter> {C_BLOCK, C_UNBLOCK} \<noteq> {} then
        if C_CBS \<notin> ddflags s then quit 1 ''record operations require cbs'' s
        else Ret (s\<lparr>cfunc := if C_BLOCK \<in> ddflags s then Block else Unblock\<rparr>)
      else if C_CBS \<in> ddflags s then
        if ddflags s \<inter> {C_ASCII, C_EBCDIC} \<noteq> {} then
          if C_ASCII \<in> ddflags s
          then Ret (s\<lparr>ddflags := ddflags s \<union> {C_UNBLOCK}, cfunc := Unblock\<rparr>)
          else Ret (s\<lparr>ddflags := ddflags s \<union> {C_BLOCK}, cfunc := Block\<rparr>)
        else quit 1 ''cbs meaningless if not doing record operations'' s
      else Ret (s\<lparr>cfunc := Def\<rparr>))"

definition jcl :: "int \<Rightarrow> string list \<Rightarrow> dd \<Rightarrow> dd outcome" where
  "jcl junk argv s =
     bindo (jcl_loop junk argv (upd_in (\<lambda>io. io\<lparr>dbsz := 512\<rparr>) (upd_out (\<lambda>io. io\<lparr>dbsz := 512\<rparr>) s)))
       (\<lambda>s1. jcl_conv (jcl_bs s1))"

end
