(* ===== verification/DdSetup.thy ===== *)
theory DdSetup
  imports DdArgs
begin

text \<open>
  Opening, positioning and allocating: \<open>setup\<close>, \<open>getfdtype\<close>, \<open>redup_clean_fd\<close>, \<open>pos_in\<close> and
  \<open>pos_out\<close> of \<open>testcode/android/dd/dd.c\<close>, and the program from its operands to its exit.
\<close>

subsection \<open>The operating system\<close>

datatype fdtype = Regular | CharDev | PipeDev

text \<open>
  What the calls of \<open>setup\<close> answer: descriptors (negative on failure), the type of an open
  file (\<open>None\<close> when \<open>fstat\<close> fails), whether an allocation succeeds, the width of \<open>size_t\<close>,
  and whether \<open>lseek\<close> works on the input (\<open>oseek\<close> of the state says so of the output).
\<close>

record env =
  open_rd :: "string \<Rightarrow> int"
  open_rdwr :: "string \<Rightarrow> int"
  open_wronly :: "string \<Rightarrow> int"
  dupfd :: "int \<Rightarrow> int"
  ftype :: "int \<Rightarrow> fdtype option"
  malloc_ok :: "nat \<Rightarrow> bool"
  size_bits :: nat
  in_seekable :: bool

subsection \<open>Descriptors\<close>

definition redup_clean_fd :: "env \<Rightarrow> int \<Rightarrow> dd \<Rightarrow> int outcome" where
  "redup_clean_fd e d s =
     (if d \<noteq> 0 \<and> d \<noteq> 1 \<and> d \<noteq> 2 then Ret d
      else (let n = dupfd e d in if n < 0 then quit 1 ''dupfd IO'' s else Ret n))"

definition getfdtype :: "env \<Rightarrow> IO \<Rightarrow> dd \<Rightarrow> IO outcome" where
  "getfdtype e io s =
     (case ftype e (fd io) of
        None \<Rightarrow> quit 1 ''cannot fstat'' s
      | Some CharDev \<Rightarrow> Ret (io\<lparr>ISCHR := True\<rparr>)
      | Some PipeDev \<Rightarrow> Ret (io\<lparr>ISPIPE := True\<rparr>)
      | Some Regular \<Rightarrow> Ret io)"

definition open_input :: "env \<Rightarrow> dd \<Rightarrow> dd outcome" where
  "open_input e s =
     (case io_name (inp s) of
        None \<Rightarrow> Ret (upd_in (\<lambda>io. io\<lparr>io_name := Some ''stdin'', fd := 0\<rparr>) s)
      | Some n \<Rightarrow>
          (let d = open_rd e n
           in if d < 0 then quit 1 (n @ '': cannot open for read'') s
              else bindo (redup_clean_fd e d s) (\<lambda>d'. Ret (upd_in (\<lambda>io. io\<lparr>fd := d'\<rparr>) s))))"

text \<open>\<open>O_TRUNC\<close> empties a named output file unless \<open>seek=\<close> or \<open>conv=notrunc\<close> is given.\<close>

definition opened :: "env \<Rightarrow> int \<Rightarrow> dd \<Rightarrow> dd outcome" where
  "opened e d s =
     bindo (redup_clean_fd e d s) (\<lambda>d'.
       Ret ((upd_out (\<lambda>io. io\<lparr>fd := d'\<rparr>) s)
              \<lparr>ofile := if ddflags s \<inter> {C_SEEK, C_NOTRUNC} \<noteq> {} then ofile s else []\<rparr>))"

definition open_output :: "env \<Rightarrow> dd \<Rightarrow> dd outcome" where
  "open_output e s =
     (case io_name (outp s) of
        None \<Rightarrow> Ret (upd_out (\<lambda>io. io\<lparr>io_name := Some ''stdout'', fd := 1\<rparr>) s)
      | Some n \<Rightarrow>
          if open_rdwr e n \<ge> 0 then opened e (open_rdwr e n) s
          else (let s1 = upd_out (\<lambda>io. io\<lparr>NOREAD := True\<rparr>) s
                in if open_wronly e n < 0 then quit 1 (n @ '': cannot open for write'') s1
                   else opened e (open_wronly e n) s1))"

subsection \<open>Buffers\<close>

text \<open>
  One buffer of \<open>out.dbsz + in.dbsz - 1\<close> bytes, or two for the record conversions, whose
  sizes are cast to \<open>u_int\<close>. All arithmetic is on \<open>uint64_t\<close>.
\<close>

definition alloc :: "env \<Rightarrow> dd \<Rightarrow> dd outcome" where
  "alloc e s =
     (let ibs = dbsz (inp s); obs = dbsz (outp s)
      in if ddflags s \<inter> {C_BLOCK, C_UNBLOCK} = {} then
           (let n = nat ((int obs + int ibs - 1) mod 2 ^ 64) mod 2 ^ size_bits e
            in if malloc_ok e n then Ret (s\<lparr>inbuf := replicate n 0, shared := True\<rparr>)
               else Exit 1 s)
         else
           (let n = (max ibs (cbsz s) + cbsz s) mod 2 ^ 32; m = (obs + cbsz s) mod 2 ^ 32
            in if malloc_ok e n \<and> malloc_ok e m
               then Ret (s\<lparr>inbuf := replicate n 0, outbuf := replicate m 0, shared := False\<rparr>)
               else Exit 1 s))"

subsection \<open>Positioning\<close>

text \<open>\<open>off_t\<close> products wrap at 64 bits.\<close>

definition off_mul :: "nat \<Rightarrow> nat \<Rightarrow> int" where
  "off_mul a b = sint (of_nat a * of_nat b :: u64)"

text \<open>Moving the input position forward skips that many bytes of what is to be read.\<close>

fun drop_src :: "nat \<Rightarrow> read_ev list \<Rightarrow> read_ev list" where
  "drop_src n [] = []"
| "drop_src n (Chunk bs # es) =
     (if n < length bs then Chunk (drop n bs) # es else drop_src (n - length bs) es)"
| "drop_src n (ReadError e # es) = ReadError e # drop_src n es"

text \<open>
  The reading loop for pipes: \<open>bcnt\<close> and \<open>cnt\<close> are \<open>int\<close>; every round takes something from
  the source or ends.
\<close>

definition s32 :: "nat \<Rightarrow> int" where
  "s32 n = sint (of_nat n :: u32)"

fun pos_in_loop :: "env \<Rightarrow> nat \<Rightarrow> nat \<Rightarrow> int \<Rightarrow> int \<Rightarrow> bool \<Rightarrow> dd \<Rightarrow> dd outcome" where
  "pos_in_loop e 0 now bcnt cnt wrn s = Diverge"
| "pos_in_loop e (Suc fuel) now bcnt cnt wrn s =
     (if cnt = 0 then Ret s
      else (case read_src (nat (bcnt mod 2 ^ size_bits e)) (src s) of
              (RData [], es) \<Rightarrow>
                (let s1 = s\<lparr>src := es\<rparr>
                 in if 1 < files_cnt s1
                    then pos_in_loop e fuel now bcnt cnt wrn (s1\<lparr>files_cnt := files_cnt s1 - 1\<rparr>)
                    else quit 1 ''skip reached end of input'' s1)
            | (RData bs, es) \<Rightarrow>
                bindo (need (mem_write (inbuf s) 0 bs)) (\<lambda>b.
                  (let s1 = s\<lparr>src := es, inbuf := b\<rparr>; left = bcnt - int (length bs)
                   in if ISPIPE (inp s1) then
                        if left = 0 then pos_in_loop e fuel now (s32 (dbsz (inp s1))) (cnt - 1) wrn s1
                        else pos_in_loop e fuel now left cnt wrn s1
                      else pos_in_loop e fuel now bcnt (cnt - 1) wrn s1))
            | (RFail err, es) \<Rightarrow>
                (let s1 = s\<lparr>src := es\<rparr>
                 in if C_NOERROR \<in> ddflags s1
                    then pos_in_loop e fuel now bcnt cnt True
                           (if wrn then s1 else summary now (say (MsgText ''error occurred'') s1))
                    else quit 1 ''read error'' s1)))"

definition pos_in :: "env \<Rightarrow> nat \<Rightarrow> dd \<Rightarrow> dd outcome" where
  "pos_in e now s =
     (if \<not> ISPIPE (inp s) \<and> \<not> ISTAPE (inp s) then
        (let n = off_mul (offset (inp s)) (dbsz (inp s))
         in if \<not> in_seekable e \<or> n < 0 then quit 1 ''seek error'' s
            else Ret (s\<lparr>src := drop_src (nat n) (src s)\<rparr>))
      else pos_in_loop e (Suc (src_size (src s) + files_cnt s)) now (s32 (dbsz (inp s)))
             (s32 (offset (inp s))) False s)"

text \<open>
  The output is never marked as a tape (\<open>getfdtype\<close> has that test commented out), so only
  the seek is reachable.
\<close>

definition pos_out :: "dd \<Rightarrow> dd outcome" where
  "pos_out s =
     (let n = off_mul (offset (outp s)) (dbsz (outp s))
      in if \<not> oseek s \<or> n < 0 then quit 1 ''seek error'' s else Ret (s\<lparr>opos := nat n\<rparr>))"

definition set_length :: "nat \<Rightarrow> byte list \<Rightarrow> byte list" where
  "set_length n f = take n f @ replicate (n - length f) 0"

definition truncate_out :: "dd \<Rightarrow> dd" where
  "truncate_out s =
     (let n = off_mul (offset (outp s)) (dbsz (outp s))
      in if ddflags s \<inter> {C_OF, C_SEEK, C_NOTRUNC} = {C_OF, C_SEEK} \<and> 0 \<le> n
         then s\<lparr>ofile := set_length (nat n) (ofile s)\<rparr> else s)"

definition reset_ptrs :: "dd \<Rightarrow> dd" where
  "reset_ptrs s = upd_in (\<lambda>io. io\<lparr>dbp := 0\<rparr>) (upd_out (\<lambda>io. io\<lparr>dbp := 0\<rparr>) s)"

definition dd_setup :: "env \<Rightarrow> nat \<Rightarrow> dd \<Rightarrow> dd outcome" where
  "dd_setup e now s =
     bindo (open_input e s) (\<lambda>s1.
     bindo (getfdtype e (inp s1) s1) (\<lambda>io.
       (let s2 = s1\<lparr>inp := io\<rparr>
        in if 1 < files_cnt s2 \<and> \<not> ISTAPE (inp s2)
           then quit 1 ''files is not supported for non-tape devices'' s2
           else
             bindo (open_output e s2) (\<lambda>s3.
             bindo (getfdtype e (outp s3) s3) (\<lambda>io'.
             bindo (alloc e (s3\<lparr>outp := io'\<rparr>)) (\<lambda>s4.
             bindo (if offset (inp s4) \<noteq> 0 then pos_in e now (reset_ptrs s4) else Ret (reset_ptrs s4)) (\<lambda>s5.
             bindo (if offset (outp s5) \<noteq> 0 then pos_out s5 else Ret s5) (\<lambda>s6.
               Ret (truncate_out s6)))))))))"

text \<open>\<open>main\<close> after \<open>getopt\<close>: operands, set-up, copying.\<close>

definition dd_program :: "env \<Rightarrow> int \<Rightarrow> nat \<Rightarrow> string list \<Rightarrow> dd \<Rightarrow> dd outcome" where
  "dd_program e junk now argv s =
     bindo (jcl junk argv s) (\<lambda>s1. bindo (dd_setup e now s1) (dd_main now))"

subsection \<open>What the operands leave\<close>

text \<open>The flags and the conversion function agree.\<close>

definition jcl_ok :: "dd \<Rightarrow> bool" where
  "jcl_ok s \<longleftrightarrow>
     (cfunc s = Def \<longleftrightarrow> ddflags s \<inter> {C_BLOCK, C_UNBLOCK} = {})
     \<and> (C_BS \<in> ddflags s \<longrightarrow> cfunc s = Def \<and> ddflags s \<inter> {C_OSYNC, C_SPARSE} = {})"

lemma jcl_conv_ok:
  assumes "jcl_conv (jcl_bs s) = Ret t"
  shows "jcl_ok t"
proof -
  let ?c = "{C_BLOCK, C_LCASE, C_SWAB, C_UCASE, C_UNBLOCK, C_OSYNC, C_ASCII, C_EBCDIC, C_SPARSE}"
  let ?u = "jcl_bs s"
  have u: "C_BS \<in> ddflags ?u \<longrightarrow> ddflags ?u \<inter> ?c = {}"
    by (auto simp: jcl_bs_def Let_def say_def)
  show ?thesis
    using assms u unfolding jcl_conv_def quit_def jcl_ok_def by (auto split: if_split_asm)
qed

text \<open>The state before the operands are read: zero-initialised globals.\<close>

definition pristine :: "dd \<Rightarrow> bool" where
  "pristine s \<longleftrightarrow> pending s = 0 \<and> \<not> intrunc s \<and> in_full (st s) = 0 \<and> in_part (st s) = 0
     \<and> st_bytes (st s) = 0 \<and> dbcnt (inp s) = 0 \<and> dbcnt (outp s) = 0
     \<and> \<not> ISTAPE (inp s) \<and> \<not> ISTAPE (outp s) \<and> opos s = 0 \<and> cpy_cnt s < 2 ^ 64"

text \<open>
  An output that starts empty or is cut at the seek position: \<open>conv=notrunc\<close> is not given,
  and seeking is done on a named file.
\<close>

definition cut_output :: "dd \<Rightarrow> bool" where
  "cut_output s \<longleftrightarrow> C_NOTRUNC \<notin> ddflags s \<and> (C_OF \<in> ddflags s \<longleftrightarrow> io_name (outp s) \<noteq> None)
     \<and> (C_SEEK \<in> ddflags s \<longrightarrow> C_OF \<in> ddflags s) \<and> (offset (outp s) \<noteq> 0 \<longrightarrow> C_SEEK \<in> ddflags s)
     \<and> (C_OF \<notin> ddflags s \<longrightarrow> ofile s = [])"

text \<open>
  Block sizes that are positive and whose buffers do not wrap, with an input block size
  that an \<open>int\<close> holds and a \<open>size_t\<close> of at least 32 bits.
\<close>

definition sizes_ok :: "env \<Rightarrow> dd \<Rightarrow> bool" where
  "sizes_ok e s \<longleftrightarrow> 0 < dbsz (inp s) \<and> 0 < dbsz (outp s) \<and> dbsz (inp s) < 2 ^ 31 \<and> 32 \<le> size_bits e \<and>
     (if cfunc s = Def then dbsz (inp s) + dbsz (outp s) \<le> 2 ^ min 64 (size_bits e)
      else 0 < cbsz s \<and> max (dbsz (inp s)) (cbsz s) + cbsz s < 2 ^ 32 \<and> dbsz (outp s) + cbsz s < 2 ^ 32)"

subsection \<open>What the set-up leaves\<close>

definition keeps :: "dd \<Rightarrow> dd \<Rightarrow> bool" where
  "keeps s t \<longleftrightarrow> ddflags t = ddflags s \<and> cbsz t = cbsz s \<and> cfunc t = cfunc s \<and> cpy_cnt t = cpy_cnt s
     \<and> ctab t = ctab s \<and> pending t = pending s \<and> intrunc t = intrunc s \<and> st t = st s
     \<and> wscript t = wscript s
     \<and> dbcnt (inp t) = dbcnt (inp s) \<and> dbsz (inp t) = dbsz (inp s) \<and> ISTAPE (inp t) = ISTAPE (inp s)
     \<and> offset (inp t) = offset (inp s)
     \<and> dbcnt (outp t) = dbcnt (outp s) \<and> dbsz (outp t) = dbsz (outp s) \<and> ISTAPE (outp t) = ISTAPE (outp s)
     \<and> offset (outp t) = offset (outp s)"

definition keeps_file :: "dd \<Rightarrow> dd \<Rightarrow> bool" where
  "keeps_file s t \<longleftrightarrow> keeps s t \<and> ofile t = ofile s \<and> opos t = opos s"

definition keeps_bufs :: "dd \<Rightarrow> dd \<Rightarrow> bool" where
  "keeps_bufs s t \<longleftrightarrow> keeps s t \<and> length (inbuf t) = length (inbuf s) \<and> outbuf t = outbuf s
     \<and> shared t = shared s \<and> dbp (inp t) = dbp (inp s) \<and> dbp (outp t) = dbp (outp s)"

lemma keeps_refl [simp]: "keeps s s" "keeps_file s s" "keeps_bufs s s"
  by (simp_all add: keeps_def keeps_file_def keeps_bufs_def)

lemma keeps_trans: "keeps s t \<Longrightarrow> keeps t u \<Longrightarrow> keeps s u"
  by (simp add: keeps_def)

lemma keeps_file_trans: "keeps_file s t \<Longrightarrow> keeps_file t u \<Longrightarrow> keeps_file s u"
  by (simp add: keeps_file_def keeps_def)

lemma keeps_bufs_trans: "keeps_bufs s t \<Longrightarrow> keeps_bufs t u \<Longrightarrow> keeps_bufs s u"
  by (simp add: keeps_bufs_def keeps_def)

lemma open_input_Ret:
  "open_input e s = Ret t \<Longrightarrow> keeps_file s t \<and> files_cnt t = files_cnt s \<and> outp t = outp s"
  by (auto simp: open_input_def Let_def quit_def bindo_Ret keeps_file_def keeps_def upd_in_def
      split: option.splits if_split_asm)

lemma getfdtype_Ret:
  "getfdtype e io s = Ret io' \<Longrightarrow> dbcnt io' = dbcnt io \<and> dbsz io' = dbsz io \<and> ISTAPE io' = ISTAPE io
     \<and> offset io' = offset io \<and> io_name io' = io_name io"
  by (auto simp: getfdtype_def quit_def split: option.splits fdtype.splits)

lemma opened_Ret:
  "opened e d s = Ret t \<Longrightarrow> keeps s t \<and> opos t = opos s \<and> files_cnt t = files_cnt s
     \<and> ofile t = (if ddflags s \<inter> {C_SEEK, C_NOTRUNC} \<noteq> {} then ofile s else [])"
  by (auto simp: opened_def bindo_Ret keeps_def upd_out_def)

lemma open_output_Ret:
  assumes "open_output e s = Ret t"
  shows "keeps s t \<and> opos t = opos s \<and> files_cnt t = files_cnt s
    \<and> ofile t = (if io_name (outp s) = None \<or> ddflags s \<inter> {C_SEEK, C_NOTRUNC} \<noteq> {} then ofile s else [])"
proof (cases "io_name (outp s)")
  case None
  then show ?thesis using assms by (simp add: open_output_def) (auto simp: keeps_def upd_out_def)
next
  case (Some n)
  let ?s = "upd_out (\<lambda>io. io\<lparr>NOREAD := True\<rparr>) s"
  have "opened e (open_rdwr e n) s = Ret t \<or> opened e (open_wronly e n) ?s = Ret t"
    using assms Some by (auto simp: open_output_def Let_def quit_def split: if_split_asm)
  then show ?thesis
  proof
    assume "opened e (open_rdwr e n) s = Ret t"
    then show ?thesis using opened_Ret Some by fastforce
  next
    assume "opened e (open_wronly e n) ?s = Ret t"
    moreover have "keeps s ?s" "opos ?s = opos s" "files_cnt ?s = files_cnt s" "ofile ?s = ofile s" "ddflags ?s = ddflags s"
      by (simp_all add: keeps_def upd_out_def)
    ultimately show ?thesis using opened_Ret [of e _ ?s t] keeps_trans [of s ?s t] Some by simp
  qed
qed

lemma nat_mod_small: "m < 2 ^ k \<Longrightarrow> nat (int m mod 2 ^ k) = m"
  by (metis mod_less nat_int of_nat_numeral of_nat_power zmod_int)

lemma alloc_Ret:
  assumes "alloc e s = Ret t" and "cfunc s = Def \<longleftrightarrow> ddflags s \<inter> {C_BLOCK, C_UNBLOCK} = {}" and "sizes_ok e s"
  shows "keeps_file s t \<and> files_cnt t = files_cnt s \<and>
    (if cfunc s = Def then shared t \<and> length (inbuf t) = dbsz (outp s) + dbsz (inp s) - 1
     else \<not> shared t \<and> length (inbuf t) = max (dbsz (inp s)) (cbsz s) + cbsz s
       \<and> length (outbuf t) = dbsz (outp s) + cbsz s)"
proof (cases "cfunc s = Def")
  case True
  let ?n = "nat ((int (dbsz (outp s)) + int (dbsz (inp s)) - 1) mod 2 ^ 64) mod 2 ^ size_bits e"
  have sz: "0 < dbsz (inp s)" "0 < dbsz (outp s)" "dbsz (inp s) + dbsz (outp s) \<le> 2 ^ min 64 (size_bits e)"
    using assms(3) True by (simp_all add: sizes_ok_def)
  have le: "(2 :: nat) ^ min 64 (size_bits e) \<le> 2 ^ 64" "(2 :: nat) ^ min 64 (size_bits e) \<le> 2 ^ size_bits e"
    by (rule power_increasing; simp)+
  let ?m = "dbsz (outp s) + dbsz (inp s) - 1"
  have m: "?m < 2 ^ 64" "?m < 2 ^ size_bits e" using sz le by linarith+
  have "int (dbsz (outp s)) + int (dbsz (inp s)) - 1 = int ?m" using sz by (simp add: of_nat_diff)
  then have n: "?n = ?m" by (simp only: nat_mod_small [OF m(1)] mod_less [OF m(2)])
  show ?thesis
    using assms(1,2) True unfolding alloc_def Let_def n
    by (auto simp: keeps_file_def keeps_def split: if_split_asm)
next
  case False
  then show ?thesis
    using assms by (auto simp: alloc_def Let_def sizes_ok_def keeps_file_def keeps_def split: if_split_asm)
qed

lemma reset_ptrs_keeps: "keeps_file s (reset_ptrs s)"
  "dbp (inp (reset_ptrs s)) = 0" "dbp (outp (reset_ptrs s)) = 0" "inbuf (reset_ptrs s) = inbuf s"
  "outbuf (reset_ptrs s) = outbuf s" "shared (reset_ptrs s) = shared s" "files_cnt (reset_ptrs s) = files_cnt s"
  by (simp_all add: reset_ptrs_def keeps_file_def keeps_def upd_in_def upd_out_def)

lemma only_says_keeps:
  "only_says s t \<Longrightarrow> keeps_file s t \<and> keeps_bufs s t \<and> files_cnt t = files_cnt s"
  by (auto simp: only_says_def keeps_file_def keeps_bufs_def keeps_def)

definition pos_keeps :: "dd \<Rightarrow> dd \<Rightarrow> bool" where
  "pos_keeps s t \<longleftrightarrow> keeps_file s t \<and> keeps_bufs s t \<and> files_cnt t = files_cnt s"

lemma pos_keeps_trans: "pos_keeps s t \<Longrightarrow> pos_keeps t u \<Longrightarrow> pos_keeps s u"
  by (auto simp: pos_keeps_def intro: keeps_file_trans keeps_bufs_trans)

lemma pos_keeps_src: "pos_keeps s (s\<lparr>src := es\<rparr>)"
  by (simp add: pos_keeps_def keeps_file_def keeps_bufs_def keeps_def)

lemma pos_in_loop_Ret:
  "pos_in_loop e fuel now bcnt cnt wrn s = Ret t \<Longrightarrow> files_cnt s \<le> 1 \<Longrightarrow> pos_keeps s t"
proof (induction fuel arbitrary: bcnt cnt wrn s)
  case (Suc fuel)
  show ?case
  proof (cases "cnt = 0")
    case True
    then show ?thesis using Suc.prems by (simp add: pos_keeps_def)
  next
    case False
    obtain r es where rd: "read_src (nat (bcnt mod 2 ^ size_bits e)) (src s) = (r, es)" by fastforce
    show ?thesis
    proof (cases r)
      case (RFail err)
      define u where "u = (if wrn then s\<lparr>src := es\<rparr> else summary now (say (MsgText ''error occurred'') (s\<lparr>src := es\<rparr>)))"
      have "pos_in_loop e fuel now bcnt cnt True u = Ret t"
        using Suc.prems(1) False rd RFail by (auto simp: Let_def quit_def u_def split: if_split_asm)
      moreover have "only_says (s\<lparr>src := es\<rparr>) u" by (simp add: u_def)
      then have "pos_keeps (s\<lparr>src := es\<rparr>) u" by (simp add: pos_keeps_def only_says_keeps)
      then have su: "pos_keeps s u" by (rule pos_keeps_trans [OF pos_keeps_src])
      then have "files_cnt u \<le> 1" using Suc.prems(2) by (simp add: pos_keeps_def)
      ultimately have "pos_keeps u t" by (rule Suc.IH)
      with su show ?thesis by (rule pos_keeps_trans)
    next
      case (RData bs)
      show ?thesis
      proof (cases "bs = []")
        case True
        then show ?thesis using Suc.prems False rd RData by (simp add: Let_def quit_def split: if_split_asm)
      next
        case ne: False
        then obtain b where b: "mem_write (inbuf s) 0 bs = Some b"
          using Suc.prems(1) False rd RData by (cases bs) (auto simp: bindo_Ret need_Ret)
        let ?u = "s\<lparr>src := es, inbuf := b\<rparr>"
        have "pos_keeps s ?u"
          using mem_write_length [OF b] by (simp add: pos_keeps_def keeps_file_def keeps_bufs_def keeps_def)
        moreover have "\<exists>x y. pos_in_loop e fuel now x y wrn ?u = Ret t"
          using Suc.prems(1) False rd RData ne b by (cases bs) (auto simp: Let_def split: if_split_asm)
        then have "pos_keeps ?u t" using Suc.IH [of _ _ wrn ?u] Suc.prems(2) by auto
        ultimately show ?thesis by (rule pos_keeps_trans)
      qed
    qed
  qed
qed simp

lemma pos_in_Ret: "pos_in e now s = Ret t \<Longrightarrow> files_cnt s \<le> 1 \<Longrightarrow> pos_keeps s t"
  using pos_in_loop_Ret
  by (auto simp: pos_in_def Let_def quit_def pos_keeps_src simp del: pos_in_loop.simps split: if_split_asm)


lemma pos_out_Ret:
  "pos_out s = Ret t \<Longrightarrow> t = s\<lparr>opos := nat (off_mul (offset (outp s)) (dbsz (outp s)))\<rparr>
     \<and> 0 \<le> off_mul (offset (outp s)) (dbsz (outp s))"
  by (auto simp: pos_out_def Let_def quit_def split: if_split_asm)

lemma off_mul_0 [simp]: "off_mul 0 n = 0"
  by (simp add: off_mul_def)

lemma length_set_length [simp]: "length (set_length n f) = n"
  by (simp add: set_length_def)

definition start_file :: "dd \<Rightarrow> byte list" where
  "start_file s = (if C_SEEK \<in> ddflags s
     then set_length (nat (off_mul (offset (outp s)) (dbsz (outp s)))) (ofile s) else [])"

lemma bindo_RetE:
  assumes "bindo r f = Ret x" obtains y where "r = Ret y" "f y = Ret x"
  using assms by (cases r) simp_all

text \<open>The steps of a successful set-up.\<close>

lemma dd_setup_Ret:
  assumes "dd_setup e now s = Ret t"
  obtains s1 io s3 io' s4 s5 s6 where
    "open_input e s = Ret s1" "getfdtype e (inp s1) s1 = Ret io" "files_cnt s1 \<le> 1 \<or> ISTAPE io"
    "open_output e (s1\<lparr>inp := io\<rparr>) = Ret s3" "getfdtype e (outp s3) s3 = Ret io'"
    "alloc e (s3\<lparr>outp := io'\<rparr>) = Ret s4"
    "s5 = reset_ptrs s4 \<or> pos_in e now (reset_ptrs s4) = Ret s5"
    "if offset (outp s5) \<noteq> 0 then pos_out s5 = Ret s6 else s6 = s5" "t = truncate_out s6"
proof -
  from assms [unfolded dd_setup_def Let_def] obtain s1 where 1: "open_input e s = Ret s1"
    and "bindo (getfdtype e (inp s1) s1) (\<lambda>io.
        if 1 < files_cnt (s1\<lparr>inp := io\<rparr>) \<and> \<not> ISTAPE (inp (s1\<lparr>inp := io\<rparr>))
        then quit 1 ''files is not supported for non-tape devices'' (s1\<lparr>inp := io\<rparr>)
        else bindo (open_output e (s1\<lparr>inp := io\<rparr>)) (\<lambda>s3.
             bindo (getfdtype e (outp s3) s3) (\<lambda>io'.
             bindo (alloc e (s3\<lparr>outp := io'\<rparr>)) (\<lambda>s4.
             bindo (if offset (inp s4) \<noteq> 0 then pos_in e now (reset_ptrs s4) else Ret (reset_ptrs s4)) (\<lambda>s5.
             bindo (if offset (outp s5) \<noteq> 0 then pos_out s5 else Ret s5) (\<lambda>s6.
               Ret (truncate_out s6))))))) = Ret t" (is "bindo _ ?f = _")
    by (rule bindo_RetE)
  from this(2) obtain io where 2: "getfdtype e (inp s1) s1 = Ret io" and f: "?f io = Ret t"
    by (rule bindo_RetE)
  have 0: "files_cnt s1 \<le> 1 \<or> ISTAPE io"
    using f by (cases "1 < files_cnt s1 \<and> \<not> ISTAPE io") (auto simp: quit_def)
  have r: "bindo (open_output e (s1\<lparr>inp := io\<rparr>)) (\<lambda>s3.
             bindo (getfdtype e (outp s3) s3) (\<lambda>io'.
             bindo (alloc e (s3\<lparr>outp := io'\<rparr>)) (\<lambda>s4.
             bindo (if offset (inp s4) \<noteq> 0 then pos_in e now (reset_ptrs s4) else Ret (reset_ptrs s4)) (\<lambda>s5.
             bindo (if offset (outp s5) \<noteq> 0 then pos_out s5 else Ret s5) (\<lambda>s6.
               Ret (truncate_out s6)))))) = Ret t"
    using f 0 by (simp split: if_split_asm)
  from r obtain s3 io' s4 s5 s6 where 3: "open_output e (s1\<lparr>inp := io\<rparr>) = Ret s3"
    "getfdtype e (outp s3) s3 = Ret io'" "alloc e (s3\<lparr>outp := io'\<rparr>) = Ret s4"
    "(if offset (inp s4) \<noteq> 0 then pos_in e now (reset_ptrs s4) else Ret (reset_ptrs s4)) = Ret s5"
    "(if offset (outp s5) \<noteq> 0 then pos_out s5 else Ret s5) = Ret s6" "t = truncate_out s6"
    unfolding bindo_Ret by auto
  have "s5 = reset_ptrs s4 \<or> pos_in e now (reset_ptrs s4) = Ret s5"
    using 3(4) by (auto split: if_split_asm)
  moreover have "if offset (outp s5) \<noteq> 0 then pos_out s5 = Ret s6 else s6 = s5"
    using 3(5) by (auto split: if_split_asm)
  ultimately show ?thesis using that 0 1 2 3 by metis
qed

lemma keeps_inp: "dbcnt io = dbcnt (inp s) \<Longrightarrow> dbsz io = dbsz (inp s) \<Longrightarrow> ISTAPE io = ISTAPE (inp s) \<Longrightarrow>
    offset io = offset (inp s) \<Longrightarrow> keeps_file s (s\<lparr>inp := io\<rparr>)"
  and keeps_outp: "dbcnt io = dbcnt (outp s) \<Longrightarrow> dbsz io = dbsz (outp s) \<Longrightarrow> ISTAPE io = ISTAPE (outp s) \<Longrightarrow>
    offset io = offset (outp s) \<Longrightarrow> keeps_file s (s\<lparr>outp := io\<rparr>)"
  by (simp_all add: keeps_file_def keeps_def)

text \<open>The configuration after a successful set-up and the state of the buffers.\<close>

lemma dd_setup_buffers:
  assumes "dd_setup e now s = Ret t" and "jcl_ok s" and "sizes_ok e s" and "\<not> ISTAPE (inp s)"
  obtains s5 where "keeps s s5" "files_cnt s5 = files_cnt s" "files_cnt s \<le> 1" "opos s5 = opos s"
    "ofile s5 = (if io_name (outp s) = None \<or> ddflags s \<inter> {C_SEEK, C_NOTRUNC} \<noteq> {} then ofile s else [])"
    "dbp (inp s5) = 0" "dbp (outp s5) = 0"
    "if cfunc s = Def then shared s5 \<and> length (inbuf s5) = dbsz (outp s) + dbsz (inp s) - 1
     else \<not> shared s5 \<and> length (inbuf s5) = max (dbsz (inp s)) (cbsz s) + cbsz s
       \<and> length (outbuf s5) = dbsz (outp s) + cbsz s"
    "t = truncate_out s5 \<and> offset (outp s) = 0 \<or> (\<exists>s6. pos_out s5 = Ret s6 \<and> t = truncate_out s6)"
proof -
  from assms(1) obtain s1 io s3 io' s4 s5 s6 where
    r: "open_input e s = Ret s1" "getfdtype e (inp s1) s1 = Ret io" "files_cnt s1 \<le> 1 \<or> ISTAPE io"
    "open_output e (s1\<lparr>inp := io\<rparr>) = Ret s3" "getfdtype e (outp s3) s3 = Ret io'"
    "alloc e (s3\<lparr>outp := io'\<rparr>) = Ret s4"
    "s5 = reset_ptrs s4 \<or> pos_in e now (reset_ptrs s4) = Ret s5"
    "if offset (outp s5) \<noteq> 0 then pos_out s5 = Ret s6 else s6 = s5" "t = truncate_out s6"
    by (rule dd_setup_Ret)
  have a: "keeps_file s s1" "files_cnt s1 = files_cnt s" "outp s1 = outp s"
    using open_input_Ret [OF r(1)] by auto
  have g: "keeps_file s1 (s1\<lparr>inp := io\<rparr>)" using getfdtype_Ret [OF r(2)] by (intro keeps_inp) simp_all
  have g': "keeps_file s3 (s3\<lparr>outp := io'\<rparr>)" using getfdtype_Ret [OF r(5)] by (intro keeps_outp) simp_all
  have o: "keeps (s1\<lparr>inp := io\<rparr>) s3" "opos s3 = opos s1" "files_cnt s3 = files_cnt s1"
    "ofile s3 = (if io_name (outp s1) = None \<or> ddflags s1 \<inter> {C_SEEK, C_NOTRUNC} \<noteq> {} then ofile s1 else [])"
    using open_output_Ret [OF r(4)] by auto
  have k3: "keeps s (s3\<lparr>outp := io'\<rparr>)"
    using a(1) g o(1) g' by (meson keeps_file_def keeps_trans)
  have "\<not> ISTAPE io" using getfdtype_Ret [OF r(2)] a(1) assms(4) by (simp add: keeps_file_def keeps_def)
  then have files: "files_cnt s \<le> 1" using r(3) a(2) by simp
  have same: "cfunc (s3\<lparr>outp := io'\<rparr>) = cfunc s" "ddflags (s3\<lparr>outp := io'\<rparr>) = ddflags s"
    "dbsz (inp (s3\<lparr>outp := io'\<rparr>)) = dbsz (inp s)" "dbsz (outp (s3\<lparr>outp := io'\<rparr>)) = dbsz (outp s)"
    "cbsz (s3\<lparr>outp := io'\<rparr>) = cbsz s"
    using k3 unfolding keeps_def by blast+
  have "cfunc (s3\<lparr>outp := io'\<rparr>) = Def \<longleftrightarrow> ddflags (s3\<lparr>outp := io'\<rparr>) \<inter> {C_BLOCK, C_UNBLOCK} = {}"
    unfolding same using assms(2) unfolding jcl_ok_def by blast
  moreover have "sizes_ok e (s3\<lparr>outp := io'\<rparr>)" using assms(3) unfolding sizes_ok_def same .
  ultimately have al': "keeps_file (s3\<lparr>outp := io'\<rparr>) s4 \<and> files_cnt s4 = files_cnt (s3\<lparr>outp := io'\<rparr>) \<and>
    (if cfunc s = Def then shared s4 \<and> length (inbuf s4) = dbsz (outp s) + dbsz (inp s) - 1
     else \<not> shared s4 \<and> length (inbuf s4) = max (dbsz (inp s)) (cbsz s) + cbsz s
       \<and> length (outbuf s4) = dbsz (outp s) + cbsz s)"
    using alloc_Ret [OF r(6)] unfolding same by blast
  have al: "keeps_file (s3\<lparr>outp := io'\<rparr>) s4" "files_cnt s4 = files_cnt s3"
    "if cfunc s = Def then shared s4 \<and> length (inbuf s4) = dbsz (outp s) + dbsz (inp s) - 1
     else \<not> shared s4 \<and> length (inbuf s4) = max (dbsz (inp s)) (cbsz s) + cbsz s
       \<and> length (outbuf s4) = dbsz (outp s) + cbsz s"
    using al' by simp_all
  let ?r = "reset_ptrs s4"
  have f4: "files_cnt ?r \<le> 1" using files a(2) o(3) al(2) by (simp add: reset_ptrs_keeps)
  have p: "pos_keeps ?r s5" using r(7) pos_in_Ret [OF _ f4] by (auto simp: pos_keeps_def)
  have k5: "keeps s s5"
    using k3 al(1) reset_ptrs_keeps(1) p by (meson keeps_file_def keeps_trans pos_keeps_def)
  show ?thesis
  proof (rule that [OF k5])
    show "files_cnt s5 = files_cnt s"
      using p a(2) o(3) al(2) by (simp add: pos_keeps_def reset_ptrs_keeps)
    show "files_cnt s \<le> 1" by (rule files)
    have f5: "ofile s5 = ofile s3" "opos s5 = opos s3"
      using p reset_ptrs_keeps(1) [of s4] al(1) by (simp_all add: pos_keeps_def keeps_file_def)
    show "opos s5 = opos s" using f5 o(2) a(1) by (simp add: keeps_file_def)
    show "ofile s5 = (if io_name (outp s) = None \<or> ddflags s \<inter> {C_SEEK, C_NOTRUNC} \<noteq> {} then ofile s else [])"
      using f5 o(4) a by (simp add: keeps_file_def keeps_def)
    have b: "length (inbuf s5) = length (inbuf s4)" "outbuf s5 = outbuf s4" "shared s5 = shared s4"
      "dbp (inp s5) = 0" "dbp (outp s5) = 0"
      using p by (simp_all add: pos_keeps_def keeps_bufs_def reset_ptrs_keeps)
    show "dbp (inp s5) = 0" "dbp (outp s5) = 0" by (rule b)+
    show "if cfunc s = Def then shared s5 \<and> length (inbuf s5) = dbsz (outp s) + dbsz (inp s) - 1
     else \<not> shared s5 \<and> length (inbuf s5) = max (dbsz (inp s)) (cbsz s) + cbsz s
       \<and> length (outbuf s5) = dbsz (outp s) + cbsz s"
      using al(3) by (simp only: b)
    have "offset (outp s5) = offset (outp s)" using k5 by (simp add: keeps_def)
    then show "t = truncate_out s5 \<and> offset (outp s) = 0 \<or> (\<exists>s6. pos_out s5 = Ret s6 \<and> t = truncate_out s6)"
      using r(8,9) by (auto split: if_split_asm)
  qed
qed


lemma pristine_keeps:
  "pristine s \<Longrightarrow> keeps s t \<Longrightarrow> opos t = opos s \<Longrightarrow> pristine t"
  by (simp add: pristine_def keeps_def)

lemma tight_out: "opos s = length f \<Longrightarrow> tight (s\<lparr>ofile := f\<rparr>)"
  by (simp add: tight_def)

lemma truncate_out_keeps: "keeps_bufs s (truncate_out s)" "files_cnt (truncate_out s) = files_cnt s"
  by (simp_all add: truncate_out_def Let_def keeps_bufs_def keeps_def)

text \<open>The output position and file, for an output that is cut at the seek position.\<close>

lemma cut_output_tight:
  assumes "cut_output s" and "keeps s s5" and "opos s5 = 0"
    and "ofile s5 = (if io_name (outp s) = None \<or> ddflags s \<inter> {C_SEEK, C_NOTRUNC} \<noteq> {} then ofile s else [])"
    and "t = truncate_out s5 \<and> offset (outp s) = 0 \<or> (\<exists>s6. pos_out s5 = Ret s6 \<and> t = truncate_out s6)"
  shows "tight t \<and> ofile t = start_file s \<and> keeps_bufs s5 t \<and> files_cnt t = files_cnt s5"
proof -
  let ?n = "off_mul (offset (outp s)) (dbsz (outp s))"
  have k: "ddflags s5 = ddflags s" "offset (outp s5) = offset (outp s)" "dbsz (outp s5) = dbsz (outp s)"
    using assms(2) by (simp_all add: keeps_def)
  have "\<exists>u. t = truncate_out u \<and> u = s5\<lparr>opos := nat ?n\<rparr> \<and> 0 \<le> ?n"
    using assms(5)
  proof
    assume "t = truncate_out s5 \<and> offset (outp s) = 0"
    moreover have "s5 = s5\<lparr>opos := 0\<rparr>" using assms(3) by (cases s5) simp
    ultimately show ?thesis by (metis nat_0 off_mul_0 order_refl)
  next
    assume "\<exists>s6. pos_out s5 = Ret s6 \<and> t = truncate_out s6"
    then show ?thesis using pos_out_Ret [of s5] by (metis k(2,3))
  qed
  then obtain u where t: "t = truncate_out u" and u: "u = s5\<lparr>opos := nat ?n\<rparr>" and n: "0 \<le> ?n"
    by blast
  have ku: "keeps_bufs s5 u" "files_cnt u = files_cnt s5" by (simp_all add: u keeps_bufs_def keeps_def)
  have tr: "keeps_bufs s5 t" "files_cnt t = files_cnt s5"
    using keeps_bufs_trans [OF ku(1) truncate_out_keeps(1)] ku(2) by (simp_all add: t truncate_out_keeps)
  show ?thesis
  proof (cases "C_SEEK \<in> ddflags s")
    case True
    then have fl: "ddflags s \<inter> {C_OF, C_SEEK, C_NOTRUNC} = {C_OF, C_SEEK}"
      using assms(1) by (auto simp: cut_output_def)
    have f5: "ofile s5 = ofile s" using True assms(4) by auto
    have "t = u\<lparr>ofile := set_length (nat ?n) (ofile s)\<rparr>"
      using fl n k f5 by (simp add: t u truncate_out_def Let_def)
    then show ?thesis using tr True by (simp add: tight_def start_file_def u)
  next
    case False
    then have z: "offset (outp s) = 0" and fl: "ddflags s \<inter> {C_OF, C_SEEK, C_NOTRUNC} \<noteq> {C_OF, C_SEEK}"
      using assms(1) by (auto simp: cut_output_def)
    have f5: "ofile s5 = []" using False assms(1,4) by (auto simp: cut_output_def split: if_split_asm)
    have "t = u" using fl k by (simp add: t u truncate_out_def Let_def)
    then show ?thesis using tr False f5 z by (simp add: tight_def start_file_def u)
  qed
qed

definition ready :: "dd \<Rightarrow> bool" where
  "ready s \<longleftrightarrow> (case cfunc s of
     Def \<Rightarrow> if C_BS \<in> ddflags s then direct_ready s else copy_ready s
   | f \<Rightarrow> record_ready f s)"

lemma dd_setup_ready:
  assumes "dd_setup e now s = Ret t" and "jcl_ok s" and "pristine s" and "cut_output s"
    and "sizes_ok e s" and "files_cnt s \<noteq> 0"
  shows "ready t \<and> ofile t = start_file s \<and> keeps s t"
proof -
  have nt: "\<not> ISTAPE (inp s)" using assms(3) by (simp add: pristine_def)
  obtain s5 where
    k: "keeps s s5" and fc: "files_cnt s5 = files_cnt s" "files_cnt s \<le> 1" and op: "opos s5 = opos s"
    and f: "ofile s5 = (if io_name (outp s) = None \<or> ddflags s \<inter> {C_SEEK, C_NOTRUNC} \<noteq> {} then ofile s else [])"
    and p: "dbp (inp s5) = 0" "dbp (outp s5) = 0"
    and b: "if cfunc s = Def then shared s5 \<and> length (inbuf s5) = dbsz (outp s) + dbsz (inp s) - 1
     else \<not> shared s5 \<and> length (inbuf s5) = max (dbsz (inp s)) (cbsz s) + cbsz s
       \<and> length (outbuf s5) = dbsz (outp s) + cbsz s"
    and t: "t = truncate_out s5 \<and> offset (outp s) = 0 \<or> (\<exists>s6. pos_out s5 = Ret s6 \<and> t = truncate_out s6)"
    by (rule dd_setup_buffers [OF assms(1,2,5) nt])
  have "opos s5 = 0" using op assms(3) by (simp add: pristine_def)
  from cut_output_tight [OF assms(4) k this f t]
  have c: "tight t" "ofile t = start_file s" "keeps_bufs s5 t" "files_cnt t = files_cnt s5" by blast+
  have kt: "keeps s t" using k c(3) keeps_trans by (auto simp: keeps_bufs_def)
  have fields: "ddflags t = ddflags s" "cfunc t = cfunc s" "cbsz t = cbsz s" "dbsz (inp t) = dbsz (inp s)"
    "dbsz (outp t) = dbsz (outp s)" "pending t = pending s" "intrunc t = intrunc s" "st t = st s"
    "dbcnt (inp t) = dbcnt (inp s)" "dbcnt (outp t) = dbcnt (outp s)" "cpy_cnt t = cpy_cnt s"
    using kt unfolding keeps_def by blast+
  have bufs: "length (inbuf t) = length (inbuf s5)" "outbuf t = outbuf s5" "shared t = shared s5"
    "dbp (inp t) = 0" "dbp (outp t) = 0"
    using c(3) p by (simp_all add: keeps_bufs_def)
  have z: "0 < dbsz (inp s)" "0 < dbsz (outp s)" using assms(5) by (simp_all add: sizes_ok_def)
  have one: "files_cnt t = 1" using fc c(4) assms(6) by simp
  have fr: "fresh t"
    using c(1) one z assms(3) unfolding fresh_def fields bufs pristine_def by simp
  have "ready t"
  proof (cases "cfunc s")
    case Def
    then show ?thesis using fr b z by (simp add: ready_def fields bufs direct_ready_def copy_ready_def)
  next
    case Block
    then have "C_BS \<notin> ddflags s" using assms(2) by (auto simp: jcl_ok_def)
    moreover have "0 < cbsz s" using Block assms(5) by (simp add: sizes_ok_def)
    ultimately show ?thesis using fr b Block by (simp add: ready_def fields bufs record_ready_def)
  next
    case Unblock
    then have "C_BS \<notin> ddflags s" using assms(2) by (auto simp: jcl_ok_def)
    moreover have "0 < cbsz s" using Unblock assms(5) by (simp add: sizes_ok_def)
    ultimately show ?thesis using fr b Unblock by (simp add: ready_def fields bufs record_ready_def)
  qed
  then show ?thesis using c(2) kt by blast
qed


subsection \<open>From the operands\<close>

text \<open>The zero-initialised globals: \<open>files_cnt\<close> is 1, nothing is named or flagged.\<close>

definition initial :: "dd \<Rightarrow> bool" where
  "initial s \<longleftrightarrow> pristine s \<and> ddflags s = {} \<and> files_cnt s = 1 \<and> io_name (outp s) = None
     \<and> offset (outp s) = 0"

definition jcl_inv :: "dd \<Rightarrow> bool" where
  "jcl_inv s \<longleftrightarrow> pristine s \<and> files_cnt s \<noteq> 0 \<and> (C_OF \<in> ddflags s \<longleftrightarrow> io_name (outp s) \<noteq> None)
     \<and> (offset (outp s) \<noteq> 0 \<longrightarrow> C_SEEK \<in> ddflags s)"

lemma to_u64_less: "to_u64 i < 2 ^ 64"
  by (simp add: to_u64_def nat_less_iff)

lemma pristine_upd [simp]:
  "dbcnt (f (inp s)) = dbcnt (inp s) \<Longrightarrow> ISTAPE (f (inp s)) = ISTAPE (inp s) \<Longrightarrow> pristine (upd_in f s) = pristine s"
  "dbcnt (g (outp s)) = dbcnt (outp s) \<Longrightarrow> ISTAPE (g (outp s)) = ISTAPE (outp s) \<Longrightarrow> pristine (upd_out g s) = pristine s"
  "pristine (s\<lparr>ddflags := fl\<rparr>) = pristine s" "pristine (s\<lparr>cbsz := n\<rparr>) = pristine s"
  "pristine (s\<lparr>files_cnt := n\<rparr>) = pristine s" "pristine (s\<lparr>progress := b\<rparr>) = pristine s"
  "pristine (s\<lparr>ctab := c\<rparr>) = pristine s" "pristine (s\<lparr>cfunc := cf\<rparr>) = pristine s"
  "pristine (say m s) = pristine s"
  "pristine s \<Longrightarrow> n < 2 ^ 64 \<Longrightarrow> pristine (s\<lparr>cpy_cnt := n\<rparr>)"
  by (simp_all add: pristine_def upd_in_def upd_out_def say_def)

lemma jcl_fields [simp]:
  "io_name (outp (upd_in f s)) = io_name (outp s)" "offset (outp (upd_in f s)) = offset (outp s)"
  "files_cnt (upd_in f s) = files_cnt s" "files_cnt (upd_out g s) = files_cnt s"
  "ddflags (upd_out g s) = ddflags s" "outp (upd_out g s) = g (outp s)"
  by (simp_all add: upd_in_def upd_out_def)

lemmas f_defs = f_bs_def f_cbs_def f_count_def f_files_def f_ibs_def f_if_def f_obs_def f_of_def
  f_seek_def f_skip_def f_progress_def Let_def

lemma conv_loop_inv:
  "conv_loop names s = Ret t \<Longrightarrow> jcl_inv s \<Longrightarrow> jcl_inv t"
proof (induction names arbitrary: s)
  case (Cons name rest)
  show ?case
  proof (cases "bsearch name clist 0 (length clist)")
    case (Some cp)
    then have "map_of clist name = Some cp" using bsearch_map_of [OF tables_sorted(2)] by simp
    then have cp: "(name, cp) \<in> set clist" by (rule map_of_SomeD)
    have st: "conv_set cp \<inter> {C_OF} = {}" "conv_ctab cp = None"
      using cp by (auto simp: clist_def)
    let ?u = "s\<lparr>ddflags := ddflags s \<union> conv_set cp\<rparr>"
    have "conv_loop rest ?u = Ret t"
      using Cons.prems(1) Some st(2) by (simp add: Let_def quit_def split: if_split_asm)
    moreover have "jcl_inv ?u" using Cons.prems(2) st(1) by (auto simp: jcl_inv_def)
    ultimately show ?thesis by (rule Cons.IH)
  qed (use Cons.prems in \<open>simp add: quit_def\<close>)
qed simp

lemma f_inv:
  assumes "(name, ap) \<in> set args" and "jcl_inv s" and "arg_f ap junk arg (s\<lparr>ddflags := ddflags s \<union> arg_set ap\<rparr>) = Ret t"
  shows "jcl_inv t"
proof (cases "ap = \<lparr>arg_f = f_conv, arg_set = {}, arg_noset = {}\<rparr>")
  case True
  then show ?thesis using assms(2,3) conv_loop_inv by (simp add: f_conv_def)
next
  case False
  then have "ap \<in> snd ` set (removeAll (''conv'', \<lparr>arg_f = f_conv, arg_set = {}, arg_noset = {}\<rparr>) args)"
    using assms(1) by (auto simp: args_def)
  then show ?thesis
    using assms(2,3) to_u64_less unfolding args_def
    by (auto simp: f_defs jcl_inv_def split: if_split_asm)
qed

lemma jcl_loop_inv: "jcl_loop junk argv s = Ret t \<Longrightarrow> jcl_inv s \<Longrightarrow> jcl_inv t"
proof (induction argv arbitrary: s)
  case (Cons oper rest)
  obtain name arg where sp: "split_eq oper = Some (name, arg)" and a: "arg \<noteq> []"
    using Cons.prems(1) by (cases "split_eq oper") (auto simp: quit_def split: if_split_asm)
  obtain ap where ap: "bsearch name args 0 (length args) = Some ap" "ddflags s \<inter> arg_noset ap = {}"
    and r: "bindo (arg_f ap junk arg (s\<lparr>ddflags := ddflags s \<union> arg_set ap\<rparr>)) (jcl_loop junk rest) = Ret t"
    using Cons.prems(1) sp a by (cases "bsearch name args 0 (length args)") (auto simp: quit_def split: if_split_asm)
  have "map_of args name = Some ap" using ap(1) bsearch_map_of [OF tables_sorted(1)] by simp
  then have mem: "(name, ap) \<in> set args" by (rule map_of_SomeD)
  from r obtain u where u: "arg_f ap junk arg (s\<lparr>ddflags := ddflags s \<union> arg_set ap\<rparr>) = Ret u"
    and rest: "jcl_loop junk rest u = Ret t" by (rule bindo_RetE)
  show ?case by (rule Cons.IH [OF rest f_inv [OF mem Cons.prems(2) u]])
qed simp

lemma jcl_inv_upd:
  "jcl_inv s \<Longrightarrow> (C_OF \<in> fl \<longleftrightarrow> C_OF \<in> ddflags s) \<Longrightarrow> (C_SEEK \<in> fl \<longleftrightarrow> C_SEEK \<in> ddflags s) \<Longrightarrow>
     jcl_inv (s\<lparr>ddflags := fl\<rparr>)"
  "jcl_inv s \<Longrightarrow> jcl_inv (say m s)" "jcl_inv s \<Longrightarrow> jcl_inv (s\<lparr>cfunc := f\<rparr>)"
  "jcl_inv s \<Longrightarrow> (C_OF \<in> fl \<longleftrightarrow> C_OF \<in> ddflags s) \<Longrightarrow> (C_SEEK \<in> fl \<longleftrightarrow> C_SEEK \<in> ddflags s) \<Longrightarrow>
     jcl_inv (s\<lparr>cfunc := f, ddflags := fl\<rparr>)"
  by (simp_all add: jcl_inv_def) (simp add: say_def)

lemma jcl_bs_inv: "jcl_inv s \<Longrightarrow> jcl_inv (jcl_bs s)"
  by (simp add: jcl_bs_def Let_def jcl_inv_upd)

lemma jcl_conv_inv: "jcl_conv u = Ret t \<Longrightarrow> jcl_inv u \<Longrightarrow> jcl_inv t"
  by (auto simp add: jcl_conv_def quit_def jcl_inv_upd simp del: fun_upd_apply split: if_split_asm)

lemma jcl_Ret:
  assumes "jcl junk argv s = Ret t" and "initial s"
  shows "jcl_ok t \<and> jcl_inv t"
proof -
  from assms(1) obtain u where u: "jcl_loop junk argv (upd_in (\<lambda>io. io\<lparr>dbsz := 512\<rparr>) (upd_out (\<lambda>io. io\<lparr>dbsz := 512\<rparr>) s)) = Ret u"
    and t: "jcl_conv (jcl_bs u) = Ret t" unfolding jcl_def by (rule bindo_RetE)
  have "jcl_inv (upd_in (\<lambda>io. io\<lparr>dbsz := 512\<rparr>) (upd_out (\<lambda>io. io\<lparr>dbsz := 512\<rparr>) s))"
    using assms(2) by (simp add: jcl_inv_def initial_def)
  then show ?thesis using jcl_conv_inv [OF t jcl_bs_inv [OF jcl_loop_inv [OF u]]] jcl_conv_ok [OF t] by blast
qed

subsection \<open>The set-up neither faults nor hangs\<close>

text \<open>The routine returns or exits with status 1.\<close>

primrec fails :: "'a outcome \<Rightarrow> bool" where
  "fails (Ret x) = True"
| "fails (Exit n s) = (n = 1)"
| "fails Fault = False"
| "fails Diverge = False"

lemma fails_bind:
  assumes "fails r" and "\<And>x. r = Ret x \<Longrightarrow> fails (f x)"
  shows "fails (bindo r f)"
  using assms by (cases r) simp_all

lemma fails_simps [simp]: "fails (quit 1 m s)" "fails (quit (Suc 0) m s)"
  by (simp_all add: quit_def)

lemma redup_fails [simp]: "fails (redup_clean_fd e d s)"
  by (simp add: redup_clean_fd_def Let_def)

lemma getfdtype_fails [simp]: "fails (getfdtype e io s)"
  by (simp add: getfdtype_def split: option.split fdtype.split)

lemma open_fails [simp]: "fails (open_input e s)" "fails (opened e d s)" "fails (open_output e s)"
proof -
  show o: "fails (opened e d s)" for d s unfolding opened_def by (rule fails_bind) simp_all
  show "fails (open_input e s)"
    by (auto simp: open_input_def Let_def split: option.split intro!: fails_bind)
  show "fails (open_output e s)"
    by (auto simp: open_output_def Let_def o split: option.split)
qed

lemma alloc_fails [simp]: "fails (alloc e s)"
  by (simp add: alloc_def Let_def)

lemma pos_out_fails [simp]: "fails (pos_out s)"
  by (simp add: pos_out_def Let_def)

lemma s32_small: "n < 2 ^ 31 \<Longrightarrow> s32 n = int n"
  by (simp add: s32_def signed_of_nat signed_take_bit_int_eq_self)

lemma read_src_data:
  "read_src n es = (RData bs, es') \<Longrightarrow> length bs \<le> n \<and> (es \<noteq> [] \<and> 0 < n \<longrightarrow> src_size es' < src_size es)
     \<and> (bs \<noteq> [] \<longrightarrow> es \<noteq> [])"
  by (cases "(n, es)" rule: read_src.cases) (auto split: if_splits)

lemma mod_small: "0 \<le> b \<Longrightarrow> b < 2 ^ 31 \<Longrightarrow> 32 \<le> k \<Longrightarrow> nat (b mod 2 ^ k) = nat b"
proof -
  assume b: "0 \<le> b" "b < 2 ^ 31" and "32 \<le> k"
  then have "(2 :: int) ^ 31 \<le> 2 ^ k" by (intro power_increasing) simp_all
  then have "b mod 2 ^ k = b" using b by (intro mod_pos_pos_trivial) linarith+
  then show ?thesis by simp
qed

lemma pos_in_loop_fails:
  "src_size (src s) < fuel \<Longrightarrow> files_cnt s \<le> 1 \<Longrightarrow> 0 < bcnt \<Longrightarrow> bcnt \<le> int (dbsz (inp s)) \<Longrightarrow>
   0 < dbsz (inp s) \<Longrightarrow> dbsz (inp s) \<le> length (inbuf s) \<Longrightarrow> dbsz (inp s) < 2 ^ 31 \<Longrightarrow> 32 \<le> size_bits e \<Longrightarrow>
   fails (pos_in_loop e fuel now bcnt cnt wrn s)"
proof (induction fuel arbitrary: bcnt cnt wrn s)
  case (Suc fuel)
  show ?case
  proof (cases "cnt = 0")
    case False
    have "int (dbsz (inp s)) < 2 ^ 31" using Suc.prems(7) by simp
    then have n: "nat (bcnt mod 2 ^ size_bits e) = nat bcnt"
      using Suc.prems(3,4,8) by (intro mod_small) linarith+
    obtain r es where rd: "read_src (nat bcnt) (src s) = (r, es)" by fastforce
    show ?thesis
    proof (cases r)
      case (RFail err)
      then have sz: "src_size es < src_size (src s)" using read_src_fail rd by fastforce
      define u where "u = (if wrn then s\<lparr>src := es\<rparr> else summary now (say (MsgText ''error occurred'') (s\<lparr>src := es\<rparr>)))"
      have "only_says (s\<lparr>src := es\<rparr>) u" by (simp add: u_def)
      then have "pos_keeps (s\<lparr>src := es\<rparr>) u" and su: "src u = es"
        by (simp add: pos_keeps_def only_says_keeps) (simp add: u_def say_def summary_def Let_def)
      then have "fails (pos_in_loop e fuel now bcnt cnt True u)"
        using Suc.prems sz by (intro Suc.IH) (simp_all add: pos_keeps_def keeps_bufs_def keeps_def)
      then show ?thesis using False rd RFail n by (simp add: Let_def u_def)
    next
      case (RData bs)
      note d = read_src_data [OF rd [unfolded RData]]
      show ?thesis
      proof (cases "bs = []")
        case True
        then show ?thesis using Suc.prems(2) False rd RData n by (simp add: Let_def)
      next
        case ne: False
        then obtain b bs' where bs: "bs = b # bs'" by (cases bs) auto
        have "length bs \<le> length (inbuf s)" using d Suc.prems(3,4,6) by linarith
        then have w: "mem_write (inbuf s) 0 (b # bs') = Some (b # bs' @ drop (Suc (length bs')) (inbuf s))"
          by (simp add: bs)
        let ?u = "s\<lparr>src := es, inbuf := b # bs' @ drop (Suc (length bs')) (inbuf s)\<rparr>"
        have IH: "fails (pos_in_loop e fuel now x y wrn ?u)" if "0 < x" "x \<le> int (dbsz (inp s))" for x y
          using Suc.prems that d ne by (intro Suc.IH) auto
        have "int (length bs') + 1 \<le> bcnt" using d Suc.prems(3) unfolding bs by simp linarith
        then show ?thesis
          using False rd RData n w Suc.prems(3,4,5,7) s32_small [of "dbsz (inp s)"]
          by (auto simp: Let_def bs intro!: IH simp del: mem_write_ok)
      qed
    qed
  qed simp
qed simp

lemma pos_in_fails:
  "files_cnt s \<le> 1 \<Longrightarrow> 0 < dbsz (inp s) \<Longrightarrow> dbsz (inp s) \<le> length (inbuf s) \<Longrightarrow> dbsz (inp s) < 2 ^ 31 \<Longrightarrow>
   32 \<le> size_bits e \<Longrightarrow> fails (pos_in e now s)"
  by (auto simp: pos_in_def Let_def s32_small simp del: pos_in_loop.simps intro!: pos_in_loop_fails)


text \<open>A set-up with sane sizes leaves a state that is ready, or exits with status 1.\<close>

lemma dd_setup_fails:
  assumes "jcl_ok s" and "sizes_ok e s" and "\<not> ISTAPE (inp s)"
  shows "fails (dd_setup e now s)"
  unfolding dd_setup_def Let_def
proof (intro fails_bind open_fails getfdtype_fails alloc_fails)
  fix s1 io
  assume r1: "open_input e s = Ret s1" and r2: "getfdtype e (inp s1) s1 = Ret io"
  let ?s2 = "s1\<lparr>inp := io\<rparr>"
  have k2: "keeps s ?s2"
    using open_input_Ret [OF r1] keeps_inp [of io s1] getfdtype_Ret [OF r2] keeps_trans
    by (auto simp: keeps_file_def)
  show "fails (if 1 < files_cnt ?s2 \<and> \<not> ISTAPE (inp ?s2)
      then quit 1 ''files is not supported for non-tape devices'' ?s2
      else bindo (open_output e ?s2) (\<lambda>s3.
             bindo (getfdtype e (outp s3) s3) (\<lambda>io'.
             bindo (alloc e (s3\<lparr>outp := io'\<rparr>)) (\<lambda>s4.
             bindo (if offset (inp s4) \<noteq> 0 then pos_in e now (reset_ptrs s4) else Ret (reset_ptrs s4)) (\<lambda>s5.
             bindo (if offset (outp s5) \<noteq> 0 then pos_out s5 else Ret s5) (\<lambda>s6.
               Ret (truncate_out s6)))))))"
  proof (cases "1 < files_cnt ?s2 \<and> \<not> ISTAPE (inp ?s2)")
    case False
    then have fc: "files_cnt ?s2 \<le> 1" using k2 assms(3) by (simp add: keeps_def)
    have "fails (bindo (open_output e ?s2) (\<lambda>s3.
             bindo (getfdtype e (outp s3) s3) (\<lambda>io'.
             bindo (alloc e (s3\<lparr>outp := io'\<rparr>)) (\<lambda>s4.
             bindo (if offset (inp s4) \<noteq> 0 then pos_in e now (reset_ptrs s4) else Ret (reset_ptrs s4)) (\<lambda>s5.
             bindo (if offset (outp s5) \<noteq> 0 then pos_out s5 else Ret s5) (\<lambda>s6.
               Ret (truncate_out s6)))))))"
    proof (intro fails_bind open_fails getfdtype_fails alloc_fails)
      fix s3 io' s4
      assume r3: "open_output e ?s2 = Ret s3" and r4: "getfdtype e (outp s3) s3 = Ret io'"
        and r5: "alloc e (s3\<lparr>outp := io'\<rparr>) = Ret s4"
      have k3: "keeps s (s3\<lparr>outp := io'\<rparr>)"
        using k2 open_output_Ret [OF r3] keeps_outp [of io' s3] getfdtype_Ret [OF r4] keeps_trans
        by (metis keeps_file_def)
      have same: "cfunc (s3\<lparr>outp := io'\<rparr>) = cfunc s" "ddflags (s3\<lparr>outp := io'\<rparr>) = ddflags s"
        "dbsz (inp (s3\<lparr>outp := io'\<rparr>)) = dbsz (inp s)" "dbsz (outp (s3\<lparr>outp := io'\<rparr>)) = dbsz (outp s)"
        "cbsz (s3\<lparr>outp := io'\<rparr>) = cbsz s"
        using k3 unfolding keeps_def by blast+
      have "cfunc (s3\<lparr>outp := io'\<rparr>) = Def \<longleftrightarrow> ddflags (s3\<lparr>outp := io'\<rparr>) \<inter> {C_BLOCK, C_UNBLOCK} = {}"
        unfolding same using assms(1) unfolding jcl_ok_def by blast
      moreover have "sizes_ok e (s3\<lparr>outp := io'\<rparr>)" using assms(2) unfolding sizes_ok_def same .
      ultimately have al: "keeps_file (s3\<lparr>outp := io'\<rparr>) s4" "files_cnt s4 = files_cnt (s3\<lparr>outp := io'\<rparr>)"
        "if cfunc s = Def then shared s4 \<and> length (inbuf s4) = dbsz (outp s) + dbsz (inp s) - 1
         else \<not> shared s4 \<and> length (inbuf s4) = max (dbsz (inp s)) (cbsz s) + cbsz s
           \<and> length (outbuf s4) = dbsz (outp s) + cbsz s"
        using alloc_Ret [OF r5] unfolding same by blast+
      have "dbsz (inp s4) = dbsz (inp s)" using k3 al(1) by (simp add: keeps_file_def keeps_def)
      moreover have "dbsz (inp s) \<le> length (inbuf s4)"
        using al(3) assms(2) by (auto simp: sizes_ok_def split: if_split_asm)
      ultimately have "fails (pos_in e now (reset_ptrs s4))"
        using assms(2) fc al(2) open_output_Ret [OF r3]
        by (intro pos_in_fails) (simp_all add: sizes_ok_def reset_ptrs_def upd_in_def upd_out_def)
      then show "fails (if offset (inp s4) \<noteq> 0 then pos_in e now (reset_ptrs s4) else Ret (reset_ptrs s4))"
        by simp
    qed simp_all
    then show ?thesis by (simp only: False if_False)
  qed simp
qed


subsection \<open>Runs of the program\<close>

text \<open>What the conversion that was asked for makes of the whole input.\<close>

definition converted :: "dd \<Rightarrow> byte list \<Rightarrow> byte list" where
  "converted s I = (case cfunc s of
     Def \<Rightarrow> if C_BS \<in> ddflags s then I else map (xlat s) I
   | Block \<Rightarrow> block_whole (cbsz s) (xlat s) I
   | Unblock \<Rightarrow> unblock_whole (cbsz s) (map (xlat s) I))"

lemma converted_keeps: "keeps s t \<Longrightarrow> converted t = converted s"
proof -
  assume "keeps s t"
  then have k: "ddflags t = ddflags s" "cbsz t = cbsz s" "cfunc t = cfunc s" "ctab t = ctab s"
    unfolding keeps_def by blast+
  have x: "xlat t = xlat s" by (simp add: xlat_def k fun_eq_iff split: option.split)
  show ?thesis unfolding converted_def k x ..
qed

lemma ready_safe:
  assumes "ready s" "sparse_safe s" "C_OSYNC \<notin> ddflags s"
  shows "\<exists>c t. dd_main now s = Exit c (summary now t) \<and>
    (c = 0 \<and> ofile t = ofile s @ converted s (concat (blocks s))
     \<or> c = 1 \<and> prefix (ofile t) (ofile s @ converted s (concat (blocks s))))"
proof -
  have fr: "fresh s"
    using assms(1) by (auto simp: ready_def direct_ready_def copy_ready_def record_ready_def
        split: convfn.split_asm if_split_asm)
  then have one: "files_cnt s = 1" by (simp add: fresh_def)
  note ff = fresh_facts [OF fr assms(2)]
  consider (copy) "cfunc s = Def" "C_BS \<notin> ddflags s" | (direct) "cfunc s = Def" "C_BS \<in> ddflags s"
    | (block) "cfunc s = Block" | (unblock) "cfunc s = Unblock"
    by (cases "cfunc s") auto
  then show ?thesis
  proof cases
    case copy
    then have "copy_inv s [] s" using assms copy_start by (simp add: ready_def)
    from copy_run.dd_main_sat [OF this one refl, of now] show ?thesis
      using copy ff by (auto simp: complete_defs out_exit_def converted_def dest!: osync_pad_none [OF assms(3)])
  next
    case direct
    then have "direct_inv s [] s" using assms direct_start by (simp add: ready_def)
    from direct_run.dd_main_sat [OF this one refl, of now] show ?thesis
      using direct ff by (auto simp: complete_defs out_exit_def converted_def dest!: osync_pad_none [OF assms(3)])
  next
    case block
    then have "block_inv s [] s" using assms block_start by (simp add: ready_def)
    from block_run.dd_main_sat [OF this one refl, of now] show ?thesis
      using block ff by (auto simp: complete_defs out_exit_def converted_def dest!: osync_pad_none [OF assms(3)])
  next
    case unblock
    then have "unblock_inv s [] s" using assms unblock_start by (simp add: ready_def)
    from unblock_run.dd_main_sat [OF this one refl, of now] show ?thesis
      using unblock ff by (auto simp: complete_defs out_exit_def converted_def dest!: osync_pad_none [OF assms(3)])
  qed
qed

lemma ready_ends:
  assumes "ready s" "sparse_safe s" "cfunc s = Block \<Longrightarrow> C_OSYNC \<notin> ddflags s"
  shows "\<exists>c t. dd_main now s = Exit c t \<and> c \<le> 1"
proof -
  have one: "files_cnt s = 1"
    using assms(1) by (auto simp: ready_def direct_ready_def copy_ready_def record_ready_def fresh_def
        split: convfn.split_asm if_split_asm)
  consider (copy) "cfunc s = Def" "C_BS \<notin> ddflags s" | (direct) "cfunc s = Def" "C_BS \<in> ddflags s"
    | (block) "cfunc s = Block" | (unblock) "cfunc s = Unblock"
    by (cases "cfunc s") auto
  then show ?thesis
  proof cases
    case copy
    then have "copy_inv s [] s" using assms copy_start by (simp add: ready_def)
    from copy_run.dd_main_sat [OF this one refl, of now] show ?thesis by (auto simp: out_exit_def)
  next
    case direct
    then have "direct_inv s [] s" using assms direct_start by (simp add: ready_def)
    from direct_run.dd_main_sat [OF this one refl, of now] show ?thesis by (auto simp: out_exit_def)
  next
    case block
    then have "block_inv s [] s" using assms block_start by (simp add: ready_def)
    from block_run.dd_main_sat [OF this one refl, of now] show ?thesis by (auto simp: out_exit_def)
  next
    case unblock
    then have "unblock_inv s [] s" using assms unblock_start by (simp add: ready_def)
    from unblock_run.dd_main_sat [OF this one refl, of now] show ?thesis by (auto simp: out_exit_def)
  qed
qed

lemma ready_clean:
  assumes "ready s" "sparse_safe s" "C_OSYNC \<notin> ddflags s" "benign s" "readable s"
  shows "\<exists>t. dd_main now s = Exit 0 (summary now t) \<and> ofile t = ofile s @ converted s (concat (blocks s))
    \<and> st_bytes (st t) = of_nat (length (converted s (concat (blocks s))))"
proof -
  have fr: "fresh s"
    using assms(1) by (auto simp: ready_def direct_ready_def copy_ready_def record_ready_def
        split: convfn.split_asm if_split_asm)
  then have one: "files_cnt s = 1" by (simp add: fresh_def)
  note ff = fresh_facts [OF fr assms(2)]
  note pad = osync_pad_none [OF assms(3)]
  consider (copy) "cfunc s = Def" "C_BS \<notin> ddflags s" | (direct) "cfunc s = Def" "C_BS \<in> ddflags s"
    | (block) "cfunc s = Block" | (unblock) "cfunc s = Unblock"
    by (cases "cfunc s") auto
  then show ?thesis
  proof cases
    case copy
    then have "copy_inv s [] s" using assms copy_start by (simp add: ready_def)
    from copy_run.dd_main_clean [OF this one refl assms(4,5), of now] show ?thesis
      using copy ff by (auto simp: complete_defs converted_def dest!: pad)
  next
    case direct
    then have "direct_inv s [] s" using assms direct_start by (simp add: ready_def)
    from direct_run.dd_main_clean [OF this one refl assms(4,5), of now] show ?thesis
      using direct ff by (auto simp: complete_defs converted_def dest!: pad)
  next
    case block
    then have "block_inv s [] s" using assms block_start by (simp add: ready_def)
    from block_run.dd_main_clean [OF this one refl assms(4,5), of now] show ?thesis
      using block ff by (auto simp: complete_defs converted_def dest!: pad)
  next
    case unblock
    then have "unblock_inv s [] s" using assms unblock_start by (simp add: ready_def)
    from unblock_run.dd_main_clean [OF this one refl assms(4,5), of now] show ?thesis
      using unblock ff by (auto simp: complete_defs converted_def dest!: pad)
  qed
qed

text \<open>
  The operands that the theorems cover: the output starts empty or is cut at the seek position
  (no \<open>conv=notrunc\<close>, and \<open>seek=\<close> with \<open>of=\<close>), the sizes are sane, and \<open>conv=osync\<close> is not
  combined with \<open>conv=block\<close>; for the contents of the output there is no \<open>conv=osync\<close> at all.
\<close>

definition operands_safe :: "env \<Rightarrow> dd \<Rightarrow> bool" where
  "operands_safe e s \<longleftrightarrow> C_NOTRUNC \<notin> ddflags s \<and> (C_SEEK \<in> ddflags s \<longrightarrow> C_OF \<in> ddflags s)
     \<and> (C_OF \<notin> ddflags s \<longrightarrow> ofile s = []) \<and> (cfunc s = Block \<longrightarrow> C_OSYNC \<notin> ddflags s) \<and> sizes_ok e s"

definition operands_ok :: "env \<Rightarrow> dd \<Rightarrow> bool" where
  "operands_ok e s \<longleftrightarrow> operands_safe e s \<and> C_OSYNC \<notin> ddflags s"

lemma operands_safe_cut: "operands_safe e s \<Longrightarrow> jcl_inv s \<Longrightarrow> cut_output s"
  by (auto simp: operands_safe_def jcl_inv_def cut_output_def)


lemma dd_program_ends:
  assumes "initial s" and "jcl junk argv s = Ret s1" and "operands_safe e s1" and "sparse_safe s1"
  shows "\<exists>c t. dd_program e junk now argv s = Exit c t \<and> c \<le> 1"
proof -
  have j: "jcl_ok s1" "jcl_inv s1" using jcl_Ret [OF assms(2,1)] by simp_all
  have pr: "pristine s1" "files_cnt s1 \<noteq> 0" using j(2) by (simp_all add: jcl_inv_def)
  have sz: "sizes_ok e s1" and tape: "\<not> ISTAPE (inp s1)"
    using assms(3) pr(1) by (simp_all add: operands_safe_def pristine_def)
  have f: "fails (dd_setup e now s1)" by (rule dd_setup_fails [OF j(1) sz tape])
  show ?thesis
  proof (cases "dd_setup e now s1")
    case (Ret s2)
    have r: "ready s2" "keeps s1 s2"
      using dd_setup_ready [OF Ret j(1) pr(1) operands_safe_cut [OF assms(3) j(2)] sz pr(2)] by simp_all
    have "sparse_safe s2" using r(2) assms(4) by (simp add: keeps_def sparse_safe_def)
    moreover have "cfunc s2 = Block \<Longrightarrow> C_OSYNC \<notin> ddflags s2"
      using r(2) assms(3) by (simp add: keeps_def operands_safe_def)
    ultimately obtain c t where "dd_main now s2 = Exit c t" "c \<le> 1"
      using ready_ends [OF r(1), of now] by blast
    then show ?thesis by (simp add: dd_program_def assms(2) Ret)
  next
    case (Exit n u)
    then show ?thesis using f by (simp add: dd_program_def assms(2))
  qed (use f in simp_all)
qed


text \<open>
  Every operand table lookup is the lookup in the table: the tables are sorted as
  \<open>bsearch\<close> needs them.
\<close>

theorem dd_lookup_tables:
  "bsearch k args 0 (length args) = map_of args k
    \<and> bsearch k' clist 0 (length clist) = map_of clist k'"
  using bsearch_map_of [OF tables_sorted(1)] bsearch_map_of [OF tables_sorted(2)] by simp_all

subsection \<open>A concrete command line\<close>

definition ex_env :: env where
  "ex_env = \<lparr>open_rd = (\<lambda>_. 3), open_rdwr = (\<lambda>_. 4), open_wronly = (\<lambda>_. 4), dupfd = (\<lambda>d. 5),
     ftype = (\<lambda>_. Some Regular), malloc_ok = (\<lambda>_. True), size_bits = 32, in_seekable = True\<rparr>"

definition ex_start :: "read_ev list \<Rightarrow> byte list \<Rightarrow> dd" where
  "ex_start es f = \<lparr>inp = ex_io 0 0, outp = ex_io 0 0, st = ex_stat, cfunc = Def,
     cpy_cnt = 0, pending = 0, ddflags = {}, cbsz = 0, files_cnt = 1, progress = False,
     ctab = None, intrunc = False, warned = False, inbuf = [], outbuf = [], shared = False,
     src = es, wscript = [], ofile = f, opos = 0, oseek = True, fsync_err = None, close_ok = True,
     stderr = []\<rparr>"

lemma ex_initial: "initial (ex_start es f)"
  by (simp add: initial_def pristine_def ex_start_def ex_io_def ex_stat_def)



abbreviation (input) ex_argv :: "string list" where
  "ex_argv \<equiv> [''of=b'', ''ibs=4'', ''obs=2'', ''seek=1'']"

definition ex_parsed :: "read_ev list \<Rightarrow> byte list \<Rightarrow> dd" where
  "ex_parsed es f = (ex_start es f)
     \<lparr>inp := (ex_io 0 0)\<lparr>dbsz := 4\<rparr>,
      outp := (ex_io 0 0)\<lparr>dbsz := 2, io_name := Some ''b'', offset := 1\<rparr>,
      ddflags := {C_OF, C_IBS, C_OBS, C_SEEK}\<rparr>"

lemma ex_jcl: "jcl 0 ex_argv (ex_start es f) = Ret (ex_parsed es f)"
proof -
  have n: "bsearch k args 0 (length args) = map_of args k" for k
    by (rule bsearch_map_of [OF tables_sorted(1)])
  have sc: "scan_lld ''2'' = ScanInt 2" "scan_lld ''1'' = ScanInt 1" "scan_lld ''4'' = ScanInt 4" by code_simp+
  have ap: "map_of args ''of'' = Some \<lparr>arg_f = f_of, arg_set = {C_OF}, arg_noset = {C_OF}\<rparr>"
    "map_of args ''ibs'' = Some \<lparr>arg_f = f_ibs, arg_set = {C_IBS}, arg_noset = {C_BS, C_IBS}\<rparr>"
    "map_of args ''obs'' = Some \<lparr>arg_f = f_obs, arg_set = {C_OBS}, arg_noset = {C_BS, C_OBS}\<rparr>"
    "map_of args ''seek'' = Some \<lparr>arg_f = f_seek, arg_set = {C_SEEK}, arg_noset = {C_SEEK}\<rparr>"
    by (simp_all add: args_def)
  show ?thesis
    by (simp add: jcl_def n ap upd_in_def upd_out_def ex_start_def ex_parsed_def ex_io_def f_defs strsuftoll_def sc
        to_u64_def jcl_bs_def jcl_conv_def)
      blast
qed

lemma ex_operands: "operands_ok ex_env (ex_parsed es f)"
  by (simp add: operands_ok_def operands_safe_def sizes_ok_def ex_parsed_def ex_env_def ex_io_def) (simp add: ex_start_def)

lemma ex_off: "off_mul (Suc 0) 2 = 2"
  by code_simp

lemma ex_lists: "replicate 5 (0 :: byte) = [0, 0, 0, 0, 0]" "set_length 2 [9, 8, 7] = [9, 8]"
  by code_simp+

lemma ex_setup:
  "dd_setup ex_env now (ex_parsed es [9, 8, 7]) = Ret ((ex_parsed es [9, 8])
     \<lparr>inp := (ex_io 4 0)\<lparr>io_name := Some ''stdin''\<rparr>,
      outp := (ex_io 2 4)\<lparr>io_name := Some ''b'', offset := 1\<rparr>,
      inbuf := [0, 0, 0, 0, 0], shared := True, opos := 2\<rparr>)"
  by (simp add: dd_setup_def open_input_def open_output_def opened_def getfdtype_def redup_clean_fd_def
      alloc_def pos_out_def truncate_out_def reset_ptrs_def upd_in_def upd_out_def
      ex_env_def ex_parsed_def ex_start_def ex_io_def ex_off ex_lists)



end
