(* ===== verification/Nmea.thy ===== *)
theory Nmea
  imports Checked Complex_Main
begin

text \<open>
  The NMEA tokenizer and the number parsers of \<open>testcode/android/libgps/gps_neu.c\<close>.
  A pointer into the sentence is an offset; reading outside the sentence's buffer has no
  result.
\<close>

subsection \<open>Tokens\<close>

record Token =
  tmem :: "byte list"
  tp :: nat
  tend :: nat

definition MAX_NMEA_TOKENS :: nat where "MAX_NMEA_TOKENS = 32"

abbreviation (input) COMMA :: byte where "COMMA \<equiv> 44"
abbreviation (input) DOLLAR :: byte where "DOLLAR \<equiv> 36"
abbreviation (input) STAR :: byte where "STAR \<equiv> 42"
abbreviation (input) LF :: byte where "LF \<equiv> 10"
abbreviation (input) CR :: byte where "CR \<equiv> 13"

text \<open>What is left of a sentence without \<open>$\<close>, line end and checksum.\<close>

definition skip_dollar :: "byte list \<Rightarrow> nat \<Rightarrow> nat \<Rightarrow> nat ck" where
  "skip_dollar m p e =
     (if p < e then bindr (rd m p) (\<lambda>c. Inr (if c = DOLLAR then p + 1 else p)) else Inr p)"

definition drop_newline :: "byte list \<Rightarrow> nat \<Rightarrow> nat \<Rightarrow> nat ck" where
  "drop_newline m p e =
     (if p < e then
        bindr (rd m (e - 1)) (\<lambda>c.
          if c \<noteq> LF then Inr e
          else if p < e - 1
               then bindr (rd m (e - 2)) (\<lambda>d. Inr (if d = CR then e - 2 else e - 1))
               else Inr (e - 1))
      else Inr e)"

definition drop_checksum :: "byte list \<Rightarrow> nat \<Rightarrow> nat \<Rightarrow> nat ck" where
  "drop_checksum m p e =
     (if p + 3 \<le> e then bindr (rd m (e - 3)) (\<lambda>c. Inr (if c = STAR then e - 3 else e)) else Inr e)"

text \<open>\<open>memchr(p, ',', n)\<close>: the offset of the first comma, or the end.\<close>

fun memchr_comma :: "byte list \<Rightarrow> nat \<Rightarrow> nat \<Rightarrow> nat ck" where
  "memchr_comma m p 0 = Inr p"
| "memchr_comma m p (Suc n) =
     bindr (rd m p) (\<lambda>c. if c = COMMA then Inr p else memchr_comma m (Suc p) n)"

lemma memchr_comma_range: "memchr_comma m p n = Inr q \<Longrightarrow> p \<le> q \<and> q \<le> p + n"
  by (induction m p n rule: memchr_comma.induct) (fastforce simp: bindr_Inr split: if_split_asm)+

text \<open>The loop over the fields; fields beyond the 32nd are parsed and dropped.\<close>

function token_loop :: "byte list \<Rightarrow> nat \<Rightarrow> nat \<Rightarrow> Token list \<Rightarrow> Token list ck" where
  "token_loop m p e toks =
     (if p < e then
        bindr (memchr_comma m p (e - p)) (\<lambda>q.
          token_loop m (if q < e then q + 1 else q) e
            (if length toks < MAX_NMEA_TOKENS then toks @ [\<lparr>tmem = m, tp = p, tend = q\<rparr>] else toks))
      else Inr toks)"
  by pat_completeness auto
termination
proof (relation "measure (\<lambda>(m, p, e, toks). e - p)")
  fix m :: "byte list" and p e q :: nat and toks :: "Token list"
  assume "p < e" "memchr_comma m p (e - p) = Inr q"
  then have "p \<le> q" "q \<le> e" using memchr_comma_range by fastforce+
  then show "((m, if q < e then q + 1 else q, e,
      if length toks < MAX_NMEA_TOKENS then toks @ [\<lparr>tmem = m, tp = p, tend = q\<rparr>] else toks), m, p, e, toks)
      \<in> measure (\<lambda>(m, p, e, toks). e - p)"
    using \<open>p < e\<close> by auto
qed simp

declare token_loop.simps [simp del]

definition nmea_tokenizer_init :: "byte list \<Rightarrow> nat \<Rightarrow> nat \<Rightarrow> Token list ck" where
  "nmea_tokenizer_init m p e =
     bindr (skip_dollar m p e) (\<lambda>p1.
     bindr (drop_newline m p1 e) (\<lambda>e1.
     bindr (drop_checksum m p1 e1) (\<lambda>e2.
       token_loop m p1 e2 [])))"

text \<open>The dummy token points to an empty string.\<close>

definition nmea_tokenizer_get :: "Token list \<Rightarrow> nat \<Rightarrow> Token" where
  "nmea_tokenizer_get ts i = (if length ts \<le> i then \<lparr>tmem = [0], tp = 0, tend = 0\<rparr> else ts ! i)"

text \<open>\<open>tok.p[i]\<close>, which may lie outside the token.\<close>

definition tok_char :: "Token \<Rightarrow> nat \<Rightarrow> byte ck" where
  "tok_char t i = rd (tmem t) (tp t + i)"

subsection \<open>Integers\<close>

text \<open>
  \<open>str2int\<close>: digits between two pointers, \<open>-1\<close> for an empty field or any other character;
  the value wraps.
\<close>

definition digit_val :: "byte \<Rightarrow> int option" where
  "digit_val b = (if 48 \<le> b \<and> b \<le> 57 then Some (uint b - 48) else None)"

fun str2int_loop :: "byte list \<Rightarrow> nat \<Rightarrow> nat \<Rightarrow> int \<Rightarrow> int ck" where
  "str2int_loop m p 0 acc = Inr acc"
| "str2int_loop m p (Suc n) acc =
     bindr (rd m p) (\<lambda>b.
       case digit_val b of
         None \<Rightarrow> Inr (- 1)
       | Some c \<Rightarrow> str2int_loop m (Suc p) n (wrap32 (acc * 10 + c)))"

definition str2int :: "byte list \<Rightarrow> nat \<Rightarrow> nat \<Rightarrow> int ck" where
  "str2int m p e = (if e = p then Inr (- 1) else str2int_loop m p (e - p) 0)"

definition tok_int :: "Token \<Rightarrow> int ck" where
  "tok_int t = str2int (tmem t) (tp t) (tend t)"

subsection \<open>Floating-point numbers\<close>

text \<open>
  A \<open>double\<close> is an exact rational or one of the special values (infinities and not-a-number)
  that \<open>strtod\<close> reads from their names. Rounding is not modelled.
\<close>

datatype dbl = Fin rat | Special

definition dmap :: "(rat \<Rightarrow> rat) \<Rightarrow> dbl \<Rightarrow> dbl" where
  "dmap f d = (case d of Fin q \<Rightarrow> Fin (f q) | Special \<Rightarrow> Special)"

lemma dmap_simps [simp]: "dmap f (Fin q) = Fin (f q)" "dmap f Special = Special"
  by (simp_all add: dmap_def)

text \<open>A conversion to \<open>int\<close> truncates and is undefined out of range.\<close>

definition dbl_int :: "dbl \<Rightarrow> int ck" where
  "dbl_int d =
     (case d of
        Special \<Rightarrow> Inl BadCast
      | Fin q \<Rightarrow> (let i = (if 0 \<le> q then \<lfloor>q\<rfloor> else \<lceil>q\<rceil>)
                   in if - (2 ^ 31) \<le> i \<and> i < 2 ^ 31 then Inr i else Inl BadCast))"

definition hex_val :: "byte \<Rightarrow> int option" where
  "hex_val b =
     (if 48 \<le> b \<and> b \<le> 57 then Some (uint b - 48)
      else if 65 \<le> b \<and> b \<le> 70 then Some (uint b - 55)
      else if 97 \<le> b \<and> b \<le> 102 then Some (uint b - 87) else None)"

text \<open>Digits of a base: their value, their number and what follows.\<close>

fun scan_digits :: "(byte \<Rightarrow> int option) \<Rightarrow> int \<Rightarrow> int \<Rightarrow> nat \<Rightarrow> byte list \<Rightarrow> int \<times> nat \<times> byte list" where
  "scan_digits f base acc k [] = (acc, k, [])"
| "scan_digits f base acc k (b # bs) =
     (case f b of None \<Rightarrow> (acc, k, b # bs) | Some d \<Rightarrow> scan_digits f base (acc * base + d) (Suc k) bs)"

text \<open>Digits with an optional point: the value times \<open>base ^ places\<close>, the places, the digits.\<close>

definition scan_mantissa :: "(byte \<Rightarrow> int option) \<Rightarrow> int \<Rightarrow> byte list \<Rightarrow> int \<times> nat \<times> nat \<times> byte list" where
  "scan_mantissa f base bs =
     (case scan_digits f base 0 0 bs of (v, k, r) \<Rightarrow>
        (case r of
           c # r' \<Rightarrow>
             if c = 46 then (case scan_digits f base v 0 r' of (v', k', r'') \<Rightarrow> (v', k', k + k', r''))
             else (v, 0, k, r)
         | [] \<Rightarrow> (v, 0, k, r)))"

definition scan_exponent :: "byte set \<Rightarrow> byte list \<Rightarrow> int" where
  "scan_exponent marks bs =
     (case bs of
        [] \<Rightarrow> 0
      | c # r \<Rightarrow>
          if c \<notin> marks then 0
          else (case r of
                  [] \<Rightarrow> 0
                | s # r' \<Rightarrow>
                    (case scan_digits digit_val 10 0 0 (if s = 43 \<or> s = 45 then r' else r) of
                       (v, k, _) \<Rightarrow> if s = 45 then - v else v)))"

definition rat_power :: "rat \<Rightarrow> int \<Rightarrow> rat" where
  "rat_power b i = (if 0 \<le> i then b ^ nat i else inverse (b ^ nat (- i)))"

definition lower :: "byte \<Rightarrow> byte" where
  "lower b = (if 65 \<le> b \<and> b \<le> 90 then b + 32 else b)"

definition strtod_abs :: "byte list \<Rightarrow> dbl" where
  "strtod_abs bs =
     (if map lower (take 3 bs) \<in> {bytes ''inf'', bytes ''nan''} then Special
      else
        (case scan_mantissa hex_val 16 (drop 2 bs) of (hv, hp, hn, hr) \<Rightarrow>
           if map lower (take 2 bs) = bytes ''0x'' \<and> 0 < hn
           then Fin (of_int hv * rat_power 2 (scan_exponent {112, 80} hr) * inverse (16 ^ hp))
           else
             (case scan_mantissa digit_val 10 bs of (v, p, n, r) \<Rightarrow>
                if n = 0 then Fin 0
                else Fin (of_int v * rat_power 10 (scan_exponent {101, 69} r) * inverse (10 ^ p)))))"

text \<open>The C string in a buffer: up to the terminator.\<close>

definition c_string :: "byte list \<Rightarrow> byte list" where
  "c_string bs = takeWhile (\<lambda>b. b \<noteq> 0) bs"

definition is_blank :: "byte \<Rightarrow> bool" where
  "is_blank b \<longleftrightarrow> b = 32 \<or> (9 \<le> b \<and> b \<le> 13)"

definition strtod :: "byte list \<Rightarrow> dbl" where
  "strtod bs =
     (case dropWhile is_blank (c_string bs) of
        [] \<Rightarrow> Fin 0
      | c # cs \<Rightarrow>
          if c = 45 then dmap uminus (strtod_abs cs)
          else if c = 43 then strtod_abs cs
          else strtod_abs (c # cs))"

text \<open>
  \<open>str2float\<close> copies one character more than the token has; the terminator stands after
  it. A token of 31 characters or more is read as 0.
\<close>

definition str2float :: "byte list \<Rightarrow> nat \<Rightarrow> nat \<Rightarrow> dbl ck" where
  "str2float m p e =
     (let n = e - p + 1
      in if 32 \<le> n then Inr (Fin 0) else bindr (rds m p n) (\<lambda>bs. Inr (strtod bs)))"

definition tok_float :: "Token \<Rightarrow> dbl ck" where
  "tok_float t = str2float (tmem t) (tp t) (tend t)"

end
