(* ===== verification/NmeaTokens.thy ===== *)
theory NmeaTokens
  imports Nmea
begin

text \<open>
  What the tokenizer of \<open>testcode/android/libgps/gps_neu.c\<close> computes, against splitting at
  commas.
\<close>

subsection \<open>Fields\<close>

text \<open>The comma-separated fields of a text; an empty field after the last comma is not one.\<close>

function fields :: "byte list \<Rightarrow> byte list list" where
  "fields xs = (if xs = [] then []
     else takeWhile (\<lambda>c. c \<noteq> COMMA) xs # fields (drop 1 (dropWhile (\<lambda>c. c \<noteq> COMMA) xs)))"
  by pat_completeness auto
termination
proof (relation "measure length")
  fix xs :: "byte list"
  assume "xs \<noteq> []"
  then show "(drop 1 (dropWhile (\<lambda>c. c \<noteq> COMMA) xs), xs) \<in> measure length"
    using length_dropWhile_le [of "\<lambda>c. c \<noteq> COMMA" xs] by (cases xs) auto
qed simp

declare fields.simps [simp del]

lemma fields_Nil [simp]: "fields [] = []"
  by (simp add: fields.simps)

lemma fields_last: "xs \<noteq> [] \<Longrightarrow> COMMA \<notin> set xs \<Longrightarrow> fields xs = [xs]"
proof -
  assume xs: "xs \<noteq> []" "COMMA \<notin> set xs"
  then have "\<forall>c \<in> set xs. c \<noteq> COMMA" by metis
  then have w: "takeWhile (\<lambda>c. c \<noteq> COMMA) xs = xs" "dropWhile (\<lambda>c. c \<noteq> COMMA) xs = []"
    by (simp_all add: takeWhile_eq_all_conv)
  have "fields xs = takeWhile (\<lambda>c. c \<noteq> COMMA) xs # fields (drop 1 (dropWhile (\<lambda>c. c \<noteq> COMMA) xs))"
    using xs(1) by (subst fields.simps) simp
  then show ?thesis unfolding w by simp
qed

lemma takeWhile_comma: "COMMA \<notin> set xs \<Longrightarrow> takeWhile (\<lambda>c. c \<noteq> COMMA) (xs @ COMMA # ys) = xs"
  "COMMA \<notin> set xs \<Longrightarrow> dropWhile (\<lambda>c. c \<noteq> COMMA) (xs @ COMMA # ys) = COMMA # ys"
  by (induction xs) auto

lemma fields_cons: "COMMA \<notin> set xs \<Longrightarrow> fields (xs @ COMMA # ys) = xs # fields ys"
  by (subst fields.simps) (simp add: takeWhile_comma)

text \<open>The part of a sentence that is split: no \<open>$\<close>, no line end, no checksum.\<close>

definition no_dollar :: "byte list \<Rightarrow> byte list" where
  "no_dollar xs = (case xs of [] \<Rightarrow> [] | c # cs \<Rightarrow> if c = DOLLAR then cs else xs)"

definition no_newline :: "byte list \<Rightarrow> byte list" where
  "no_newline xs =
     (if xs \<noteq> [] \<and> last xs = LF
      then (let ys = butlast xs in if ys \<noteq> [] \<and> last ys = CR then butlast ys else ys) else xs)"

definition no_checksum :: "byte list \<Rightarrow> byte list" where
  "no_checksum xs =
     (if 3 \<le> length xs \<and> xs ! (length xs - 3) = STAR then take (length xs - 3) xs else xs)"

definition body :: "byte list \<Rightarrow> byte list" where
  "body xs = no_checksum (no_newline (no_dollar xs))"

subsection \<open>The tokenizer\<close>

definition tok_text :: "Token \<Rightarrow> byte list" where
  "tok_text t = take (tend t - tp t) (drop (tp t) (tmem t))"

definition part :: "byte list \<Rightarrow> nat \<Rightarrow> nat \<Rightarrow> byte list" where
  "part m p e = take (e - p) (drop p m)"

lemma part_length [simp]: "e \<le> length m \<Longrightarrow> length (part m p e) = e - p"
  by (simp add: part_def)

lemma part_nth [simp]: "e \<le> length m \<Longrightarrow> i < e - p \<Longrightarrow> part m p e ! i = m ! (p + i)"
  by (simp add: part_def)

lemma part_empty [simp]: "e \<le> length m \<Longrightarrow> part m p e = [] \<longleftrightarrow> e \<le> p"
proof -
  assume "e \<le> length m"
  then have "length (part m p e) = e - p" by simp
  then show ?thesis using length_0_conv [of "part m p e"] by simp
qed

lemma part_short: "\<not> p < e \<Longrightarrow> part m p e = []"
  by (simp add: part_def)

lemma part_same [simp]: "part m p p = []"
  by (simp add: part_def)

lemma part_Cons: "p < e \<Longrightarrow> e \<le> length m \<Longrightarrow> part m p e = m ! p # part m (Suc p) e"
  by (intro nth_equalityI) (auto simp: nth_Cons' less_diff_conv)

lemma part_last: "p < e \<Longrightarrow> e \<le> length m \<Longrightarrow> last (part m p e) = m ! (e - 1)"
  by (simp add: last_conv_nth)

lemma part_butlast: "p < e \<Longrightarrow> e \<le> length m \<Longrightarrow> butlast (part m p e) = part m p (e - 1)"
  by (intro nth_equalityI) (auto simp: nth_butlast)

lemma part_take: "e \<le> length m \<Longrightarrow> e' \<le> e \<Longrightarrow> take (e' - p) (part m p e) = part m p e'"
  by (simp add: part_def min_def)

lemma skip_dollar_ok:
  assumes "e \<le> length m"
  obtains p' where "skip_dollar m p e = Inr p'" "part m p' e = no_dollar (part m p e)" "p \<le> p'" "p' \<le> p + 1"
    "p \<le> e \<Longrightarrow> p' \<le> e"
proof (cases "p < e")
  case True
  then show ?thesis
    using that [of "if m ! p = DOLLAR then p + 1 else p"] assms
    by (auto simp: skip_dollar_def no_dollar_def part_Cons)
next
  case False
  then show ?thesis
    using that [of p] assms by (simp add: skip_dollar_def no_dollar_def part_short)
qed

lemma drop_newline_ok:
  assumes "e \<le> length m"
  obtains e' where "drop_newline m p e = Inr e'" "part m p e' = no_newline (part m p e)" "e' \<le> e"
    "p \<le> e \<Longrightarrow> p \<le> e'"
proof (cases "p < e")
  case True
  note b = part_butlast [OF True assms]
  show ?thesis
  proof (cases "m ! (e - 1) = LF")
    case lf: True
    show ?thesis
    proof (cases "p < e - 1")
      case p: True
      have i: "e - 1 \<le> length m" "e - 1 - 1 = e - 2" using assms by simp_all
      have b2: "butlast (part m p (e - 1)) = part m p (e - 2)" "last (part m p (e - 1)) = m ! (e - 2)"
        using part_butlast [OF p i(1)] part_last [OF p i(1)] unfolding i(2) by blast+
      show ?thesis
        by (rule that [of "if m ! (e - 2) = CR then e - 2 else e - 1"])
          (use True assms lf p b b2 part_last [OF True assms] in \<open>auto simp: drop_newline_def no_newline_def Let_def\<close>)
    next
      case p: False
      show ?thesis
        by (rule that [of "e - 1"])
          (use True assms lf p b part_last [OF True assms] in \<open>auto simp: drop_newline_def no_newline_def Let_def\<close>)
    qed
  next
    case lf: False
    show ?thesis
      by (rule that [of e]) (use True assms lf part_last [OF True assms] in \<open>auto simp: drop_newline_def no_newline_def\<close>)
  qed
next
  case False
  then show ?thesis
    using that [of e] assms by (simp add: drop_newline_def no_newline_def)
qed

lemma drop_checksum_ok:
  assumes "e \<le> length m"
  obtains e' where "drop_checksum m p e = Inr e'" "part m p e' = no_checksum (part m p e)" "e' \<le> e"
    "p \<le> e \<Longrightarrow> p \<le> e'"
proof (cases "p + 3 \<le> e")
  case True
  have n: "length (part m p e) - 3 = e - 3 - p" "part m p e ! (e - 3 - p) = m ! (e - 3)"
    using True assms by simp_all
  show ?thesis
    by (rule that [of "if m ! (e - 3) = STAR then e - 3 else e"])
      (use True assms n part_take [of e m "e - 3" p] in \<open>auto simp: drop_checksum_def no_checksum_def\<close>)
next
  case False
  show ?thesis
  proof (rule that [of e])
    show "part m p e = no_checksum (part m p e)"
      using False assms by (simp add: no_checksum_def) linarith
  qed (use False in \<open>simp_all add: drop_checksum_def\<close>)
qed

lemma memchr_comma_ok:
  "p + n \<le> length m \<Longrightarrow>
     memchr_comma m p n = Inr (p + length (takeWhile (\<lambda>c. c \<noteq> COMMA) (part m p (p + n))))"
proof (induction m p n rule: memchr_comma.induct)
  case (2 m p n)
  then show ?case using part_Cons [of p "p + Suc n" m] by simp
qed simp

text \<open>A token lies inside its buffer, with a character after it.\<close>

definition token_in :: "byte list \<Rightarrow> nat \<Rightarrow> Token \<Rightarrow> bool" where
  "token_in m e t \<longleftrightarrow> tmem t = m \<and> tp t \<le> tend t \<and> tend t \<le> e \<and> (tend t < e \<longrightarrow> m ! tend t = COMMA)"

lemma token_loop_ok:
  assumes "e \<le> length m" and "length toks \<le> MAX_NMEA_TOKENS"
  shows "\<exists>ts. token_loop m p e toks = Inr (toks @ ts) \<and> list_all (token_in m e) ts
    \<and> map tok_text ts = take (MAX_NMEA_TOKENS - length toks) (fields (part m p e))"
  using assms(2)
proof (induction "e - p" arbitrary: p toks rule: less_induct)
  case less
  show ?case
  proof (cases "p < e")
    case True
    let ?w = "takeWhile (\<lambda>c. c \<noteq> COMMA) (part m p e)"
    let ?q = "p + length ?w"
    have q: "?q \<le> e" using length_takeWhile_le [of "\<lambda>c. c \<noteq> COMMA" "part m p e"] assms(1) True by simp
    have pw: "part m p ?q = ?w"
      using part_take [OF assms(1) q, of p] by (metis add_diff_cancel_left' takeWhile_eq_take)
    have mem: "memchr_comma m p (e - p) = Inr ?q"
      using memchr_comma_ok [of p "e - p" m] True assms(1) by simp
    let ?p = "if ?q < e then ?q + 1 else ?q"
    have comma: "m ! ?q = COMMA" if "?q < e"
    proof -
      have "length ?w < length (part m p e)" using that assms(1) by simp
      from nth_length_takeWhile [OF this] show ?thesis using that assms(1) by simp
    qed
    have rest: "part m ?p e = drop 1 (dropWhile (\<lambda>c. c \<noteq> COMMA) (part m p e))"
      using q assms(1) by (auto simp: dropWhile_eq_drop part_def drop_take add.commute)
    have F: "fields (part m p e) = ?w # fields (part m ?p e)"
      using True assms(1) rest by (subst fields.simps) simp
    let ?t = "\<lparr>tmem = m, tp = p, tend = ?q\<rparr>"
    let ?toks = "if length toks < MAX_NMEA_TOKENS then toks @ [?t] else toks"
    have dec: "e - ?p < e - p" using True q by auto
    have len: "length ?toks \<le> MAX_NMEA_TOKENS" using less.prems by auto
    obtain ts where IH: "token_loop m ?p e ?toks = Inr (?toks @ ts)" "list_all (token_in m e) ts"
      "map tok_text ts = take (MAX_NMEA_TOKENS - length ?toks) (fields (part m ?p e))"
      using less.hyps [OF dec len] by blast
    have step: "token_loop m p e toks = token_loop m ?p e ?toks"
      using True mem by (subst token_loop.simps) simp
    have tin: "token_in m e ?t" "tok_text ?t = ?w"
      using q comma pw by (auto simp: token_in_def tok_text_def part_def)
    show ?thesis
    proof (cases "length toks < MAX_NMEA_TOKENS")
      case True
      then have "MAX_NMEA_TOKENS - length toks = Suc (MAX_NMEA_TOKENS - length ?toks)" by simp
      then show ?thesis using step IH True tin F by (intro exI [of _ "?t # ts"]) simp
    next
      case False
      then show ?thesis using step IH F less.prems by (intro exI [of _ ts]) simp
    qed
  next
    case False
    then show ?thesis by (subst token_loop.simps) (simp add: part_short)
  qed
qed

lemma part_all: "part m 0 e = take e m"
  by (simp add: part_def)

lemma tokenizer_ok:
  assumes "e \<le> length m"
  obtains ts e' where "nmea_tokenizer_init m 0 e = Inr ts" "list_all (token_in m e') ts" "e' \<le> e"
    "map tok_text ts = take MAX_NMEA_TOKENS (fields (body (take e m)))"
proof -
  obtain p1 where 1: "skip_dollar m 0 e = Inr p1" "part m p1 e = no_dollar (take e m)"
    using skip_dollar_ok [OF assms, of 0] by (metis part_all)
  obtain e1 where 2: "drop_newline m p1 e = Inr e1" "part m p1 e1 = no_newline (part m p1 e)" "e1 \<le> e"
    using drop_newline_ok [OF assms, of p1] by metis
  then have "e1 \<le> length m" using assms by simp
  then obtain e2 where 3: "drop_checksum m p1 e1 = Inr e2" "part m p1 e2 = no_checksum (part m p1 e1)" "e2 \<le> e1"
    using drop_checksum_ok [of e1 m p1] by metis
  have "e2 \<le> length m" using 2 3 assms by simp
  from token_loop_ok [OF this, of "[]" p1] obtain ts where
    "token_loop m p1 e2 [] = Inr ts" "list_all (token_in m e2) ts"
    "map tok_text ts = take MAX_NMEA_TOKENS (fields (part m p1 e2))" by auto
  then show ?thesis
    using that [of ts e2] 1 2 3 by (simp add: nmea_tokenizer_init_def body_def)
qed

text \<open>
  C13: The tokenizer returns the first 32 comma-separated fields of the sentence without its
  \<open>$\<close>, line end and checksum, each as a pair of pointers into the sentence.
\<close>

theorem nmea_tokens_are_fields:
  assumes "e \<le> length m"
  shows "\<exists>ts. nmea_tokenizer_init m 0 e = Inr ts \<and> length ts \<le> 32
    \<and> map tok_text ts = take 32 (fields (body (take e m)))
    \<and> (\<forall>t \<in> set ts. tmem t = m \<and> tp t \<le> tend t \<and> tend t \<le> e)"
proof -
  obtain ts e' where ts: "nmea_tokenizer_init m 0 e = Inr ts" "list_all (token_in m e') ts" "e' \<le> e"
    "map tok_text ts = take MAX_NMEA_TOKENS (fields (body (take e m)))"
    using tokenizer_ok [OF assms] by blast
  have "length ts \<le> 32" using arg_cong [OF ts(4), of length] by (simp add: MAX_NMEA_TOKENS_def)
  then show ?thesis using ts by (auto simp: MAX_NMEA_TOKENS_def list_all_iff token_in_def)
qed

theorem nmea_tokens_are_fields_witness:
  "\<exists>ts. nmea_tokenizer_init (bytes ''$AB,,C*1F'') 0 9 = Inr ts
    \<and> map tok_text ts = [bytes ''AB'', [], bytes ''C'']"
proof -
  have "take 32 (fields (body (take 9 (bytes ''$AB,,C*1F'')))) = [bytes ''AB'', [], bytes ''C'']"
    by code_simp
  then show ?thesis using nmea_tokens_are_fields [of 9 "bytes ''$AB,,C*1F''"] by auto
qed

end
