(* ===== verification/GpsReader.thy ===== *)
theory GpsReader
  imports Nmea
begin

text \<open>
  The NMEA reader of \<open>testcode/android/libgps/gps_neu.c\<close>: accumulating sentences and turning
  them into location fixes and satellite reports. \<open>GpsLocation\<close>, \<open>GpsSvStatus\<close> and the
  callbacks are declared in a header of the Android platform; the length of the satellite
  list is whatever the state has.
\<close>

subsection \<open>State\<close>

datatype locflag = HAS_LAT_LONG | HAS_ALTITUDE | HAS_SPEED | HAS_BEARING | HAS_ACCURACY

record GpsLocation =
  flags :: "locflag set"
  latitude :: dbl
  longitude :: dbl
  altitude :: dbl
  speed :: dbl
  bearing :: dbl
  accuracy :: dbl
  timestamp :: int

record GpsSvInfo =
  prn :: int
  elevation :: dbl
  azimuth :: dbl
  snr :: dbl

record GpsSvStatus =
  num_svs :: nat
  sv_list :: "GpsSvInfo list"
  used_in_fix_mask :: u32

text \<open>What the framework is told, in order.\<close>

datatype gps_event = NmeaSentence int "byte list" | SvReport GpsSvStatus | LocationFix GpsLocation

text \<open>
  The reader. \<open>callback\<close> says whether the location callback is set; \<open>ticks\<close> counts the
  readings of the clock and \<open>events\<close> is the record of callbacks made.
\<close>

record NmeaReader =
  pos :: nat
  overflow :: bool
  utc_year :: int
  utc_mon :: int
  utc_day :: int
  utc_diff :: int
  loc :: GpsLocation
  sv_status :: GpsSvStatus
  sv_status_changed :: bool
  callback :: bool
  rin :: "byte list"
  gsa_fixed :: bool
  ticks :: nat
  events :: "gps_event list"

definition NMEA_MAX_SIZE :: nat where "NMEA_MAX_SIZE = 83"

text \<open>The callbacks the framework has registered.\<close>

record GpsCallbacks =
  nmea_cb :: bool
  sv_status_cb :: bool
  location_cb :: bool

text \<open>
  Broken-down time and the clock of the system: successive readings in seconds and in
  milliseconds, the time zone conversions and their inverse.
\<close>

record tm =
  tm_sec :: int
  tm_min :: int
  tm_hour :: int
  tm_mday :: int
  tm_mon :: int
  tm_year :: int
  tm_yday :: int

record clock =
  time_at :: "nat \<Rightarrow> int"
  millis_at :: "nat \<Rightarrow> int"
  gmtime :: "int \<Rightarrow> tm"
  localtime :: "int \<Rightarrow> tm"
  mktime :: "tm \<Rightarrow> int"

abbreviation upd_fix :: "(GpsLocation \<Rightarrow> GpsLocation) \<Rightarrow> NmeaReader \<Rightarrow> NmeaReader" where
  "upd_fix f r \<equiv> r\<lparr>loc := f (loc r)\<rparr>"

abbreviation upd_sv :: "(GpsSvStatus \<Rightarrow> GpsSvStatus) \<Rightarrow> NmeaReader \<Rightarrow> NmeaReader" where
  "upd_sv f r \<equiv> r\<lparr>sv_status := f (sv_status r)\<rparr>"

definition emit :: "gps_event \<Rightarrow> NmeaReader \<Rightarrow> NmeaReader" where
  "emit e r = r\<lparr>events := events r @ [e]\<rparr>"

subsection \<open>Time\<close>

definition year_seconds :: "tm \<Rightarrow> int" where
  "year_seconds t = wrap32 (tm_sec t + 60 * (tm_min t + 60 * (tm_hour t + 24 * (tm_yday t + 365 * tm_year t))))"

definition nmea_reader_update_utc_diff :: "clock \<Rightarrow> NmeaReader \<Rightarrow> NmeaReader" where
  "nmea_reader_update_utc_diff k r =
     (let now = time_at k (ticks r);
          time_local = year_seconds (localtime k now);
          time_utc = year_seconds (gmtime k now)
      in r\<lparr>ticks := ticks r + 1, utc_diff := wrap32 (time_utc - time_local)\<rparr>)"

definition zero_location :: GpsLocation where
  "zero_location = \<lparr>flags = {}, latitude = Fin 0, longitude = Fin 0, altitude = Fin 0,
     speed = Fin 0, bearing = Fin 0, accuracy = Fin 0, timestamp = 0\<rparr>"

definition zero_sv :: GpsSvInfo where
  "zero_sv = \<lparr>prn = 0, elevation = Fin 0, azimuth = Fin 0, snr = Fin 0\<rparr>"

text \<open>\<open>memset\<close> clears the reader, including what was registered.\<close>

definition nmea_reader_init :: "clock \<Rightarrow> NmeaReader \<Rightarrow> NmeaReader" where
  "nmea_reader_init k r =
     nmea_reader_update_utc_diff k
       (r\<lparr>pos := 0, overflow := False, utc_year := - 1, utc_mon := - 1, utc_day := - 1, utc_diff := 0,
         loc := zero_location,
         sv_status := \<lparr>num_svs = 0, sv_list = replicate (length (sv_list (sv_status r))) zero_sv,
                       used_in_fix_mask = 0\<rparr>,
         sv_status_changed := False, callback := False,
         rin := replicate (NMEA_MAX_SIZE + 1) 0, gsa_fixed := False\<rparr>)"

definition nmea_reader_set_callback :: "bool \<Rightarrow> NmeaReader \<Rightarrow> NmeaReader" where
  "nmea_reader_set_callback cb r =
     (let r1 = r\<lparr>callback := cb\<rparr>
      in if cb \<and> flags (loc r1) \<noteq> {}
         then upd_fix (\<lambda>f. f\<lparr>flags := {}\<rparr>) (emit (LocationFix (loc r1)) r1)
         else r1)"

definition current_date :: "clock \<Rightarrow> NmeaReader \<Rightarrow> NmeaReader" where
  "current_date k r =
     (if utc_year r < 0 then
        (let t = gmtime k (time_at k (ticks r))
         in r\<lparr>ticks := ticks r + 1, utc_year := tm_year t + 1900, utc_mon := tm_mon t + 1,
              utc_day := tm_mday t\<rparr>)
      else r)"

definition nmea_reader_update_time :: "clock \<Rightarrow> NmeaReader \<Rightarrow> Token \<Rightarrow> (int \<times> NmeaReader) ck" where
  "nmea_reader_update_time k r tok =
     (if tend tok < tp tok + 6 then Inr (- 1, r)
      else
        (let r1 = current_date k r; m = tmem tok; p = tp tok
         in bindr (str2int m p (p + 2)) (\<lambda>hour.
            bindr (str2int m (p + 2) (p + 4)) (\<lambda>minute.
            bindr (str2float m (p + 4) (tend tok)) (\<lambda>seconds.
            bindr (dbl_int seconds) (\<lambda>sec.
              (let t = \<lparr>tm_sec = sec, tm_min = minute, tm_hour = hour, tm_mday = utc_day r1,
                        tm_mon = utc_mon r1 - 1, tm_year = utc_year r1 - 1900, tm_yday = 0\<rparr>;
                   fix_time = mktime k t + utc_diff r1
               in Inr (0, upd_fix (\<lambda>f. f\<lparr>timestamp := fix_time * 1000\<rparr>) r1))))))))"

text \<open>The year is read up to four characters past the end of its field.\<close>

definition nmea_reader_update_cdate ::
  "NmeaReader \<Rightarrow> Token \<Rightarrow> Token \<Rightarrow> Token \<Rightarrow> (int \<times> NmeaReader) ck" where
  "nmea_reader_update_cdate r d m y =
     (if tend d < tp d + 2 \<or> tend m < tp m + 2 \<or> tend y < tp y + 4 then Inr (- 1, r)
      else
        bindr (str2int (tmem d) (tp d) (tp d + 2)) (\<lambda>day.
        bindr (str2int (tmem m) (tp m) (tp m + 2)) (\<lambda>mon.
        bindr (str2int (tmem y) (tp y) (tend y + 4)) (\<lambda>year.
          Inr (0, r\<lparr>utc_day := day, utc_mon := mon, utc_year := year\<rparr>)))))"

definition nmea_reader_update_date :: "clock \<Rightarrow> NmeaReader \<Rightarrow> Token \<Rightarrow> Token \<Rightarrow> (int \<times> NmeaReader) ck" where
  "nmea_reader_update_date k r date time =
     (if tp date + 6 \<noteq> tend date then Inr (- 1, r)
      else
        (let m = tmem date; p = tp date
         in bindr (str2int m p (p + 2)) (\<lambda>day.
            bindr (str2int m (p + 2) (p + 4)) (\<lambda>mon.
            bindr (str2int m (p + 4) (p + 6)) (\<lambda>yy.
              (let year = yy + 2000
               in if day < 0 \<or> mon < 0 \<or> year < 0 then Inr (- 1, r)
                  else nmea_reader_update_time k
                         (r\<lparr>utc_year := year, utc_mon := mon, utc_day := day\<rparr>) time))))))"

subsection \<open>Position and motion\<close>

definition floor_dbl :: "dbl \<Rightarrow> dbl" where
  "floor_dbl d = dmap (\<lambda>q. of_int \<lfloor>q\<rfloor>) d"

text \<open>\<open>ddmm.mmmm\<close> to degrees.\<close>

definition convert_from_hhmm :: "Token \<Rightarrow> dbl ck" where
  "convert_from_hhmm tok =
     bindr (tok_float tok) (\<lambda>val.
     bindr (dbl_int (dmap (\<lambda>q. q / 100) (floor_dbl val))) (\<lambda>degrees.
       Inr (dmap (\<lambda>v. of_int degrees + (v - of_int degrees * 100) / 60) val)))"

definition nmea_reader_update_latlong ::
  "NmeaReader \<Rightarrow> Token \<Rightarrow> byte \<Rightarrow> Token \<Rightarrow> byte \<Rightarrow> (int \<times> NmeaReader) ck" where
  "nmea_reader_update_latlong r lat_tok lat_hemi lon_tok lon_hemi =
     (if tend lat_tok < tp lat_tok + 6 then Inr (- 1, r)
      else
        bindr (convert_from_hhmm lat_tok) (\<lambda>lat0.
          (let lat = (if lat_hemi = ascii CHR ''S'' then dmap uminus lat0 else lat0)
           in if tend lon_tok < tp lon_tok + 6 then Inr (- 1, r)
              else
                bindr (convert_from_hhmm lon_tok) (\<lambda>lon0.
                  (let lon = (if lon_hemi = ascii CHR ''W'' then dmap uminus lon0 else lon0)
                   in Inr (0, upd_fix (\<lambda>f. f\<lparr>flags := insert HAS_LAT_LONG (flags f),
                                             latitude := lat, longitude := lon\<rparr>) r))))))"

definition nmea_reader_update_altitude :: "NmeaReader \<Rightarrow> Token \<Rightarrow> Token \<Rightarrow> (int \<times> NmeaReader) ck" where
  "nmea_reader_update_altitude r tok units =
     (if tend tok \<le> tp tok then Inr (- 1, r)
      else bindr (tok_float tok) (\<lambda>v.
        Inr (0, upd_fix (\<lambda>f. f\<lparr>flags := insert HAS_ALTITUDE (flags f), altitude := v\<rparr>) r)))"

definition nmea_reader_update_bearing :: "NmeaReader \<Rightarrow> Token \<Rightarrow> (int \<times> NmeaReader) ck" where
  "nmea_reader_update_bearing r tok =
     (if tend tok \<le> tp tok then Inr (- 1, r)
      else bindr (tok_float tok) (\<lambda>v.
        Inr (0, upd_fix (\<lambda>f. f\<lparr>flags := insert HAS_BEARING (flags f), bearing := v\<rparr>) r)))"

text \<open>Knots to metres per second.\<close>

definition nmea_reader_update_speed :: "NmeaReader \<Rightarrow> Token \<Rightarrow> (int \<times> NmeaReader) ck" where
  "nmea_reader_update_speed r tok =
     (if tend tok \<le> tp tok then Inr (- 1, r)
      else bindr (tok_float tok) (\<lambda>v.
        Inr (0, upd_fix (\<lambda>f. f\<lparr>flags := insert HAS_SPEED (flags f),
                                speed := dmap (\<lambda>q. q * (514444 / 1000000)) v\<rparr>) r)))"

definition nmea_reader_update_accuracy :: "NmeaReader \<Rightarrow> NmeaReader" where
  "nmea_reader_update_accuracy r =
     upd_fix (\<lambda>f. f\<lparr>flags := insert HAS_ACCURACY (flags f), accuracy := Fin 20\<rparr>) r"

subsection \<open>Sentences\<close>

text \<open>The callers ignore the status of an update and keep its effect.\<close>

abbreviation (input) after :: "(int \<times> NmeaReader) ck \<Rightarrow> (NmeaReader \<Rightarrow> 'a ck) \<Rightarrow> 'a ck" where
  "after c f \<equiv> bindr c (\<lambda>(st, r). f r)"

abbreviation (input) tok0 :: "Token \<Rightarrow> byte ck" where
  "tok0 t \<equiv> tok_char t 0"

definition parse_gga :: "clock \<Rightarrow> Token list \<Rightarrow> NmeaReader \<Rightarrow> NmeaReader ck" where
  "parse_gga k ts r =
     (let g = nmea_tokenizer_get ts
      in after (nmea_reader_update_time k r (g 1)) (\<lambda>r1.
         bindr (tok0 (g 3)) (\<lambda>lath. bindr (tok0 (g 5)) (\<lambda>lonh.
         after (nmea_reader_update_latlong r1 (g 2) lath (g 4) lonh) (\<lambda>r2.
         after (nmea_reader_update_altitude r2 (g 9) (g 10)) Inr)))))"

definition parse_gll :: "clock \<Rightarrow> Token list \<Rightarrow> NmeaReader \<Rightarrow> NmeaReader ck" where
  "parse_gll k ts r =
     (let g = nmea_tokenizer_get ts
      in bindr (tok0 (g 6)) (\<lambda>status.
         if status = ascii CHR ''A'' then
           after (nmea_reader_update_time k r (g 5)) (\<lambda>r1.
           bindr (tok0 (g 2)) (\<lambda>lath. bindr (tok0 (g 4)) (\<lambda>lonh.
           after (nmea_reader_update_latlong r1 (g 1) lath (g 3) lonh) Inr)))
         else Inr r))"

text \<open>The satellites used in the fix, as bits of the mask.\<close>

fun gsa_loop :: "Token list \<Rightarrow> nat list \<Rightarrow> NmeaReader \<Rightarrow> NmeaReader ck" where
  "gsa_loop ts [] r = Inr r"
| "gsa_loop ts (i # is) r =
     bindr (tok_int (nmea_tokenizer_get ts i)) (\<lambda>n.
       gsa_loop ts is
         (if 0 < n \<and> n < 33 then
            upd_sv (\<lambda>s. s\<lparr>used_in_fix_mask := used_in_fix_mask s OR push_bit (nat (n - 1)) 1\<rparr>)
              (r\<lparr>sv_status_changed := True, gsa_fixed := True\<rparr>)
          else r))"

definition parse_gsa :: "Token list \<Rightarrow> NmeaReader \<Rightarrow> NmeaReader ck" where
  "parse_gsa ts r =
     bindr (tok0 (nmea_tokenizer_get ts 2)) (\<lambda>status.
       if status \<noteq> 0 \<and> status \<noteq> ascii CHR ''1'' then
         gsa_loop ts [3..<15] (upd_sv (\<lambda>s. s\<lparr>used_in_fix_mask := 0\<rparr>) r)
       else Inr (if gsa_fixed r
                 then upd_sv (\<lambda>s. s\<lparr>used_in_fix_mask := 0\<rparr>) (r\<lparr>sv_status_changed := True, gsa_fixed := False\<rparr>)
                 else r))"

text \<open>
  Up to four satellites of one \<open>GSV\<close> sentence. \<open>curr\<close> equals \<open>num_svs\<close> throughout.
\<close>

fun gsv_loop :: "Token list \<Rightarrow> int \<Rightarrow> nat list \<Rightarrow> NmeaReader \<Rightarrow> NmeaReader ck" where
  "gsv_loop ts nos [] r = Inr r"
| "gsv_loop ts nos (i # is) r =
     (let curr = num_svs (sv_status r); g = nmea_tokenizer_get ts
      in if int curr < nos then
           bindr (tok_int (g (i * 4 + 4))) (\<lambda>p.
           bindr (tok_float (g (i * 4 + 5))) (\<lambda>el.
           bindr (tok_float (g (i * 4 + 6))) (\<lambda>az.
           bindr (tok_float (g (i * 4 + 7))) (\<lambda>sn.
           bindr (wr (sv_list (sv_status r)) curr \<lparr>prn = p, elevation = el, azimuth = az, snr = sn\<rparr>) (\<lambda>l.
             gsv_loop ts nos is (upd_sv (\<lambda>s. s\<lparr>num_svs := curr + 1, sv_list := l\<rparr>) r))))))
         else Inr r)"

definition parse_gsv :: "Token list \<Rightarrow> NmeaReader \<Rightarrow> NmeaReader ck" where
  "parse_gsv ts r =
     (let g = nmea_tokenizer_get ts
      in bindr (tok_int (g 3)) (\<lambda>nos.
         if 0 < nos then
           bindr (tok_int (g 2)) (\<lambda>sentence.
           bindr (tok_int (g 1)) (\<lambda>sentences.
           bindr (gsv_loop ts nos [0..<4]
                    (if sentence = 1
                     then upd_sv (\<lambda>s. s\<lparr>num_svs := 0\<rparr>) (r\<lparr>sv_status_changed := False\<rparr>) else r)) (\<lambda>r1.
             Inr (if sentence = sentences then r1\<lparr>sv_status_changed := True\<rparr> else r1))))
         else Inr r))"

definition parse_rmc :: "clock \<Rightarrow> Token list \<Rightarrow> NmeaReader \<Rightarrow> NmeaReader ck" where
  "parse_rmc k ts r =
     (let g = nmea_tokenizer_get ts
      in bindr (tok0 (g 2)) (\<lambda>status.
         if status = ascii CHR ''A'' then
           after (nmea_reader_update_date k r (g 9) (g 1)) (\<lambda>r1.
           bindr (tok0 (g 4)) (\<lambda>lath. bindr (tok0 (g 6)) (\<lambda>lonh.
           after (nmea_reader_update_latlong r1 (g 3) lath (g 5) lonh) (\<lambda>r2.
           after (nmea_reader_update_bearing r2 (g 8)) (\<lambda>r3.
           after (nmea_reader_update_speed r3 (g 7)) Inr)))))
         else Inr r))"

definition parse_vtg :: "Token list \<Rightarrow> NmeaReader \<Rightarrow> NmeaReader ck" where
  "parse_vtg ts r =
     (let g = nmea_tokenizer_get ts
      in bindr (tok0 (g 9)) (\<lambda>status.
         if status \<noteq> 0 \<and> status \<noteq> ascii CHR ''N'' then
           after (nmea_reader_update_bearing r (g 1)) (\<lambda>r1.
           after (nmea_reader_update_speed r1 (g 5)) Inr)
         else Inr r))"

definition parse_zda :: "clock \<Rightarrow> Token list \<Rightarrow> NmeaReader \<Rightarrow> NmeaReader ck" where
  "parse_zda k ts r =
     (let g = nmea_tokenizer_get ts
      in bindr (tok0 (g 4)) (\<lambda>year.
         bindr (if year \<noteq> 0
                then after (nmea_reader_update_cdate r (g 2) (g 3) (g 4)) Inr else Inr r) (\<lambda>r1.
         bindr (tok0 (g 1)) (\<lambda>time.
           if time \<noteq> 0 then after (nmea_reader_update_time k r1 (g 1)) Inr else Inr r1))))"

text \<open>The sentence is chosen by the third to fifth character of its first field.\<close>

definition parse_sentence :: "clock \<Rightarrow> Token list \<Rightarrow> byte list \<Rightarrow> NmeaReader \<Rightarrow> NmeaReader ck" where
  "parse_sentence k ts id3 r =
     (if id3 = bytes ''GGA'' then parse_gga k ts r
      else if id3 = bytes ''GLL'' then parse_gll k ts r
      else if id3 = bytes ''GSA'' then parse_gsa ts r
      else if id3 = bytes ''GSV'' then parse_gsv ts r
      else if id3 = bytes ''RMC'' then parse_rmc k ts r
      else if id3 = bytes ''VTG'' then parse_vtg ts r
      else if id3 = bytes ''ZDA'' then parse_zda k ts r
      else Inr r)"

text \<open>After the sentence: the accuracy, the satellite report and the fix.\<close>

definition report_sv :: "GpsCallbacks \<Rightarrow> NmeaReader \<Rightarrow> NmeaReader" where
  "report_sv cb r =
     (if sv_status_changed r \<and> sv_status_cb cb
      then (emit (SvReport (sv_status r)) r)\<lparr>sv_status_changed := False\<rparr> else r)"

definition report_fix :: "NmeaReader \<Rightarrow> NmeaReader" where
  "report_fix r =
     (if flags (loc r) \<noteq> {} \<and> callback r
      then upd_fix (\<lambda>f. f\<lparr>flags := {}\<rparr>) (emit (LocationFix (loc r)) r) else r)"

definition nmea_reader_parse :: "clock \<Rightarrow> GpsCallbacks \<Rightarrow> NmeaReader \<Rightarrow> NmeaReader ck" where
  "nmea_reader_parse k cb r =
     (if pos r < 9 then Inr r
      else
        (let r1 = (if nmea_cb cb
                   then (emit (NmeaSentence (millis_at k (ticks r)) (take (pos r) (rin r))) r)\<lparr>ticks := ticks r + 1\<rparr>
                   else r)
         in bindr (nmea_tokenizer_init (rin r1) 0 (pos r1)) (\<lambda>ts.
              (let tok = nmea_tokenizer_get ts 0
               in if tend tok < tp tok + 5 then Inr r1
                  else
                    bindr (rds (tmem tok) (tp tok + 2) 3) (\<lambda>id3.
                    bindr (parse_sentence k ts id3 r1) (\<lambda>r2.
                      Inr (report_fix (report_sv cb (nmea_reader_update_accuracy r2)))))))))"

definition nmea_reader_addc :: "clock \<Rightarrow> GpsCallbacks \<Rightarrow> NmeaReader \<Rightarrow> byte \<Rightarrow> NmeaReader ck" where
  "nmea_reader_addc k cb r c =
     (if overflow r then Inr (r\<lparr>overflow := (c \<noteq> LF)\<rparr>)
      else if NMEA_MAX_SIZE \<le> pos r then Inr (r\<lparr>overflow := True, pos := 0\<rparr>)
      else
        bindr (wr (rin r) (pos r) c) (\<lambda>m.
          (let r1 = r\<lparr>rin := m, pos := pos r + 1\<rparr>
           in if c = LF then bindr (nmea_reader_parse k cb r1) (\<lambda>r2. Inr (r2\<lparr>pos := 0\<rparr>))
              else Inr r1)))"

fun nmea_feed :: "clock \<Rightarrow> GpsCallbacks \<Rightarrow> NmeaReader \<Rightarrow> byte list \<Rightarrow> NmeaReader ck" where
  "nmea_feed k cb r [] = Inr r"
| "nmea_feed k cb r (c # cs) = bindr (nmea_reader_addc k cb r c) (\<lambda>r1. nmea_feed k cb r1 cs)"

end
