(* ===== verification/NmeaNumbers.thy ===== *)
theory NmeaNumbers
  imports NmeaTokens GpsReader
begin

text \<open>
  What the number parsers of \<open>testcode/android/libgps/gps_neu.c\<close> make of decimal texts.
\<close>

subsection \<open>Decimal texts\<close>

definition dig :: "nat \<Rightarrow> byte" where
  "dig d = of_nat (48 + d)"

lemma nat_below_10: "d < 10 \<longleftrightarrow> d \<in> {0, 1, 2, 3, 4, 5, 6, 7, 8, 9 :: nat}"
  by auto

lemma digit_val_dig [simp]: "d < 10 \<Longrightarrow> digit_val (dig d) = Some (int d)"
  unfolding nat_below_10 by (auto simp: digit_val_def dig_def)

lemma dig_plain: "d < 10 \<Longrightarrow> dig d \<noteq> COMMA \<and> dig d \<noteq> 0 \<and> dig d \<noteq> 45 \<and> dig d \<noteq> 43 \<and> dig d \<noteq> 46 \<and> \<not> is_blank (dig d)
   \<and> lower (dig d) = dig d \<and> dig d \<noteq> 105 \<and> dig d \<noteq> 110 \<and> dig d \<noteq> 120 \<and> dig d \<noteq> DOLLAR \<and> dig d \<noteq> LF
   \<and> dig d \<noteq> CR \<and> dig d \<noteq> STAR"
  unfolding nat_below_10 by (auto simp: dig_def is_blank_def lower_def)

text \<open>The number a list of digits stands for, and the digits of a number.\<close>

definition dvalue :: "nat list \<Rightarrow> nat" where
  "dvalue ds = foldl (\<lambda>a d. a * 10 + d) 0 ds"

fun digs :: "nat \<Rightarrow> nat list" where
  "digs n = (if n < 10 then [n] else digs (n div 10) @ [n mod 10])"

declare digs.simps [simp del]

definition dec_text :: "nat \<Rightarrow> byte list" where
  "dec_text n = map dig (digs n)"

lemma dvalue_snoc [simp]: "dvalue (ds @ [d]) = dvalue ds * 10 + d"
  by (simp add: dvalue_def)

lemma dvalue_Nil [simp]: "dvalue [] = 0"
  by (simp add: dvalue_def)

lemma dvalue_digs [simp]: "dvalue (digs n) = n"
proof (induction n rule: digs.induct)
  case (1 n)
  then show ?case
    using dvalue_snoc [of "[]" n] by (subst digs.simps) simp
qed

lemma digs_range: "list_all (\<lambda>d. d < 10) (digs n)" and digs_ne [simp]: "digs n \<noteq> []"
proof (induction n rule: digs.induct)
  case (1 n)
  { case 1 then show ?case using "1.IH" by (subst digs.simps) simp }
  { case 2 then show ?case by (subst digs.simps) simp }
qed

lemma dvalue_append: "dvalue (xs @ ys) = dvalue xs * 10 ^ length ys + dvalue ys"
proof (induction ys rule: rev_induct)
  case (snoc y ys)
  have "dvalue (xs @ ys @ [y]) = dvalue (xs @ ys) * 10 + y"
    using dvalue_snoc [of "xs @ ys" y] by simp
  then show ?case using snoc by (simp add: algebra_simps)
qed simp

lemma dvalue_less: "list_all (\<lambda>d. d < 10) ds \<Longrightarrow> dvalue ds < 10 ^ length ds"
  by (induction ds rule: rev_induct) auto

lemma dvalue_take: "dvalue (take k ds) \<le> dvalue ds"
proof -
  have "dvalue (take k ds) * 1 \<le> dvalue (take k ds) * 10 ^ length (drop k ds)" by (intro mult_le_mono) simp_all
  moreover have "dvalue ds = dvalue (take k ds) * 10 ^ length (drop k ds) + dvalue (drop k ds)"
    using dvalue_append [of "take k ds" "drop k ds"] by (simp only: append_take_drop_id)
  ultimately show ?thesis by linarith
qed

subsection \<open>Integers\<close>

lemma str2int_loop_digits:
  assumes "list_all (\<lambda>d. d < 10) ds" and "drop p m = map dig ds @ post"
    and "dvalue (ds0 @ ds) < 2 ^ 31"
  shows "str2int_loop m p (length ds) (int (dvalue ds0)) = Inr (int (dvalue (ds0 @ ds)))"
  using assms
proof (induction ds arbitrary: p ds0)
  case (Cons d ds)
  have p: "p < length m" "m ! p = dig d"
    using Cons.prems(2) by (metis append_Cons drop_eq_Nil list.distinct(1) list.simps(9) not_le,
      metis append_Cons drop_eq_Nil hd_drop_conv_nth linorder_not_le list.distinct(1) list.sel(1) list.simps(9))
  have rest: "drop (Suc p) m = map dig ds @ post"
    using Cons.prems(2) by (metis append_Cons drop_Suc list.sel(3) list.simps(9) tl_drop)
  have "dvalue (ds0 @ [d]) \<le> dvalue (ds0 @ d # ds)"
    using dvalue_take [of "Suc (length ds0)" "ds0 @ d # ds"] by simp
  then have small: "dvalue ds0 * 10 + d < 2 ^ 31" using Cons.prems(3) by simp
  then have "int (dvalue ds0 * 10 + d) < 2 ^ 31" by (metis of_nat_less_iff of_nat_numeral of_nat_power)
  then have w: "wrap32 (int (dvalue ds0) * 10 + int d) = int (dvalue (ds0 @ [d]))"
    by (subst wrap32_id) simp_all
  have "str2int_loop m (Suc p) (length ds) (int (dvalue (ds0 @ [d]))) = Inr (int (dvalue ((ds0 @ [d]) @ ds)))"
    using Cons.prems(1,3) rest by (intro Cons.IH) simp_all
  then show ?case using Cons.prems(1) p w by simp
qed simp

lemma str2int_digits:
  assumes "list_all (\<lambda>d. d < 10) ds" "ds \<noteq> []" "dvalue ds < 2 ^ 31"
    and "drop p m = map dig ds @ post" and "e = p + length ds"
  shows "str2int m p e = Inr (int (dvalue ds))"
  using str2int_loop_digits [OF assms(1,4), of "[]"] assms(2,3,5) by (simp add: str2int_def)

text \<open>
  Reading back a decimal number: a field that holds the digits of a number below
  \<open>2 ^ 31\<close> has that value, wherever it stands.
\<close>

theorem nmea_str2int_roundtrip:
  assumes "n < 2 ^ 31"
  shows "str2int (pre @ dec_text n @ post) (length pre) (length pre + length (dec_text n)) = Inr (int n)"
  using str2int_digits [OF digs_range digs_ne, of n "length pre" "pre @ dec_text n @ post" post] assms
  by (simp add: dec_text_def)

theorem nmea_str2int_roundtrip_witness:
  "str2int (bytes ''GSV,3142,'') 4 8 = Inr 3142"
proof -
  have l: "length (bytes ''GSV,'') = 4" "4 + length (dec_text 3142) = 8"
    by (simp_all add: dec_text_def digs.simps)
  have x: "bytes ''GSV,'' @ dec_text 3142 @ bytes '','' = bytes ''GSV,3142,''"
    by (simp add: dec_text_def digs.simps dig_def ascii_def)
  have "(3142 :: nat) < 2 ^ 31" by simp
  from nmea_str2int_roundtrip [OF this, of "bytes ''GSV,''" "bytes '',''", unfolded l x] show ?thesis
    by (simp only: of_nat_numeral)
qed

subsection \<open>Decimal fractions\<close>

lemma scan_digits_run:
  assumes "list_all (\<lambda>d. d < 10) ds" and "\<And>c cs. r = c # cs \<Longrightarrow> digit_val c = None"
  shows "scan_digits digit_val 10 (int (dvalue ds0)) k (map dig ds @ r) = (int (dvalue (ds0 @ ds)), k + length ds, r)"
  using assms(1)
proof (induction ds arbitrary: ds0 k)
  case Nil
  then show ?case using assms(2) by (cases r) simp_all
next
  case (Cons d ds)
  have "int (dvalue ds0) * 10 + int d = int (dvalue (ds0 @ [d]))" by simp
  then show ?case using Cons.IH [of "ds0 @ [d]" "Suc k"] Cons.prems by simp
qed

text \<open>A delimiter after a number: not a digit, not a point, not an exponent mark.\<close>

definition delimiter :: "byte \<Rightarrow> bool" where
  "delimiter c \<longleftrightarrow> c \<in> {COMMA, STAR, CR, LF}"

lemma strtod_decimal:
  assumes "list_all (\<lambda>d. d < 10) ds" "ds \<noteq> []" "list_all (\<lambda>d. d < 10) fs" "delimiter c"
  shows "strtod (map dig ds @ 46 # map dig fs @ [c]) =
    Fin (of_nat (dvalue ds) + of_nat (dvalue fs) / 10 ^ length fs)"
proof -
  define x where "x = map dig ds @ 46 # map dig fs @ [c]"
  have c: "c \<noteq> 0" "digit_val c = None" "c \<notin> {101, 69}" using assms(4) by (auto simp: delimiter_def digit_val_def)
  obtain d ds' where ds: "ds = d # ds'" "d < 10" using assms(1,2) by (cases ds) auto
  have ds10: "\<forall>d \<in> set ds. d < 10" and fs10: "\<forall>d \<in> set fs. d < 10" using assms(1,3) by (simp_all add: list_all_iff)
  have "\<forall>b \<in> set x. b \<noteq> 0" using c(1) dig_plain ds10 fs10 by (fastforce simp: x_def)
  then have str: "c_string x = x" unfolding c_string_def takeWhile_eq_all_conv by blast
  have s1: "scan_digits digit_val 10 0 0 x = (int (dvalue ds), length ds, 46 # map dig fs @ [c])"
    using scan_digits_run [OF assms(1), of "46 # map dig fs @ [c]" "[]" 0] by (simp add: digit_val_def x_def)
  have s2: "scan_digits digit_val 10 (int (dvalue ds)) 0 (map dig fs @ [c]) = (int (dvalue (ds @ fs)), length fs, [c])"
    using scan_digits_run [OF assms(3), of "[c]" ds 0] c(2) by simp
  have man: "scan_mantissa digit_val 10 x = (int (dvalue (ds @ fs)), length fs, length ds + length fs, [c])"
    using s1 s2 by (simp add: scan_mantissa_def)
  have ex: "scan_exponent {101, 69} [c] = 0" using c(3) by (simp add: scan_exponent_def)
  have nx: "map lower (take 2 x) \<noteq> bytes ''0x''"
  proof (cases ds')
    case Nil then show ?thesis by (simp add: ds lower_def ascii_def x_def)
  next
    case (Cons d' ds'')
    then show ?thesis using dig_plain [of d'] ds10 by (simp add: ds ascii_def x_def)
  qed
  have ni: "map lower (take 3 x) \<notin> {bytes ''inf'', bytes ''nan''}"
    using dig_plain [OF ds(2)] by (simp add: ds ascii_def x_def)
  have "strtod_abs x = Fin (of_int (int (dvalue (ds @ fs))) * rat_power 10 0 * inverse (10 ^ length fs))"
    using nx ni ds by (simp add: strtod_abs_def man ex split: prod.split)
  also have "\<dots> = Fin (of_nat (dvalue ds) + of_nat (dvalue fs) / 10 ^ length fs)"
    by (simp add: rat_power_def dvalue_append field_simps)
  finally have ab: "strtod_abs x = Fin (of_nat (dvalue ds) + of_nat (dvalue fs) / 10 ^ length fs)" .
  have "dropWhile is_blank x = x" using dig_plain [OF ds(2)] by (simp add: ds x_def)
  then show ?thesis using str ab dig_plain [OF ds(2)] by (simp add: strtod_def ds x_def)
qed


subsection \<open>Degrees and minutes\<close>

text \<open>A token whose text is followed by a delimiter.\<close>

definition token_text :: "Token \<Rightarrow> byte list \<Rightarrow> bool" where
  "token_text t xs \<longleftrightarrow> tend t = tp t + length xs \<and> (\<exists>c post. delimiter c \<and> drop (tp t) (tmem t) = xs @ c # post)"

lemma tok_float_decimal:
  assumes "token_text t (map dig ds @ 46 # map dig fs)" "list_all (\<lambda>d. d < 10) ds" "ds \<noteq> []"
    "list_all (\<lambda>d. d < 10) fs" "length ds + length fs < 30"
  shows "tok_float t = Inr (Fin (of_nat (dvalue ds) + of_nat (dvalue fs) / 10 ^ length fs))"
proof -
  obtain c post where c: "delimiter c" "drop (tp t) (tmem t) = map dig ds @ 46 # map dig fs @ c # post"
    and e: "tend t = tp t + (length ds + Suc (length fs))"
    using assms(1) by (auto simp: token_text_def)
  have len: "length (tmem t) - tp t = length ds + Suc (length fs) + Suc (length post)"
    using arg_cong [OF c(2), of length] by simp
  have r: "rds (tmem t) (tp t) (length ds + length fs + 2) = Inr (map dig ds @ 46 # map dig fs @ [c])"
    using len c(2) by simp
  have "length ds + length fs + 2 < 32" using assms(5) by simp
  then show ?thesis
    using r strtod_decimal [OF assms(2,3,4) c(1)] by (simp add: tok_float_def str2float_def e)
qed

text \<open>
  A coordinate \<open>dddmm.mmmm\<close> becomes \<open>ddd + mm.mmmm / 60\<close> degrees, exactly.
\<close>

theorem nmea_convert_degrees:
  assumes "token_text t (map dig ds @ map dig [m1, m2] @ 46 # map dig fs)"
    and "list_all (\<lambda>d. d < 10) ds" "m1 < 10" "m2 < 10" "list_all (\<lambda>d. d < 10) fs"
    and "length ds \<le> 3" "length fs < 20"
  shows "convert_from_hhmm t =
    Inr (Fin (of_nat (dvalue ds) + (of_nat (m1 * 10 + m2) + of_nat (dvalue fs) / 10 ^ length fs) / 60))"
proof -
  let ?D = "dvalue ds" and ?M = "m1 * 10 + m2" and ?f = "of_nat (dvalue fs) / 10 ^ length fs :: rat"
  have v: "dvalue (ds @ [m1, m2]) = ?D * 100 + ?M"
    using dvalue_snoc [of "ds @ [m1]" m2] dvalue_snoc [of ds m1] by simp
  have tf: "tok_float t = Inr (Fin (of_nat (?D * 100 + ?M) + ?f))"
    using tok_float_decimal [of t "ds @ [m1, m2]" fs] assms v by simp
  have f: "0 \<le> ?f" "?f < 1"
  proof -
    have "dvalue fs < 10 ^ length fs" by (rule dvalue_less [OF assms(5)])
    then have "(of_nat (dvalue fs) :: rat) < 10 ^ length fs" by (metis of_nat_less_iff of_nat_numeral of_nat_power)
    then show "0 \<le> ?f" "?f < 1" by simp_all
  qed
  have fl: "\<lfloor>(of_nat (?D * 100 + ?M) :: rat) + ?f\<rfloor> = int (?D * 100 + ?M)"
    using f by (intro floor_unique) simp_all
  have "?M < 100" using assms(3,4) by simp
  then have fq: "\<lfloor>(of_int (int (?D * 100 + ?M)) :: rat) / 100\<rfloor> = int ?D"
    by (intro floor_unique) (simp_all add: field_simps)
  have "?D < 10 ^ 3"
  proof -
    have "?D < 10 ^ length ds" by (rule dvalue_less [OF assms(2)])
    also have "(10 :: nat) ^ length ds \<le> 10 ^ 3" using assms(6) by (intro power_increasing) simp_all
    finally show ?thesis .
  qed
  then have small: "int ?D < 2 ^ 31" by simp
  have di: "dbl_int (Fin ((of_int (int (?D * 100 + ?M)) :: rat) / 100)) = Inr (int ?D)"
    using fq small by (simp add: dbl_int_def Let_def del: of_int_of_nat_eq)
  show ?thesis
    unfolding convert_from_hhmm_def tf floor_dbl_def bindr.simps dmap_simps fl di
    by (simp add: field_simps)
qed


theorem nmea_convert_degrees_witness:
  "convert_from_hhmm \<lparr>tmem = bytes ''4807.038,N'', tp = 0, tend = 8\<rparr> = Inr (Fin (48 + (7 + 38 / 1000) / 60))"
proof -
  have "token_text \<lparr>tmem = bytes ''4807.038,N'', tp = 0, tend = 8\<rparr>
      (map dig [4, 8] @ map dig [0, 7] @ 46 # map dig [0, 3, 8])"
    by (simp add: token_text_def dig_def ascii_def delimiter_def)
  from nmea_convert_degrees [OF this] show ?thesis by (simp add: dvalue_def)
qed

end
