(* ===== verification/NmeaSafe.thy ===== *)
theory NmeaSafe
  imports NmeaNumbers
begin

text \<open>
  What the reader of \<open>testcode/android/libgps/gps_neu.c\<close> does to its buffers on arbitrary
  input.
\<close>

subsection \<open>Tokens of a line\<close>

text \<open>
  A token of a complete line lies inside its buffer and is followed by a character that is
  not a digit: a comma, the checksum mark or the line end.
\<close>

definition tok_ok :: "Token \<Rightarrow> bool" where
  "tok_ok t \<longleftrightarrow> tp t \<le> tend t \<and> tend t < length (tmem t) \<and> digit_val (tmem t ! tend t) = None"

lemma tokenizer_line:
  assumes "e \<le> length m" "0 < e" "m ! (e - 1) = LF"
  obtains ts where "nmea_tokenizer_init m 0 e = Inr ts" "list_all tok_ok ts"
proof -
  obtain p1 where 1: "skip_dollar m 0 e = Inr p1" "p1 < e"
  proof (cases "m ! 0 = DOLLAR")
    case True
    then have "e \<noteq> 1" using assms(3) by auto
    then have "1 < e" "0 < length m" using assms(1,2) by linarith+
    then show ?thesis using that [of 1] True by (simp add: skip_dollar_def)
  next
    case False
    moreover have "0 < length m" using assms(1,2) by linarith
    ultimately show ?thesis using that [of 0] assms(2) by (simp add: skip_dollar_def)
  qed
  obtain e1 where 2: "drop_newline m p1 e = Inr e1" "p1 \<le> e1" "e1 < e" "m ! e1 = LF \<or> m ! e1 = CR"
  proof (cases "p1 < e - 1 \<and> m ! (e - 2) = CR")
    case True
    then have "drop_newline m p1 e = Inr (e - 2)" using 1 assms by (simp add: drop_newline_def)
    then show ?thesis using that [of "e - 2"] True by linarith
  next
    case False
    then show ?thesis
      using that [of "e - 1"] 1 assms by (auto simp: drop_newline_def)
  qed
  obtain e2 where 3: "drop_checksum m p1 e1 = Inr e2" "e2 \<le> e1" "m ! e2 \<in> {LF, CR, STAR}"
  proof (cases "p1 + 3 \<le> e1 \<and> m ! (e1 - 3) = STAR")
    case True
    then show ?thesis
      using that [of "e1 - 3"] 2 assms by (simp add: drop_checksum_def)
  next
    case False
    then show ?thesis
      using that [of e1] 2 assms by (auto simp: drop_checksum_def)
  qed
  have "e2 < length m" using 2 3 assms by simp
  then obtain ts where ts: "token_loop m p1 e2 [] = Inr ts" "list_all (token_in m e2) ts"
    using token_loop_ok [of e2 m "[]" p1] by auto
  have "tok_ok t" if "token_in m e2 t" for t
    using that 3(3) \<open>e2 < length m\<close> by (cases "tend t < e2") (auto simp: tok_ok_def token_in_def digit_val_def)
  then have "list_all tok_ok ts" using ts(2) by (simp add: list_all_iff)
  then show ?thesis using that [of ts] ts 1 2 3 by (simp add: nmea_tokenizer_init_def)
qed

lemma tok_ok_get: "list_all tok_ok ts \<Longrightarrow> tok_ok (nmea_tokenizer_get ts i)"
  by (auto simp: nmea_tokenizer_get_def list_all_length) (simp add: tok_ok_def digit_val_def)

lemma tok_char_ok: "tok_ok t \<Longrightarrow> \<exists>c. tok_char t 0 = Inr c"
  by (simp add: tok_ok_def tok_char_def)

lemma str2int_loop_ok: "p + n \<le> length m \<Longrightarrow> \<exists>i. str2int_loop m p n acc = Inr i"
  by (induction m p n acc rule: str2int_loop.induct) (auto split: option.split)

lemma str2int_ok: "e \<le> length m \<Longrightarrow> \<exists>i. str2int m p e = Inr i"
  using str2int_loop_ok [of p "e - p" m 0] by (cases "p \<le> e") (auto simp: str2int_def)

text \<open>A character that is not a digit stops the reading.\<close>

lemma str2int_loop_stop:
  "p \<le> i \<Longrightarrow> i < p + n \<Longrightarrow> i < length m \<Longrightarrow> digit_val (m ! i) = None \<Longrightarrow> str2int_loop m p n acc = Inr (- 1)"
proof (induction m p n acc rule: str2int_loop.induct)
  case (2 m p n acc)
  then show ?case by (cases "p = i") (auto split: option.split)
qed simp

lemma tok_int_ok: "tok_ok t \<Longrightarrow> \<exists>i. tok_int t = Inr i"
  using str2int_ok by (auto simp: tok_int_def tok_ok_def)

lemma str2float_ok: "e < length m \<Longrightarrow> p \<le> e \<Longrightarrow> \<exists>d. str2float m p e = Inr d"
  by (cases "32 \<le> e - p + 1") (simp_all add: str2float_def Let_def)

lemma tok_float_ok: "tok_ok t \<Longrightarrow> \<exists>d. tok_float t = Inr d"
  unfolding tok_float_def tok_ok_def by (blast intro: str2float_ok)

lemma dbl_int_ok: "ends_or {BadCast} (\<lambda>_. True) (dbl_int d)"
  by (simp add: dbl_int_def Let_def split: dbl.split)

subsection \<open>What an update keeps\<close>

text \<open>The line buffer, the satellites and the callbacks.\<close>

definition keeps :: "NmeaReader \<Rightarrow> NmeaReader \<Rightarrow> bool" where
  "keeps r s \<longleftrightarrow> rin s = rin r \<and> pos s = pos r \<and> overflow s = overflow r \<and> sv_status s = sv_status r
     \<and> sv_status_changed s = sv_status_changed r \<and> callback s = callback r \<and> events s = events r
     \<and> utc_diff s = utc_diff r"

lemma reader_keeps_refl [simp]: "keeps r r"
  by (simp add: keeps_def)

lemma reader_keeps_trans: "keeps r s \<Longrightarrow> keeps s t \<Longrightarrow> keeps r t"
  by (simp add: keeps_def)

abbreviation (input) upd_ok :: "NmeaReader \<Rightarrow> (int \<times> NmeaReader) ck \<Rightarrow> bool" where
  "upd_ok r c \<equiv> ends_or {BadCast} (\<lambda>(st, s). keeps r s) c"

lemma update_time_ok:
  assumes "tok_ok t" shows "upd_ok r (nmea_reader_update_time k r t)"
proof (cases "tend t < tp t + 6")
  case False
  let ?m = "tmem t"
  have len: "tp t + 4 \<le> length ?m" using False assms by (simp add: tok_ok_def)
  obtain a b where ab: "str2int ?m (tp t) (tp t + 2) = Inr a" "str2int ?m (tp t + 2) (tp t + 4) = Inr b"
    using str2int_ok [of "tp t + 2" ?m "tp t"] str2int_ok [of "tp t + 4" ?m "tp t + 2"] len by auto
  obtain d where d: "str2float ?m (tp t + 4) (tend t) = Inr d"
    using False assms str2float_ok [of "tend t" ?m "tp t + 4"] by (auto simp: tok_ok_def)
  have cd: "keeps r (current_date k r)" by (simp add: current_date_def keeps_def Let_def)
  have "keeps r (upd_fix (\<lambda>f. f\<lparr>timestamp := i\<rparr>) (current_date k r))" for i
    using cd by (simp add: keeps_def)
  then show ?thesis
    using False dbl_int_ok [of d]
    unfolding nmea_reader_update_time_def Let_def ab d bindr.simps
    by (cases "dbl_int d") simp_all
qed (simp add: nmea_reader_update_time_def)

lemma update_date_ok:
  assumes "tok_ok d" "tok_ok t" shows "upd_ok r (nmea_reader_update_date k r d t)"
proof (cases "tp d + 6 = tend d")
  case True
  let ?m = "tmem d"
  have len: "tp d + 6 \<le> length ?m" using True assms(1) by (simp add: tok_ok_def)
  obtain a b c where abc: "str2int ?m (tp d) (tp d + 2) = Inr a" "str2int ?m (tp d + 2) (tp d + 4) = Inr b"
    "str2int ?m (tp d + 4) (tp d + 6) = Inr c"
    using str2int_ok [of "tp d + 2" ?m "tp d"] str2int_ok [of "tp d + 4" ?m "tp d + 2"]
      str2int_ok [of "tp d + 6" ?m "tp d + 4"] len by auto
  let ?r = "r\<lparr>utc_year := c + 2000, utc_mon := b, utc_day := a\<rparr>"
  have "keeps r ?r" by (simp add: keeps_def)
  then have "upd_ok r (nmea_reader_update_time k ?r t)"
    using ends_or_mono [OF update_time_ok [OF assms(2), of ?r k]] reader_keeps_trans by fastforce
  then show ?thesis using True unfolding nmea_reader_update_date_def Let_def abc bindr.simps by simp
qed (simp add: nmea_reader_update_date_def)

text \<open>The year of a \<open>ZDA\<close> sentence never parses: the reading runs into the delimiter.\<close>

lemma cdate_year:
  assumes "tok_ok y" shows "str2int (tmem y) (tp y) (tend y + 4) = Inr (- 1)"
proof -
  have le: "tp y \<le> tend y" "tend y < length (tmem y)" "digit_val (tmem y ! tend y) = None"
    using assms by (simp_all add: tok_ok_def)
  then have "str2int_loop (tmem y) (tp y) (tend y + 4 - tp y) 0 = Inr (- 1)"
    by (intro str2int_loop_stop [of _ "tend y"]) simp_all
  then show ?thesis using le(1) by (simp add: str2int_def)
qed

lemma update_cdate_ok:
  assumes "tok_ok d" "tok_ok m" "tok_ok y" shows "upd_ok r (nmea_reader_update_cdate r d m y)"
proof (cases "tend d < tp d + 2 \<or> tend m < tp m + 2 \<or> tend y < tp y + 4")
  case False
  obtain a b where ab: "str2int (tmem d) (tp d) (tp d + 2) = Inr a" "str2int (tmem m) (tp m) (tp m + 2) = Inr b"
    using str2int_ok [of "tp d + 2" "tmem d" "tp d"] str2int_ok [of "tp m + 2" "tmem m" "tp m"] False assms
    by (auto simp: tok_ok_def)
  show ?thesis
    using False unfolding nmea_reader_update_cdate_def ab cdate_year [OF assms(3)] bindr.simps
    by (simp add: keeps_def)
qed (simp add: nmea_reader_update_cdate_def)

lemma convert_ok: "tok_ok t \<Longrightarrow> ends_or {BadCast} (\<lambda>_. True) (convert_from_hhmm t)"
  using tok_float_ok [of t] dbl_int_ok
  by (auto simp: convert_from_hhmm_def intro!: ends_or_bind [OF dbl_int_ok])

lemma update_latlong_ok:
  assumes "tok_ok a" "tok_ok b" shows "upd_ok r (nmea_reader_update_latlong r a ah b bh)"
  using convert_ok [OF assms(1)] convert_ok [OF assms(2)]
  by (auto simp: nmea_reader_update_latlong_def Let_def keeps_def intro!: ends_or_bind)

lemma update_motion_ok:
  assumes "tok_ok t"
  shows "upd_ok r (nmea_reader_update_altitude r t u)" "upd_ok r (nmea_reader_update_bearing r t)"
    "upd_ok r (nmea_reader_update_speed r t)"
  using tok_float_ok [OF assms]
  by (auto simp: nmea_reader_update_altitude_def nmea_reader_update_bearing_def nmea_reader_update_speed_def keeps_def)


subsection \<open>Sentences\<close>

text \<open>A reader whose buffers have their sizes and whose satellites fit the list.\<close>

definition reader_ok :: "nat \<Rightarrow> NmeaReader \<Rightarrow> bool" where
  "reader_ok N r \<longleftrightarrow> length (rin r) = NMEA_MAX_SIZE + 1 \<and> pos r \<le> NMEA_MAX_SIZE
     \<and> length (sv_list (sv_status r)) = N \<and> num_svs (sv_status r) \<le> N"

lemma keeps_ok: "keeps r s \<Longrightarrow> reader_ok N s = reader_ok N r"
  by (simp add: keeps_def reader_ok_def)

abbreviation (input) same_line :: "NmeaReader \<Rightarrow> NmeaReader \<Rightarrow> bool" where
  "same_line r s \<equiv> rin s = rin r \<and> pos s = pos r \<and> overflow s = overflow r \<and> callback s = callback r
     \<and> events s = events r"

definition step_ok :: "nat \<Rightarrow> NmeaReader \<Rightarrow> NmeaReader \<Rightarrow> bool" where
  "step_ok N r s \<longleftrightarrow> reader_ok N s \<and> same_line r s"

lemma ends_step_from:
  assumes "ends_or E (step_ok N s) c" and "same_line r s"
  shows "ends_or E (step_ok N r) c"
  using assms(1) by (rule ends_or_mono) (simp add: step_ok_def assms(2))

lemma keeps_step: "reader_ok N r \<Longrightarrow> keeps r s \<Longrightarrow> step_ok N r s"
  unfolding step_ok_def using keeps_ok [of r s N] by (simp add: keeps_def)

lemma after_ok:
  assumes "upd_ok r c" and "keeps r0 r" and "\<And>s. keeps r0 s \<Longrightarrow> ends_or {BadCast} P (f s)"
  shows "ends_or {BadCast} P (bindr c (\<lambda>(st, s). f s))"
  using assms reader_keeps_trans by (cases c) auto

lemma tok0_ok: "tok_ok t \<Longrightarrow> (\<And>c. ends_or E P (f c)) \<Longrightarrow> ends_or E P (bindr (tok_char t 0) f)"
  using tok_char_ok by fastforce

text \<open>The sentences without satellites keep everything but the fix, the date and the clock.\<close>

lemma parse_fix_ok:
  assumes "list_all tok_ok ts"
  shows "ends_or {BadCast} (keeps r) (parse_gga k ts r)" "ends_or {BadCast} (keeps r) (parse_gll k ts r)"
    "ends_or {BadCast} (keeps r) (parse_rmc k ts r)" "ends_or {BadCast} (keeps r) (parse_vtg ts r)"
    "ends_or {BadCast} (keeps r) (parse_zda k ts r)"
proof -
  note g = tok_ok_get [OF assms]
  note step = after_ok [where ?r0.0 = r, OF update_time_ok] after_ok [where ?r0.0 = r, OF update_date_ok] after_ok [where ?r0.0 = r, OF update_latlong_ok]
    after_ok [where ?r0.0 = r, OF update_motion_ok(1)] after_ok [where ?r0.0 = r, OF update_motion_ok(2)] after_ok [where ?r0.0 = r, OF update_motion_ok(3)]
    after_ok [where ?r0.0 = r, OF update_cdate_ok]
  have fin: "keeps r s \<Longrightarrow> ends_or {BadCast} (keeps r) (Inr s)" for s by simp
  show "ends_or {BadCast} (keeps r) (parse_gga k ts r)" unfolding parse_gga_def Let_def
    by (intro step tok0_ok g fin reader_keeps_refl; assumption)
  show "ends_or {BadCast} (keeps r) (parse_gll k ts r)" unfolding parse_gll_def Let_def if_distrib [where f = "ends_or _ _"]
    by (rule tok0_ok [OF g]) (simp only: fin reader_keeps_refl if_split simp_thms, intro impI step tok0_ok g fin reader_keeps_refl; assumption)
  show "ends_or {BadCast} (keeps r) (parse_rmc k ts r)" unfolding parse_rmc_def Let_def
    by (rule tok0_ok [OF g]) (simp only: fin reader_keeps_refl if_split simp_thms, intro impI step tok0_ok g fin reader_keeps_refl; assumption)
  show "ends_or {BadCast} (keeps r) (parse_vtg ts r)" unfolding parse_vtg_def Let_def
    by (rule tok0_ok [OF g]) (simp only: fin reader_keeps_refl if_split simp_thms, intro impI step tok0_ok g fin reader_keeps_refl; assumption)
  have opt: "ends_or {BadCast} (keeps r) (if b then c else Inr s)"
    if "keeps r s" "ends_or {BadCast} (keeps r) c" for b c s using that by simp
  show "ends_or {BadCast} (keeps r) (parse_zda k ts r)" unfolding parse_zda_def Let_def
    by (intro tok0_ok g ends_or_bind [where Q = "keeps r"] opt step fin reader_keeps_refl; assumption)
qed

lemma gsa_loop_ok:
  "list_all tok_ok ts \<Longrightarrow> reader_ok N r \<Longrightarrow> ends_or {} (step_ok N r) (gsa_loop ts is r)"
proof (induction ts "is" r rule: gsa_loop.induct)
  case (2 ts i "is" r)
  obtain n where n: "tok_int (nmea_tokenizer_get ts i) = Inr n" using tok_int_ok tok_ok_get 2 by blast
  let ?r = "if 0 < n \<and> n < 33 then
            upd_sv (\<lambda>s. s\<lparr>used_in_fix_mask := used_in_fix_mask s OR push_bit (nat (n - 1)) 1\<rparr>)
              (r\<lparr>sv_status_changed := True, gsa_fixed := True\<rparr>) else r"
  have ok: "reader_ok N ?r" and sl: "same_line r ?r" using 2(3) by (simp_all add: reader_ok_def)
  have "ends_or {} (step_ok N r) (gsa_loop ts is ?r)"
    by (rule ends_step_from [OF "2.IH" [OF n 2(2) ok] sl])
  then show ?case by (simp only: gsa_loop.simps n bindr.simps)
qed (simp add: step_ok_def)

lemma parse_gsa_ok:
  "list_all tok_ok ts \<Longrightarrow> reader_ok N r \<Longrightarrow> ends_or {} (step_ok N r) (parse_gsa ts r)"
proof -
  assume ts: "list_all tok_ok ts" and ok: "reader_ok N r"
  let ?r = "upd_sv (\<lambda>s. s\<lparr>used_in_fix_mask := 0\<rparr>) r"
  have r: "reader_ok N ?r" using ok by (simp add: reader_ok_def)
  have 1: "ends_or {} (step_ok N r) (gsa_loop ts [3..<15] ?r)"
    by (rule ends_step_from [OF gsa_loop_ok [OF ts r]]) simp
  have 2: "step_ok N r (if gsa_fixed r
      then upd_sv (\<lambda>s. s\<lparr>used_in_fix_mask := 0\<rparr>) (r\<lparr>sv_status_changed := True, gsa_fixed := False\<rparr>) else r)"
    using ok by (simp add: step_ok_def reader_ok_def)
  show ?thesis
    unfolding parse_gsa_def by (rule tok0_ok [OF tok_ok_get [OF ts]]) (simp only: 1 2 ends_or.simps split: if_split, simp)
qed

lemma gsv_loop_ok:
  "list_all tok_ok ts \<Longrightarrow> reader_ok N r \<Longrightarrow> (int N < nos \<longrightarrow> OutOfBounds \<in> E) \<Longrightarrow>
     ends_or E (step_ok N r) (gsv_loop ts nos is r)"
proof (induction ts nos "is" r rule: gsv_loop.induct)
  case (2 ts nos i "is" r)
  note g = tok_ok_get [OF 2(2)]
  let ?n = "num_svs (sv_status r)"
  show ?case
  proof (cases "int ?n < nos")
    case True
    obtain p el az sn where v: "tok_int (nmea_tokenizer_get ts (i * 4 + 4)) = Inr p"
      "tok_float (nmea_tokenizer_get ts (i * 4 + 5)) = Inr el"
      "tok_float (nmea_tokenizer_get ts (i * 4 + 6)) = Inr az"
      "tok_float (nmea_tokenizer_get ts (i * 4 + 7)) = Inr sn"
      using tok_int_ok [OF g] tok_float_ok [OF g] by metis
    let ?x = "\<lparr>prn = p, elevation = el, azimuth = az, snr = sn\<rparr>"
    have len: "length (sv_list (sv_status r)) = N" using 2(3) by (simp add: reader_ok_def)
    show ?thesis
    proof (cases "?n < N")
      case room: True
      let ?l = "(sv_list (sv_status r))[?n := ?x]"
      have l: "wr (sv_list (sv_status r)) ?n ?x = Inr ?l" using room len by simp
      let ?r = "upd_sv (\<lambda>s. s\<lparr>num_svs := ?n + 1, sv_list := ?l\<rparr>) r"
      have ok: "reader_ok N ?r" "same_line r ?r" using 2(3) room by (simp_all add: reader_ok_def)
      have "ends_or E (step_ok N r) (gsv_loop ts nos is ?r)"
        by (rule ends_step_from [OF "2.IH" [OF refl refl True v l 2(2) ok(1) 2(4)] ok(2)])
      then show ?thesis using True v l by (simp add: Let_def)
    next
      case False
      then have "wr (sv_list (sv_status r)) ?n ?x = Inl OutOfBounds" using len by (simp add: wr_def)
      moreover have "OutOfBounds \<in> E" using False True 2(4) by simp
      ultimately show ?thesis using True v by (simp add: Let_def)
    qed
  qed (use 2(3) in \<open>simp add: step_ok_def\<close>)
qed (simp add: step_ok_def)

lemma parse_gsv_ok:
  assumes "list_all tok_ok ts" "reader_ok N r" "tok_int (nmea_tokenizer_get ts 3) = Inr n"
    and "int N < n \<longrightarrow> OutOfBounds \<in> E"
  shows "ends_or E (step_ok N r) (parse_gsv ts r)"
proof -
  note g = tok_ok_get [OF assms(1)]
  obtain a b where ab: "tok_int (nmea_tokenizer_get ts 2) = Inr a" "tok_int (nmea_tokenizer_get ts 1) = Inr b"
    using tok_int_ok [OF g] by metis
  let ?r = "if a = 1 then upd_sv (\<lambda>s. s\<lparr>num_svs := 0\<rparr>) (r\<lparr>sv_status_changed := False\<rparr>) else r"
  have ok: "reader_ok N ?r" "same_line r ?r" using assms(2) by (simp_all add: reader_ok_def)
  have "ends_or E (step_ok N ?r) (gsv_loop ts n [0..<4] ?r)" by (rule gsv_loop_ok [OF assms(1) ok(1) assms(4)])
  then have "ends_or E (step_ok N r) (bindr (gsv_loop ts n [0..<4] ?r) (\<lambda>r1.
      Inr (if a = b then r1\<lparr>sv_status_changed := True\<rparr> else r1)))"
    using ok(2) by (cases "gsv_loop ts n [0..<4] ?r") (auto simp: step_ok_def reader_ok_def)
  moreover have "step_ok N r r" using assms(2) by (simp add: step_ok_def)
  ultimately show ?thesis
    unfolding parse_gsv_def Let_def assms(3) ab bindr.simps by (cases "0 < n") simp_all
qed


text \<open>The sentence in the buffer is a \<open>GSV\<close> report of more satellites than the list holds.\<close>

definition too_many_svs :: "nat \<Rightarrow> byte list \<Rightarrow> nat \<Rightarrow> bool" where
  "too_many_svs N m e \<longleftrightarrow>
     (\<exists>ts n. nmea_tokenizer_init m 0 e = Inr ts \<and>
        rds (tmem (nmea_tokenizer_get ts 0)) (tp (nmea_tokenizer_get ts 0) + 2) 3 = Inr (bytes ''GSV'') \<and>
        tok_int (nmea_tokenizer_get ts 3) = Inr n \<and> int N < n)"

text \<open>
  The possible ends of a step: a good state, an undefined conversion, or the overrun of the
  satellite list by such a report.
\<close>

definition safe_step :: "nat \<Rightarrow> bool \<Rightarrow> NmeaReader ck \<Rightarrow> bool" where
  "safe_step N overrun c \<longleftrightarrow>
     (case c of Inr s \<Rightarrow> reader_ok N s | Inl e \<Rightarrow> e = BadCast \<or> e = OutOfBounds \<and> overrun)"

lemma sentence_ok:
  assumes "list_all tok_ok ts" "reader_ok N r" "tok_int (nmea_tokenizer_get ts 3) = Inr n"
    and "BadCast \<in> E" "id3 = bytes ''GSV'' \<Longrightarrow> int N < n \<Longrightarrow> OutOfBounds \<in> E"
  shows "ends_or E (reader_ok N) (parse_sentence k ts id3 r)"
proof -
  have nav: "ends_or E (reader_ok N) c" if "ends_or {BadCast} (keeps r) c" for c
    using that assms(2,4) by (cases c) (simp_all add: keeps_ok)
  have sat: "ends_or E (reader_ok N) c" if "ends_or E' (step_ok N r) c" "E' \<subseteq> E" for c E'
    using that by (cases c) (auto simp: step_ok_def)
  have gsv: "id3 = bytes ''GSV'' \<Longrightarrow> ends_or E (step_ok N r) (parse_gsv ts r)"
    using assms(5) by (intro parse_gsv_ok [OF assms(1-3)]) blast
  show ?thesis
    unfolding parse_sentence_def
    using nav parse_fix_ok [OF assms(1), of r] sat [OF parse_gsa_ok [OF assms(1,2)]] sat [OF gsv] assms(2)
    by (simp del: bytes_simps)
qed

lemma emit_ok [simp]: "reader_ok N (emit e r) = reader_ok N r"
  by (simp add: emit_def reader_ok_def)

lemma report_ok: "reader_ok N (report_fix (report_sv cb (nmea_reader_update_accuracy r))) = reader_ok N r"
  by (simp add: report_fix_def report_sv_def nmea_reader_update_accuracy_def emit_def reader_ok_def)

lemma parse_ok:
  assumes "reader_ok N r" "0 < pos r" "rin r ! (pos r - 1) = LF"
  shows "safe_step N (too_many_svs N (rin r) (pos r)) (nmea_reader_parse k cb r)"
proof (cases "pos r < 9")
  case True
  then show ?thesis using assms(1) by (simp add: nmea_reader_parse_def safe_step_def)
next
  case False
  define r1 where "r1 = (if nmea_cb cb
      then (emit (NmeaSentence (millis_at k (ticks r)) (take (pos r) (rin r))) r)\<lparr>ticks := ticks r + 1\<rparr> else r)"
  have r1: "reader_ok N r1" "rin r1 = rin r" "pos r1 = pos r"
    using assms(1) by (simp_all add: r1_def emit_def reader_ok_def)
  have "pos r \<le> length (rin r)" using assms(1) by (simp add: reader_ok_def)
  then obtain ts where ts: "nmea_tokenizer_init (rin r) 0 (pos r) = Inr ts" "list_all tok_ok ts"
    using tokenizer_line assms(2,3) by blast
  let ?t = "nmea_tokenizer_get ts 0"
  have P: "nmea_reader_parse k cb r = (if tend ?t < tp ?t + 5 then Inr r1
      else bindr (rds (tmem ?t) (tp ?t + 2) 3) (\<lambda>id3.
           bindr (parse_sentence k ts id3 r1) (\<lambda>r2.
             Inr (report_fix (report_sv cb (nmea_reader_update_accuracy r2))))))"
    unfolding nmea_reader_parse_def Let_def r1_def [symmetric] r1 ts(1) bindr.simps using False by simp
  show ?thesis
  proof (cases "tend ?t < tp ?t + 5")
    case True
    then show ?thesis using r1(1) by (simp add: P safe_step_def)
  next
    case long: False
    have "tok_ok ?t" by (rule tok_ok_get [OF ts(2)])
    then have "tp ?t + 2 + 3 \<le> length (tmem ?t)" using long by (simp add: tok_ok_def)
    then obtain id3 where id: "rds (tmem ?t) (tp ?t + 2) 3 = Inr id3" by simp
    obtain n where n: "tok_int (nmea_tokenizer_get ts 3) = Inr n"
      using tok_int_ok tok_ok_get [OF ts(2)] by blast
    let ?E = "if too_many_svs N (rin r) (pos r) then {BadCast, OutOfBounds} else {BadCast}"
    have "ends_or ?E (reader_ok N) (parse_sentence k ts id3 r1)"
      using ts(1) id n by (intro sentence_ok [OF ts(2) r1(1) n]) (auto simp: too_many_svs_def simp del: bytes_simps)
    moreover have "nmea_reader_parse k cb r = bindr (parse_sentence k ts id3 r1) (\<lambda>r2.
        Inr (report_fix (report_sv cb (nmea_reader_update_accuracy r2))))"
      unfolding P id bindr.simps using long by simp
    ultimately show ?thesis
      by (cases "parse_sentence k ts id3 r1") (auto simp: safe_step_def report_ok split: if_split_asm)
  qed
qed


subsection \<open>Bytes\<close>

text \<open>The buffer with the byte that ends a line.\<close>

definition line_of :: "NmeaReader \<Rightarrow> byte list" where
  "line_of r = (rin r)[pos r := LF]"

lemma addc_ok:
  assumes "reader_ok N r"
  shows "safe_step N (c = LF \<and> too_many_svs N (line_of r) (pos r + 1)) (nmea_reader_addc k cb r c)"
proof (cases "overflow r \<or> NMEA_MAX_SIZE \<le> pos r")
  case True
  then show ?thesis using assms by (auto simp: nmea_reader_addc_def safe_step_def reader_ok_def)
next
  case False
  let ?m = "(rin r)[pos r := c]"
  let ?r = "r\<lparr>rin := ?m, pos := pos r + 1\<rparr>"
  have w: "wr (rin r) (pos r) c = Inr ?m" using assms False by (simp add: reader_ok_def)
  have ok: "reader_ok N ?r" using assms False by (simp add: reader_ok_def)
  show ?thesis
  proof (cases "c = LF")
    case True
    have "rin ?r ! (pos ?r - 1) = LF" using True assms False by (simp add: reader_ok_def)
    then have "safe_step N (too_many_svs N (rin ?r) (pos ?r)) (nmea_reader_parse k cb ?r)"
      by (intro parse_ok [OF ok]) simp_all
    then show ?thesis
      using False True w
      by (cases "nmea_reader_parse k cb ?r") (auto simp: nmea_reader_addc_def safe_step_def line_of_def reader_ok_def)
  next
    case c: False
    then show ?thesis using False w ok by (simp add: nmea_reader_addc_def safe_step_def)
  qed
qed

lemma nmea_feed_feeds: "nmea_feed k cb r bs = feeds (nmea_reader_addc k cb) r bs"
  by (induction bs arbitrary: r) simp_all

text \<open>
  C10: No byte stream makes the reader write outside its line buffer or read outside a
  sentence, and its state stays well-formed. A run can only end in an undefined conversion
  of a number to \<open>int\<close>, or in the overrun of the satellite list by a \<open>GSV\<close> sentence that
  announces more satellites than the list holds.
\<close>

theorem nmea_feed_safe:
  assumes "reader_ok N r"
  shows "case nmea_feed k cb r bs of
      Inr s \<Rightarrow> reader_ok N s
    | Inl e \<Rightarrow> e = BadCast \<or> e = OutOfBounds \<and>
        (\<exists>us vs s. bs = us @ LF # vs \<and> nmea_feed k cb r us = Inr s \<and> too_many_svs N (line_of s) (pos s + 1))"
proof -
  let ?E = "\<lambda>e s c. e = BadCast \<or> e = OutOfBounds \<and> c = LF \<and> too_many_svs N (line_of s) (pos s + 1)"
  have "case nmea_reader_addc k cb s c of Inr t \<Rightarrow> reader_ok N t | Inl e \<Rightarrow> ?E e s c" if "reader_ok N s" for s c
    using addc_ok [OF that, of c k cb] by (auto simp: safe_step_def split: sum.splits)
  from feeds_ends [where P = "reader_ok N" and E = ?E and cs = bs, OF assms this]
  show ?thesis unfolding nmea_feed_feeds by (cases "feeds (nmea_reader_addc k cb) r bs") auto
qed


subsection \<open>Concrete readers\<close>

definition ex_clock :: clock where
  "ex_clock = \<lparr>time_at = (\<lambda>n. int n), millis_at = (\<lambda>n. 1000 * int n),
     gmtime = (\<lambda>s. \<lparr>tm_sec = s, tm_min = 0, tm_hour = 0, tm_mday = 1, tm_mon = 0, tm_year = 113, tm_yday = 0\<rparr>),
     localtime = (\<lambda>s. \<lparr>tm_sec = s, tm_min = 0, tm_hour = 8, tm_mday = 1, tm_mon = 0, tm_year = 113, tm_yday = 0\<rparr>),
     mktime = (\<lambda>t. tm_sec t + 60 * (tm_min t + 60 * (tm_hour t - 8)))\<rparr>"

definition ex_reader :: "nat \<Rightarrow> NmeaReader" where
  "ex_reader N = \<lparr>pos = 0, overflow = False, utc_year = - 1, utc_mon = - 1, utc_day = - 1, utc_diff = - 28800,
     loc = zero_location, sv_status = \<lparr>num_svs = 0, sv_list = replicate N zero_sv, used_in_fix_mask = 0\<rparr>,
     sv_status_changed = False, callback = True, rin = replicate (NMEA_MAX_SIZE + 1) 0, gsa_fixed = False,
     ticks = 0, events = []\<rparr>"

definition ex_callbacks :: GpsCallbacks where
  "ex_callbacks = \<lparr>nmea_cb = False, sv_status_cb = True, location_cb = True\<rparr>"

lemma ex_reader_ok: "reader_ok N (ex_reader N)"
  by (simp add: reader_ok_def ex_reader_def)

theorem nmea_feed_safe_witness:
  "case nmea_feed ex_clock ex_callbacks (ex_reader 32) (bytes ''$GPGGA,1'' @ [LF]) of
      Inr s \<Rightarrow> reader_ok 32 s
    | Inl e \<Rightarrow> e = BadCast \<or> e = OutOfBounds \<and>
        (\<exists>us vs s. bytes ''$GPGGA,1'' @ [LF] = us @ LF # vs \<and>
           nmea_feed ex_clock ex_callbacks (ex_reader 32) us = Inr s \<and> too_many_svs 32 (line_of s) (pos s + 1))"
  by (rule nmea_feed_safe [OF ex_reader_ok])

text \<open>
  Two \<open>GSV\<close> sentences overrun a satellite list: the announced number is not checked
  against the length of the list.
\<close>

theorem nmea_gsv_overrun:
  "nmea_feed ex_clock ex_callbacks (ex_reader 4)
     (bytes ''$GPGSV,2,1,5,1,1,1,1,2,1,1,1,3,1,1,1,4,1,1,1*00'' @ [CR, LF] @
      bytes ''$GPGSV,2,2,5,5,1,1,1*00'' @ [CR, LF]) = Inl OutOfBounds"
  by code_simp

end
