(* ===== verification/NmeaLines.thy ===== *)
theory NmeaLines
  imports NmeaSafe
begin

text \<open>
  How the reader of \<open>testcode/android/libgps/gps_neu.c\<close> cuts its input into lines, and what it
  makes of dates and times.
\<close>

subsection \<open>Lines\<close>

text \<open>Between lines: nothing accumulated, nothing being skipped.\<close>

definition idle :: "NmeaReader \<Rightarrow> bool" where
  "idle r \<longleftrightarrow> pos r = 0 \<and> \<not> overflow r \<and> length (rin r) = NMEA_MAX_SIZE + 1"

text \<open>The reader with a line in its buffer.\<close>

definition with_line :: "byte list \<Rightarrow> NmeaReader \<Rightarrow> NmeaReader" where
  "with_line xs r = r\<lparr>rin := xs @ drop (length xs) (rin r), pos := length xs\<rparr>"

lemma bindr_return [simp]: "bindr c Inr = c"
  by (cases c) simp_all

lemma feed_append:
  "nmea_feed k cb r (xs @ ys) = bindr (nmea_feed k cb r xs) (\<lambda>s. nmea_feed k cb s ys)"
  by (induction xs arbitrary: r) (simp_all add: bindr_assoc)

lemma feed_chars:
  assumes "idle r" "LF \<notin> set xs" "length xs \<le> NMEA_MAX_SIZE"
  shows "nmea_feed k cb r xs = Inr (with_line xs r)"
  using assms(2,3)
proof (induction xs rule: rev_induct)
  case Nil
  then show ?case using assms(1) by (simp add: with_line_def idle_def)
next
  case (snoc x xs)
  have l: "length (rin r) = Suc NMEA_MAX_SIZE" "\<not> overflow r" using assms(1) by (simp_all add: idle_def)
  have "nmea_reader_addc k cb (with_line xs r) x = Inr (with_line (xs @ [x]) r)"
    using snoc.prems l
    by (auto simp: nmea_reader_addc_def with_line_def list_update_append Cons_nth_drop_Suc [symmetric])
  then show ?case using snoc by (simp add: feed_append)
qed

lemma feed_line:
  assumes "idle r" "LF \<notin> set xs" "length xs < NMEA_MAX_SIZE"
  shows "nmea_feed k cb r (xs @ [LF]) =
    bindr (nmea_reader_parse k cb (with_line (xs @ [LF]) r)) (\<lambda>s. Inr (s\<lparr>pos := 0\<rparr>))"
proof -
  have l: "length (rin r) = Suc NMEA_MAX_SIZE" "\<not> overflow r" using assms(1) by (simp_all add: idle_def)
  have w: "wr (rin (with_line xs r)) (length xs) LF = Inr (rin (with_line (xs @ [LF]) r))"
    using l assms(3) by (simp add: with_line_def list_update_append Cons_nth_drop_Suc [symmetric])
  have "(with_line xs r)\<lparr>rin := rin (with_line (xs @ [LF]) r), pos := Suc (length xs)\<rparr> = with_line (xs @ [LF]) r"
    by (simp add: with_line_def)
  then show ?thesis
    using feed_chars [OF assms(1,2), of k cb] assms(3) w l(2)
    by (simp add: feed_append nmea_reader_addc_def) (simp add: with_line_def bindr_return)
qed

lemma feed_skip:
  assumes "overflow r" "LF \<notin> set xs"
  shows "nmea_feed k cb r (xs @ [LF]) = Inr (r\<lparr>overflow := False\<rparr>)"
  using assms
proof (induction xs arbitrary: r)
  case (Cons x xs)
  have "nmea_reader_addc k cb r x = Inr r"
    using Cons.prems by (cases r) (auto simp: nmea_reader_addc_def)
  then show ?case using Cons by simp
qed (simp add: nmea_reader_addc_def)

lemma feed_overflow:
  assumes "idle r" "LF \<notin> set xs" "length xs = NMEA_MAX_SIZE"
  shows "nmea_feed k cb r (xs @ [c]) = Inr ((with_line xs r)\<lparr>overflow := True, pos := 0\<rparr>)"
  using feed_chars [OF assms(1,2)] assms(1,3)
  by (simp add: feed_append nmea_reader_addc_def) (simp add: with_line_def idle_def)

text \<open>
  A line is parsed exactly once, when its end arrives, with exactly its bytes in the
  buffer, if it has at most 82 characters before the line feed.
\<close>

theorem nmea_line_parsed:
  assumes "idle r" "LF \<notin> set xs" "length xs \<le> 82"
  shows "nmea_feed k cb r (xs @ [LF]) =
      bindr (nmea_reader_parse k cb (with_line (xs @ [LF]) r)) (\<lambda>s. Inr (s\<lparr>pos := 0\<rparr>))
    \<and> take (pos (with_line (xs @ [LF]) r)) (rin (with_line (xs @ [LF]) r)) = xs @ [LF]"
  using feed_line [OF assms(1,2), of k cb] assms(3) by (simp add: NMEA_MAX_SIZE_def) (simp add: with_line_def)

theorem nmea_line_parsed_witness:
  "nmea_feed ex_clock ex_callbacks (ex_reader 1) (bytes ''$GP'' @ [LF]) =
    Inr ((with_line (bytes ''$GP'' @ [LF]) (ex_reader 1))\<lparr>pos := 0\<rparr>)"
proof -
  have "idle (ex_reader 1)" by (simp add: idle_def ex_reader_def)
  from nmea_line_parsed [OF this, of "bytes ''$GP''" ex_clock ex_callbacks] show ?thesis
    by (simp add: ascii_def nmea_reader_parse_def) (simp add: with_line_def)
qed

text \<open>
  A line of more than 83 characters is dropped and the next one is received; but a line
  of exactly 83 characters makes the reader drop the next line as well, because the line
  feed itself is taken for the overflowing character.
\<close>

theorem nmea_long_lines:
  assumes "idle r" "LF \<notin> set xs" "83 \<le> length xs" "LF \<notin> set ys"
  shows "\<exists>s. idle s \<and> events s = events r \<and> loc s = loc r \<and> sv_status s = sv_status r \<and>
    (if length xs = 83 then nmea_feed k cb r (xs @ LF # ys @ [LF]) = Inr s
     else nmea_feed k cb r (xs @ [LF]) = Inr s)"
proof -
  let ?a = "take 83 xs"
  have a: "LF \<notin> set ?a" "length ?a = NMEA_MAX_SIZE"
    using assms(2,3) by (auto simp: NMEA_MAX_SIZE_def dest: in_set_takeD)
  let ?s = "(with_line ?a r)\<lparr>overflow := True, pos := 0\<rparr>"
  let ?t = "?s\<lparr>overflow := False\<rparr>"
  have t: "idle ?t" "events ?t = events r" "loc ?t = loc r" "sv_status ?t = sv_status r"
    using assms(1) a(2) by (simp_all add: idle_def with_line_def)
  have ov: "overflow ?s" by simp
  show ?thesis
  proof (cases "length xs = 83")
    case True
    then have "nmea_feed k cb r (xs @ [LF]) = Inr ?s" using feed_overflow [OF assms(1) a, of k cb LF] by simp
    then have "nmea_feed k cb r ((xs @ [LF]) @ ys @ [LF]) = Inr ?t"
      using feed_skip [OF ov assms(4), of k cb] by (simp only: feed_append [of k cb r "xs @ [LF]"] bindr.simps)
    then show ?thesis using True t by (intro exI [of _ ?t]) simp
  next
    case False
    then obtain c zs where d: "drop 83 xs = c # zs" using assms(3) by (cases "drop 83 xs") auto
    have zs: "LF \<notin> set zs" using assms(2) d by (metis in_set_dropD list.set_intros(2))
    have xs: "xs @ [LF] = (?a @ [c]) @ zs @ [LF]" using d by (metis append.assoc append_Cons append_Nil append_take_drop_id)
    have "nmea_feed k cb r (xs @ [LF]) = Inr ?t"
      unfolding xs feed_append [of k cb r "?a @ [c]"] feed_overflow [OF assms(1) a] bindr.simps
      by (rule feed_skip [OF ov zs])
    then show ?thesis using False t by (intro exI [of _ ?t]) simp
  qed
qed

theorem nmea_long_lines_witness:
  "\<exists>s. idle s \<and> events s = [] \<and>
    nmea_feed ex_clock ex_callbacks (ex_reader 1) (replicate 83 65 @ LF # bytes ''$GPGGA,1'' @ [LF]) = Inr s"
proof -
  have "idle (ex_reader 1)" "events (ex_reader 1) = []" by (simp_all add: idle_def ex_reader_def)
  then show ?thesis
    using nmea_long_lines [of "ex_reader 1" "replicate 83 65" "bytes ''$GPGGA,1''" ex_clock ex_callbacks]
    by (auto simp: ascii_def)
qed

subsection \<open>Dates and times\<close>

text \<open>
  A \<open>ZDA\<close> sentence never sets the year: whenever its date is taken, the year becomes
  \<open>-1\<close> (and the next time stamp uses the date of the system clock).
\<close>

theorem nmea_zda_loses_year:
  assumes "tok_ok d" "tok_ok m" "tok_ok y"
    and "nmea_reader_update_cdate r d m y = Inr (0, s)"
  shows "utc_year s = - 1"
  using assms(4) cdate_year [OF assms(3)]
  by (auto simp: nmea_reader_update_cdate_def bindr_Inr split: if_split_asm)

theorem nmea_zda_loses_year_witness:
  "\<exists>s. nmea_reader_update_cdate (ex_reader 1) \<lparr>tmem = bytes ''04,07,2002,'', tp = 0, tend = 2\<rparr>
      \<lparr>tmem = bytes ''04,07,2002,'', tp = 3, tend = 5\<rparr> \<lparr>tmem = bytes ''04,07,2002,'', tp = 6, tend = 10\<rparr> = Inr (0, s)
    \<and> utc_day s = 4 \<and> utc_mon s = 7 \<and> utc_year s = - 1"
proof -
  let ?tk = "\<lambda>i j. \<lparr>tmem = bytes ''04,07,2002,'', tp = i, tend = j\<rparr>"
  have ok: "tok_ok (?tk 0 2)" "tok_ok (?tk 3 5)" "tok_ok (?tk 6 10)"
    by (simp_all add: tok_ok_def ascii_def digit_val_def)
  have "nmea_reader_update_cdate (ex_reader 1) (?tk 0 2) (?tk 3 5) (?tk 6 10) =
      Inr (0, (ex_reader 1)\<lparr>utc_day := 4, utc_mon := 7, utc_year := - 1\<rparr>)"
    by code_simp
  then show ?thesis using nmea_zda_loses_year [OF ok, of "ex_reader 1"] by simp
qed


lemma frac_part:
  assumes "list_all (\<lambda>d. d < 10) fs"
  shows "0 \<le> (of_nat (dvalue fs) / 10 ^ length fs :: rat)" "(of_nat (dvalue fs) / 10 ^ length fs :: rat) < 1"
proof -
  have "(of_nat (dvalue fs) :: rat) < 10 ^ length fs"
    using dvalue_less [OF assms] by (metis of_nat_less_iff of_nat_numeral of_nat_power)
  then show "0 \<le> (of_nat (dvalue fs) / 10 ^ length fs :: rat)" "(of_nat (dvalue fs) / 10 ^ length fs :: rat) < 1"
    by simp_all
qed

text \<open>A time of day \<open>hhmmss.sss\<close>.\<close>

definition time_token :: "Token \<Rightarrow> nat list \<Rightarrow> nat list \<Rightarrow> nat list \<Rightarrow> nat list \<Rightarrow> bool" where
  "time_token t hs ms ss fs \<longleftrightarrow> token_text t (map dig hs @ map dig ms @ map dig ss @ 46 # map dig fs)
     \<and> length hs = 2 \<and> length ms = 2 \<and> length ss = 2 \<and> list_all (\<lambda>d. d < 10) (hs @ ms @ ss @ fs) \<and> length fs < 20"

lemma dvalue_two: "length ds = 2 \<Longrightarrow> list_all (\<lambda>d. d < 10) ds \<Longrightarrow> dvalue ds < 2 ^ 31"
  using dvalue_less [of ds] by simp

lemma time_token_parts:
  assumes "time_token t hs ms ss fs"
  obtains q where "str2int (tmem t) (tp t) (tp t + 2) = Inr (int (dvalue hs))"
    and "str2int (tmem t) (tp t + 2) (tp t + 4) = Inr (int (dvalue ms))"
    and "str2float (tmem t) (tp t + 4) (tend t) = Inr q" and "dbl_int q = Inr (int (dvalue ss))"
    and "\<not> tend t < tp t + 6"
proof -
  let ?m = "tmem t" and ?p = "tp t"
  have l: "length hs = 2" "length ms = 2" "length ss = 2" "length fs < 20"
    and d: "list_all (\<lambda>d. d < 10) hs" "list_all (\<lambda>d. d < 10) ms" "list_all (\<lambda>d. d < 10) ss" "list_all (\<lambda>d. d < 10) fs"
    using assms(1) by (simp_all add: time_token_def)
  obtain c post where c: "delimiter c" and e: "tend t = ?p + 7 + length fs"
    and dr: "drop ?p ?m = map dig hs @ map dig ms @ map dig ss @ 46 # map dig fs @ c # post"
    using assms(1) l by (auto simp: time_token_def token_text_def)
  have dr2: "drop (?p + 2) ?m = map dig ms @ map dig ss @ 46 # map dig fs @ c # post"
    using arg_cong [OF dr, of "drop 2"] l by (simp add: add.commute)
  have dr4: "drop (?p + 4) ?m = map dig ss @ 46 # map dig fs @ c # post"
    using arg_cong [OF dr, of "drop 4"] l by (simp add: add.commute)
  have h: "str2int ?m ?p (?p + 2) = Inr (int (dvalue hs))"
    using str2int_digits [OF d(1) _ dvalue_two [OF l(1) d(1)] dr] l(1) by fastforce
  have mi: "str2int ?m (?p + 2) (?p + 4) = Inr (int (dvalue ms))"
    using l(2) by (intro str2int_digits [OF d(2) _ dvalue_two [OF l(2) d(2)] dr2]) auto
  let ?t = "\<lparr>tmem = ?m, tp = ?p + 4, tend = tend t\<rparr>"
  have "token_text ?t (map dig ss @ 46 # map dig fs)"
    using c e dr4 l(3) by (auto simp: token_text_def)
  from tok_float_decimal [OF this d(3) _ d(4)] have f:
    "str2float ?m (?p + 4) (tend t) = Inr (Fin (of_nat (dvalue ss) + of_nat (dvalue fs) / 10 ^ length fs))"
    using l by (fastforce simp: tok_float_def)
  have "\<lfloor>(of_nat (dvalue ss) :: rat) + of_nat (dvalue fs) / 10 ^ length fs\<rfloor> = int (dvalue ss)"
    using frac_part [OF d(4)] by (intro floor_unique) simp_all
  moreover have "int (dvalue ss) < 2 ^ 31"
    using dvalue_two [OF l(3) d(3)] by (metis of_nat_less_iff of_nat_numeral of_nat_power)
  ultimately have s: "dbl_int (Fin (of_nat (dvalue ss) + of_nat (dvalue fs) / 10 ^ length fs)) = Inr (int (dvalue ss))"
    using frac_part(1) [OF d(4)] by (simp add: dbl_int_def)
  have "\<not> tend t < tp t + 6" using e by simp
  from that [OF h mi f s this] show thesis .
qed

lemma update_time_value:
  assumes "time_token t hs ms ss fs" and "0 \<le> utc_year r"
  shows "nmea_reader_update_time k r t = Inr (0, upd_fix (\<lambda>f. f\<lparr>timestamp :=
      (mktime k \<lparr>tm_sec = int (dvalue ss), tm_min = int (dvalue ms), tm_hour = int (dvalue hs), tm_mday = utc_day r,
         tm_mon = utc_mon r - 1, tm_year = utc_year r - 1900, tm_yday = 0\<rparr> + utc_diff r) * 1000\<rparr>) r)"
proof -
  obtain q where "str2int (tmem t) (tp t) (tp t + 2) = Inr (int (dvalue hs))"
    and "str2int (tmem t) (tp t + 2) (tp t + 4) = Inr (int (dvalue ms))"
    and "str2float (tmem t) (tp t + 4) (tend t) = Inr q" and "dbl_int q = Inr (int (dvalue ss))"
    and "\<not> tend t < tp t + 6"
    using time_token_parts [OF assms(1)] by blast
  then show ?thesis
    using assms(2) by (simp add: nmea_reader_update_time_def Let_def current_date_def)
qed

text \<open>
  Time stamps are wrong by twice the time zone: with a zone \<open>off\<close> seconds east of
  Greenwich, \<open>mktime\<close> takes the sentence's time for local time (\<open>off\<close> too early) and the
  correction computed by \<open>nmea_reader_init\<close> subtracts \<open>off\<close> again instead of adding it.
\<close>

theorem nmea_timestamp_zone:
  fixes timegm :: "tm \<Rightarrow> int"
  assumes zone: "\<forall>t. mktime k t = timegm t - off" "\<bar>off\<bar> < 86400"
    and now: "year_seconds (localtime k (time_at k (ticks r0))) = wrap32 (s + off)"
      "year_seconds (gmtime k (time_at k (ticks r0))) = wrap32 s"
    and "utc_diff r = utc_diff (nmea_reader_init k r0)" and "0 \<le> utc_year r"
    and "time_token t hs ms ss fs"
  shows "\<exists>u. nmea_reader_update_time k r t = Inr (0, u) \<and>
    timestamp (loc u) = (timegm \<lparr>tm_sec = int (dvalue ss), tm_min = int (dvalue ms), tm_hour = int (dvalue hs),
      tm_mday = utc_day r, tm_mon = utc_mon r - 1, tm_year = utc_year r - 1900, tm_yday = 0\<rparr> - 2 * off) * 1000"
proof -
  have "wrap32 (wrap32 s - wrap32 (s + off)) = - off"
    using zone(2) by (simp add: wrap32_diff wrap32_id)
  then have "utc_diff r = - off"
    using assms(5) now by (simp add: nmea_reader_init_def nmea_reader_update_utc_diff_def Let_def)
  then show ?thesis
    using update_time_value [OF assms(7,6), of k] zone(1) by simp
qed

theorem nmea_timestamp_zone_witness:
  "\<exists>u. nmea_reader_update_time ex_clock ((ex_reader 1)\<lparr>utc_year := 2013, utc_mon := 1, utc_day := 1\<rparr>)
      \<lparr>tmem = bytes ''120000.5,'', tp = 0, tend = 8\<rparr> = Inr (0, u)
    \<and> timestamp (loc u) = (12 * 3600 - 2 * (8 * 3600)) * 1000"
proof -
  let ?r = "(ex_reader 1)\<lparr>utc_year := 2013, utc_mon := 1, utc_day := 1\<rparr>"
  let ?t = "\<lparr>tmem = bytes ''120000.5,'', tp = 0, tend = 8\<rparr>"
  let ?g = "\<lambda>t. tm_sec t + 60 * (tm_min t + 60 * tm_hour t)"
  let ?s = "24 * (365 * 113) * 3600 :: int"
  have z: "\<forall>t. mktime ex_clock t = ?g t - 28800" by (simp add: ex_clock_def algebra_simps)
  have n: "year_seconds (localtime ex_clock (time_at ex_clock (ticks (ex_reader 1)))) = wrap32 (?s + 28800)"
    "year_seconds (gmtime ex_clock (time_at ex_clock (ticks (ex_reader 1)))) = wrap32 ?s"
    by (simp_all add: year_seconds_def ex_clock_def ex_reader_def)
  have "utc_diff (nmea_reader_init ex_clock (ex_reader 1)) = wrap32 (wrap32 ?s - wrap32 (?s + 28800))"
    using n by (simp add: nmea_reader_init_def nmea_reader_update_utc_diff_def Let_def)
  then have d: "utc_diff ?r = utc_diff (nmea_reader_init ex_clock (ex_reader 1))" "0 \<le> utc_year ?r"
    by (simp_all add: wrap32_diff) (simp_all add: ex_reader_def wrap32_id)
  have "time_token ?t [1, 2] [0, 0] [0, 0] [5]"
    by (simp add: time_token_def token_text_def dig_def ascii_def delimiter_def)
  from nmea_timestamp_zone [OF z _ n d this] show ?thesis by (simp add: dvalue_def)
qed

end
