(* ===== verification/GpsThread.thy ===== *)
theory GpsThread
  imports GpsReader
begin

text \<open>
  The rest of \<open>testcode/android/libgps/gps_neu.c\<close>: the set-up of the serial port, the thread
  that waits for commands and sentences, and the interface the framework calls.
\<close>

subsection \<open>The serial port\<close>

text \<open>
  \<open>struct termios\<close> as far as the program changes it: speeds, the character size, the
  stop-bit, parity and input-parity flags and two control characters.
\<close>

record termios =
  ispeed :: nat
  ospeed :: nat
  csize :: nat
  CSTOPB :: bool
  PARENB :: bool
  PARODD :: bool
  INPCK :: bool
  VTIME :: nat
  VMIN :: nat

text \<open>A port and the answers of the system calls on it.\<close>

record port =
  tio :: termios
  get_ok :: bool
  set_ok :: bool
  flush_ok :: bool

text \<open>When \<open>tcgetattr\<close> fails the options are whatever the stack held.\<close>

definition gps_set_baudrate :: "termios \<Rightarrow> port \<Rightarrow> nat \<Rightarrow> int \<times> port" where
  "gps_set_baudrate junk p baud =
     (let opt = (if get_ok p then tio p else junk);
          opt' = opt\<lparr>ispeed := baud, ospeed := baud\<rparr>
      in if \<not> set_ok p then (- 1, p) else (0, p\<lparr>tio := opt'\<rparr>))"

definition set_databits :: "int \<Rightarrow> termios \<Rightarrow> termios option" where
  "set_databits n t = (if n = 7 then Some (t\<lparr>csize := 7\<rparr>) else if n = 8 then Some (t\<lparr>csize := 8\<rparr>) else None)"

definition set_parity :: "char \<Rightarrow> termios \<Rightarrow> termios option" where
  "set_parity c t =
     (if c \<in> {CHR ''n'', CHR ''N''} then Some (t\<lparr>PARENB := False, INPCK := False\<rparr>)
      else if c \<in> {CHR ''o'', CHR ''O''} then Some (t\<lparr>PARODD := True, PARENB := True, INPCK := True\<rparr>)
      else if c \<in> {CHR ''e'', CHR ''E''} then Some (t\<lparr>PARENB := True, PARODD := False, INPCK := True\<rparr>)
      else if c \<in> {CHR ''S'', CHR ''s''} then Some (t\<lparr>PARENB := False, CSTOPB := False\<rparr>)
      else None)"

definition set_stopbits :: "int \<Rightarrow> termios \<Rightarrow> termios option" where
  "set_stopbits n t =
     (if n = 1 then Some (t\<lparr>CSTOPB := False\<rparr>) else if n = 2 then Some (t\<lparr>CSTOPB := True\<rparr>) else None)"

definition gps_set_parity :: "port \<Rightarrow> int \<Rightarrow> int \<Rightarrow> char \<Rightarrow> int \<times> port" where
  "gps_set_parity p databits stopbits parity =
     (if \<not> get_ok p then (- 1, p)
      else
        (case Option.bind (set_databits databits (tio p)) (\<lambda>t.
              Option.bind (set_parity parity t) (set_stopbits stopbits)) of
           None \<Rightarrow> (- 1, p)
         | Some t \<Rightarrow>
             (let t1 = (if parity \<noteq> CHR ''n'' then t\<lparr>INPCK := True\<rparr> else t)
              in if \<not> flush_ok p then (- 1, p)
                 else (let t2 = t1\<lparr>VTIME := 10, VMIN := 0\<rparr>
                       in if \<not> set_ok p then (- 1, p) else (0, p\<lparr>tio := t2\<rparr>)))))"

definition gps_set_ttymxc :: "termios \<Rightarrow> int \<Rightarrow> port \<Rightarrow> int \<times> port" where
  "gps_set_ttymxc junk d p =
     (if d \<le> 0 then (- 1, p)
      else
        (case gps_set_baudrate junk p 9600 of (r, p1) \<Rightarrow>
           if r = - 1 then (- 1, p1)
           else (case gps_set_parity p1 8 1 (CHR ''S'') of (r', p2) \<Rightarrow>
                   if r' = - 1 then (- 1, p2) else (0, p2))))"

subsection \<open>The connection\<close>

text \<open>
  \<open>GpsState\<close>: \<open>control\<close> is the socket pair (\<open>None\<close> for \<open>-1\<close>), with the commands sent and not
  yet read; \<open>thread\<close> says whether a thread exists and \<open>joined\<close> how often one was joined.
\<close>

datatype cmd = CMD_QUIT | CMD_START | CMD_STOP

record GpsState =
  sinit :: bool
  sfd :: int
  callbacks :: GpsCallbacks
  thread :: bool
  control :: "cmd list option"
  reader :: NmeaReader
  sport :: port

text \<open>\<open>write(s->control[0], &cmd, 1)\<close>: nothing happens without the socket pair.\<close>

definition send_cmd :: "cmd \<Rightarrow> GpsState \<Rightarrow> GpsState" where
  "send_cmd c s = s\<lparr>control := map_option (\<lambda>cs. cs @ [c]) (control s)\<rparr>"

text \<open>Joining a thread that was never created has no result.\<close>

definition gps_state_done :: "GpsState \<Rightarrow> GpsState ck" where
  "gps_state_done s =
     (let s1 = send_cmd CMD_QUIT s
      in if \<not> thread s1 then Inl BadHandle
         else Inr (s1\<lparr>thread := False, control := None, sfd := - 1, sinit := False\<rparr>))"

definition gps_state_start :: "GpsState \<Rightarrow> GpsState" where
  "gps_state_start s = send_cmd CMD_START s"

definition gps_state_stop :: "GpsState \<Rightarrow> GpsState" where
  "gps_state_stop s = send_cmd CMD_STOP s"

text \<open>
  \<open>epoll_register\<close> and \<open>epoll_deregister\<close> repeat an interrupted call: the results of the
  successive calls, of which only the last counts.
\<close>

datatype sys_res = Done int | Interrupted

fun retry :: "sys_res list \<Rightarrow> int \<times> sys_res list" where
  "retry [] = (0, [])"
| "retry (Done i # rs) = (i, rs)"
| "retry (Interrupted # rs) = retry rs"

definition epoll_register :: "'d \<Rightarrow> sys_res list \<Rightarrow> 'd set \<Rightarrow> int \<times> 'd set" where
  "epoll_register d rs S = (case retry rs of (r, _) \<Rightarrow> (r, if 0 \<le> r then insert d S else S))"

definition epoll_deregister :: "'d \<Rightarrow> sys_res list \<Rightarrow> 'd set \<Rightarrow> int \<times> 'd set" where
  "epoll_deregister d rs S = (case retry rs of (r, _) \<Rightarrow> (r, if 0 \<le> r then S - {d} else S))"

subsection \<open>The thread\<close>

text \<open>
  What \<open>epoll_wait\<close> and the reads it leads to deliver. A read of the receiver gives at most
  512 bytes, is interrupted, would block or fails; a round of reads ends with one of the
  last two (which an exhausted list stands for).
\<close>

datatype gps_read = Bytes "byte list" | ReadEintr | WouldBlock | ReadFailed

datatype ready = HangUp | ControlIn "cmd option" | GpsIn "gps_read list" | UnknownIn | NothingIn

datatype wait = WaitEintr | WaitFailed | Ready "ready list"

record worker =
  started :: bool
  wreader :: NmeaReader

fun gps_reads :: "clock \<Rightarrow> GpsCallbacks \<Rightarrow> gps_read list \<Rightarrow> NmeaReader \<Rightarrow> NmeaReader ck" where
  "gps_reads k cb [] r = Inr r"
| "gps_reads k cb (Bytes bs # rs) r = bindr (nmea_feed k cb r bs) (gps_reads k cb rs)"
| "gps_reads k cb (ReadEintr # rs) r = gps_reads k cb rs r"
| "gps_reads k cb (WouldBlock # rs) r = Inr r"
| "gps_reads k cb (ReadFailed # rs) r = Inr r"

text \<open>A command; \<open>True\<close> means that the thread returns.\<close>

definition on_command :: "GpsCallbacks \<Rightarrow> cmd option \<Rightarrow> worker \<Rightarrow> bool \<times> worker" where
  "on_command cb c w =
     (case c of
        Some CMD_QUIT \<Rightarrow> (True, w)
      | Some CMD_START \<Rightarrow>
          (False, if started w then w
                  else w\<lparr>started := True, wreader := nmea_reader_set_callback (location_cb cb) (wreader w)\<rparr>)
      | Some CMD_STOP \<Rightarrow>
          (False, if started w
                  then w\<lparr>started := False, wreader := nmea_reader_set_callback False (wreader w)\<rparr>
                  else w)
      | None \<Rightarrow> (False, w))"

fun on_ready :: "clock \<Rightarrow> GpsCallbacks \<Rightarrow> ready list \<Rightarrow> worker \<Rightarrow> (bool \<times> worker) ck" where
  "on_ready k cb [] w = Inr (False, w)"
| "on_ready k cb (e # es) w =
     (case e of
        HangUp \<Rightarrow> Inr (True, w)
      | ControlIn c \<Rightarrow>
          (case on_command cb c w of (q, w1) \<Rightarrow> if q then Inr (True, w1) else on_ready k cb es w1)
      | GpsIn rs \<Rightarrow> bindr (gps_reads k cb rs (wreader w)) (\<lambda>r. on_ready k cb es (w\<lparr>wreader := r\<rparr>))
      | UnknownIn \<Rightarrow> on_ready k cb es w
      | NothingIn \<Rightarrow> on_ready k cb es w)"

fun thread_loop :: "clock \<Rightarrow> GpsCallbacks \<Rightarrow> wait list \<Rightarrow> worker \<Rightarrow> (bool \<times> worker) ck" where
  "thread_loop k cb [] w = Inr (False, w)"
| "thread_loop k cb (e # es) w =
     (case e of
        WaitEintr \<Rightarrow> thread_loop k cb es w
      | WaitFailed \<Rightarrow> thread_loop k cb es w
      | Ready rs \<Rightarrow>
          bindr (on_ready k cb rs w) (\<lambda>(q, w1). if q then Inr (True, w1) else thread_loop k cb es w1))"

definition gps_state_thread :: "clock \<Rightarrow> GpsState \<Rightarrow> wait list \<Rightarrow> (bool \<times> worker) ck" where
  "gps_state_thread k s es =
     thread_loop k (callbacks s) es \<lparr>started = False, wreader = nmea_reader_init k (reader s)\<rparr>"

subsection \<open>The interface\<close>

text \<open>The answers of the system calls of \<open>gps_state_init\<close> and of the thread creation callback.\<close>

record gps_env =
  open_fd :: int
  pair_ok :: bool
  create_ok :: bool
  stack :: termios

definition gps_state_init :: "gps_env \<Rightarrow> GpsState \<Rightarrow> GpsCallbacks \<Rightarrow> GpsState ck" where
  "gps_state_init e s cb =
     (let s1 = s\<lparr>sinit := True, control := None, sfd := open_fd e\<rparr>
      in if sfd s1 < 0 then Inr s1
         else
           (case gps_set_ttymxc (stack e) (sfd s1) (sport s1) of (r, p) \<Rightarrow>
              (let s2 = s1\<lparr>sport := p\<rparr>
               in if r = - 1 then Inr s2
                  else if \<not> pair_ok e then gps_state_done s2
                  else
                    (let s3 = s2\<lparr>control := Some [], thread := create_ok e\<rparr>
                     in if \<not> thread s3 then gps_state_done s3 else Inr (s3\<lparr>callbacks := cb\<rparr>)))))"

definition qemu_gps_init :: "gps_env \<Rightarrow> GpsCallbacks \<Rightarrow> GpsState \<Rightarrow> (int \<times> GpsState) ck" where
  "qemu_gps_init e cb s =
     bindr (if sinit s then Inr s else gps_state_init e s cb) (\<lambda>s1.
       Inr (if sfd s1 < 0 then - 1 else 0, s1))"

definition qemu_gps_cleanup :: "GpsState \<Rightarrow> GpsState ck" where
  "qemu_gps_cleanup s = (if sinit s then gps_state_done s else Inr s)"

definition qemu_gps_start :: "GpsState \<Rightarrow> int \<times> GpsState" where
  "qemu_gps_start s = (if \<not> sinit s then (- 1, s) else (0, gps_state_start s))"

definition qemu_gps_stop :: "GpsState \<Rightarrow> int \<times> GpsState" where
  "qemu_gps_stop s = (if \<not> sinit s then (- 1, s) else (0, gps_state_stop s))"

text \<open>Operations without effect.\<close>

definition qemu_gps_inject_time :: "GpsState \<Rightarrow> int \<times> GpsState" where
  "qemu_gps_inject_time s = (0, s)"

definition qemu_gps_inject_location :: "GpsState \<Rightarrow> int \<times> GpsState" where
  "qemu_gps_inject_location s = (0, s)"

definition qemu_gps_delete_aiding_data :: "GpsState \<Rightarrow> GpsState" where
  "qemu_gps_delete_aiding_data s = s"

definition qemu_gps_set_position_mode :: "GpsState \<Rightarrow> int \<times> GpsState" where
  "qemu_gps_set_position_mode s = (0, s)"

text \<open>The operations of \<open>GpsInterface\<close> a client can call, in any order.\<close>

datatype gps_call = Init gps_env GpsCallbacks | Start | Stop | Cleanup | InjectTime | InjectLocation
  | DeleteAidingData | SetPositionMode

definition gps_call_result :: "gps_call \<Rightarrow> GpsState \<Rightarrow> (int \<times> GpsState) ck" where
  "gps_call_result c s =
     (case c of
        Init e cb \<Rightarrow> qemu_gps_init e cb s
      | Start \<Rightarrow> Inr (qemu_gps_start s)
      | Stop \<Rightarrow> Inr (qemu_gps_stop s)
      | Cleanup \<Rightarrow> bindr (qemu_gps_cleanup s) (\<lambda>s1. Inr (0, s1))
      | InjectTime \<Rightarrow> Inr (qemu_gps_inject_time s)
      | InjectLocation \<Rightarrow> Inr (qemu_gps_inject_location s)
      | DeleteAidingData \<Rightarrow> Inr (0, qemu_gps_delete_aiding_data s)
      | SetPositionMode \<Rightarrow> Inr (qemu_gps_set_position_mode s))"

end
