(* ===== verification/GpsRun.thy ===== *)
theory GpsRun
  imports NmeaLines GpsThread
begin

text \<open>
  What the thread and the interface of \<open>testcode/android/libgps/gps_neu.c\<close> achieve together.
\<close>

subsection \<open>Reports of the thread\<close>

definition is_fix :: "gps_event \<Rightarrow> bool" where
  "is_fix e = (case e of LocationFix l \<Rightarrow> True | _ \<Rightarrow> False)"

definition fixes_of :: "NmeaReader \<Rightarrow> gps_event list" where
  "fixes_of r = filter is_fix (events r)"

text \<open>A reader without callback stays without one and reports no fix.\<close>

definition mute :: "gps_event list \<Rightarrow> NmeaReader \<Rightarrow> bool" where
  "mute fs r \<longleftrightarrow> \<not> callback r \<and> fixes_of r = fs"

lemma ends_or_UNIV: "ends_or UNIV P c \<longleftrightarrow> (\<forall>x. c = Inr x \<longrightarrow> P x)"
  by (cases c) simp_all

text \<open>The updates of a sentence leave the callback and the events alone, whatever the tokens.\<close>

abbreviation (input) calm :: "NmeaReader \<Rightarrow> NmeaReader \<Rightarrow> bool" where
  "calm r s \<equiv> callback s = callback r \<and> events s = events r"

lemma update_time_calm: "nmea_reader_update_time k r t = Inr (i, s) \<Longrightarrow> calm r s"
  by (auto simp: nmea_reader_update_time_def Let_def bindr_Inr current_date_def split: if_split_asm)

lemma update_date_calm: "nmea_reader_update_date k r d t = Inr (i, s) \<Longrightarrow> calm r s"
proof (cases "s = r")
  case False
  assume d: "nmea_reader_update_date k r d t = Inr (i, s)"
  then obtain y m u where "nmea_reader_update_time k (r\<lparr>utc_year := y, utc_mon := m, utc_day := u\<rparr>) t = Inr (i, s)"
    using False by (auto simp: nmea_reader_update_date_def Let_def bindr_Inr split: if_split_asm)
  from update_time_calm [OF this] show ?thesis by simp
qed simp

lemma update_cdate_calm: "nmea_reader_update_cdate r d m t = Inr (i, s) \<Longrightarrow> calm r s"
  by (auto simp: nmea_reader_update_cdate_def bindr_Inr split: if_split_asm)

lemma update_latlong_calm: "nmea_reader_update_latlong r d x t y = Inr (i, s) \<Longrightarrow> calm r s"
  by (cases "tend d < tp d + 6"; cases "tend t < tp t + 6")
    (auto simp: nmea_reader_update_latlong_def Let_def bindr_Inr)

lemma update_motion_calm:
  "nmea_reader_update_altitude r t d = Inr (i, s) \<Longrightarrow> calm r s"
  "nmea_reader_update_bearing r t = Inr (i, s) \<Longrightarrow> calm r s"
  "nmea_reader_update_speed r t = Inr (i, s) \<Longrightarrow> calm r s"
  by (auto simp: nmea_reader_update_altitude_def nmea_reader_update_bearing_def nmea_reader_update_speed_def bindr_Inr
      split: if_split_asm)

lemma gsa_loop_calm: "gsa_loop ts is r = Inr s \<Longrightarrow> calm r s"
proof (induction ts "is" r rule: gsa_loop.induct)
  case (2 ts i "is" r)
  from 2(2) obtain n where n: "tok_int (nmea_tokenizer_get ts i) = Inr n"
    and g: "gsa_loop ts is (if 0 < n \<and> n < 33 then
            upd_sv (\<lambda>s. s\<lparr>used_in_fix_mask := used_in_fix_mask s OR push_bit (nat (n - 1)) 1\<rparr>)
              (r\<lparr>sv_status_changed := True, gsa_fixed := True\<rparr>) else r) = Inr s"
    unfolding gsa_loop.simps by (rule bindr_InrE)
  from "2.IH" [OF n g] show ?case by (auto split: if_split_asm)
qed simp

lemma gsv_loop_calm: "gsv_loop ts nos is r = Inr s \<Longrightarrow> calm r s"
proof (induction ts nos "is" r rule: gsv_loop.induct)
  case (2 ts nos i "is" r)
  show ?case
  proof (cases "int (num_svs (sv_status r)) < nos")
    case True
    then show ?thesis
      using 2(2) by (auto simp: Let_def bindr_Inr dest!: "2.IH" [OF refl refl True])
  qed (use 2(2) in simp)
qed simp


lemmas calm_upd = update_time_calm update_date_calm update_cdate_calm update_latlong_calm update_motion_calm

lemma status_calm:
  assumes "bindr (tok_char t 0) (\<lambda>c. if P c then f c else Inr (g c)) = Inr s"
    and "\<And>c. f c = Inr s \<Longrightarrow> calm r s" and "\<And>c. calm r (g c)"
  shows "calm r s"
  using assms by (cases "tok_char t 0") (auto split: if_split_asm)

lemma calm_mute: "calm r s \<Longrightarrow> mute fs r \<Longrightarrow> mute fs s"
  by (simp add: mute_def fixes_of_def)

lemma parse_calm:
  "parse_gga k ts r = Inr s \<Longrightarrow> calm r s" "parse_gll k ts r = Inr s \<Longrightarrow> calm r s"
  "parse_rmc k ts r = Inr s \<Longrightarrow> calm r s" "parse_vtg ts r = Inr s \<Longrightarrow> calm r s"
  "parse_zda k ts r = Inr s \<Longrightarrow> calm r s" "parse_gsa ts r = Inr s \<Longrightarrow> calm r s"
  "parse_gsv ts r = Inr s \<Longrightarrow> calm r s"
proof -
  show "parse_gga k ts r = Inr s \<Longrightarrow> calm r s"
    unfolding parse_gga_def Let_def by (auto simp: bindr_Inr dest!: calm_upd)
  show "parse_gll k ts r = Inr s \<Longrightarrow> calm r s"
    unfolding parse_gll_def Let_def by (erule status_calm) (auto simp: bindr_Inr dest!: calm_upd)
  show "parse_rmc k ts r = Inr s \<Longrightarrow> calm r s"
    unfolding parse_rmc_def Let_def by (erule status_calm) (auto simp: bindr_Inr dest!: calm_upd)
  show "parse_vtg ts r = Inr s \<Longrightarrow> calm r s"
    unfolding parse_vtg_def Let_def by (erule status_calm) (auto simp: bindr_Inr dest!: calm_upd)
  have opt: "calm r s"
    if eq: "bindr (if b then bindr c (\<lambda>(st, u). Inr u) else Inr r) f = Inr s"
      and up: "\<And>i u. c = Inr (i, u) \<Longrightarrow> calm r u" and fin: "\<And>u. calm r u \<Longrightarrow> f u = Inr s \<Longrightarrow> calm r s"
    for b c and f :: "NmeaReader \<Rightarrow> NmeaReader ck"
  proof (cases b)
    case True
    then obtain i u where "c = Inr (i, u)" "f u = Inr s" using eq by (cases c) auto
    then show ?thesis using up fin by blast
  next
    case False
    then show ?thesis using eq fin [of r] by simp
  qed
  show "parse_zda k ts r = Inr s \<Longrightarrow> calm r s"
    unfolding parse_zda_def Let_def
    by (erule bindr_InrE, erule opt [OF _ update_cdate_calm], assumption, erule status_calm)
      (auto simp: bindr_Inr dest!: calm_upd)
  show "parse_gsa ts r = Inr s \<Longrightarrow> calm r s"
    unfolding parse_gsa_def by (erule status_calm; (drule gsa_loop_calm)?; simp)
  show "parse_gsv ts r = Inr s \<Longrightarrow> calm r s"
    unfolding parse_gsv_def Let_def
    by (erule bindr_InrE) (auto elim!: bindr_InrE dest!: gsv_loop_calm split: if_split_asm)
qed

lemma sentence_calm: "parse_sentence k ts id3 r = Inr s \<Longrightarrow> calm r s"
  unfolding parse_sentence_def
  by (auto dest: parse_calm simp del: bytes_simps split: if_split_asm)

lemma report_mute: "mute fs r \<Longrightarrow> mute fs (report_fix (report_sv cb (nmea_reader_update_accuracy r)))"
  by (simp add: mute_def report_fix_def report_sv_def nmea_reader_update_accuracy_def emit_def fixes_of_def is_fix_def)

lemma parse_mute: "nmea_reader_parse k cb r = Inr s \<Longrightarrow> mute fs r \<Longrightarrow> mute fs s"
proof -
  assume p: "nmea_reader_parse k cb r = Inr s" and m: "mute fs r"
  let ?r = "if nmea_cb cb
      then (emit (NmeaSentence (millis_at k (ticks r)) (take (pos r) (rin r))) r)\<lparr>ticks := ticks r + 1\<rparr> else r"
  have m1: "mute fs ?r" using m by (simp add: mute_def emit_def fixes_of_def is_fix_def)
  show ?thesis
  proof (cases "pos r < 9")
    case False
    from p obtain ts where ts: "(let tok = nmea_tokenizer_get ts 0
               in if tend tok < tp tok + 5 then Inr ?r
                  else
                    bindr (rds (tmem tok) (tp tok + 2) 3) (\<lambda>id3.
                    bindr (parse_sentence k ts id3 ?r) (\<lambda>r2.
                      Inr (report_fix (report_sv cb (nmea_reader_update_accuracy r2)))))) = Inr s"
      unfolding nmea_reader_parse_def Let_def if_not_P [OF False] by (rule bindr_InrE)
    show ?thesis
    proof (cases "tend (nmea_tokenizer_get ts 0) < tp (nmea_tokenizer_get ts 0) + 5")
      case True
      then show ?thesis using ts m1 by (simp only: Let_def if_True sum.inject)
    next
      case long: False
      from ts obtain id3 u where u: "parse_sentence k ts id3 ?r = Inr u"
        and s: "s = report_fix (report_sv cb (nmea_reader_update_accuracy u))"
        unfolding Let_def if_not_P [OF long] by (auto simp only: bindr_Inr sum.inject)
      have "mute fs u" using sentence_calm [OF u] m1 by (rule calm_mute)
      then show ?thesis unfolding s by (rule report_mute)
    qed
  qed (use p m in \<open>simp add: nmea_reader_parse_def\<close>)
qed

lemma addc_mute: "nmea_reader_addc k cb r c = Inr s \<Longrightarrow> mute fs r \<Longrightarrow> mute fs s"
proof -
  assume a: "nmea_reader_addc k cb r c = Inr s" and m: "mute fs r"
  have upd: "mute fs (u\<lparr>pos := p\<rparr>) = mute fs u" "mute fs (u\<lparr>overflow := b\<rparr>) = mute fs u" "mute fs (u\<lparr>rin := l\<rparr>) = mute fs u"
    for u p b l by (simp_all add: mute_def fixes_of_def)
  show ?thesis
  proof (cases "overflow r \<or> NMEA_MAX_SIZE \<le> pos r")
    case True
    then show ?thesis using a m by (auto simp: nmea_reader_addc_def upd split: if_split_asm)
  next
    case False
    then obtain l where l: "(if c = LF then bindr (nmea_reader_parse k cb (r\<lparr>rin := l, pos := Suc (pos r)\<rparr>)) (\<lambda>r2. Inr (r2\<lparr>pos := 0\<rparr>))
              else Inr (r\<lparr>rin := l, pos := Suc (pos r)\<rparr>)) = Inr s"
      using a by (auto simp: nmea_reader_addc_def bindr_Inr Let_def)
    have "mute fs (r\<lparr>rin := l, pos := Suc (pos r)\<rparr>)" using m by (simp add: upd)
    then show ?thesis using l parse_mute by (auto simp: bindr_Inr upd split: if_split_asm)
  qed
qed

lemma feed_mute: "nmea_feed k cb r bs = Inr s \<Longrightarrow> mute fs r \<Longrightarrow> mute fs s"
proof (induction bs arbitrary: r)
  case (Cons c bs)
  then obtain u where "nmea_reader_addc k cb r c = Inr u" "nmea_feed k cb u bs = Inr s" by (auto simp: bindr_Inr)
  then show ?case using Cons addc_mute by blast
qed simp

lemma reads_mute: "gps_reads k cb rs r = Inr s \<Longrightarrow> mute fs r \<Longrightarrow> mute fs s"
  by (induction k cb rs r rule: gps_reads.induct) (auto simp: bindr_Inr dest: feed_mute)


subsection \<open>Commands\<close>

text \<open>The thread has not been started, or has been stopped.\<close>

definition stopped :: "gps_event list \<Rightarrow> worker \<Rightarrow> bool" where
  "stopped fs w \<longleftrightarrow> \<not> started w \<and> mute fs (wreader w)"

definition no_start :: "wait list \<Rightarrow> bool" where
  "no_start es \<longleftrightarrow> (\<forall>rs. Ready rs \<in> set es \<longrightarrow> ControlIn (Some CMD_START) \<notin> set rs)"

lemma on_command_stopped:
  "on_command cb c w = (q, u) \<Longrightarrow> c \<noteq> Some CMD_START \<Longrightarrow> stopped fs w \<Longrightarrow> stopped fs u"
  by (auto simp: on_command_def stopped_def split: option.splits cmd.splits)

lemma on_ready_stopped:
  "on_ready k cb es w = Inr (q, u) \<Longrightarrow> ControlIn (Some CMD_START) \<notin> set es \<Longrightarrow> stopped fs w \<Longrightarrow> stopped fs u"
proof (induction es arbitrary: w)
  case (Cons e es)
  have tl: "ControlIn (Some CMD_START) \<notin> set es" using Cons.prems(2) by simp
  show ?case
  proof (cases e)
    case (ControlIn c)
    obtain q' w1 where c: "on_command cb c w = (q', w1)" by fastforce
    have "stopped fs w1" using on_command_stopped [OF c _ Cons.prems(3)] Cons.prems(2) ControlIn by auto
    then show ?thesis using Cons.IH tl Cons.prems(1) ControlIn c by (auto split: if_split_asm)
  next
    case (GpsIn rs)
    then obtain r where r: "gps_reads k cb rs (wreader w) = Inr r" "on_ready k cb es (w\<lparr>wreader := r\<rparr>) = Inr (q, u)"
      using Cons.prems(1) by (auto simp: bindr_Inr)
    have "stopped fs (w\<lparr>wreader := r\<rparr>)" using reads_mute [OF r(1)] Cons.prems(3) by (simp add: stopped_def)
    then show ?thesis using Cons.IH [OF r(2) tl] by simp
  qed (use Cons tl in auto)
qed simp

text \<open>
  C34: While the thread is not started no location fix reaches the framework, whatever the
  receiver sends and however its data arrives, until a start command is read.
\<close>

theorem gps_no_fix_unless_started:
  assumes "\<not> started w" "\<not> callback (wreader w)" "no_start es" "thread_loop k cb es w = Inr (q, u)"
  shows "\<not> started u \<and> fixes_of (wreader u) = fixes_of (wreader w)"
proof -
  have "stopped (fixes_of (wreader w)) u"
    if "thread_loop k cb es v = Inr (q, u)" "stopped (fixes_of (wreader w)) v" "no_start es" for v
    using that
  proof (induction es arbitrary: v)
    case (Cons e es)
    have tl: "no_start es" using Cons.prems(3) by (auto simp: no_start_def)
    show ?case
    proof (cases e)
      case (Ready rs)
      then obtain q' w1 where r: "on_ready k cb rs v = Inr (q', w1)"
        "(if q' then Inr (True, w1) else thread_loop k cb es w1) = Inr (q, u)"
        using Cons.prems(1) by (auto simp: bindr_Inr)
      have "ControlIn (Some CMD_START) \<notin> set rs" using Cons.prems(3) Ready by (auto simp: no_start_def)
      from on_ready_stopped [OF r(1) this Cons.prems(2)] show ?thesis
        using r(2) Cons.IH tl by (auto split: if_split_asm)
    qed (use Cons tl in auto)
  qed simp
  then show ?thesis using assms by (auto simp: stopped_def mute_def)
qed

theorem gps_no_fix_unless_started_witness:
  "\<exists>u. thread_loop ex_clock ex_callbacks
      [WaitEintr, Ready [GpsIn [Bytes (bytes ''$GPGGA,120000,1'' @ [LF])]], Ready [ControlIn (Some CMD_STOP)]]
      \<lparr>started = False, wreader = (ex_reader 1)\<lparr>callback := False\<rparr>\<rparr> = Inr (False, u)
    \<and> \<not> started u \<and> fixes_of (wreader u) = []"
proof -
  let ?w = "\<lparr>started = False, wreader = (ex_reader 1)\<lparr>callback := False\<rparr>\<rparr>"
  let ?es = "[WaitEintr, Ready [GpsIn [Bytes (bytes ''$GPGGA,120000,1'' @ [LF])]], Ready [ControlIn (Some CMD_STOP)]]"
  have "case thread_loop ex_clock ex_callbacks ?es ?w of Inr (False, u) \<Rightarrow> True | _ \<Rightarrow> False"
    by code_simp
  then obtain u where u: "thread_loop ex_clock ex_callbacks ?es ?w = Inr (False, u)"
    by (auto split: sum.split_asm bool.split_asm)
  have "no_start ?es" by (simp add: no_start_def)
  from gps_no_fix_unless_started [OF _ _ this u] u show ?thesis
    by (simp add: fixes_of_def ex_reader_def del: bytes_simps)
qed


subsection \<open>Calls of the interface\<close>

fun run_calls :: "gps_call list \<Rightarrow> GpsState \<Rightarrow> (int list \<times> GpsState) ck" where
  "run_calls [] s = Inr ([], s)"
| "run_calls (c # cs) s =
     bindr (gps_call_result c s) (\<lambda>(r, s1). bindr (run_calls cs s1) (\<lambda>(rs, s2). Inr (r # rs, s2)))"

definition is_control :: "gps_call \<Rightarrow> bool" where
  "is_control c = (case c of Init e cb \<Rightarrow> False | Cleanup \<Rightarrow> False | _ \<Rightarrow> True)"

definition commands_of :: "gps_call list \<Rightarrow> cmd list" where
  "commands_of cs = concat (map (\<lambda>c. case c of Start \<Rightarrow> [CMD_START] | Stop \<Rightarrow> [CMD_STOP] | _ \<Rightarrow> []) cs)"

lemma run_controls:
  "sinit s \<Longrightarrow> control s = Some q \<Longrightarrow> list_all is_control cs \<Longrightarrow>
     run_calls cs s = Inr (map (\<lambda>_. 0) cs, s\<lparr>control := Some (q @ commands_of cs)\<rparr>)"
proof (induction cs arbitrary: s q)
  case Nil
  then show ?case by (cases s) (simp add: commands_of_def)
next
  case (Cons c cs)
  let ?x = "case c of Start \<Rightarrow> [CMD_START] | Stop \<Rightarrow> [CMD_STOP] | _ \<Rightarrow> []"
  let ?s = "s\<lparr>control := Some (q @ ?x)\<rparr>"
  have id: "s\<lparr>control := Some q\<rparr> = s" using Cons.prems(2) by (cases s) simp
  have r: "gps_call_result c s = Inr (0, ?s)"
    using Cons.prems id
    by (cases c) (simp_all add: gps_call_result_def qemu_gps_start_def qemu_gps_stop_def gps_state_start_def
        gps_state_stop_def send_cmd_def qemu_gps_inject_time_def qemu_gps_inject_location_def
        qemu_gps_delete_aiding_data_def qemu_gps_set_position_mode_def is_control_def)
  have "run_calls cs ?s = Inr (map (\<lambda>_. 0) cs, ?s\<lparr>control := Some ((q @ ?x) @ commands_of cs)\<rparr>)"
    using Cons.prems by (intro Cons.IH) simp_all
  then show ?case using r by (simp add: commands_of_def)
qed

text \<open>The thread reading commands one at a time.\<close>

definition as_events :: "cmd list \<Rightarrow> wait list" where
  "as_events cs = map (\<lambda>c. Ready [ControlIn (Some c)]) cs"

text \<open>A worker whose callback is set exactly while it is started.\<close>

definition callback_iff_started :: "GpsCallbacks \<Rightarrow> worker \<Rightarrow> bool" where
  "callback_iff_started cb w \<longleftrightarrow> callback (wreader w) = (started w \<and> location_cb cb)"

lemma set_callback [simp]: "callback (nmea_reader_set_callback b r) = b"
  by (simp add: nmea_reader_set_callback_def Let_def emit_def)

lemma commands_run:
  "callback_iff_started cb w \<Longrightarrow> CMD_QUIT \<notin> set cs \<Longrightarrow>
     \<exists>u. thread_loop k cb (as_events cs) w = Inr (False, u) \<and> callback_iff_started cb u \<and>
       started u = (if cs = [] then started w else last cs = CMD_START)"
proof (induction cs arbitrary: w)
  case (Cons c cs)
  obtain q w1 where c: "on_command cb (Some c) w = (q, w1)" by fastforce
  have w1: "\<not> q" "callback_iff_started cb w1" "started w1 = (c = CMD_START)"
    using c Cons.prems
    by (cases c; auto simp: on_command_def callback_iff_started_def split: if_split_asm)+
  obtain u where "thread_loop k cb (as_events cs) w1 = Inr (False, u)" "callback_iff_started cb u"
    "started u = (if cs = [] then started w1 else last cs = CMD_START)"
    using Cons.IH [OF w1(2)] Cons.prems(2) by auto
  then show ?case using c w1 by (intro exI [of _ u]) (simp add: as_events_def)
qed (simp add: as_events_def)

text \<open>
  C35: Calls of \<open>start\<close> and \<open>stop\<close> on an initialised connection reach the thread in order, and
  the last one decides: afterwards the thread is started exactly when it was \<open>start\<close>, and
  then (and only then) fixes are reported.
\<close>

theorem gps_last_command_wins:
  assumes "sinit s" "control s = Some []" "list_all is_control calls" "commands_of calls \<noteq> []"
    and "callback_iff_started cb w"
  shows "\<exists>t u. run_calls calls s = Inr (map (\<lambda>_. 0) calls, t) \<and>
    (\<exists>cs. control t = Some cs \<and> thread_loop k cb (as_events cs) w = Inr (False, u)) \<and>
    started u = (last (commands_of calls) = CMD_START) \<and> callback (wreader u) = (started u \<and> location_cb cb)"
proof -
  let ?cs = "commands_of calls"
  have "CMD_QUIT \<notin> set ?cs" by (auto simp: commands_of_def split: gps_call.splits)
  then obtain u where "thread_loop k cb (as_events ?cs) w = Inr (False, u)" "callback_iff_started cb u"
    "started u = (last ?cs = CMD_START)"
    using commands_run [OF assms(5), of ?cs k] assms(4) by auto
  then show ?thesis
    using run_controls [OF assms(1-3)] by (intro exI [of _ "s\<lparr>control := Some ?cs\<rparr>"] exI [of _ u])
      (simp add: callback_iff_started_def)
qed

definition ex_port :: port where
  "ex_port = \<lparr>tio = \<lparr>ispeed = 38400, ospeed = 38400, csize = 7, CSTOPB = True, PARENB = True, PARODD = False,
     INPCK = False, VTIME = 0, VMIN = 1\<rparr>, get_ok = True, set_ok = True, flush_ok = True\<rparr>"

definition ex_state :: GpsState where
  "ex_state = \<lparr>sinit = False, sfd = 0, callbacks = \<lparr>nmea_cb = False, sv_status_cb = False, location_cb = False\<rparr>,
     thread = False, control = None, reader = ex_reader 1, sport = ex_port\<rparr>"

theorem gps_last_command_wins_witness:
  "\<exists>t u. run_calls [Start, Stop, InjectTime, Start] (ex_state\<lparr>sinit := True, control := Some []\<rparr>) = Inr ([0, 0, 0, 0], t)
    \<and> (\<exists>cs. control t = Some cs \<and> thread_loop ex_clock ex_callbacks (as_events cs)
         \<lparr>started = False, wreader = (ex_reader 1)\<lparr>callback := False\<rparr>\<rparr> = Inr (False, u))
    \<and> started u"
proof -
  have "callback_iff_started ex_callbacks \<lparr>started = False, wreader = (ex_reader 1)\<lparr>callback := False\<rparr>\<rparr>"
    by (simp add: callback_iff_started_def)
  from gps_last_command_wins [OF _ _ _ _ this, of "ex_state\<lparr>sinit := True, control := Some []\<rparr>"
      "[Start, Stop, InjectTime, Start]" ex_clock]
  show ?thesis by (simp add: is_control_def commands_of_def) blast
qed

text \<open>
  \<open>qemu_gps_init\<close> reports success when the port cannot be configured, although there is
  no thread and no control channel; the clean-up after it then joins a thread that was never
  created.
\<close>

theorem gps_init_ignores_port_failure:
  assumes "\<not> sinit s" "\<not> thread s" "0 < open_fd e" "\<not> set_ok (sport s)"
  shows "\<exists>t. qemu_gps_init e cb s = Inr (0, t) \<and> sinit t \<and> \<not> thread t \<and> control t = None
    \<and> qemu_gps_start t = (0, t) \<and> qemu_gps_cleanup t = Inl BadHandle"
proof -
  have p: "gps_set_ttymxc (stack e) (open_fd e) (sport s) = (- 1, sport s)"
    using assms(3,4) by (simp add: gps_set_ttymxc_def gps_set_baudrate_def Let_def)
  let ?t = "s\<lparr>sinit := True, control := None, sfd := open_fd e, sport := sport s\<rparr>"
  have "qemu_gps_init e cb s = Inr (0, ?t)"
    using assms p by (simp add: qemu_gps_init_def gps_state_init_def)
  moreover have "qemu_gps_start ?t = (0, ?t)" "qemu_gps_cleanup ?t = Inl BadHandle"
    using assms(2)
    by (simp_all add: qemu_gps_start_def gps_state_start_def send_cmd_def qemu_gps_cleanup_def gps_state_done_def)
  ultimately show ?thesis using assms(2) by (intro exI [of _ ?t]) simp
qed

theorem gps_init_ignores_port_failure_witness:
  "\<exists>t. qemu_gps_init \<lparr>open_fd = 5, pair_ok = True, create_ok = True, stack = tio ex_port\<rparr> ex_callbacks
      (ex_state\<lparr>sport := ex_port\<lparr>set_ok := False\<rparr>\<rparr>) = Inr (0, t) \<and> qemu_gps_cleanup t = Inl BadHandle"
  using gps_init_ignores_port_failure [of "ex_state\<lparr>sport := ex_port\<lparr>set_ok := False\<rparr>\<rparr>"
      "\<lparr>open_fd = 5, pair_ok = True, create_ok = True, stack = tio ex_port\<rparr>" ex_callbacks]
  by (auto simp: ex_state_def ex_port_def)

text \<open>
  When every call on the port succeeds, it ends up at 9600 baud, 8 data bits, no parity,
  one stop bit, whatever it was set to before; but input parity checking is switched on,
  because only the parity letter \<open>n\<close> is exempted from it.
\<close>

theorem gps_port_settings:
  assumes "0 < d" "get_ok p" "set_ok p" "flush_ok p"
  shows "\<exists>q. gps_set_ttymxc junk d p = (0, q) \<and> ispeed (tio q) = 9600 \<and> ospeed (tio q) = 9600 \<and> csize (tio q) = 8
    \<and> \<not> PARENB (tio q) \<and> \<not> CSTOPB (tio q) \<and> VTIME (tio q) = 10 \<and> VMIN (tio q) = 0 \<and> INPCK (tio q)"
  using assms
  by (simp add: gps_set_ttymxc_def gps_set_baudrate_def gps_set_parity_def set_databits_def set_parity_def
      set_stopbits_def Let_def)

theorem gps_port_settings_witness:
  "\<exists>q. gps_set_ttymxc (tio ex_port) 5 ex_port = (0, q) \<and> csize (tio q) = 8 \<and> INPCK (tio q)"
  using gps_port_settings [of 5 ex_port "tio ex_port"] by (auto simp: ex_port_def)

end
