(* ===== verification/Pool.thy ===== *)
theory Pool
  imports Checked
begin

text \<open>
  The thread pool of \<open>src/testcode/linux/pthread/pthread_pool.c\<close>: worker threads that take
  tasks from a linked queue, and the thread that fills the queue and shuts the pool down.

  Every access to shared memory between two lock operations is a step of its own where
  another thread may interfere with it; the relation \<open>step\<close> interleaves the steps of the
  caller (\<open>pool_init\<close>, \<open>pool_add_worker\<close>, \<open>pool_destroy\<close>) with those of the workers
  (\<open>thread_routine\<close>). The heap of queue nodes is explicit.
\<close>

subsection \<open>Data\<close>

type_synonym addr = nat

record ('p, 'a) worker =
  process :: 'p
  arg :: 'a
  next_worker :: "addr option"

type_synonym ('p, 'a) heap = "addr \<rightharpoonup> ('p, 'a) worker"

datatype who = Caller | Thread nat

text \<open>
  The mutex is its owner; the condition variable is the set of threads asleep on it, which
  their program counters record.
\<close>

record CThread_pool =
  queue_lock :: "who option"
  queue_head :: "addr option"
  shutdown :: bool
  max_thread_num :: nat
  cur_queue_size :: int

datatype fault =
    NoMemory \<comment> \<open>the result of malloc is used without a check\<close>
  | NullPool \<comment> \<open>a call after pool_destroy\<close>
  | BadThread \<comment> \<open>join of a thread that was not created\<close>
  | AssertFailed
  | BadNode \<comment> \<open>a dangling queue node\<close>
  | DeadPool \<comment> \<open>a worker uses the pool after it was freed\<close>

text \<open>Where a worker stands in \<open>thread_routine\<close>.\<close>

datatype wpc =
    NotStarted
  | AtLock
  | Testing \<comment> \<open>holds the lock, at the condition of the inner loop\<close>
  | ToWait \<comment> \<open>the condition held: about to call pthread_cond_wait\<close>
  | Asleep
  | Woken \<comment> \<open>in pthread_cond_wait, getting the lock back\<close>
  | Deciding \<comment> \<open>at the test of shutdown after the loop\<close>
  | Leaving
  | Exiting
  | Exited
  | Taking
  | Got addr
  | Running addr
  | Freeing addr

datatype ('p, 'a) call = Add 'p 'a | Destroy

text \<open>Where the calling thread stands.\<close>

datatype cpc =
    Init nat
  | Create nat
  | Idle \<comment> \<open>between two calls\<close>
  | AddLock addr
  | AddLink addr
  | AddUnlock
  | AddSignal
  | DestroyWake
  | DestroyJoin nat
  | DestroyDrain

record ('p, 'a) sys =
  pool :: "CThread_pool option"
  heap :: "('p, 'a) heap"
  wpc :: "nat \<Rightarrow> wpc"
  cpc :: cpc
  calls :: "('p, 'a) call list"
  failed :: "fault option"

datatype ('p, 'a) event =
    Put "'p \<times> 'a"
  | Get nat "'p \<times> 'a"
  | Ran nat "'p \<times> 'a"
  | Drop "'p \<times> 'a"
  | Spurious nat
  | Quiet

subsection \<open>The critical sections\<close>

text \<open>
  Nodes of 12 bytes in an address space of \<open>2 ^ 32\<close> bytes: an allocation beyond this many
  nodes does not succeed.
\<close>

definition max_nodes :: nat where
  "max_nodes = 2 ^ 31 - 1"

definition new_pool :: "nat \<Rightarrow> CThread_pool" where
  "new_pool n = \<lparr>queue_lock = None, queue_head = None, shutdown = False, max_thread_num = n,
     cur_queue_size = 0\<rparr>"

text \<open>The walk to the last node; no value if it meets a dangling pointer or never ends.\<close>

partial_function (option) last_worker :: "('p, 'a) heap \<Rightarrow> addr \<Rightarrow> addr option" where
  "last_worker h member =
     (case h member of
        None \<Rightarrow> None
      | Some w \<Rightarrow> (case next_worker w of None \<Rightarrow> Some member | Some m \<Rightarrow> last_worker h m))"

definition link_worker ::
  "('p, 'a) heap \<Rightarrow> CThread_pool \<Rightarrow> addr \<Rightarrow> fault + ('p, 'a) heap \<times> CThread_pool" where
  "link_worker h P new =
     bindr
       (case queue_head P of
          Some member \<Rightarrow>
            (case last_worker h member of
               None \<Rightarrow> Inl BadNode
             | Some l \<Rightarrow>
                 (case h l of
                    None \<Rightarrow> Inl BadNode
                  | Some w \<Rightarrow> Inr (h(l \<mapsto> w\<lparr>next_worker := Some new\<rparr>), P)))
        | None \<Rightarrow> Inr (h, P\<lparr>queue_head := Some new\<rparr>))
       (\<lambda>(h, P).
          if queue_head P = None then Inl AssertFailed
          else Inr (h, P\<lparr>cur_queue_size := wrap32 (cur_queue_size P + 1)\<rparr>))"

definition take_worker :: "('p, 'a) heap \<Rightarrow> CThread_pool \<Rightarrow> fault + addr \<times> CThread_pool" where
  "take_worker h P =
     (if cur_queue_size P = 0 then Inl AssertFailed
      else case queue_head P of
        None \<Rightarrow> Inl AssertFailed
      | Some a \<Rightarrow>
          (case h a of
             None \<Rightarrow> Inl BadNode
           | Some w \<Rightarrow>
               Inr (a, P\<lparr>cur_queue_size := wrap32 (cur_queue_size P - 1),
                         queue_head := next_worker w\<rparr>)))"

abbreviation must_wait :: "CThread_pool \<Rightarrow> bool" where
  "must_wait P \<equiv> cur_queue_size P = 0 \<and> \<not> shutdown P"

definition task :: "('p, 'a) worker \<Rightarrow> 'p \<times> 'a" where
  "task w = (process w, arg w)"

subsection \<open>Steps\<close>

abbreviation set_wpc :: "nat \<Rightarrow> wpc \<Rightarrow> ('p, 'a) sys \<Rightarrow> ('p, 'a) sys" where
  "set_wpc i c s \<equiv> s\<lparr>wpc := (wpc s)(i := c)\<rparr>"

abbreviation set_lock :: "who option \<Rightarrow> CThread_pool \<Rightarrow> ('p, 'a) sys \<Rightarrow> ('p, 'a) sys" where
  "set_lock l P s \<equiv> s\<lparr>pool := Some (P\<lparr>queue_lock := l\<rparr>)\<rparr>"

definition wake_all :: "(nat \<Rightarrow> wpc) \<Rightarrow> nat \<Rightarrow> wpc" where
  "wake_all f i = (if f i = Asleep then Woken else f i)"

text \<open>The program counters at which a worker reads through \<open>pool\<close>.\<close>

definition uses_pool :: "wpc \<Rightarrow> bool" where
  "uses_pool c \<longleftrightarrow>
     c \<in> {AtLock, Testing, ToWait, Asleep, Woken, Deciding, Leaving, Taking} \<or> (\<exists>a. c = Got a)"

text \<open>\<open>pool_init\<close>, \<open>pool_add_worker\<close> and \<open>pool_destroy\<close>.\<close>

inductive caller_step :: "('p, 'a) sys \<Rightarrow> ('p, 'a) event \<Rightarrow> ('p, 'a) sys \<Rightarrow> bool" where
  init: "cpc s = Init n \<Longrightarrow>
     caller_step s Quiet (s\<lparr>pool := Some (new_pool n), cpc := Create 0\<rparr>)"
| init_failed: "cpc s = Init n \<Longrightarrow> caller_step s Quiet (s\<lparr>failed := Some NoMemory\<rparr>)"
| create: "cpc s = Create i \<Longrightarrow> pool s = Some P \<Longrightarrow> i < max_thread_num P \<Longrightarrow>
     caller_step s Quiet (set_wpc i AtLock s\<lparr>cpc := Create (Suc i)\<rparr>)"
| create_failed: "cpc s = Create i \<Longrightarrow> pool s = Some P \<Longrightarrow> i < max_thread_num P \<Longrightarrow>
     caller_step s Quiet (s\<lparr>cpc := Create (Suc i)\<rparr>)"
| created: "cpc s = Create i \<Longrightarrow> pool s = Some P \<Longrightarrow> \<not> i < max_thread_num P \<Longrightarrow>
     caller_step s Quiet (s\<lparr>cpc := Idle\<rparr>)"
| add_new: "cpc s = Idle \<Longrightarrow> calls s = Add p x # cs \<Longrightarrow> heap s a = None \<Longrightarrow>
     card (dom (heap s)) < max_nodes \<Longrightarrow>
     caller_step s Quiet (s\<lparr>heap := (heap s)(a \<mapsto> \<lparr>process = p, arg = x, next_worker = None\<rparr>),
       calls := cs, cpc := AddLock a\<rparr>)"
| add_failed: "cpc s = Idle \<Longrightarrow> calls s = Add p x # cs \<Longrightarrow>
     caller_step s Quiet (s\<lparr>failed := Some NoMemory\<rparr>)"
| add_null: "cpc s = AddLock a \<Longrightarrow> pool s = None \<Longrightarrow>
     caller_step s Quiet (s\<lparr>failed := Some NullPool\<rparr>)"
| add_lock: "cpc s = AddLock a \<Longrightarrow> pool s = Some P \<Longrightarrow> queue_lock P = None \<Longrightarrow>
     caller_step s Quiet (set_lock (Some Caller) P s\<lparr>cpc := AddLink a\<rparr>)"
| add_link: "cpc s = AddLink a \<Longrightarrow> pool s = Some P \<Longrightarrow> heap s a = Some w \<Longrightarrow>
     link_worker (heap s) P a = Inr (h, P') \<Longrightarrow>
     caller_step s (Put (task w)) (s\<lparr>pool := Some P', heap := h, cpc := AddUnlock\<rparr>)"
| add_bad: "cpc s = AddLink a \<Longrightarrow> pool s = Some P \<Longrightarrow> link_worker (heap s) P a = Inl e \<Longrightarrow>
     caller_step s Quiet (s\<lparr>failed := Some e\<rparr>)"
| add_unlock: "cpc s = AddUnlock \<Longrightarrow> pool s = Some P \<Longrightarrow>
     caller_step s Quiet (set_lock None P s\<lparr>cpc := AddSignal\<rparr>)"
| add_signal: "cpc s = AddSignal \<Longrightarrow> wpc s i = Asleep \<Longrightarrow>
     caller_step s Quiet (set_wpc i Woken s\<lparr>cpc := Idle\<rparr>)"
| add_signal_none: "cpc s = AddSignal \<Longrightarrow> (\<And>i. wpc s i \<noteq> Asleep) \<Longrightarrow>
     caller_step s Quiet (s\<lparr>cpc := Idle\<rparr>)"
| destroy_null: "cpc s = Idle \<Longrightarrow> calls s = Destroy # cs \<Longrightarrow> pool s = None \<Longrightarrow>
     caller_step s Quiet (s\<lparr>failed := Some NullPool\<rparr>)"
| destroy_again: "cpc s = Idle \<Longrightarrow> calls s = Destroy # cs \<Longrightarrow> pool s = Some P \<Longrightarrow> shutdown P \<Longrightarrow>
     caller_step s Quiet (s\<lparr>calls := cs\<rparr>)"
| destroy: "cpc s = Idle \<Longrightarrow> calls s = Destroy # cs \<Longrightarrow> pool s = Some P \<Longrightarrow> \<not> shutdown P \<Longrightarrow>
     caller_step s Quiet (s\<lparr>pool := Some (P\<lparr>shutdown := True\<rparr>), calls := cs, cpc := DestroyWake\<rparr>)"
| destroy_wake: "cpc s = DestroyWake \<Longrightarrow>
     caller_step s Quiet (s\<lparr>wpc := wake_all (wpc s), cpc := DestroyJoin 0\<rparr>)"
| destroy_join: "cpc s = DestroyJoin i \<Longrightarrow> pool s = Some P \<Longrightarrow> i < max_thread_num P \<Longrightarrow>
     wpc s i = Exited \<Longrightarrow> caller_step s Quiet (s\<lparr>cpc := DestroyJoin (Suc i)\<rparr>)"
| destroy_bad: "cpc s = DestroyJoin i \<Longrightarrow> pool s = Some P \<Longrightarrow> i < max_thread_num P \<Longrightarrow>
     wpc s i = NotStarted \<Longrightarrow> caller_step s Quiet (s\<lparr>failed := Some BadThread\<rparr>)"
| destroy_joined: "cpc s = DestroyJoin i \<Longrightarrow> pool s = Some P \<Longrightarrow> \<not> i < max_thread_num P \<Longrightarrow>
     caller_step s Quiet (s\<lparr>cpc := DestroyDrain\<rparr>)"
| destroy_drain: "cpc s = DestroyDrain \<Longrightarrow> pool s = Some P \<Longrightarrow> queue_head P = Some a \<Longrightarrow>
     heap s a = Some w \<Longrightarrow>
     caller_step s (Drop (task w))
       (s\<lparr>pool := Some (P\<lparr>queue_head := next_worker w\<rparr>), heap := (heap s)(a := None)\<rparr>)"
| destroy_dangling: "cpc s = DestroyDrain \<Longrightarrow> pool s = Some P \<Longrightarrow> queue_head P = Some a \<Longrightarrow>
     heap s a = None \<Longrightarrow> caller_step s Quiet (s\<lparr>failed := Some BadNode\<rparr>)"
| destroy_done: "cpc s = DestroyDrain \<Longrightarrow> pool s = Some P \<Longrightarrow> queue_head P = None \<Longrightarrow>
     caller_step s Quiet (s\<lparr>pool := None, cpc := Idle\<rparr>)"

text \<open>\<open>thread_routine\<close>; a wake-up without a signal is allowed, as POSIX does.\<close>

inductive worker_step :: "nat \<Rightarrow> ('p, 'a) sys \<Rightarrow> ('p, 'a) event \<Rightarrow> ('p, 'a) sys \<Rightarrow> bool"
  for i where
  w_dead: "uses_pool (wpc s i) \<Longrightarrow> pool s = None \<Longrightarrow>
     worker_step i s Quiet (s\<lparr>failed := Some DeadPool\<rparr>)"
| w_lock: "wpc s i \<in> {AtLock, Woken} \<Longrightarrow> pool s = Some P \<Longrightarrow> queue_lock P = None \<Longrightarrow>
     worker_step i s Quiet (set_wpc i Testing (set_lock (Some (Thread i)) P s))"
| w_empty: "wpc s i = Testing \<Longrightarrow> pool s = Some P \<Longrightarrow> must_wait P \<Longrightarrow>
     worker_step i s Quiet (set_wpc i ToWait s)"
| w_ready: "wpc s i = Testing \<Longrightarrow> pool s = Some P \<Longrightarrow> \<not> must_wait P \<Longrightarrow>
     worker_step i s Quiet (set_wpc i Deciding s)"
| w_wait: "wpc s i = ToWait \<Longrightarrow> pool s = Some P \<Longrightarrow>
     worker_step i s Quiet (set_wpc i Asleep (set_lock None P s))"
| w_spurious: "wpc s i = Asleep \<Longrightarrow> pool s = Some P \<Longrightarrow>
     worker_step i s (Spurious i) (set_wpc i Woken s)"
| w_shut: "wpc s i = Deciding \<Longrightarrow> pool s = Some P \<Longrightarrow> shutdown P \<Longrightarrow>
     worker_step i s Quiet (set_wpc i Leaving s)"
| w_work: "wpc s i = Deciding \<Longrightarrow> pool s = Some P \<Longrightarrow> \<not> shutdown P \<Longrightarrow>
     worker_step i s Quiet (set_wpc i Taking s)"
| w_leave: "wpc s i = Leaving \<Longrightarrow> pool s = Some P \<Longrightarrow>
     worker_step i s Quiet (set_wpc i Exiting (set_lock None P s))"
| w_exit: "wpc s i = Exiting \<Longrightarrow> worker_step i s Quiet (set_wpc i Exited s)"
| w_take: "wpc s i = Taking \<Longrightarrow> pool s = Some P \<Longrightarrow> take_worker (heap s) P = Inr (a, P') \<Longrightarrow>
     heap s a = Some w \<Longrightarrow>
     worker_step i s (Get i (task w)) (set_wpc i (Got a) (s\<lparr>pool := Some P'\<rparr>))"
| w_bad: "wpc s i = Taking \<Longrightarrow> pool s = Some P \<Longrightarrow> take_worker (heap s) P = Inl e \<Longrightarrow>
     worker_step i s Quiet (s\<lparr>failed := Some e\<rparr>)"
| w_unlock: "wpc s i = Got a \<Longrightarrow> pool s = Some P \<Longrightarrow>
     worker_step i s Quiet (set_wpc i (Running a) (set_lock None P s))"
| w_run: "wpc s i = Running a \<Longrightarrow> heap s a = Some w \<Longrightarrow>
     worker_step i s (Ran i (task w)) (set_wpc i (Freeing a) s)"
| w_run_bad: "wpc s i = Running a \<Longrightarrow> heap s a = None \<Longrightarrow>
     worker_step i s Quiet (s\<lparr>failed := Some BadNode\<rparr>)"
| w_free: "wpc s i = Freeing a \<Longrightarrow>
     worker_step i s Quiet (set_wpc i AtLock (s\<lparr>heap := (heap s)(a := None)\<rparr>))"

inductive pool_step :: "('p, 'a) sys \<Rightarrow> ('p, 'a) event \<Rightarrow> ('p, 'a) sys \<Rightarrow> bool" where
  caller: "failed s = None \<Longrightarrow> caller_step s e t \<Longrightarrow> pool_step s e t"
| worker: "failed s = None \<Longrightarrow> worker_step i s e t \<Longrightarrow> pool_step s e t"

definition pool_start :: "nat \<Rightarrow> ('p, 'a) call list \<Rightarrow> ('p, 'a) sys" where
  "pool_start n cs = \<lparr>pool = None, heap = Map.empty, wpc = \<lambda>_. NotStarted, cpc = Init n,
     calls = cs, failed = None\<rparr>"

text \<open>Runs, with the events in the order in which they happen.\<close>

inductive pool_run :: "('p, 'a) sys \<Rightarrow> ('p, 'a) event list \<Rightarrow> ('p, 'a) sys \<Rightarrow> bool" for s where
  start: "pool_run s [] s"
| more_steps: "pool_run s es t \<Longrightarrow> pool_step t e u \<Longrightarrow> pool_run s (es @ [e]) u"

end
