(* ===== verification/PoolQueue.thy ===== *)
theory PoolQueue
  imports Pool
begin

text \<open>
  The linked queue of the thread pool: what linking and taking a node do to the list of
  nodes, stated as an interface that the pool's proofs use.
\<close>

text \<open>The nodes that can be reached from a pointer, in order.\<close>

fun chain :: "('p, 'a) heap \<Rightarrow> addr option \<Rightarrow> addr list \<Rightarrow> bool" where
  "chain h p [] \<longleftrightarrow> p = None"
| "chain h p (a # as) \<longleftrightarrow>
     p = Some a \<and> (case h a of None \<Rightarrow> False | Some w \<Rightarrow> chain h (next_worker w) as)"

definition tasks :: "('p, 'a) heap \<Rightarrow> addr list \<Rightarrow> ('p \<times> 'a) list" where
  "tasks h as = map (\<lambda>a. task (the (h a))) as"

lemma chain_cong: "(\<And>a. a \<in> set as \<Longrightarrow> h' a = h a) \<Longrightarrow> chain h' p as = chain h p as"
  by (induction as arbitrary: p) (auto split: option.splits)

lemma chain_dom: "chain h p as \<Longrightarrow> set as \<subseteq> dom h"
  by (induction as arbitrary: p) (auto split: option.splits)

lemma tasks_cong: "(\<And>a. a \<in> set as \<Longrightarrow> task (the (h' a)) = task (the (h a))) \<Longrightarrow> tasks h' as = tasks h as"
  by (simp add: tasks_def)

lemma tasks_simps [simp]:
  "tasks h [] = []" "tasks h (a # as) = task (the (h a)) # tasks h as"
  "tasks h (as @ bs) = tasks h as @ tasks h bs"
  by (simp_all add: tasks_def)

lemma chain_upd [simp]: "a \<notin> set as \<Longrightarrow> chain (h(a := x)) p as = chain h p as"
  by (rule chain_cong) auto

lemma tasks_upd [simp]: "a \<notin> set as \<Longrightarrow> tasks (h(a := x)) as = tasks h as"
  by (rule tasks_cong) auto

lemma last_worker_chain: "chain h (Some a) as \<Longrightarrow> last_worker h a = Some (last as)"
proof (induction as arbitrary: a)
  case (Cons b as)
  then show ?case
    by (cases as) (auto simp: last_worker.simps [of h b] split: option.splits)
qed simp

lemma chain_snoc:
  assumes "chain h p as" "as \<noteq> []" "distinct as" "n \<notin> set as" "h n = Some v" "next_worker v = None"
  shows "chain (h(last as \<mapsto> (the (h (last as)))\<lparr>next_worker := Some n\<rparr>)) p (as @ [n])"
  using assms
proof (induction as arbitrary: p)
  case (Cons b as)
  obtain w where w: "h b = Some w" and c: "chain h (next_worker w) as" and p: "p = Some b"
    using Cons.prems(1) by (auto split: option.splits)
  show ?case
  proof (cases "as = []")
    case True
    with Cons.prems w p show ?thesis by auto
  next
    case False
    with Cons.prems have "last as \<noteq> b" by (metis distinct.simps(2) last_in_set)
    with False Cons w p c show ?thesis by auto
  qed
qed simp

text \<open>A queue in memory: its nodes in order, with the count that the pool keeps.\<close>

definition queue_nodes :: "('p, 'a) heap \<times> CThread_pool \<Rightarrow> addr list \<Rightarrow> bool" where
  "queue_nodes q as \<longleftrightarrow> (case q of (h, P) \<Rightarrow>
     chain h (queue_head P) as \<and> distinct as \<and> cur_queue_size P = int (length as) \<and>
     length as < 2 ^ 31)"

definition loose :: "('p, 'a) heap \<times> CThread_pool \<Rightarrow> addr \<Rightarrow> bool" where
  "loose q n \<longleftrightarrow> (case q of (h, P) \<Rightarrow>
     (case h n of None \<Rightarrow> False | Some v \<Rightarrow> next_worker v = None) \<and> cur_queue_size P < 2 ^ 31 - 1)"

locale linked_queue =
  fixes nodes :: "'q \<Rightarrow> 'n list \<Rightarrow> bool"
    and free :: "'q \<Rightarrow> 'n \<Rightarrow> bool"
    and link :: "'q \<Rightarrow> 'n \<Rightarrow> 'e + 'q"
    and unlink :: "'q \<Rightarrow> 'e + 'n \<times> 'q"
  assumes link_ok: "nodes q ns \<Longrightarrow> free q n \<Longrightarrow> n \<notin> set ns \<Longrightarrow>
      \<exists>q'. link q n = Inr q' \<and> nodes q' (ns @ [n])"
    and unlink_ok: "nodes q (n # ns) \<Longrightarrow> \<exists>q'. unlink q = Inr (n, q') \<and> nodes q' ns"
    and unlink_empty: "nodes q [] \<Longrightarrow> \<exists>e. unlink q = Inl e"
begin

lemma unlink_result:
  assumes "nodes q ns" and "unlink q = Inr (n, q')"
  shows "\<exists>ms. ns = n # ms \<and> nodes q' ms"
proof (cases ns)
  case Nil
  then show ?thesis using assms unlink_empty by fastforce
next
  case (Cons m ms)
  then show ?thesis using assms unlink_ok by fastforce
qed

lemma link_result:
  assumes "nodes q ns" "free q n" "n \<notin> set ns" "link q n = r"
  shows "\<exists>q'. r = Inr q' \<and> nodes q' (ns @ [n])"
  using link_ok [OF assms(1-3)] assms(4) by auto

lemma unlink_fails: "nodes q ns \<Longrightarrow> unlink q = Inl e \<Longrightarrow> ns = []"
  using unlink_ok by (cases ns) fastforce+

end

definition unlink_worker ::
  "('p, 'a) heap \<times> CThread_pool \<Rightarrow> fault + addr \<times> ('p, 'a) heap \<times> CThread_pool" where
  "unlink_worker q = bindr (take_worker (fst q) (snd q)) (\<lambda>(a, P). Inr (a, fst q, P))"

interpretation pq: linked_queue queue_nodes loose "\<lambda>q n. link_worker (fst q) (snd q) n" unlink_worker
proof
  fix q :: "('a, 'b) heap \<times> CThread_pool" and ns n
  assume q: "queue_nodes q ns" "loose q n" "n \<notin> set ns"
  show "\<exists>q'. link_worker (fst q) (snd q) n = Inr q' \<and> queue_nodes q' (ns @ [n])"
  proof (cases "ns = []")
    case True
    with q show ?thesis
      by (auto simp: queue_nodes_def loose_def link_worker_def wrap32_def split: option.splits)
  next
    case False
    obtain h P where hP: "q = (h, P)" by (cases q)
    obtain a where a: "queue_head P = Some a"
      using q(1) False by (cases ns) (auto simp: queue_nodes_def hP)
    have c: "chain h (Some a) ns" and d: "distinct ns"
      using q(1) by (auto simp: queue_nodes_def hP a)
    obtain w where w: "h (last ns) = Some w"
      using chain_dom [OF c] False by (meson domD in_mono last_in_set)
    have "chain (h(last ns \<mapsto> w\<lparr>next_worker := Some n\<rparr>)) (Some a) (ns @ [n])"
      using chain_snoc [OF c False d q(3)] q(2) w by (auto simp: loose_def hP split: option.splits)
    with q hP a d w show ?thesis
      by (auto simp: queue_nodes_def loose_def link_worker_def last_worker_chain [OF c] wrap32_id)
  qed
next
  fix q :: "('a, 'b) heap \<times> CThread_pool" and ns n
  assume "queue_nodes q (n # ns)"
  then show "\<exists>q'. unlink_worker q = Inr (n, q') \<and> queue_nodes q' ns"
    by (auto simp: queue_nodes_def unlink_worker_def take_worker_def wrap32_def split: option.splits)
next
  fix q :: "('a, 'b) heap \<times> CThread_pool"
  assume "queue_nodes q []"
  then show "\<exists>e. unlink_worker q = Inl e"
    by (auto simp: queue_nodes_def unlink_worker_def take_worker_def)
qed

end
