(* ===== verification/PoolInv.thy ===== *)
theory PoolInv
  imports PoolQueue
begin

text \<open>
  Invariants of the thread pool: the owner of the lock, the life of the pool and of its
  threads, what a worker knows under the lock, and who owns which queue node.
\<close>

definition in_section :: "wpc \<Rightarrow> bool" where
  "in_section c \<longleftrightarrow> c \<in> {Testing, ToWait, Deciding, Leaving, Taking} \<or> (\<exists>a. c = Got a)"

definition caller_in :: "cpc \<Rightarrow> bool" where
  "caller_in c \<longleftrightarrow> c = AddUnlock \<or> (\<exists>a. c = AddLink a)"

definition closing :: "cpc \<Rightarrow> bool" where
  "closing c \<longleftrightarrow> c = DestroyWake \<or> c = DestroyDrain \<or> (\<exists>i. c = DestroyJoin i)"

text \<open>The lock has one owner, and it is the thread that is in a critical section.\<close>

definition lock_inv :: "('p, 'a) sys \<Rightarrow> bool" where
  "lock_inv s \<longleftrightarrow> (\<forall>P. pool s = Some P \<longrightarrow>
     (\<forall>i. in_section (wpc s i) \<longleftrightarrow> queue_lock P = Some (Thread i)) \<and>
     (caller_in (cpc s) \<longleftrightarrow> queue_lock P = Some Caller))"

text \<open>Where the pool is in its life, and which threads run.\<close>

definition life_inv :: "('p, 'a) sys \<Rightarrow> bool" where
  "life_inv s \<longleftrightarrow>
     (pool s = None \<longrightarrow> (\<forall>i. wpc s i \<in> {NotStarted, Exited}) \<and>
        (cpc s = Idle \<or> (\<exists>n. cpc s = Init n) \<or> (\<exists>a. cpc s = AddLock a))) \<and>
     (\<forall>n. cpc s = Init n \<longrightarrow> pool s = None \<and> (\<forall>i. wpc s i = NotStarted)) \<and>
     (\<forall>j. cpc s = Create j \<longrightarrow> (\<forall>i\<ge>j. wpc s i = NotStarted)) \<and>
     (\<forall>P. pool s = Some P \<longrightarrow> (shutdown P \<longleftrightarrow> closing (cpc s)) \<and>
        (\<forall>i\<ge>max_thread_num P. wpc s i = NotStarted) \<and>
        (\<forall>i. wpc s i \<in> {Leaving, Exiting, Exited} \<longrightarrow> shutdown P)) \<and>
     (\<forall>j. cpc s = DestroyJoin j \<longrightarrow> (\<forall>i<j. wpc s i = Exited)) \<and>
     (cpc s = DestroyDrain \<longrightarrow> (\<forall>i. wpc s i \<in> {NotStarted, Exited}))"

text \<open>What a worker has learnt under the lock is still true when it acts on it.\<close>

definition seen_inv :: "('p, 'a) sys \<Rightarrow> bool" where
  "seen_inv s \<longleftrightarrow> (\<forall>P i. pool s = Some P \<longrightarrow>
     (wpc s i = Deciding \<longrightarrow> \<not> must_wait P) \<and> (wpc s i = Taking \<longrightarrow> cur_queue_size P \<noteq> 0))"

lemma section_simps [simp]:
  "in_section Testing" "in_section ToWait" "in_section Deciding" "in_section Leaving"
  "in_section Taking" "in_section (Got a)"
  "\<not> in_section NotStarted" "\<not> in_section AtLock" "\<not> in_section Asleep" "\<not> in_section Woken"
  "\<not> in_section Exiting" "\<not> in_section Exited" "\<not> in_section (Running a)" "\<not> in_section (Freeing a)"
  "caller_in AddUnlock" "caller_in (AddLink a)" "\<not> caller_in (Init n)" "\<not> caller_in (Create i)"
  "\<not> caller_in Idle" "\<not> caller_in (AddLock a)" "\<not> caller_in AddSignal" "\<not> caller_in DestroyWake"
  "\<not> caller_in (DestroyJoin i)" "\<not> caller_in DestroyDrain"
  "closing DestroyWake" "closing (DestroyJoin i)" "closing DestroyDrain" "\<not> closing Idle"
  "\<not> closing (Init n)" "\<not> closing (Create i)" "\<not> closing (AddLock a)" "\<not> closing (AddLink a)"
  "\<not> closing AddUnlock" "\<not> closing AddSignal"
  by (simp_all add: in_section_def caller_in_def closing_def)

lemma wake_all_simps [simp]:
  "in_section (wake_all f i) = in_section (f i)"
  "wake_all f i = Deciding \<longleftrightarrow> f i = Deciding" "wake_all f i = Taking \<longleftrightarrow> f i = Taking"
  "wake_all f i = Exited \<longleftrightarrow> f i = Exited" "wake_all f i = NotStarted \<longleftrightarrow> f i = NotStarted"
  "wake_all f i = Leaving \<longleftrightarrow> f i = Leaving" "wake_all f i = Exiting \<longleftrightarrow> f i = Exiting"
  "wake_all f i = Got a \<longleftrightarrow> f i = Got a" "wake_all f i = Running a \<longleftrightarrow> f i = Running a"
  "wake_all f i = Freeing a \<longleftrightarrow> f i = Freeing a"
  by (auto simp: wake_all_def)

lemma link_fields:
  assumes "link_worker h P a = Inr (h', P')"
  shows "queue_lock P' = queue_lock P" "shutdown P' = shutdown P"
    "max_thread_num P' = max_thread_num P" "cur_queue_size P' = wrap32 (cur_queue_size P + 1)"
  using assms by (auto simp: link_worker_def bindr_Inr split: option.splits if_splits)

lemma take_fields:
  assumes "take_worker h P = Inr (a, P')"
  shows "queue_lock P' = queue_lock P" "shutdown P' = shutdown P"
    "max_thread_num P' = max_thread_num P" "cur_queue_size P' = wrap32 (cur_queue_size P - 1)"
  using assms by (auto simp: take_worker_def split: option.splits if_splits)

lemma lock_invD:
  "lock_inv s \<Longrightarrow> pool s = Some P \<Longrightarrow> in_section (wpc s i) \<longleftrightarrow> queue_lock P = Some (Thread i)"
  by (auto simp: lock_inv_def)

lemma caller_lock:
  "lock_inv s \<Longrightarrow> pool s = Some P \<Longrightarrow> caller_in (cpc s) \<longleftrightarrow> queue_lock P = Some Caller"
  by (auto simp: lock_inv_def)

lemma lock_invI:
  "(\<And>P i. pool s = Some P \<Longrightarrow> in_section (wpc s i) \<longleftrightarrow> queue_lock P = Some (Thread i)) \<Longrightarrow>
   (\<And>P. pool s = Some P \<Longrightarrow> caller_in (cpc s) \<longleftrightarrow> queue_lock P = Some Caller) \<Longrightarrow> lock_inv s"
  by (simp add: lock_inv_def)

lemma section_owner:
  "lock_inv s \<Longrightarrow> pool s = Some P \<Longrightarrow> in_section (wpc s i) \<Longrightarrow> queue_lock P = Some (Thread i)"
  by (auto simp: lock_inv_def)

lemma caller_owner: "lock_inv s \<Longrightarrow> pool s = Some P \<Longrightarrow> caller_in (cpc s) \<Longrightarrow> queue_lock P = Some Caller"
  by (auto simp: lock_inv_def)

lemma section_alone:
  "lock_inv s \<Longrightarrow> pool s = Some P \<Longrightarrow> in_section (wpc s i) \<Longrightarrow> j \<noteq> i \<Longrightarrow> \<not> in_section (wpc s j)"
  by (metis option.inject section_owner who.inject)

lemma life_caller: "caller_step s e t \<Longrightarrow> life_inv s \<Longrightarrow> life_inv t"
proof (induction rule: caller_step.induct)
  case (add_link s a P w h P')
  then show ?case
    using link_fields [OF add_link.hyps(4)] by (auto simp: life_inv_def)
next
  case (destroy_joined s i P)
  then have "wpc s j \<in> {NotStarted, Exited}" for j
    by (cases "j < i") (simp_all add: life_inv_def)
  with destroy_joined show ?case
    by (auto simp: life_inv_def)
qed (((auto simp: life_inv_def new_pool_def less_Suc_eq)[1])+)

lemma worker_frame:
  assumes "worker_step i s e t"
  shows "cpc t = cpc s" and "calls t = calls s" and "j \<noteq> i \<Longrightarrow> wpc t j = wpc s j"
    and "wpc s i \<noteq> NotStarted" and "wpc s i \<noteq> Exited" and "wpc t i \<noteq> NotStarted"
    and "pool s = None \<longleftrightarrow> pool t = None"
    and "pool s = Some P \<Longrightarrow> pool t = Some P' \<Longrightarrow>
      shutdown P' = shutdown P \<and> max_thread_num P' = max_thread_num P \<and>
      (wpc t i \<in> {Leaving, Exiting, Exited} \<longrightarrow> wpc s i \<in> {Leaving, Exiting, Exited} \<or> shutdown P)"
  using assms by (cases; force simp: uses_pool_def take_worker_def split: if_splits option.splits)+

lemma worker_lock:
  assumes "worker_step i s e t" and "pool s = Some P" and "pool t = Some P'"
  shows "queue_lock P' = queue_lock P \<and> (in_section (wpc t i) \<longleftrightarrow> in_section (wpc s i)) \<or>
    queue_lock P = None \<and> queue_lock P' = Some (Thread i) \<and> in_section (wpc t i) \<or>
    in_section (wpc s i) \<and> queue_lock P' = None \<and> \<not> in_section (wpc t i)"
  using assms by (cases; force simp: take_worker_def split: if_splits option.splits)

lemma life_worker:
  assumes step: "worker_step i s e t" and inv: "life_inv s"
  shows "life_inv t"
proof -
  note f = worker_frame [OF step]
  obtain P where P: "pool s = Some P"
    using inv f(4,5) by (cases "pool s") (auto simp: life_inv_def)
  then obtain P' where P': "pool t = Some P'"
    using f(7) by (cases "pool t") auto
  have drain: "cpc s \<noteq> DestroyDrain" and max: "\<not> max_thread_num P \<le> i"
    and made: "cpc s = Create k \<Longrightarrow> i < k" and joined: "cpc s = DestroyJoin k \<Longrightarrow> \<not> i < k" for k
    using inv f(4,5) P unfolding life_inv_def by (blast, metis, metis not_less, metis)
  have active: "cpc s \<noteq> Init n" for n
    using inv f(4) unfolding life_inv_def by blast
  have other: "wpc t j = wpc s j" if "j \<noteq> i" for j
    using f(3) that by blast
  have "wpc t j = NotStarted" if "cpc s = Create k" "k \<le> j" for k j
    using inv made [OF that(1)] that other [of j] unfolding life_inv_def by auto
  moreover have "wpc t j = Exited" if "cpc s = DestroyJoin k" "j < k" for k j
    using inv joined [OF that(1)] that other [of j] unfolding life_inv_def by auto
  moreover have "wpc t j = NotStarted" if "max_thread_num P \<le> j" for j
    using inv P max that other [of j] unfolding life_inv_def by auto
  moreover have leaving: "wpc s j \<in> {Leaving, Exiting, Exited} \<Longrightarrow> shutdown P" for j
    using inv P unfolding life_inv_def by blast
  moreover have "shutdown P" if "wpc t j \<in> {Leaving, Exiting, Exited}" for j
    using f(8) [OF P P'] that leaving [of j] leaving [of i] other [of j] by (cases "j = i") auto
  moreover have "shutdown P \<longleftrightarrow> closing (cpc s)"
    using inv P unfolding life_inv_def by blast
  ultimately show ?thesis
    using f(1) f(8) [OF P P'] P' drain active by (simp add: life_inv_def) blast
qed

lemma lock_caller: "caller_step s e t \<Longrightarrow> life_inv s \<Longrightarrow> lock_inv s \<Longrightarrow> lock_inv t"
proof (induction rule: caller_step.induct)
  case (create s i P)
  then have "\<not> in_section (wpc s i)"
    by (auto simp: life_inv_def)
  with create show ?case
    by (auto simp: lock_inv_def)
next
  case (add_signal s i)
  show ?case
  proof (rule lock_invI)
    fix P j
    assume "pool (set_wpc i Woken s\<lparr>cpc := Idle\<rparr>) = Some P"
    then show "in_section (wpc (set_wpc i Woken s\<lparr>cpc := Idle\<rparr>) j) \<longleftrightarrow> queue_lock P = Some (Thread j)"
      using lock_invD [OF add_signal.prems(2), of P j] add_signal.hyps by (cases "j = i") auto
  qed (use caller_owner add_signal in \<open>auto simp: lock_inv_def\<close>)
next
  case (add_link s a P w h P')
  then show ?case
    using link_fields [OF add_link.hyps(4)] by (auto simp: lock_inv_def)
qed (((auto simp: life_inv_def lock_inv_def new_pool_def)[1])+)

lemma lock_worker:
  assumes step: "worker_step i s e t" and inv: "life_inv s" "lock_inv s"
  shows "lock_inv t"
proof (rule lock_invI)
  fix P' assume P': "pool t = Some P'"
  then obtain P where P: "pool s = Some P"
    using worker_frame(7) [OF step] by (cases "pool s") auto
  note l = worker_lock [OF step P P']
  note here = lock_invD [OF inv(2) P, of i] 
  show "in_section (wpc t j) \<longleftrightarrow> queue_lock P' = Some (Thread j)" for j
    using l here lock_invD [OF inv(2) P, of j] worker_frame(3) [OF step, of j] by (cases "j = i") auto
  show "caller_in (cpc t) \<longleftrightarrow> queue_lock P' = Some Caller"
    using l here caller_lock [OF inv(2) P] worker_frame(1) [OF step] by auto
qed

lemma seen_caller: "caller_step s e t \<Longrightarrow> life_inv s \<Longrightarrow> lock_inv s \<Longrightarrow> seen_inv s \<Longrightarrow> seen_inv t"
proof (induction rule: caller_step.induct)
  case (add_link s a P w h P')
  then have "\<not> in_section (wpc s i)" for i
    using section_owner [OF add_link.prems(2), of P i] caller_owner [OF add_link.prems(2), of P] by auto
  then show ?case
    by (auto simp: seen_inv_def) (metis section_simps(3,5))+
qed (((auto simp: life_inv_def seen_inv_def new_pool_def)[1])+)

lemma seen_worker: "worker_step i s e t \<Longrightarrow> lock_inv s \<Longrightarrow> seen_inv s \<Longrightarrow> seen_inv t"
proof (induction rule: worker_step.induct)
  case (w_take s P a P' w)
  then have "\<not> in_section (wpc s j)" if "j \<noteq> i" for j
    using section_alone [OF w_take.prems(1), of P i j] that by auto
  then show ?case
    by (auto simp: seen_inv_def) (metis section_simps(3,5))+
qed (((auto simp: seen_inv_def)[1])+)

subsection \<open>Ownership of the queue nodes\<close>

text \<open>The node that a worker, and the caller, hold outside the queue.\<close>

fun node_of :: "wpc \<Rightarrow> addr option" where
  "node_of (Got a) = Some a"
| "node_of (Running a) = Some a"
| "node_of (Freeing a) = Some a"
| "node_of _ = None"

fun caller_node :: "cpc \<Rightarrow> addr option" where
  "caller_node (AddLock a) = Some a"
| "caller_node (AddLink a) = Some a"
| "caller_node _ = None"

definition queue_view :: "('p, 'a) sys \<Rightarrow> (addr option \<times> int) option" where
  "queue_view s = map_option (\<lambda>P. (queue_head P, cur_queue_size P)) (pool s)"

definition heap_inv :: "('p, 'a) sys \<Rightarrow> addr list \<Rightarrow> bool" where
  "heap_inv s as \<longleftrightarrow>
     (case queue_view s of
        None \<Rightarrow> as = []
      | Some (p, k) \<Rightarrow> chain (heap s) p as \<and> distinct as \<and>
          (cpc s \<noteq> DestroyDrain \<longrightarrow> k = int (length as))) \<and>
     finite (dom (heap s)) \<and> card (dom (heap s)) \<le> max_nodes \<and>
     (\<forall>i a. node_of (wpc s i) = Some a \<longrightarrow> a \<in> dom (heap s) \<and> a \<notin> set as) \<and>
     (\<forall>i j a. node_of (wpc s i) = Some a \<longrightarrow> node_of (wpc s j) = Some a \<longrightarrow> i = j) \<and>
     (\<forall>a. caller_node (cpc s) = Some a \<longrightarrow>
        (\<exists>v. heap s a = Some v \<and> next_worker v = None) \<and> a \<notin> set as \<and>
        (\<forall>i. node_of (wpc s i) \<noteq> Some a))"

lemma node_held:
  assumes "heap_inv s as" "node_of (wpc s i) = Some a"
  shows "a \<in> dom (heap s)" "a \<notin> set as" "node_of (wpc s j) = Some a \<Longrightarrow> i = j"
    "caller_node (cpc s) \<noteq> Some a"
  using assms unfolding heap_inv_def by blast+

lemma caller_held:
  assumes "heap_inv s as" "caller_node (cpc s) = Some a"
  shows "\<exists>v. heap s a = Some v \<and> next_worker v = None" "a \<notin> set as" "node_of (wpc s i) \<noteq> Some a"
  using assms unfolding heap_inv_def by blast+

lemma heap_counts: "heap_inv s as \<Longrightarrow> finite (dom (heap s)) \<and> card (dom (heap s)) \<le> max_nodes"
  by (simp add: heap_inv_def)

lemma heap_invI:
  assumes "case queue_view s of
        None \<Rightarrow> as = []
      | Some (p, k) \<Rightarrow> chain (heap s) p as \<and> distinct as \<and>
          (cpc s \<noteq> DestroyDrain \<longrightarrow> k = int (length as))"
    and "finite (dom (heap s)) \<and> card (dom (heap s)) \<le> max_nodes"
    and "\<And>i a. node_of (wpc s i) = Some a \<Longrightarrow> a \<in> dom (heap s) \<and> a \<notin> set as"
    and "\<And>i j a. node_of (wpc s i) = Some a \<Longrightarrow> node_of (wpc s j) = Some a \<Longrightarrow> i = j"
    and "\<And>a. caller_node (cpc s) = Some a \<Longrightarrow>
        (\<exists>v. heap s a = Some v \<and> next_worker v = None) \<and> a \<notin> set as"
    and "\<And>a i. caller_node (cpc s) = Some a \<Longrightarrow> node_of (wpc s i) \<noteq> Some a"
  shows "heap_inv s as"
  using assms unfolding heap_inv_def by simp

lemma heap_view: "heap_inv s as \<Longrightarrow> (case queue_view s of
        None \<Rightarrow> as = []
      | Some (p, k) \<Rightarrow> chain (heap s) p as \<and> distinct as \<and>
          (cpc s \<noteq> DestroyDrain \<longrightarrow> k = int (length as)))"
  by (simp add: heap_inv_def)

lemma heap_inv_same:
  assumes "heap_inv s as" and "heap t = heap s" and "queue_view t = queue_view s"
    and "\<And>i. node_of (wpc t i) = node_of (wpc s i)"
    and "caller_node (cpc t) = None \<or> caller_node (cpc t) = caller_node (cpc s)"
    and "cpc s = DestroyDrain \<Longrightarrow> cpc t = DestroyDrain"
  shows "heap_inv t as"
proof (rule heap_invI)
  show "case queue_view t of
        None \<Rightarrow> as = []
      | Some (p, k) \<Rightarrow> chain (heap t) p as \<and> distinct as \<and>
          (cpc t \<noteq> DestroyDrain \<longrightarrow> k = int (length as))"
    using heap_view [OF assms(1)] assms(2,3,6) by (auto split: option.splits)
  show "(\<exists>v. heap t a = Some v \<and> next_worker v = None) \<and> a \<notin> set as"
    if "caller_node (cpc t) = Some a" for a
    using that assms(2,5) caller_held [OF assms(1)] by auto
  show "node_of (wpc t i) \<noteq> Some a" if "caller_node (cpc t) = Some a" for a i
    using that assms(4,5) caller_held(3) [OF assms(1), of a i] by simp
qed (use assms(2,4) node_held [OF assms(1)] heap_counts [OF assms(1)] in auto)

lemma heap_inv_queue:
  assumes "heap_inv s as" "pool s = Some P" "cpc s \<noteq> DestroyDrain"
  shows "queue_nodes (heap s, P) as"
proof -
  have c: "chain (heap s) (queue_head P) as" "distinct as" "finite (dom (heap s))"
    "card (dom (heap s)) \<le> max_nodes" "cur_queue_size P = int (length as)"
    using assms by (auto simp: heap_inv_def queue_view_def)
  have "length as \<le> card (dom (heap s))"
    using card_mono [OF c(3) chain_dom [OF c(1)]] c(2) by (simp add: distinct_card)
  with c show ?thesis
    by (simp add: queue_nodes_def max_nodes_def)
qed

lemma heap_inv_loose:
  assumes "heap_inv s as" "pool s = Some P" "cpc s = AddLink a"
  shows "loose (heap s, P) a" and "a \<notin> set as"
proof -
  have c: "chain (heap s) (queue_head P) as" "distinct as" "finite (dom (heap s))"
    "card (dom (heap s)) \<le> max_nodes" "cur_queue_size P = int (length as)" "a \<notin> set as" "a \<in> dom (heap s)"
    using assms by (auto simp: heap_inv_def queue_view_def)
  have "length (a # as) \<le> card (dom (heap s))"
    using card_mono [OF c(3), of "set (a # as)"] chain_dom [OF c(1)] c(2,6,7)
    by (simp add: distinct_card)
  with assms c show "loose (heap s, P) a" and "a \<notin> set as"
    by (auto simp: loose_def max_nodes_def heap_inv_def)
qed

lemma link_heap:
  assumes "link_worker h P n = Inr (h', P')"
  shows "task (the (h' a)) = task (the (h a))" and "dom h' = dom h"
  using assms by (auto simp: link_worker_def bindr_Inr task_def split: option.splits if_splits)

subsubsection \<open>The steps that change the queue\<close>

lemma heap_add_new:
  assumes "heap_inv s as" "heap s a = None" "card (dom (heap s)) < max_nodes" "cpc s = Idle"
    "next_worker v = None"
  shows "heap_inv (s\<lparr>heap := (heap s)(a \<mapsto> v), calls := cs, cpc := AddLock a\<rparr>) as \<and>
    tasks ((heap s)(a \<mapsto> v)) as = tasks (heap s) as"
proof -
  have new: "a \<notin> set as"
    using assms(1,2) chain_dom by (fastforce simp: heap_inv_def split: option.splits prod.splits)
  have n: "node_of (wpc s i) \<noteq> Some a" for i
    using assms(1,2) by (auto simp: heap_inv_def)
  show ?thesis
    using heap_view [OF assms(1)] heap_counts [OF assms(1)] n node_held [OF assms(1)] new assms(2-5)
    by (intro conjI heap_invI) (auto simp: queue_view_def card_insert_if split: option.splits)
qed

lemma heap_free:
  assumes "heap_inv s as" "wpc s i = Freeing a"
  shows "heap_inv (set_wpc i AtLock (s\<lparr>heap := (heap s)(a := None)\<rparr>)) as \<and>
    tasks ((heap s)(a := None)) as = tasks (heap s) as"
proof -
  have a: "node_of (wpc s i) = Some a"
    using assms by simp
  note n = node_held [OF assms(1) a]
  define t where "t = set_wpc i AtLock (s\<lparr>heap := (heap s)(a := None)\<rparr>)"
  have held: "j \<noteq> i \<and> b \<noteq> a \<and> node_of (wpc s j) = Some b" if "node_of (wpc t j) = Some b" for j b
    using that n(3) [of j] by (cases "j = i") (auto simp: t_def)
  have "card (dom (heap s) - {a}) \<le> card (dom (heap s))"
    using heap_counts [OF assms(1)] by (intro card_mono) auto
  then have c: "finite (dom (heap t)) \<and> card (dom (heap t)) \<le> max_nodes"
    using heap_counts [OF assms(1)] by (simp add: t_def)
  have "heap_inv t as"
  proof (rule heap_invI)
    show "case queue_view t of None \<Rightarrow> as = []
      | Some (p, k) \<Rightarrow> chain (heap t) p as \<and> distinct as \<and>
          (cpc t \<noteq> DestroyDrain \<longrightarrow> k = int (length as))"
      using heap_view [OF assms(1)] n(2) by (auto simp: t_def queue_view_def split: option.splits)
    show "b \<in> dom (heap t) \<and> b \<notin> set as" if "node_of (wpc t j) = Some b" for j b
      using held [OF that] node_held(1,2) [OF assms(1)] by (auto simp: t_def)
    show "j = k" if "node_of (wpc t j) = Some b" "node_of (wpc t k) = Some b" for j k b
      using held [OF that(1)] held [OF that(2)] node_held(3) [OF assms(1)] by blast
    show "(\<exists>v. heap t b = Some v \<and> next_worker v = None) \<and> b \<notin> set as"
      if "caller_node (cpc t) = Some b" for b
      using that n(4) caller_held(1,2) [OF assms(1), of b] by (auto simp: t_def)
    show "node_of (wpc t j) \<noteq> Some b" if "caller_node (cpc t) = Some b" for b j
      using that held [of j b] caller_held(3) [OF assms(1), of b j] by (auto simp: t_def)
  qed (rule c)
  then show ?thesis
    using n(2) by (simp add: t_def)
qed

lemma heap_drain:
  assumes "heap_inv s as" "cpc s = DestroyDrain" "pool s = Some P" "queue_head P = Some a"
    "heap s a = Some w"
  shows "\<exists>bs. as = a # bs \<and> tasks ((heap s)(a := None)) bs = tasks (heap s) bs \<and>
    heap_inv (s\<lparr>pool := Some (P\<lparr>queue_head := next_worker w\<rparr>), heap := (heap s)(a := None)\<rparr>) bs"
proof -
  obtain bs where as: "as = a # bs" and b: "chain (heap s) (next_worker w) bs" "a \<notin> set bs"
    using assms by (cases as) (auto simp: heap_inv_def queue_view_def)
  have "card (dom (heap s) - {a}) \<le> card (dom (heap s))"
    using assms(1) by (intro card_mono) (auto simp: heap_inv_def)
  then show ?thesis
    using assms as b by (auto simp: heap_inv_def queue_view_def)
qed

lemma heap_take:
  assumes "heap_inv s as" "cpc s \<noteq> DestroyDrain" "pool s = Some P"
    "take_worker (heap s) P = Inr (a, P')" "node_of (wpc s i) = None"
  shows "\<exists>bs. as = a # bs \<and> heap_inv (set_wpc i (Got a) (s\<lparr>pool := Some P'\<rparr>)) bs"
proof -
  have "unlink_worker (heap s, P) = Inr (a, heap s, P')"
    using assms(4) by (simp add: unlink_worker_def)
  then obtain bs where as: "as = a # bs" and q: "queue_nodes (heap s, P') bs"
    using pq.unlink_result [OF heap_inv_queue [OF assms(1,3,2)]] by blast
  have d: "a \<in> dom (heap s)" "a \<notin> set bs"
    using assms(1,3) as by (auto simp: heap_inv_def queue_view_def split: option.splits)
  have n: "node_of (wpc s j) \<noteq> Some a" for j
    using assms(1) as by (auto simp: heap_inv_def)
  have c: "caller_node (cpc s) \<noteq> Some a"
    using assms(1) as by (auto simp: heap_inv_def)
  show ?thesis
    using assms as q d n c by (auto simp: heap_inv_def queue_view_def queue_nodes_def)
qed

lemma heap_link:
  assumes "heap_inv s as" "cpc s = AddLink a" "pool s = Some P"
    "link_worker (heap s) P a = Inr (h, P')"
  shows "heap_inv (s\<lparr>pool := Some P', heap := h, cpc := AddUnlock\<rparr>) (as @ [a])"
proof -
  have q: "queue_nodes (h, P') (as @ [a])"
    using pq.link_result [OF heap_inv_queue [OF assms(1,3)] heap_inv_loose [OF assms(1,3,2)]] assms
    by simp
  have "node_of (wpc s i) \<noteq> Some a" for i
    using assms(1,2) by (auto simp: heap_inv_def)
  then show ?thesis
    using assms q link_heap(2) [OF assms(4)]
    by (auto simp: heap_inv_def queue_view_def queue_nodes_def)
qed

end
