(* ===== verification/PoolFifo.thy ===== *)
theory PoolFifo
  imports PoolInv "HOL-Library.Multiset"
begin

text \<open>
  The thread pool implements a first-in first-out queue of tasks: the specification, the
  abstraction of a state to it, and what every step of a thread does to both.
\<close>

text \<open>The specification: a queue of tasks, first in first out.\<close>

fun fifo_step :: "('p \<times> 'a) list \<Rightarrow> ('p, 'a) event \<Rightarrow> ('p \<times> 'a) list option" where
  "fifo_step q (Put x) = Some (q @ [x])"
| "fifo_step q (Get i x) = (case q of [] \<Rightarrow> None | y # ys \<Rightarrow> if y = x then Some ys else None)"
| "fifo_step q (Drop x) = (case q of [] \<Rightarrow> None | y # ys \<Rightarrow> if y = x then Some ys else None)"
| "fifo_step q _ = Some q"

fun fifo_run :: "('p \<times> 'a) list \<Rightarrow> ('p, 'a) event list \<Rightarrow> ('p \<times> 'a) list option" where
  "fifo_run q [] = Some q"
| "fifo_run q (e # es) = Option.bind (fifo_step q e) (\<lambda>q'. fifo_run q' es)"

lemma fifo_run_snoc: "fifo_run q (es @ [e]) = Option.bind (fifo_run q es) (\<lambda>q'. fifo_step q' e)"
  by (induction q es rule: fifo_run.induct) (auto split: Option.bind_splits)

text \<open>The abstraction: the tasks in the queue of a state.\<close>

partial_function (option) nodes_from :: "('p, 'a) heap \<Rightarrow> addr option \<Rightarrow> addr list option" where
  "nodes_from h p =
     (case p of
        None \<Rightarrow> Some []
      | Some a \<Rightarrow> Option.bind (h a) (\<lambda>w. Option.bind (nodes_from h (next_worker w)) (\<lambda>as. Some (a # as))))"

definition queued :: "('p, 'a) sys \<Rightarrow> ('p \<times> 'a) list option" where
  "queued s = (case pool s of
     None \<Rightarrow> Some [] | Some P \<Rightarrow> map_option (tasks (heap s)) (nodes_from (heap s) (queue_head P)))"

lemma nodes_from_chain: "chain h p as \<Longrightarrow> nodes_from h p = Some as"
proof (induction as arbitrary: p)
  case Nil
  then show ?case by (simp add: nodes_from.simps)
next
  case (Cons a as)
  then show ?case by (auto simp: nodes_from.simps [of h "Some a"] split: option.splits)
qed

lemma queued_tasks: "heap_inv s as \<Longrightarrow> queued s = Some (tasks (heap s) as)"
  by (auto simp: heap_inv_def queue_view_def queued_def nodes_from_chain split: option.splits)

text \<open>The task that a worker has taken and not run yet.\<close>

definition in_hand :: "('p, 'a) sys \<Rightarrow> nat \<Rightarrow> ('p \<times> 'a) list" where
  "in_hand s i = (case wpc s i of
     Got a \<Rightarrow> [task (the (heap s a))] | Running a \<Rightarrow> [task (the (heap s a))] | _ \<Rightarrow> [])"

fun taken_by :: "nat \<Rightarrow> ('p, 'a) event \<Rightarrow> ('p \<times> 'a) list" where
  "taken_by i (Get j x) = (if j = i then [x] else [])"
| "taken_by i _ = []"

fun ran_by :: "nat \<Rightarrow> ('p, 'a) event \<Rightarrow> ('p \<times> 'a) list" where
  "ran_by i (Ran j x) = (if j = i then [x] else [])"
| "ran_by i _ = []"

definition pool_inv :: "('p, 'a) sys \<Rightarrow> addr list \<Rightarrow> bool" where
  "pool_inv s as \<longleftrightarrow> life_inv s \<and> lock_inv s \<and> seen_inv s \<and> heap_inv s as"

text \<open>What one step does to the queue and to the tasks in hand.\<close>

definition tracks :: "('p, 'a) sys \<Rightarrow> addr list \<Rightarrow> ('p, 'a) event \<Rightarrow> ('p, 'a) sys \<Rightarrow> bool" where
  "tracks s as e t \<longleftrightarrow> (\<exists>bs. heap_inv t bs \<and>
     fifo_step (tasks (heap s) as) e = Some (tasks (heap t) bs) \<and>
     (\<forall>i. in_hand s i @ taken_by i e = ran_by i e @ in_hand t i))"

lemma in_hand_same:
  assumes "node_of (wpc t i) = node_of (wpc s i)" "wpc t i = wpc s i \<or> node_of (wpc s i) = None"
    and "\<And>a. node_of (wpc s i) = Some a \<Longrightarrow> task (the (heap t a)) = task (the (heap s a))"
  shows "in_hand t i = in_hand s i"
  using assms by (auto simp: in_hand_def split: wpc.splits)

lemma tracks_same:
  assumes "heap_inv s as" "heap t = heap s" "queue_view t = queue_view s"
    and "\<And>i. wpc t i = wpc s i \<or> node_of (wpc s i) = None \<and> node_of (wpc t i) = None"
    and "caller_node (cpc t) = None \<or> caller_node (cpc t) = caller_node (cpc s)"
    and "cpc s = DestroyDrain \<Longrightarrow> cpc t = DestroyDrain" and "e = Quiet \<or> (\<exists>i. e = Spurious i)"
  shows "tracks s as e t"
proof -
  have n: "node_of (wpc t i) = node_of (wpc s i)" for i
    using assms(4) [of i] by auto
  have "in_hand t i = in_hand s i" for i
    using assms(2) assms(4) [of i] n [of i] by (intro in_hand_same) auto
  with heap_inv_same [OF assms(1,2,3) n assms(5,6)] assms(2,7) show ?thesis
    by (auto simp: tracks_def)
qed


lemma tracksI:
  assumes "heap_inv t bs" "fifo_step (tasks (heap s) as) e = Some (tasks (heap t) bs)"
    and "\<And>i. in_hand s i @ taken_by i e = ran_by i e @ in_hand t i"
  shows "tracks s as e t"
  using assms by (auto simp: tracks_def)

lemma held_dom: "heap_inv s as \<Longrightarrow> node_of (wpc s i) = Some a \<Longrightarrow> a \<in> dom (heap s)"
  by (rule node_held(1))

lemma caller_tracks:
  assumes "caller_step s e t" "life_inv s" "heap_inv s as"
  shows "tracks s as e t"
  using assms
proof (induction rule: caller_step.induct)
  case (init s n)
  then have "pool s = None" "as = []"
    by (auto simp: life_inv_def heap_inv_def queue_view_def)
  with init show ?case
    by (intro tracksI [of _ as]) (auto simp: heap_inv_def queue_view_def new_pool_def in_hand_def split: wpc.splits)
next
  case (create s i P)
  then have "wpc s i = NotStarted" by (auto simp: life_inv_def)
  with create show ?case
    by (intro tracks_same) (auto simp: queue_view_def)
next
  case (add_new s p x cs a)
  have "in_hand (s\<lparr>heap := (heap s)(a \<mapsto> \<lparr>process = p, arg = x, next_worker = None\<rparr>),
      calls := cs, cpc := AddLock a\<rparr>) i = in_hand s i" for i
    using held_dom [OF add_new.prems(2), of i a] add_new.hyps by (intro in_hand_same) auto
  then show ?case
    using heap_add_new [OF add_new.prems(2) add_new.hyps(3,4,1),
        of "\<lparr>process = p, arg = x, next_worker = None\<rparr>" cs]
    by (intro tracksI [of _ as]) auto
next
  case (add_link s a P w h P')
  note same = link_heap(1) [OF add_link.hyps(4)]
  have "in_hand (s\<lparr>pool := Some P', heap := h, cpc := AddUnlock\<rparr>) i = in_hand s i" for i
    by (intro in_hand_same) (auto simp: same)
  moreover have "tasks h as = tasks (heap s) as"
    by (rule tasks_cong) (rule same)
  ultimately show ?case
    using heap_link [OF add_link.prems(2) add_link.hyps(1,2,4)] add_link.hyps(3) same [of a]
    by (intro tracksI [of _ "as @ [a]"]) auto
next
  case (destroy_drain s P a w)
  obtain bs where bs: "as = a # bs" "tasks ((heap s)(a := None)) bs = tasks (heap s) bs"
    "heap_inv (s\<lparr>pool := Some (P\<lparr>queue_head := next_worker w\<rparr>), heap := (heap s)(a := None)\<rparr>) bs"
    using heap_drain [OF destroy_drain.prems(2) destroy_drain.hyps] by blast
  have "node_of (wpc s i) \<noteq> Some a" for i
    using node_held(2) [OF destroy_drain.prems(2), of i a] bs(1) by auto
  then have "in_hand (s\<lparr>pool := Some (P\<lparr>queue_head := next_worker w\<rparr>),
      heap := (heap s)(a := None)\<rparr>) i = in_hand s i" for i
    by (intro in_hand_same) auto
  with bs destroy_drain.hyps show ?case
    by (intro tracksI [of _ bs]) auto
next
  case (destroy_done s P)
  then have "as = []"
    by (cases as) (auto simp: heap_inv_def queue_view_def)
  with destroy_done show ?case
    by (intro tracksI [of _ as]) (auto simp: heap_inv_def queue_view_def in_hand_def split: wpc.splits)
qed (((rule tracks_same; auto simp: queue_view_def wake_all_def)[1])+)

lemma worker_tracks:
  assumes "worker_step i s e t" "life_inv s" "heap_inv s as"
  shows "tracks s as e t"
  using assms
proof (induction rule: worker_step.induct)
  case (w_take s P a P' w)
  have "cpc s \<noteq> DestroyDrain"
    using w_take.prems(1) w_take.hyps(1) by (auto simp: life_inv_def dest: spec [of _ i])
  then obtain bs where "as = a # bs" "heap_inv (set_wpc i (Got a) (s\<lparr>pool := Some P'\<rparr>)) bs"
    using heap_take [OF w_take.prems(2) _ w_take.hyps(2,3), of i] w_take.hyps(1) by auto
  with w_take.hyps show ?case
    by (intro tracksI [of _ bs]) (auto simp: in_hand_def split: wpc.splits)
next
  case (w_unlock s a P)
  then show ?case
    using heap_inv_same [OF w_unlock.prems(2), of "set_wpc i (Running a) (set_lock None P s)"]
    by (intro tracksI [of _ as]) (auto simp: queue_view_def in_hand_def split: wpc.splits)
next
  case (w_run s a w)
  then show ?case
    using heap_inv_same [OF w_run.prems(2), of "set_wpc i (Freeing a) s"]
    by (intro tracksI [of _ as]) (auto simp: queue_view_def in_hand_def split: wpc.splits)
next
  case (w_free s a)
  have "in_hand (set_wpc i AtLock (s\<lparr>heap := (heap s)(a := None)\<rparr>)) j = in_hand s j" for j
  proof (cases "j = i")
    case True
    with w_free.hyps show ?thesis by (simp add: in_hand_def)
  next
    case False
    then have "node_of (wpc s j) \<noteq> Some a"
      using node_held(3) [OF w_free.prems(2), of i a j] w_free.hyps by auto
    with False show ?thesis by (intro in_hand_same) auto
  qed
  with heap_free [OF w_free.prems(2) w_free.hyps] show ?case
    by (intro tracksI [of _ as]) auto
qed (((rule tracks_same; auto simp: queue_view_def)[1])+)

end
