(* ===== verification/PoolHistory.thy ===== *)
theory PoolHistory
  imports PoolFifo
begin

text \<open>
  Runs of the thread pool: every reachable state satisfies the invariants, and the events of
  a run are those of the queue specification.
\<close>

subsection \<open>Faults\<close>

lemma caller_faults:
  assumes "caller_step s e t" "pool_inv s as" "failed s = None"
  shows "failed t \<in> {None, Some NoMemory, Some NullPool, Some BadThread}"
  using assms
proof (induction rule: caller_step.induct)
  case (add_bad s a P e)
  then have h: "heap_inv s as" and c: "cpc s \<noteq> DestroyDrain"
    by (simp_all add: pool_inv_def)
  show ?case
    using pq.link_result [OF heap_inv_queue [OF h add_bad.hyps(2) c]
        heap_inv_loose [OF h add_bad.hyps(2,1)]] add_bad.hyps(3) by auto
next
  case (destroy_dangling s P a)
  then show ?case
    by (cases as) (auto simp: pool_inv_def heap_inv_def queue_view_def)
qed (auto simp: pool_inv_def)

lemma worker_faults:
  assumes "worker_step i s e t" "pool_inv s as" "failed s = None"
  shows "failed t = None"
  using assms
proof (induction rule: worker_step.induct)
  case (w_dead s)
  then have "wpc s i \<in> {NotStarted, Exited}"
    by (auto simp: pool_inv_def life_inv_def)
  with w_dead.hyps(1) show ?case
    by (auto simp: uses_pool_def)
next
  case (w_bad s P e)
  then have "cpc s \<noteq> DestroyDrain" "cur_queue_size P \<noteq> 0"
    by (auto simp: pool_inv_def life_inv_def seen_inv_def dest: spec [of _ i])
  moreover have "unlink_worker (heap s, P) = Inl e"
    using w_bad.hyps(3) by (simp add: unlink_worker_def)
  ultimately show ?case
    using w_bad.prems(1) w_bad.hyps(2) heap_inv_queue [of s as P]
      pq.unlink_fails [of "(heap s, P)" as e]
    by (auto simp: pool_inv_def queue_nodes_def)
next
  case (w_run_bad s a)
  then show ?case
    using held_dom [of s as i a] by (auto simp: pool_inv_def)
qed auto

lemma pool_step_inv:
  assumes "pool_step s e t" "pool_inv s as"
  shows "\<exists>bs. pool_inv t bs \<and> fifo_step (tasks (heap s) as) e = Some (tasks (heap t) bs)"
    and "in_hand s i @ taken_by i e = ran_by i e @ in_hand t i"
    and "failed t \<in> {None, Some NoMemory, Some NullPool, Some BadThread}"
proof -
  from assms(1) have "life_inv t \<and> lock_inv t \<and> seen_inv t \<and> tracks s as e t \<and>
    failed t \<in> {None, Some NoMemory, Some NullPool, Some BadThread}"
  proof cases
    case caller
    with assms(2) show ?thesis
      using life_caller lock_caller seen_caller caller_tracks caller_faults [OF _ assms(2)]
      unfolding pool_inv_def by blast
  next
    case (worker i)
    then have "life_inv t" "lock_inv t" "seen_inv t" "tracks s as e t"
      using assms(2) life_worker lock_worker seen_worker worker_tracks
      unfolding pool_inv_def by blast+
    with worker_faults [OF worker(2) assms(2) worker(1)] show ?thesis
      by simp
  qed
  then show "\<exists>bs. pool_inv t bs \<and> fifo_step (tasks (heap s) as) e = Some (tasks (heap t) bs)"
    and "in_hand s i @ taken_by i e = ran_by i e @ in_hand t i"
    and "failed t \<in> {None, Some NoMemory, Some NullPool, Some BadThread}"
    unfolding tracks_def pool_inv_def by blast+
qed

subsection \<open>Histories\<close>

definition taken :: "nat \<Rightarrow> ('p, 'a) event list \<Rightarrow> ('p \<times> 'a) list" where
  "taken i es = concat (map (taken_by i) es)"

definition ran :: "nat \<Rightarrow> ('p, 'a) event list \<Rightarrow> ('p \<times> 'a) list" where
  "ran i es = concat (map (ran_by i) es)"

definition reached :: "('p, 'a) event list \<Rightarrow> ('p, 'a) sys \<Rightarrow> addr list \<Rightarrow> bool" where
  "reached es s as \<longleftrightarrow> pool_inv s as \<and> fifo_run [] es = Some (tasks (heap s) as) \<and>
     (\<forall>i. taken i es = ran i es @ in_hand s i) \<and>
     failed s \<in> {None, Some NoMemory, Some NullPool, Some BadThread}"

lemma start_inv: "pool_inv (pool_start n cs) []"
  by (simp add: pool_inv_def pool_start_def life_inv_def lock_inv_def seen_inv_def heap_inv_def
      queue_view_def)

lemma reached_step:
  assumes "reached es s as" "pool_step s e t"
  shows "\<exists>bs. reached (es @ [e]) t bs"
proof -
  have inv: "pool_inv s as" and h: "\<And>i. taken i es = ran i es @ in_hand s i"
    using assms(1) by (auto simp: reached_def)
  obtain bs where "pool_inv t bs" "fifo_step (tasks (heap s) as) e = Some (tasks (heap t) bs)"
    using pool_step_inv(1) [OF assms(2) inv] by blast
  moreover have "taken i (es @ [e]) = ran i (es @ [e]) @ in_hand t i" for i
    using h [of i] pool_step_inv(2) [OF assms(2) inv, of i] by (simp add: taken_def ran_def)
  ultimately show ?thesis
    using assms(1) pool_step_inv(3) [OF assms(2) inv] by (auto simp: reached_def fifo_run_snoc)
qed

lemma run_reached: "pool_run (pool_start n cs) es s \<Longrightarrow> \<exists>as. reached es s as"
proof (induction rule: pool_run.induct)
  case start
  have "reached [] (pool_start n cs) []"
    using start_inv by (auto simp: reached_def taken_def ran_def in_hand_def pool_start_def)
  then show ?case ..
next
  case (more_steps es t e u)
  then show ?case using reached_step by blast
qed

text \<open>Tasks put in, taken out and dropped, over all threads.\<close>

fun puts :: "('p, 'a) event list \<Rightarrow> ('p \<times> 'a) list" where
  "puts [] = []"
| "puts (e # es) = (case e of Put x \<Rightarrow> x # puts es | _ \<Rightarrow> puts es)"

fun removed :: "('p, 'a) event list \<Rightarrow> ('p \<times> 'a) list" where
  "removed [] = []"
| "removed (e # es) = (case e of Get i x \<Rightarrow> x # removed es | Drop x \<Rightarrow> x # removed es | _ \<Rightarrow> removed es)"

fun gets :: "('p, 'a) event list \<Rightarrow> (nat \<times> 'p \<times> 'a) list" where
  "gets [] = []"
| "gets (e # es) = (case e of Get i x \<Rightarrow> (i, x) # gets es | _ \<Rightarrow> gets es)"

fun runs :: "('p, 'a) event list \<Rightarrow> (nat \<times> 'p \<times> 'a) list" where
  "runs [] = []"
| "runs (e # es) = (case e of Ran i x \<Rightarrow> (i, x) # runs es | _ \<Rightarrow> runs es)"

fun drops :: "('p, 'a) event list \<Rightarrow> ('p \<times> 'a) list" where
  "drops [] = []"
| "drops (e # es) = (case e of Drop x \<Rightarrow> x # drops es | _ \<Rightarrow> drops es)"

lemma fifo_order: "fifo_run q es = Some q' \<Longrightarrow> q @ puts es = removed es @ q'"
proof (induction q es rule: fifo_run.induct)
  case (2 q e es)
  then obtain r where "fifo_step q e = Some r" "fifo_run r es = Some q'"
    by (auto simp: bind_eq_Some_conv)
  moreover from this 2 have "r @ puts es = removed es @ q'" by simp
  ultimately show ?case
    by (cases e) (auto split: list.splits if_splits)
qed simp

lemma removed_split: "mset (removed es) = mset (map snd (gets es)) + mset (drops es)"
  by (induction es) (auto split: event.splits)

lemma count_gets: "count (mset (gets es)) (i, x) = count (mset (taken i es)) x"
  by (induction es) (auto simp: taken_def split: event.splits)

lemma count_runs: "count (mset (runs es)) (i, x) = count (mset (ran i es)) x"
  by (induction es) (auto simp: ran_def split: event.splits)

lemma runs_taken:
  assumes "\<And>i. taken i es = ran i es @ h i"
  shows "mset (runs es) \<subseteq># mset (gets es)"
    and "(\<And>i. h i = []) \<Longrightarrow> mset (runs es) = mset (gets es)"
  by (auto intro!: mset_subset_eqI multiset_eqI simp: count_gets count_runs assms split_paired_all)

end
