(* ===== verification/PoolShutdown.thy ===== *)
theory PoolShutdown
  imports PoolHistory
begin

text \<open>
  Shutting the thread pool down: a measure of the work left once \<open>pool_destroy\<close> has set
  \<open>shutdown\<close>, and the states in which some thread can always move.
\<close>

subsection \<open>Shutting down takes boundedly many steps\<close>

definition sized :: "nat \<Rightarrow> ('p, 'a) sys \<Rightarrow> bool" where
  "sized n s \<longleftrightarrow> (\<forall>P. pool s = Some P \<longrightarrow> max_thread_num P = n) \<and> (\<forall>m. cpc s = Init m \<longrightarrow> m = n)"

lemma sized_step: "pool_step s e t \<Longrightarrow> sized n s \<Longrightarrow> sized n t"
proof (induction rule: pool_step.induct)
  case (caller s e t)
  from caller(2) show ?case
  proof cases
    case (add_link a P w h P')
    with link_fields(3) [OF add_link(6)] caller(3) show ?thesis by (auto simp: sized_def)
  qed (use caller(3) in \<open>auto simp: sized_def new_pool_def\<close>)
next
  case (worker s i e t)
  have "max_thread_num P' = n" if P': "pool t = Some P'" for P'
  proof -
    obtain P where "pool s = Some P"
      using worker_frame(7) [OF worker(2)] P' by (cases "pool s") auto
    with worker_frame(8) [OF worker(2) this P'] worker(3) show ?thesis
      by (simp add: sized_def)
  qed
  with worker(3) worker_frame(1) [OF worker(2)] show ?case
    by (simp add: sized_def)
qed

fun rank :: "wpc \<Rightarrow> nat" where
  "rank NotStarted = 0" | "rank Exited = 0" | "rank Exiting = 1" | "rank Leaving = 2"
| "rank Deciding = 3" | "rank Testing = 4" | "rank AtLock = 5" | "rank Woken = 5"
| "rank Asleep = 6" | "rank ToWait = 7" | "rank (Freeing a) = 6" | "rank (Running a) = 7"
| "rank (Got a) = 8" | "rank Taking = 9"

fun caller_rank :: "nat \<Rightarrow> cpc \<Rightarrow> nat" where
  "caller_rank n DestroyWake = n + 5"
| "caller_rank n (DestroyJoin i) = n - i + 4"
| "caller_rank n DestroyDrain = 3"
| "caller_rank n Idle = 2"
| "caller_rank n (AddLock a) = 1"
| "caller_rank n _ = 0"

definition work_left :: "nat \<Rightarrow> ('p, 'a) sys \<Rightarrow> nat" where
  "work_left n s = (\<Sum>i<n. rank (wpc s i)) + caller_rank n (cpc s) + length (the (queued s)) +
     (if failed s = None then 1 else 0)"

text \<open>From \<open>pool_destroy\<close>'s store to \<open>shutdown\<close> on.\<close>

definition late :: "('p, 'a) sys \<Rightarrow> bool" where
  "late s \<longleftrightarrow> closing (cpc s) \<or> pool s = None \<and> (\<forall>n. cpc s \<noteq> Init n)"

lemma late_cpc: "late s \<Longrightarrow> life_inv s \<Longrightarrow>
   pool s = None \<and> (cpc s = Idle \<or> (\<exists>a. cpc s = AddLock a)) \<or>
   (\<exists>P. pool s = Some P \<and> shutdown P \<and> closing (cpc s))"
  by (cases "pool s") (auto simp: late_def life_inv_def)

lemma rank_bound: "rank c \<le> 9"
  by (cases c) auto

lemma worker_rank:
  assumes "worker_step i s e t" "failed t = None" "failed s = None"
    and "\<And>P. pool s = Some P \<Longrightarrow> shutdown P"
  shows "rank (wpc t i) < rank (wpc s i)"
  using assms by (cases; auto)

lemma wake_rank: "rank (wake_all f i) \<le> rank (f i)"
  by (simp add: wake_all_def)

lemma late_step:
  assumes "pool_step s e t" "life_inv s" "late s"
  shows "late t \<and> (\<forall>x. e \<noteq> Put x)"
  using assms(1)
proof cases
  case caller
  from caller(2) show ?thesis
    using late_cpc [OF assms(3,2)] by cases (auto simp: late_def)
next
  case (worker i)
  then have "\<forall>x. e \<noteq> Put x"
    by (auto elim: worker_step.cases)
  with assms(3) worker_frame(1,7) [OF worker(2)] show ?thesis
    by (auto simp: late_def)
qed

lemma caller_work:
  assumes "caller_step s e t" "life_inv s" "late s" "sized n s" "failed s = None"
    and "length (the (queued t)) \<le> length (the (queued s))"
    and "\<And>x. e = Drop x \<Longrightarrow> length (the (queued t)) < length (the (queued s))"
  shows "work_left n t < work_left n s"
  using assms(1)
proof cases
  case destroy_wake
  then have "(\<Sum>i<n. rank (wpc t i)) \<le> (\<Sum>i<n. rank (wpc s i))"
    by (auto intro: sum_mono wake_rank)
  with destroy_wake assms(5,6) show ?thesis
    by (simp add: work_left_def)
next
  case (destroy_drain P a w)
  with assms(5,7) show ?thesis
    by (simp add: work_left_def)
qed (use assms late_cpc [OF assms(3,2)] in \<open>auto simp: work_left_def sized_def\<close>)

lemma worker_work:
  assumes "worker_step i s e t" "pool_inv s as" "late s" "sized n s" "failed s = None"
    and "length (the (queued t)) \<le> length (the (queued s))"
  shows "work_left n t < work_left n s"
proof -
  have l: "life_inv s" using assms(2) by (simp add: pool_inv_def)
  have f: "failed t = None"
    using worker_faults [OF assms(1,2,5)] .
  obtain P where P: "pool s = Some P" "shutdown P"
    using late_cpc [OF assms(3) l] worker_frame(4,5) [OF assms(1)] l
    by (auto simp: life_inv_def)
  have "rank (wpc t i) < rank (wpc s i)"
    using worker_rank [OF assms(1) f assms(5)] P by auto
  moreover have "i < n"
  proof (rule ccontr)
    assume "\<not> i < n"
    then have "wpc s i = NotStarted"
      using P(1) l assms(4) unfolding life_inv_def sized_def by (metis not_less)
    with worker_frame(4) [OF assms(1)] show False ..
  qed
  ultimately have "(\<Sum>j<n. rank (wpc t j)) < (\<Sum>j<n. rank (wpc s j))"
    using worker_frame(3) [OF assms(1)]
    by (intro sum_strict_mono_ex1) (auto intro: order.strict_implies_order, metis order.order_iff_strict)
  with assms(5,6) f worker_frame(1) [OF assms(1)] show ?thesis
    by (simp add: work_left_def)
qed

lemma step_work:
  assumes "pool_step s e t" "pool_inv s as" "late s" "sized n s"
  shows "work_left n t < work_left n s"
proof -
  have l: "life_inv s" and h: "heap_inv s as" using assms(2) by (simp_all add: pool_inv_def)
  obtain bs where bs: "pool_inv t bs" "fifo_step (tasks (heap s) as) e = Some (tasks (heap t) bs)"
    using pool_step_inv(1) [OF assms(1,2)] by blast
  have q: "queued t = Some (tasks (heap t) bs)" "queued s = Some (tasks (heap s) as)"
    using bs(1) h queued_tasks by (auto simp: pool_inv_def)
  have le: "length (the (queued t)) \<le> length (the (queued s))"
    and lt: "\<And>x. e = Drop x \<Longrightarrow> length (the (queued t)) < length (the (queued s))"
    using bs(2) late_step [OF assms(1) l assms(3)]
    by (cases e; auto simp: q split: list.splits if_splits)+
  from assms(1) show ?thesis
    using caller_work [OF _ l assms(3,4) _ le lt] worker_work [OF _ assms(2,3,4) _ le]
    by cases auto
qed

lemma run_work:
  assumes "pool_run s es t" "reached fs s as" "late s" "sized n s"
  shows "length es + work_left n t \<le> work_left n s \<and> late t \<and> sized n t \<and> (\<exists>gs bs. reached gs t bs)"
  using assms
proof (induction rule: pool_run.induct)
  case start
  then show ?case by auto
next
  case (more_steps es t e u)
  then obtain gs bs where r: "reached gs t bs" and t: "late t" "sized n t"
    "length es + work_left n t \<le> work_left n s" by auto
  then have inv: "pool_inv t bs" by (simp add: reached_def)
  then have "life_inv t" by (simp add: pool_inv_def)
  then have "late u"
    using late_step [OF more_steps.hyps(2)] t(1) by blast
  with sized_step [OF more_steps.hyps(2) t(2)] step_work [OF more_steps.hyps(2) inv t(1,2)] t(3)
    reached_step [OF r more_steps.hyps(2)] show ?case
    by auto
qed

lemma work_bound: "queued s = Some q \<Longrightarrow> work_left n s \<le> 10 * n + length q + 6"
proof -
  assume q: "queued s = Some q"
  have "(\<Sum>i<n. rank (wpc s i)) \<le> (\<Sum>i<n. 9)"
    by (rule sum_mono) (rule rank_bound)
  moreover have "caller_rank n (cpc s) \<le> n + 5"
    by (cases "cpc s") auto
  ultimately show ?thesis
    using q by (simp add: work_left_def)
qed

subsection \<open>With no thread about to wait, shutting down completes\<close>

definition all_running :: "nat \<Rightarrow> ('p, 'a) sys \<Rightarrow> bool" where
  "all_running n s \<longleftrightarrow> (\<forall>i<n. wpc s i \<noteq> NotStarted)"

definition awake :: "('p, 'a) sys \<Rightarrow> bool" where
  "awake s \<longleftrightarrow> (\<forall>i. wpc s i \<noteq> ToWait \<and> (wpc s i = Asleep \<longrightarrow> cpc s = DestroyWake)) \<and>
     (pool s \<noteq> None \<longrightarrow> failed s = None)"

lemma awake_step:
  assumes "pool_step s e t" "pool_inv s as" "late s" "sized n s" "all_running n s" "awake s"
  shows "all_running n t \<and> awake t"
proof -
  have l: "life_inv s" using assms(2) by (simp add: pool_inv_def)
  note c = late_cpc [OF assms(3) l]
  from assms(1) show ?thesis
  proof cases
    case caller
    from caller(2) show ?thesis
      using assms(4-6) c caller(1) caller_faults [OF caller(2) assms(2) caller(1)]
      by cases (auto simp: all_running_def awake_def sized_def wake_all_def)
  next
    case (worker i)
    have f: "failed t = None"
      using worker_faults [OF worker(2) assms(2) worker(1)] .
    have "wpc t i \<noteq> ToWait \<and> (wpc t i = Asleep \<longrightarrow> wpc s i = ToWait)"
      using worker(2) c f worker(1) by cases auto
    with assms(6) have here: "wpc t i \<noteq> ToWait" "wpc t i \<noteq> Asleep"
      by (auto simp: awake_def)
    have "wpc t j \<noteq> NotStarted" if "j < n" for j
      using that assms(5) worker_frame(3,6) [OF worker(2)] by (cases "j = i") (auto simp: all_running_def)
    moreover have "wpc t j \<noteq> ToWait \<and> (wpc t j = Asleep \<longrightarrow> cpc t = DestroyWake)" for j
      using here assms(6) worker_frame(1,3) [OF worker(2)] by (cases "j = i") (auto simp: awake_def)
    ultimately show ?thesis
      using f by (simp add: all_running_def awake_def)
  qed
qed

lemma section_moves:
  assumes "pool s = Some P" "failed s = None" "wpc s i \<notin> {NotStarted, Exited, AtLock, Woken, Asleep}"
  shows "\<exists>e t. pool_step s e t"
proof -
  have "\<exists>e t. worker_step i s e t"
  proof (cases "wpc s i")
    case Testing
    then show ?thesis using assms(1) w_empty w_ready by blast
  next
    case Deciding
    then show ?thesis using assms(1) w_shut w_work by blast
  next
    case Taking
    show ?thesis
    proof (cases "take_worker (heap s) P")
      case (Inl e)
      then show ?thesis using Taking assms(1) w_bad by blast
    next
      case (Inr r)
      then obtain a P' w where "take_worker (heap s) P = Inr (a, P')" "heap s a = Some w"
        by (cases r) (auto simp: take_worker_def split: if_splits option.splits)
      then show ?thesis using Taking assms(1) w_take by blast
    qed
  next
    case (Running a)
    then show ?thesis using w_run w_run_bad by (cases "heap s a") blast+
  qed (use assms w_wait w_leave w_exit w_unlock w_free in blast)+
  then show ?thesis
    using pool_step.worker [OF assms(2)] by blast
qed

lemma closing_moves:
  assumes "pool_inv s as" "sized n s" "all_running n s" "awake s" "closing (cpc s)"
  shows "\<exists>e t. pool_step s e t"
proof -
  have l: "life_inv s" "lock_inv s" using assms(1) by (simp_all add: pool_inv_def)
  obtain P where P: "pool s = Some P"
    using l(1) assms(5) by (cases "pool s") (auto simp: life_inv_def)
  then have f: "failed s = None" using assms(4) by (simp add: awake_def)
  note step = pool_step.caller [OF f]
  show ?thesis
  proof (cases "cpc s")
    case DestroyWake
    then show ?thesis using step destroy_wake by blast
  next
    case DestroyDrain
    then show ?thesis
    proof (cases "queue_head P")
      case None
      with DestroyDrain P show ?thesis using step destroy_done by blast
    next
      case (Some a)
      with DestroyDrain P show ?thesis
        using step destroy_drain destroy_dangling by (cases "heap s a") blast+
    qed
  next
    case (DestroyJoin i)
    show ?thesis
    proof (cases "i < max_thread_num P")
      case False
      with DestroyJoin P show ?thesis using step destroy_joined by blast
    next
      case True
      then have w: "wpc s i \<noteq> NotStarted" "wpc s i \<noteq> Asleep"
        using assms(2-4) P DestroyJoin by (auto simp: sized_def all_running_def awake_def)
      show ?thesis
      proof (cases "wpc s i \<in> {AtLock, Woken}")
        case lock: True
        show ?thesis
        proof (cases "queue_lock P")
          case None
          then show ?thesis using lock P pool_step.worker [OF f] w_lock by blast
        next
          case (Some x)
          have "\<not> caller_in (cpc s)" using DestroyJoin by simp
          then obtain j where "x = Thread j"
            using Some caller_lock [OF l(2) P] by (cases x) auto
          then have "in_section (wpc s j)"
            using lock_invD [OF l(2) P] Some by simp
          then show ?thesis
            by (intro section_moves [OF P f, of j]) auto
        qed
      next
        case False
        with w show ?thesis
          using section_moves [OF P f, of i] step destroy_join [OF DestroyJoin P True] by blast
      qed
    qed
  qed (use assms(5) in \<open>auto simp: closing_def\<close>)
qed

lemma run_awake:
  assumes "pool_run s es t" "reached fs s as" "late s" "sized n s" "all_running n s" "awake s"
  shows "all_running n t \<and> awake t"
  using assms
proof (induction rule: pool_run.induct)
  case start
  then show ?case by simp
next
  case (more_steps es t e u)
  from run_work [OF more_steps.hyps(1) more_steps.prems(1-3)]
  obtain gs bs where t: "late t" "sized n t" "pool_inv t bs" by (auto simp: reached_def)
  show ?case
    using awake_step [OF more_steps.hyps(2) t(3,1,2)] more_steps by blast
qed

end
