(* ===== verification/PoolRun.thy ===== *)
theory PoolRun
  imports PoolShutdown
begin

text \<open>
  The properties of the thread pool, with concrete schedules on which they are tried.
\<close>

subsection \<open>Executing a schedule\<close>

text \<open>
  The step relation as a function of the scheduler's choice: whose turn it is, and for the
  caller the address that malloc returns or the thread that the signal wakes. Allocation and
  thread creation succeed.
\<close>

definition caller_next :: "addr \<Rightarrow> ('p, 'a) sys \<Rightarrow> (('p, 'a) event \<times> ('p, 'a) sys) option" where
  "caller_next a s = (case (cpc s, pool s) of
     (Init n, _) \<Rightarrow> Some (Quiet, s\<lparr>pool := Some (new_pool n), cpc := Create 0\<rparr>)
   | (Create i, Some P) \<Rightarrow>
       Some (Quiet, if i < max_thread_num P then set_wpc i AtLock s\<lparr>cpc := Create (Suc i)\<rparr>
                    else s\<lparr>cpc := Idle\<rparr>)
   | (Idle, None) \<Rightarrow> None
   | (Idle, Some P) \<Rightarrow>
       (case calls s of
          [] \<Rightarrow> None
        | Add p x # cs \<Rightarrow>
            if heap s a = None \<and> card (dom (heap s)) < max_nodes
            then Some (Quiet, s\<lparr>heap := (heap s)(a \<mapsto> \<lparr>process = p, arg = x, next_worker = None\<rparr>),
              calls := cs, cpc := AddLock a\<rparr>)
            else None
        | Destroy # cs \<Rightarrow>
            if shutdown P then Some (Quiet, s\<lparr>calls := cs\<rparr>)
            else Some (Quiet, s\<lparr>pool := Some (P\<lparr>shutdown := True\<rparr>), calls := cs, cpc := DestroyWake\<rparr>))
   | (AddLock b, Some P) \<Rightarrow>
       if queue_lock P = None then Some (Quiet, set_lock (Some Caller) P s\<lparr>cpc := AddLink b\<rparr>) else None
   | (AddLink b, Some P) \<Rightarrow>
       (case (heap s b, link_worker (heap s) P b) of
          (Some w, Inr (h, P')) \<Rightarrow> Some (Put (task w), s\<lparr>pool := Some P', heap := h, cpc := AddUnlock\<rparr>)
        | _ \<Rightarrow> None)
   | (AddUnlock, Some P) \<Rightarrow> Some (Quiet, set_lock None P s\<lparr>cpc := AddSignal\<rparr>)
   | (AddSignal, _) \<Rightarrow>
       if wpc s a = Asleep then Some (Quiet, set_wpc a Woken s\<lparr>cpc := Idle\<rparr>)
       else if \<forall>i. wpc s i \<noteq> Asleep then Some (Quiet, s\<lparr>cpc := Idle\<rparr>) else None
   | (DestroyWake, _) \<Rightarrow> Some (Quiet, s\<lparr>wpc := wake_all (wpc s), cpc := DestroyJoin 0\<rparr>)
   | (DestroyJoin i, Some P) \<Rightarrow>
       if i < max_thread_num P
       then if wpc s i = Exited then Some (Quiet, s\<lparr>cpc := DestroyJoin (Suc i)\<rparr>) else None
       else Some (Quiet, s\<lparr>cpc := DestroyDrain\<rparr>)
   | (DestroyDrain, Some P) \<Rightarrow>
       (case queue_head P of
          None \<Rightarrow> Some (Quiet, s\<lparr>pool := None, cpc := Idle\<rparr>)
        | Some b \<Rightarrow>
            (case heap s b of
               None \<Rightarrow> None
             | Some w \<Rightarrow> Some (Drop (task w),
                 s\<lparr>pool := Some (P\<lparr>queue_head := next_worker w\<rparr>), heap := (heap s)(b := None)\<rparr>)))
   | _ \<Rightarrow> None)"

definition worker_next :: "nat \<Rightarrow> ('p, 'a) sys \<Rightarrow> (('p, 'a) event \<times> ('p, 'a) sys) option" where
  "worker_next i s = (case (wpc s i, pool s) of
     (Running a, _) \<Rightarrow>
       (case heap s a of None \<Rightarrow> None | Some w \<Rightarrow> Some (Ran i (task w), set_wpc i (Freeing a) s))
   | (Freeing a, _) \<Rightarrow> Some (Quiet, set_wpc i AtLock (s\<lparr>heap := (heap s)(a := None)\<rparr>))
   | (Exiting, _) \<Rightarrow> Some (Quiet, set_wpc i Exited s)
   | (AtLock, Some P) \<Rightarrow>
       if queue_lock P = None then Some (Quiet, set_wpc i Testing (set_lock (Some (Thread i)) P s)) else None
   | (Woken, Some P) \<Rightarrow>
       if queue_lock P = None then Some (Quiet, set_wpc i Testing (set_lock (Some (Thread i)) P s)) else None
   | (Testing, Some P) \<Rightarrow> Some (Quiet, set_wpc i (if must_wait P then ToWait else Deciding) s)
   | (ToWait, Some P) \<Rightarrow> Some (Quiet, set_wpc i Asleep (set_lock None P s))
   | (Deciding, Some P) \<Rightarrow> Some (Quiet, set_wpc i (if shutdown P then Leaving else Taking) s)
   | (Leaving, Some P) \<Rightarrow> Some (Quiet, set_wpc i Exiting (set_lock None P s))
   | (Taking, Some P) \<Rightarrow>
       (case take_worker (heap s) P of
          Inl e \<Rightarrow> None
        | Inr (a, P') \<Rightarrow>
            (case heap s a of
               None \<Rightarrow> None
             | Some w \<Rightarrow> Some (Get i (task w), set_wpc i (Got a) (s\<lparr>pool := Some P'\<rparr>))))
   | (Got a, Some P) \<Rightarrow> Some (Quiet, set_wpc i (Running a) (set_lock None P s))
   | _ \<Rightarrow> None)"

datatype choice = Call addr | Work nat

fun schedule :: "choice list \<Rightarrow> ('p, 'a) sys \<Rightarrow> (('p, 'a) event list \<times> ('p, 'a) sys) option" where
  "schedule [] s = Some ([], s)"
| "schedule (c # cs) s =
     (if failed s = None
      then Option.bind (case c of Call a \<Rightarrow> caller_next a s | Work i \<Rightarrow> worker_next i s)
        (\<lambda>(e, t). Option.bind (schedule cs t) (\<lambda>(es, u). Some (e # es, u)))
      else None)"

lemma caller_next_step: "caller_next a s = Some (e, t) \<Longrightarrow> caller_step s e t"
  unfolding caller_next_def
  by (auto intro: caller_step.intros split: cpc.splits option.splits list.splits call.splits if_splits
      sum.splits prod.splits)

lemma worker_step_eq: "worker_step i s e u \<Longrightarrow> u = t \<Longrightarrow> worker_step i s e t"
  by simp

lemmas worker_intros = worker_step.intros [THEN worker_step_eq]

lemma worker_next_step: "worker_next i s = Some (e, t) \<Longrightarrow> worker_step i s e t"
  unfolding worker_next_def
  by (auto intro: worker_intros split: wpc.splits option.splits if_splits sum.splits prod.splits)

lemma pool_run_front: "pool_run t es u \<Longrightarrow> pool_step s e t \<Longrightarrow> pool_run s (e # es) u"
proof (induction rule: pool_run.induct)
  case start
  then show ?case using pool_run.more_steps [OF pool_run.start] by fastforce
next
  case (more_steps es u e' v)
  then show ?case using pool_run.more_steps [of s "e # es" u e' v] by simp
qed

lemma schedule_run: "schedule cs s = Some (es, t) \<Longrightarrow> pool_run s es t"
proof (induction cs s arbitrary: es rule: schedule.induct)
  case (1 s)
  then show ?case by (simp add: pool_run.start)
next
  case (2 c cs s)
  then obtain e u fs where f: "failed s = None"
    and c: "(case c of Call a \<Rightarrow> caller_next a s | Work i \<Rightarrow> worker_next i s) = Some (e, u)"
    and r: "schedule cs u = Some (fs, t)" "es = e # fs"
    by (auto simp: bind_eq_Some_conv split: if_splits)
  have "pool_step s e u"
    using f c by (cases c) (auto intro: pool_step.intros caller_next_step worker_next_step)
  with 2(1) [OF f c _ r(1)] r(2) show ?case
    by (auto intro: pool_run_front)
qed

text \<open>One worker, one task, a complete life of the pool; and a life that ends in a hang.\<close>

definition pool_demo :: "choice list" where
  "pool_demo = map Call [0, 0, 0, 0, 0, 0, 0, 0] @ map Work [0, 0, 0, 0, 0, 0, 0] @
     map Call [0, 0] @ map Work [0, 0, 0, 0, 0] @ map Call [0, 0, 0]"

lemmas schedule_simps =
  caller_next_def worker_next_def new_pool_def task_def max_nodes_def link_worker_def
  take_worker_def wrap32_def wake_all_def last_worker.simps pool_start_def

lemma pool_demo_run:
  "\<exists>s. schedule pool_demo (pool_start 1 [Add (1 :: nat) (2 :: nat), Destroy]) =
     Some ([Quiet, Quiet, Quiet, Quiet, Quiet, Put (1, 2), Quiet, Quiet, Quiet, Quiet, Quiet,
        Get 0 (1, 2), Quiet, Ran 0 (1, 2), Quiet, Quiet, Quiet, Quiet, Quiet, Quiet, Quiet, Quiet,
        Quiet, Quiet, Quiet], s) \<and> pool s = None \<and> cpc s = Idle"
  by (simp add: pool_demo_def schedule_simps)

lemma pool_demo_ex:
  "\<exists>s. pool_run (pool_start 1 [Add (1 :: nat) (2 :: nat), Destroy])
     ([Quiet, Quiet, Quiet, Quiet, Quiet, Put (1, 2), Quiet, Quiet, Quiet, Quiet, Quiet,
        Get 0 (1, 2), Quiet, Ran 0 (1, 2), Quiet, Quiet, Quiet, Quiet, Quiet, Quiet, Quiet, Quiet,
        Quiet, Quiet, Quiet]) s \<and> pool s = None \<and> cpc s = Idle"
  using pool_demo_run schedule_run by blast

lemma pool_stop_ex:
  "\<exists>s es t. pool_run (pool_start 1 [Destroy :: (nat, nat) call])
      [Quiet, Quiet, Quiet, Quiet] s \<and> cpc s = DestroyWake \<and> queued s = Some [] \<and>
     wpc s 0 = AtLock \<and> failed s = None \<and> pool_run s es t \<and> length es = 9 \<and> pool t = None \<and>
     {(e, u). pool_step t e u} = {}"
proof -
  let ?cs = "map Call [0, 0, 0, 0]" and ?ds = "Call 0 # map Work [0, 0, 0, 0, 0] @ map Call [0, 0, 0]"
  define s :: "(nat, nat) sys" where "s = \<lparr>pool = Some \<lparr>queue_lock = None, queue_head = None,
    shutdown = True, max_thread_num = 1, cur_queue_size = 0\<rparr>, heap = Map.empty,
    wpc = (\<lambda>_. NotStarted)(0 := AtLock), cpc = DestroyWake, calls = [], failed = None\<rparr>"
  have s: "schedule ?cs (pool_start 1 [Destroy]) = Some ([Quiet, Quiet, Quiet, Quiet], s)"
    by (simp add: schedule_simps s_def)
  have s': "cpc s = DestroyWake" "queued s = Some []" "wpc s 0 = AtLock" "failed s = None"
    by (simp_all add: s_def queued_def nodes_from.simps)
  have "\<exists>es t. schedule ?ds s = Some (es, t) \<and> length es = 9 \<and> pool t = None \<and> cpc t = Idle \<and>
      calls t = [] \<and> wpc t = (\<lambda>_. NotStarted)(0 := Exited)"
    by (simp add: s_def schedule_simps fun_eq_iff)
  then obtain es t where t: "schedule ?ds s = Some (es, t)" "length es = 9" "pool t = None"
      "cpc t = Idle" "calls t = []" "wpc t = (\<lambda>_. NotStarted)(0 := Exited)"
    by blast
  have "\<not> pool_step t e u" for e u
    using t(3-6) by (auto elim!: pool_step.cases caller_step.cases worker_step.cases
        simp: uses_pool_def split: if_splits)
  with s s' t schedule_run show ?thesis by blast
qed

lemma pool_hang_ex:
  "\<exists>es s. pool_run (pool_start 1 [Destroy :: (nat, nat) call]) es s \<and> cpc s = DestroyJoin 0 \<and>
     wpc s 0 = Asleep \<and> {e. \<exists>t. pool_step s e t} = {Spurious 0}"
proof -
  let ?cs = "map Call [0, 0, 0] @ map Work [0, 0] @ map Call [0, 0] @ [Work 0]"
  obtain es s where s: "schedule ?cs (pool_start 1 [Destroy :: (nat, nat) call]) = Some (es, s)"
      "cpc s = DestroyJoin 0" "pool s = Some \<lparr>queue_lock = None, queue_head = None, shutdown = True,
         max_thread_num = 1, cur_queue_size = 0\<rparr>"
      "wpc s = (\<lambda>_. NotStarted)(0 := Asleep)" "failed s = None"
    by (simp add: schedule_simps fun_eq_iff)
  have "e = Spurious 0" if "pool_step s e t" for e t
    using that s(2-4) by (auto elim!: pool_step.cases caller_step.cases worker_step.cases
        simp: uses_pool_def split: if_splits)
  moreover have "pool_step s (Spurious 0) (set_wpc 0 Woken s)"
    by (rule pool_step.worker [OF s(5)], rule w_spurious [OF _ s(3)]) (simp add: s(4))
  ultimately have "{e. \<exists>t. pool_step s e t} = {Spurious 0}" by blast
  moreover have "wpc s 0 = Asleep" by (simp add: s(4))
  ultimately show ?thesis
    using schedule_run [OF s(1)] s(2) by blast
qed

lemma run_sized: "pool_run (pool_start n cs) es s \<Longrightarrow> sized n s"
proof (induction rule: pool_run.induct)
  case start
  then show ?case by (simp add: sized_def pool_start_def)
next
  case (more_steps es t e u)
  then show ?case using sized_step by blast
qed

text \<open>
  C4: The thread pool is a first-in first-out queue: in every run, under every interleaving of
  the caller and the workers, the tasks put in, taken out and dropped are those of the queue
  specification, the linked list in memory holds exactly the tasks of the specification's
  queue, in order, and until the final clean-up \<open>cur_queue_size\<close> is its length.
\<close>
theorem pool_refines_fifo:
  assumes "pool_run (pool_start n cs) es s"
  shows "\<exists>q. fifo_run [] es = Some q \<and> queued s = Some q \<and>
    (\<forall>P. pool s = Some P \<longrightarrow> cpc s \<noteq> DestroyDrain \<longrightarrow> cur_queue_size P = int (length q))"
proof -
  obtain as where r: "reached es s as"
    using run_reached [OF assms] ..
  then have h: "heap_inv s as" and q: "fifo_run [] es = Some (tasks (heap s) as)"
    by (simp_all add: reached_def pool_inv_def)
  show ?thesis
    using q queued_tasks [OF h] h by (auto simp: heap_inv_def queue_view_def tasks_def)
qed

theorem pool_refines_fifo_witness:
  "\<exists>s :: (nat, nat) sys. \<exists>es q. pool_run (pool_start 1 [Add 1 2, Destroy]) es s \<and> Put (1, 2) \<in> set es \<and>
     fifo_run [] es = Some q \<and> queued s = Some q"
proof -
  obtain s :: "(nat, nat) sys" and es where "pool_run (pool_start 1 [Add 1 2, Destroy]) es s" "Put (1, 2) \<in> set es"
    using pool_demo_ex by fastforce
  then show ?thesis using pool_refines_fifo by blast
qed

text \<open>
  C5: No interleaving makes a worker fail: the assertions of \<open>thread_routine\<close> and
  \<open>pool_add_worker\<close> hold, no dangling queue node is followed, and no worker uses the pool after
  it was freed. The only faults left are a failed malloc whose result is used, a call after
  \<open>pool_destroy\<close>, and joining a thread that could not be created.
\<close>
theorem pool_workers_never_fault:
  assumes "pool_run (pool_start n cs) es s"
  shows "failed s \<in> {None, Some NoMemory, Some NullPool, Some BadThread}"
  using run_reached [OF assms] unfolding reached_def by blast

theorem pool_workers_never_fault_witness:
  "\<exists>s :: (nat, nat) sys. \<exists>es. pool_run (pool_start 1 [Add 1 2, Destroy]) es s \<and> Ran 0 (1, 2) \<in> set es \<and> pool s = None \<and>
     failed s \<in> {None, Some NoMemory, Some NullPool, Some BadThread}"
proof -
  obtain s :: "(nat, nat) sys" and es where "pool_run (pool_start 1 [Add 1 2, Destroy]) es s" "Ran 0 (1, 2) \<in> set es"
      "pool s = None"
    using pool_demo_ex by fastforce
  then show ?thesis using pool_workers_never_fault by blast
qed

text \<open>
  C6: No task is run twice and none is made up: the tasks that have run are among the tasks put
  in, as multisets; and when the pool is destroyed every task put in has been run exactly once
  or dropped by the clean-up.
\<close>
theorem pool_tasks_run_once:
  assumes "pool_run (pool_start n cs) es s"
  shows "mset (map snd (runs es)) \<subseteq># mset (puts es) \<and>
    (pool s = None \<longrightarrow> cpc s = Idle \<longrightarrow>
       mset (map snd (runs es)) + mset (drops es) = mset (puts es))"
proof -
  obtain as where r: "reached es s as"
    using run_reached [OF assms] ..
  then have h: "heap_inv s as" and l: "life_inv s" and t: "\<And>i. taken i es = ran i es @ in_hand s i"
    and "fifo_run [] es = Some (tasks (heap s) as)"
    by (auto simp: reached_def pool_inv_def)
  then have "mset (puts es) = mset (removed es) + mset (tasks (heap s) as)"
    using fifo_order [of "[]"] by fastforce
  then have puts: "mset (puts es) = mset (map snd (gets es)) + mset (drops es) + mset (tasks (heap s) as)"
    by (simp only: removed_split)
  have sub: "mset (map snd (runs es)) \<subseteq># mset (map snd (gets es))"
    using image_mset_subseteq_mono [OF runs_taken(1) [OF t], of snd] by simp
  moreover have "mset (map snd (runs es)) = mset (map snd (gets es)) \<and> as = []" if "pool s = None"
  proof
    have "wpc s i \<in> {NotStarted, Exited}" for i
      using l that unfolding life_inv_def by blast
    then have "in_hand s i = []" for i
      by (auto simp: in_hand_def split: wpc.splits) (metis empty_iff insert_iff wpc.distinct)+
    then have "mset (runs es) = mset (gets es)"
      by (rule runs_taken(2) [OF t])
    then show "mset (map snd (runs es)) = mset (map snd (gets es))" by simp
    show "as = []" using h that by (simp add: heap_inv_def queue_view_def)
  qed
  ultimately show ?thesis
    using puts subset_mset.order_trans [OF sub mset_subset_eq_add_left] by (auto simp: add.assoc)
qed

theorem pool_tasks_run_once_witness:
  "\<exists>s es. pool_run (pool_start 1 [Add 1 2, Destroy]) es s \<and> (runs es :: (nat \<times> nat \<times> nat) list) = [(0, 1, 2)] \<and>
     mset (map snd (runs es)) + mset (drops es) = mset (puts es)"
proof -
  let ?es = "[Quiet, Quiet, Quiet, Quiet, Quiet, Put (1, 2), Quiet, Quiet, Quiet, Quiet, Quiet,
        Get 0 (1, 2), Quiet, Ran 0 (1, 2), Quiet, Quiet, Quiet, Quiet, Quiet, Quiet, Quiet, Quiet,
        Quiet, Quiet, Quiet] :: (nat, nat) event list"
  have "runs ?es = [(0, 1, 2)]" by simp
  then show ?thesis
    using pool_demo_ex pool_tasks_run_once by blast
qed

text \<open>
  C15: Once \<open>pool_destroy\<close> has set \<open>shutdown\<close>, the whole program makes only boundedly many more
  steps, under every interleaving: no worker goes on taking tasks, and nothing loops for ever.
  With \<open>n\<close> workers and \<open>q\<close> tasks waiting the bound is \<open>10 n + q + 6\<close>.
\<close>
theorem pool_shutdown_bounded:
  assumes "pool_run (pool_start n cs) fs s" and "cpc s = DestroyWake" and "queued s = Some q"
    and "pool_run s es t"
  shows "length es \<le> 10 * n + length q + 6"
proof -
  obtain as where r: "reached fs s as"
    using run_reached [OF assms(1)] ..
  have "late s" using assms(2) by (simp add: late_def)
  with run_work [OF assms(4) r _ run_sized [OF assms(1)]] work_bound [OF assms(3), of n]
  show ?thesis by simp
qed

theorem pool_shutdown_bounded_witness:
  "\<exists>s t :: (nat, nat) sys. \<exists>es. pool_run s es t \<and> cpc s = DestroyWake \<and> pool t = None \<and>
     length es \<le> 10 * 1 + length ([] :: (nat \<times> nat) list) + 6"
  using pool_stop_ex pool_shutdown_bounded by blast

text \<open>
  C18: If no worker is between its test of \<open>shutdown\<close> and \<open>pthread_cond_wait\<close> when
  \<open>pool_destroy\<close> sets \<open>shutdown\<close>, then \<open>pool_destroy\<close> returns: wherever the program can make no
  further step, all workers have exited and the pool is freed.
\<close>
theorem pool_destroy_returns:
  assumes "pool_run (pool_start n cs) fs s" and "cpc s = DestroyWake" and "failed s = None"
    and "\<And>i. i < n \<Longrightarrow> wpc s i \<notin> {NotStarted, ToWait}"
    and "pool_run s es t" and "{(e, u). pool_step t e u} = {}"
  shows "pool t = None"
proof (rule ccontr)
  assume p: "pool t \<noteq> None"
  obtain as where r: "reached fs s as"
    using run_reached [OF assms(1)] ..
  then have l: "life_inv s" by (simp add: reached_def pool_inv_def)
  have s: "late s" "sized n s" using assms(2) run_sized [OF assms(1)] by (simp_all add: late_def)
  have "wpc s i \<noteq> ToWait" for i
  proof (cases "i < n")
    case False
    obtain P where "pool s = Some P"
      using late_cpc [OF s(1) l] assms(2) by auto
    then have "wpc s i = NotStarted"
      using False l s(2) by (auto simp: life_inv_def sized_def)
    then show ?thesis by simp
  qed (use assms(4) in auto)
  then have w: "all_running n s" "awake s"
    using assms(2-4) by (auto simp: all_running_def awake_def)
  obtain bs where t: "late t" "sized n t" "pool_inv t bs"
    using run_work [OF assms(5) r s] by (auto simp: reached_def)
  have "all_running n t \<and> awake t"
    by (rule run_awake [OF assms(5) r s w])
  moreover have "closing (cpc t)"
    using t(1) p by (auto simp: late_def)
  ultimately show False
    using closing_moves [OF t(3,2)] assms(6) by blast
qed

theorem pool_destroy_returns_witness:
  "\<exists>s t :: (nat, nat) sys. \<exists>es. pool_run s es t \<and> cpc s = DestroyWake \<and> wpc s 0 = AtLock \<and> pool t = None"
proof -
  obtain s t :: "(nat, nat) sys" and es where s: "pool_run (pool_start 1 [Destroy])
      [Quiet, Quiet, Quiet, Quiet] s" "cpc s = DestroyWake" "wpc s 0 = AtLock" "failed s = None"
      "pool_run s es t" "{(e, u). pool_step t e u} = {}"
    using pool_stop_ex by blast
  moreover from s have "pool t = None"
    by (intro pool_destroy_returns [OF s(1,2,4) _ s(5,6)]) auto
  ultimately show ?thesis by blast
qed

text \<open>
  A worker that the broadcast has missed: the caller waits for it or for one before it, and it
  is about to wait, or asleep.
\<close>

definition missed :: "nat \<Rightarrow> ('p, 'a) sys \<Rightarrow> bool" where
  "missed i s \<longleftrightarrow> (\<exists>k\<le>i. cpc s = DestroyJoin k) \<and> wpc s i \<in> {ToWait, Asleep} \<and>
     (\<exists>P. pool s = Some P \<and> i < max_thread_num P)"

lemma missed_caller: "caller_step s e t \<Longrightarrow> missed i s \<Longrightarrow> missed i t"
proof (induction rule: caller_step.induct)
  case (destroy_join s k P)
  then have "k \<noteq> i" by (auto simp: missed_def)
  with destroy_join show ?case by (auto simp: missed_def)
qed (auto simp: missed_def)

lemma missed_worker:
  assumes "worker_step j s e t" and "missed i s" and "e \<noteq> Spurious i"
  shows "missed i t"
proof -
  note f = worker_frame [OF assms(1)]
  obtain P where P: "pool s = Some P" "i < max_thread_num P" using assms(2) by (auto simp: missed_def)
  then obtain P' where "pool t = Some P'" using f(7) by (cases "pool t") auto
  with P f(8) [OF P(1)] have pool: "\<exists>P. pool t = Some P \<and> i < max_thread_num P" by auto
  moreover have "wpc t i \<in> {ToWait, Asleep}"
  proof (cases "j = i")
    case True
    from assms(2) have "wpc s i \<in> {ToWait, Asleep}" by (simp add: missed_def)
    with assms(1,3) P(1) show ?thesis unfolding True by cases auto
  next
    case False
    with assms(2) f(3) [of i] show ?thesis by (simp add: missed_def)
  qed
  ultimately show ?thesis using assms(2) f(1) by (simp add: missed_def)
qed

lemma missed_run: "pool_run s es t \<Longrightarrow> missed i s \<Longrightarrow> Spurious i \<notin> set es \<Longrightarrow> missed i t"
proof (induction rule: pool_run.induct)
  case (more_steps es t e u)
  from more_steps.hyps(2) more_steps.IH more_steps.prems show ?case
    by cases (auto intro: missed_caller missed_worker)
qed

text \<open>
  C37: Otherwise it hangs: \<open>shutdown\<close> is set without the lock, so a worker that has found the queue
  empty and \<open>shutdown\<close> clear can go to sleep after the broadcast. Once the caller has sent the
  broadcast and waits for its workers while worker \<open>i\<close> is about to wait or asleep, then whatever
  the program does, the worker stays where it is and the caller never gets past its join, unless
  the system wakes this worker without a reason.
\<close>
theorem pool_destroy_hangs:
  assumes "pool_run (pool_start n cs) fs s" and "cpc s = DestroyJoin k" and "wpc s i \<in> {ToWait, Asleep}"
    and "pool_run s es t" and "Spurious i \<notin> set es"
  shows "(\<exists>j\<le>i. cpc t = DestroyJoin j) \<and> wpc t i \<in> {ToWait, Asleep} \<and> pool t \<noteq> None"
proof -
  obtain as where "reached fs s as" using run_reached [OF assms(1)] ..
  then have l: "life_inv s" by (simp add: reached_def pool_inv_def)
  with assms(2) obtain P where P: "pool s = Some P" by (cases "pool s") (auto simp: life_inv_def)
  have "wpc s i \<noteq> NotStarted" "wpc s i \<noteq> Exited" using assms(3) by auto
  with l assms(2) P have "k \<le> i" "i < max_thread_num P" unfolding life_inv_def by (metis not_less)+
  with P assms(2,3) have "missed i s" by (simp add: missed_def)
  from missed_run [OF assms(4) this assms(5)] show ?thesis by (auto simp: missed_def)
qed

theorem pool_destroy_hangs_witness:
  "\<exists>fs. \<exists>s :: (nat, nat) sys. pool_run (pool_start 1 [Destroy]) fs s \<and>
     (\<forall>es t. pool_run s es t \<longrightarrow> Spurious 0 \<notin> set es \<longrightarrow> cpc t = DestroyJoin 0)"
proof -
  obtain fs and s :: "(nat, nat) sys" where "pool_run (pool_start 1 [Destroy]) fs s" "cpc s = DestroyJoin 0"
      "wpc s 0 = Asleep"
    using pool_hang_ex by blast
  with pool_destroy_hangs [OF this(1,2), of 0] show ?thesis by (intro exI [of _ fs] exI [of _ s]) auto
qed

end
