(* ===== verification/Float32.thy ===== *)
theory Float32
  imports Complex_Main "HOL-Library.Log_Nat"
begin

text \<open>
  Single-precision arithmetic: a float is the rational it stands for, and every operation
  rounds to the nearest multiple of its unit in the last place, ties to even. The values of
  the programs here stay far from overflow and from the denormal numbers, so neither is part
  of the model.
\<close>

definition ilog :: "rat \<Rightarrow> int" where
  "ilog x = (let (p, q) = quotient_of x; k = int (floorlog 2 (nat p)) - int (floorlog 2 (nat q))
     in if 2 powi k \<le> x then k else k - 1)"

definition round_even :: "rat \<Rightarrow> int" where
  "round_even m = (let f = \<lfloor>m\<rfloor>; d = m - of_int f
     in if d < 1 / 2 \<or> d = 1 / 2 \<and> even f then f else f + 1)"

definition fl :: "rat \<Rightarrow> rat" where
  "fl x = (if x = 0 then 0 else
     let u = 2 powi (ilog \<bar>x\<bar> - 23) in of_int (round_even (x / u)) * u)"

lemma pow_le_rat: "0 < a \<Longrightarrow> 0 < p \<Longrightarrow> 2 ^ (a - 1) \<le> nat p \<Longrightarrow> 2 powi (int a - 1) \<le> (of_int p :: rat)"
proof -
  assume a: "0 < a" and "0 < p" "2 ^ (a - 1) \<le> nat p"
  then have "(2 :: int) ^ (a - 1) \<le> p"
    by (metis int_nat_eq nat_le_iff nat_numeral nat_power_eq not_less of_nat_le_iff of_nat_numeral of_nat_power order_less_imp_le)
  then have "(2 :: rat) ^ (a - 1) \<le> of_int p"
    by (metis of_int_le_iff of_int_numeral of_int_power)
  moreover have "int a - 1 = int (a - 1)" using a by simp
  ultimately show ?thesis by (simp only: power_int_of_nat)
qed

lemma pow_less_rat: "0 < p \<Longrightarrow> nat p < 2 ^ a \<Longrightarrow> (of_int p :: rat) < 2 powi int a"
proof -
  assume "0 < p" "nat p < 2 ^ a"
  then have "p < (2 :: int) ^ a" by (simp add: nat_less_iff)
  then have "of_int p < (2 :: rat) ^ a"
    by (metis of_int_less_iff of_int_numeral of_int_power)
  then show ?thesis by (simp only: power_int_of_nat)
qed

lemma ilog_bounds:
  assumes "0 < x"
  shows "2 powi ilog x \<le> x" and "x < 2 powi (ilog x + 1)"
proof -
  obtain p q where pq: "quotient_of x = (p, q)" by (cases "quotient_of x")
  then have q: "0 < q" and x: "x = of_int p / of_int q"
    by (simp_all add: quotient_of_denom_pos quotient_of_div)
  with assms have p: "0 < p" by (simp add: zero_less_divide_iff)
  define a b where "a = floorlog 2 (nat p)" and "b = floorlog 2 (nat q)"
  have A: "2 ^ (a - 1) \<le> nat p" "nat p < 2 ^ a" and B: "2 ^ (b - 1) \<le> nat q" "nat q < 2 ^ b"
    using floorlog_bounds [of "nat p" 2] floorlog_bounds [of "nat q" 2] p q by (auto simp: a_def b_def)
  have ab: "0 < a" "0 < b"
    using A B p q by (auto intro: Nat.gr0I)
  have A': "2 powi (int a - 1) \<le> (of_int p :: rat)" "(of_int p :: rat) < 2 powi int a"
    using A p ab by (simp_all add: pow_le_rat pow_less_rat)
  have B': "2 powi (int b - 1) \<le> (of_int q :: rat)" "(of_int q :: rat) < 2 powi int b"
    using B q ab by (simp_all add: pow_le_rat pow_less_rat)
  have up: "x < 2 powi (int a - int b + 1)"
  proof -
    have "x < 2 powi int a / 2 powi (int b - 1)"
      unfolding x using A'(2) B'(1) p by (intro frac_less) auto
    then show ?thesis by (simp add: power_int_diff power_int_add)
  qed
  have lo: "2 powi (int a - int b - 1) \<le> x"
  proof -
    have "2 powi (int a - 1) / 2 powi int b \<le> x"
      unfolding x using A'(1) B'(2) p q by (intro frac_le) auto
    then show ?thesis by (simp add: power_int_diff power_int_add)
  qed
  show "2 powi ilog x \<le> x" "x < 2 powi (ilog x + 1)"
    using up lo by (auto simp: ilog_def pq a_def [symmetric] b_def [symmetric] Let_def algebra_simps)
qed

lemma round_even_close: "\<bar>of_int (round_even m) - m\<bar> \<le> 1 / 2"
proof -
  have "of_int \<lfloor>m\<rfloor> \<le> m" "m < of_int \<lfloor>m\<rfloor> + 1" by linarith+
  moreover from this have "\<bar>of_int \<lfloor>m\<rfloor> - m\<bar> = m - of_int \<lfloor>m\<rfloor>"
    "\<bar>of_int (\<lfloor>m\<rfloor> + 1) - m\<bar> = of_int \<lfloor>m\<rfloor> + 1 - m" by auto
  ultimately show ?thesis
    unfolding round_even_def Let_def by (auto split: if_splits)
qed

text \<open>The relative error of an operation is at most \<open>2 ^ - 24\<close>.\<close>

lemma fl_close:
  assumes "0 < x"
  shows "\<bar>fl x - x\<bar> \<le> x / 2 ^ 24"
proof -
  define u :: rat where "u = 2 powi (ilog x - 23)"
  have u: "0 < u" by (simp add: u_def)
  have "fl x = of_int (round_even (x / u)) * u"
    using assms by (simp add: fl_def u_def Let_def)
  then have "fl x - x = (of_int (round_even (x / u)) - x / u) * u"
    using u by (simp add: left_diff_distrib)
  then have "\<bar>fl x - x\<bar> = \<bar>of_int (round_even (x / u)) - x / u\<bar> * u"
    using u by (simp add: abs_mult)
  also have "\<dots> \<le> 1 / 2 * u"
    using round_even_close u by (intro mult_right_mono) auto
  also have "\<dots> = 2 powi ilog x / 2 ^ 24"
    by (simp add: u_def power_int_diff)
  also have "\<dots> \<le> x / 2 ^ 24"
    using ilog_bounds(1) [OF assms] by (simp add: divide_right_mono)
  finally show ?thesis .
qed

lemma fl_zero [simp]: "fl 0 = 0"
  by (simp add: fl_def)

lemma fl_bounds: "0 \<le> x \<Longrightarrow> x * (1 - 1 / 2 ^ 24) \<le> fl x \<and> fl x \<le> x * (1 + 1 / 2 ^ 24)"
proof (cases "x = 0")
  case False
  moreover assume "0 \<le> x"
  ultimately have "\<bar>fl x - x\<bar> \<le> x / 2 ^ 24" by (intro fl_close) simp
  then have "fl x - x \<le> x / 2 ^ 24" "x - fl x \<le> x / 2 ^ 24" by linarith+
  then show ?thesis by (simp add: field_simps)
qed simp

lemma fl_pos: "0 < x \<Longrightarrow> 0 < fl x"
  using fl_bounds [of x] by (auto simp: field_simps)

end
