(* ===== verification/Mmdc.thy ===== *)
theory Mmdc
  imports Checked Float32
begin

text \<open>
  The memory-controller profiler \<open>src/freescale/test/mmdc\<close>: its registers, the measurement of
  one bus master, the report, the detection of the processor and the main program.

  The device is not under \<open>src/\<close>: a read of a register returns what \<open>dev\<close> gives for the
  accesses made so far, so every device, however it counts, is an instance.
\<close>

subsection \<open>Registers\<close>

text \<open>The fields of \<open>MMDC_t\<close> with the number of 32-bit words of each.\<close>

definition MMDC_t :: "(string \<times> nat) list" where
  "MMDC_t =
     map (\<lambda>f. (f, 1)) [''mdctl'', ''mdpdc'', ''mdotc'', ''mdcfg0'', ''mdcfg1'', ''mdcfg2'', ''mdmisc'',
       ''mdscr'', ''mdref'', ''mdwcc'', ''mdrcc'', ''mdrwd'', ''mdor'', ''mdmrr'', ''mdcfg3lp'',
       ''mdmr4'', ''mdasp''] @
     [(''adopt_base_offset_fill'', 239)] @
     map (\<lambda>f. (f, 1)) [''maarcr'', ''mapsr'', ''maexidr0'', ''maexidr1'', ''madpcr0'', ''madpcr1'',
       ''madpsr0'', ''madpsr1'', ''madpsr2'', ''madpsr3'', ''madpsr4'', ''madpsr5'', ''masbs0'',
       ''masbs1'', ''ma_reserved1'', ''ma_reserved2'', ''magenp''] @
     [(''phy_base_offset_fill'', 239)] @
     map (\<lambda>f. (f, 1)) [''mpzqhwctrl'', ''mpzqswctrl'', ''mpwlgcr'', ''mpwldectrl0'', ''mpwldectrl1'',
       ''mpwldlst'', ''mpodtctrl'', ''mpredqby0dl'', ''mpredqby1dl'', ''mpredqby2dl'',
       ''mpredqby3dl'', ''mpwrdqby0dl'', ''mpwrdqby1dl'', ''mpwrdqby2dl'', ''mpwrdqby3dl'',
       ''mpdgctrl0'', ''mpdgctrl1'', ''mpdgdlst'', ''mprddlctl'', ''mprddlst'', ''mpwrdlctl'',
       ''mpwrdlst'', ''mpsdctrl'', ''mpzqlp2ctl'', ''mprddlhwctl'', ''mpwrdlhwctl'',
       ''mprddlhwst0'', ''mprddlhwst1'', ''mpwrdlhwst0'', ''mpwrdlhwst1'', ''mpwlhwerr'',
       ''mpdghwst0'', ''mpdghwst1'', ''mpdghwst2'', ''mpdghwst3'', ''mppdcmpr1'', ''mppdcmpr2'',
       ''mpswdar'', ''mpswdrdr0'', ''mpswdrdr1'', ''mpswdrdr2'', ''mpswdrdr3'', ''mpswdrdr4'',
       ''mpswdrdr5'', ''mpswdrdr6'', ''mpswdrdr7'', ''mpmur'', ''mpwrcadl'', ''mpdccr'', ''mpbc'']"

text \<open>The byte offset of a field.\<close>

fun field_offset :: "(string \<times> nat) list \<Rightarrow> string \<Rightarrow> nat" where
  "field_offset [] f = 0"
| "field_offset ((g, n) # fs) f = (if f = g then 0 else 4 * n + field_offset fs f)"

abbreviation reg :: "string \<Rightarrow> nat" where
  "reg f \<equiv> field_offset MMDC_t f"

subsection \<open>Device accesses\<close>

record MMDC_PROFILE_RES_t =
  total_cycles :: u32
  busy_cycles :: u32
  read_accesses :: u32
  write_accesses :: u32
  read_bytes :: u32
  write_bytes :: u32
  data_load :: u32
  utilization :: u32
  access_utilization :: u32
  avg_write_burstsize :: u32
  avg_read_burstsize :: u32

datatype MMDC_RES_TYPE_t = RES_FULL | RES_UTILIZATION

text \<open>
  What the program does to the outside. A report carries the results and the three transfer
  rates as computed (\<open>None\<close>: a division by zero, which prints inf or nan).
\<close>

datatype mev =
    Write nat u32
  | Msync nat
  | Read nat
  | Clock
  | Sleep int
  | Say string
  | Full MMDC_PROFILE_RES_t int "rat option" "rat option" "rat option"
  | Summary u32 u32 u32
  | Help

type_synonym history = "mev list"
type_synonym device = "history \<Rightarrow> nat \<Rightarrow> u32"

text \<open>A computation that extends the history, or is undefined.\<close>

type_synonym 'a dio = "history \<Rightarrow> ('a \<times> history) ck"

definition emit :: "mev \<Rightarrow> unit dio" where
  "emit e h = Inr ((), h @ [e])"

definition read_reg :: "device \<Rightarrow> string \<Rightarrow> u32 dio" where
  "read_reg dev f h = Inr (dev h (reg f), h @ [Read (reg f)])"

definition andthen :: "'a dio \<Rightarrow> ('a \<Rightarrow> 'b dio) \<Rightarrow> 'b dio" where
  "andthen m k h = bindr (m h) (\<lambda>(x, h'). k x h')"

definition give :: "'a \<Rightarrow> 'a dio" where
  "give x h = Inr (x, h)"

definition lift :: "'a ck \<Rightarrow> 'a dio" where
  "lift r h = bindr r (\<lambda>x. Inr (x, h))"

definition set_reg :: "string \<Rightarrow> u32 \<Rightarrow> unit dio" where
  "set_reg f v = andthen (emit (Write (reg f) v)) (\<lambda>_. emit (Msync (reg f)))"

text \<open>\<open>gettimeofday\<close> in milliseconds, 0 if it fails; an unsigned long of 32 bits.\<close>

definition getTickCount :: "(history \<Rightarrow> (int \<times> int) option) \<Rightarrow> int dio" where
  "getTickCount clock h = Inr
     (case clock h of
        None \<Rightarrow> 0
      | Some (sec, usec) \<Rightarrow> (sec * 1000 + usec div 1000) mod 2 ^ 32, h @ [Clock])"

subsection \<open>The profiler\<close>

definition start_mmdc_profiling :: "unit dio" where
  "start_mmdc_profiling =
     andthen (set_reg ''madpcr0'' 0xA) (\<lambda>_. set_reg ''madpcr0'' 1)"

definition stop_mmdc_profiling :: "unit dio" where
  "stop_mmdc_profiling = set_reg ''madpcr0'' 0"

definition pause_mmdc_profiling :: "unit dio" where
  "pause_mmdc_profiling = set_reg ''madpcr0'' 3"

definition resume_mmdc_profiling :: "unit dio" where
  "resume_mmdc_profiling = set_reg ''madpcr0'' 1"

definition load_mmdc_results :: "device \<Rightarrow> unit dio" where
  "load_mmdc_results dev =
     andthen (read_reg dev ''madpcr0'') (\<lambda>v. set_reg ''madpcr0'' (v OR 4))"

definition clear_mmdc_results :: "unit dio" where
  "clear_mmdc_results = set_reg ''madpcr0'' 0xA"

text \<open>
  Float division (\<open>None\<close>: not finite), and the conversion to int, which is undefined out of
  range; the int is then stored in an unsigned field.
\<close>

definition fdiv :: "rat \<Rightarrow> rat \<Rightarrow> rat option" where
  "fdiv a b = (if b = 0 then None else Some (fl (a / b)))"

definition float_int :: "rat option \<Rightarrow> u32 ck" where
  "float_int r = (case r of
     None \<Rightarrow> Inl BadCast
   | Some x \<Rightarrow>
       let i = (if 0 \<le> x then \<lfloor>x\<rfloor> else \<lceil>x\<rceil>)
       in if - (2 ^ 31) \<le> i \<and> i < 2 ^ 31 then Inr (of_int i) else Inl BadCast)"

definition float_of :: "u32 \<Rightarrow> rat" where
  "float_of w = fl (of_int (uint w))"

definition uint_div :: "u32 \<Rightarrow> u32 \<Rightarrow> u32 ck" where
  "uint_div a b = (if b = 0 then Inl DivByZero else Inr (a div b))"

definition utilization_of :: "u32 \<Rightarrow> u32 \<Rightarrow> u32 \<Rightarrow> u32 ck" where
  "utilization_of rb wb busy =
     float_int (map_option (\<lambda>q. fl (q * 100))
       (fdiv (fl (float_of rb + float_of wb)) (fl (float_of busy * 16))))"

definition data_load_of :: "u32 \<Rightarrow> u32 \<Rightarrow> u32 ck" where
  "data_load_of busy all =
     float_int (map_option (\<lambda>q. fl (q * 100)) (fdiv (float_of busy) (float_of all)))"

definition access_of :: "u32 \<Rightarrow> u32 \<Rightarrow> u32 \<Rightarrow> u32 \<Rightarrow> u32 ck" where
  "access_of rb wb ra wa =
     float_int (fdiv (fl (float_of rb + float_of wb)) (fl (float_of ra + float_of wa)))"

text \<open>The average burst size: the registers are read again, the count twice.\<close>

definition burst :: "device \<Rightarrow> string \<Rightarrow> string \<Rightarrow> u32 dio" where
  "burst dev cnt byts =
     andthen (read_reg dev cnt) (\<lambda>c.
       if c \<noteq> 0
       then andthen (read_reg dev byts) (\<lambda>b. andthen (read_reg dev cnt) (\<lambda>c'. lift (uint_div b c')))
       else give 0)"

definition get_mmdc_profiling_results :: "device \<Rightarrow> MMDC_PROFILE_RES_t dio" where
  "get_mmdc_profiling_results dev =
     andthen (read_reg dev ''madpsr0'') (\<lambda>tot.
     andthen (read_reg dev ''madpsr1'') (\<lambda>busy.
     andthen (read_reg dev ''madpsr2'') (\<lambda>ra.
     andthen (read_reg dev ''madpsr3'') (\<lambda>wa.
     andthen (read_reg dev ''madpsr4'') (\<lambda>rb.
     andthen (read_reg dev ''madpsr5'') (\<lambda>wb.
       if rb \<noteq> 0 \<or> wb \<noteq> 0
       then
         andthen (lift (utilization_of rb wb busy)) (\<lambda>u.
         andthen (lift (data_load_of busy tot)) (\<lambda>d.
         andthen (lift (access_of rb wb ra wa)) (\<lambda>a.
         andthen (burst dev ''madpsr3'' ''madpsr5'') (\<lambda>w.
         andthen (burst dev ''madpsr2'' ''madpsr4'') (\<lambda>r.
           give \<lparr>total_cycles = tot, busy_cycles = busy, read_accesses = ra,
             write_accesses = wa, read_bytes = rb, write_bytes = wb, data_load = d,
             utilization = u, access_utilization = a, avg_write_burstsize = w,
             avg_read_burstsize = r\<rparr>)))))
       else
         give \<lparr>total_cycles = tot, busy_cycles = busy, read_accesses = ra,
             write_accesses = wa, read_bytes = rb, write_bytes = wb, data_load = 0,
             utilization = 0, access_utilization = 0, avg_write_burstsize = 0,
             avg_read_burstsize = 0\<rparr>))))))"

text \<open>
  The transfer rates. The first divisor is an int product, which overflows; the others are
  floats. The total is summed in unsigned 32 bits.
\<close>

definition read_rate :: "u32 \<Rightarrow> int \<Rightarrow> rat option" where
  "read_rate rb time = fdiv (fl (float_of rb * 1000)) (fl (of_int (wrap32 (1024 * 1024 * time))))"

definition float_rate :: "u32 \<Rightarrow> int \<Rightarrow> rat option" where
  "float_rate b time = fdiv (fl (float_of b * 1000)) (fl (1024 * 1024 * fl (of_int time)))"

definition print_mmdc_profiling_results ::
  "MMDC_PROFILE_RES_t \<Rightarrow> MMDC_RES_TYPE_t \<Rightarrow> int \<Rightarrow> unit dio" where
  "print_mmdc_profiling_results r typ time =
     andthen
       (if typ = RES_FULL
        then emit (Full r time (read_rate (read_bytes r) time) (float_rate (write_bytes r) time)
          (float_rate (write_bytes r + read_bytes r) time))
        else give ())
       (\<lambda>_. emit (Summary (utilization r) (data_load r) (access_utilization r)))"

end
