(* ===== verification/MmdcMain.thy ===== *)
theory MmdcMain
  imports Mmdc
begin

text \<open>
  The main program of the profiler: numbers in environment variables, the processor it runs
  on, the bus masters it knows there, and the loop over the measurements.
\<close>

subsection \<open>Numbers in strings\<close>

definition isspace :: "char \<Rightarrow> bool" where
  "isspace c \<longleftrightarrow> c = CHR '' '' \<or> of_char c \<in> {9 .. 13 :: nat}"

definition digit_of :: "char \<Rightarrow> nat option" where
  "digit_of c = (let n = of_char c :: nat in
     if 48 \<le> n \<and> n \<le> 57 then Some (n - 48)
     else if 65 \<le> n \<and> n \<le> 90 then Some (n - 55)
     else if 97 \<le> n \<and> n \<le> 122 then Some (n - 87)
     else None)"

fun digits_value :: "nat \<Rightarrow> nat \<Rightarrow> string \<Rightarrow> nat" where
  "digits_value base acc [] = acc"
| "digits_value base acc (c # cs) = (case digit_of c of
     None \<Rightarrow> acc
   | Some d \<Rightarrow> if d < base then digits_value base (acc * base + d) cs else acc)"

definition sign_of :: "string \<Rightarrow> bool \<times> string" where
  "sign_of s = (case s of
     [] \<Rightarrow> (False, [])
   | c # cs \<Rightarrow> if c = CHR ''-'' then (True, cs) else if c = CHR ''+'' then (False, cs) else (False, s))"

definition skip_0x :: "nat \<Rightarrow> string \<Rightarrow> string" where
  "skip_0x base s = (case s of
     a # b # c # cs \<Rightarrow>
       if base = 16 \<and> a = CHR ''0'' \<and> (b = CHR ''x'' \<or> b = CHR ''X'') \<and>
          (case digit_of c of None \<Rightarrow> False | Some d \<Rightarrow> d < 16)
       then c # cs else s
   | _ \<Rightarrow> s)"

text \<open>\<open>strtol\<close> and \<open>strtoul\<close> where a long has 32 bits: out of range values saturate.\<close>

definition strtol :: "nat \<Rightarrow> string \<Rightarrow> int" where
  "strtol base s = (let (neg, t) = sign_of (dropWhile isspace s);
       v = int (digits_value base 0 (skip_0x base t))
     in if neg then max (- (2 ^ 31)) (- v) else min (2 ^ 31 - 1) v)"

definition strtoul :: "nat \<Rightarrow> string \<Rightarrow> u32" where
  "strtoul base s = (let (neg, t) = sign_of (dropWhile isspace s);
       v = digits_value base 0 (skip_0x base t)
     in if 2 ^ 32 \<le> v then - 1 else if neg then - of_nat v else of_nat v)"

subsection \<open>The processor\<close>

definition buf_size :: nat where
  "buf_size = 2048"

definition starts_with :: "string \<Rightarrow> string \<Rightarrow> bool" where
  "starts_with s p \<longleftrightarrow> take (length p) s = p"

fun strstr :: "string \<Rightarrow> string \<Rightarrow> string option" where
  "strstr [] p = (if p = [] then Some [] else None)"
| "strstr (c # cs) p = (if starts_with (c # cs) p then Some (c # cs) else strstr cs p)"

definition index_after :: "string \<Rightarrow> char \<Rightarrow> string option" where
  "index_after s c = (case dropWhile (\<lambda>d. d \<noteq> c) s of [] \<Rightarrow> None | d # ds \<Rightarrow> Some ds)"

definition c_string :: "string \<Rightarrow> string" where
  "c_string s = takeWhile (\<lambda>c. c \<noteq> CHR 0x00) s"

text \<open>
  The first file gives a revision number, or nothing if it cannot be read whole or does not
  name one; a missing first file is an error. The second file names the chip.
\<close>

definition cpuinfo_rev :: "string \<Rightarrow> u32 \<Rightarrow> bool \<times> u32" where
  "cpuinfo_rev content sysrev =
     (let nread = min buf_size (length content);
          unusable = (nread = 0 \<or> nread = buf_size);
          buf = c_string (if unusable then [] else take nread content)
      in case strstr buf ''Revision'' of
           None \<Rightarrow> (unusable, sysrev)
         | Some tmp \<Rightarrow>
             (case index_after tmp CHR '':'' of
                None \<Rightarrow> (unusable, sysrev)
              | Some r \<Rightarrow> (True, strtoul 16 r)))"

definition soc_rev :: "string option \<Rightarrow> u32 \<Rightarrow> bool \<times> u32" where
  "soc_rev file sysrev = (case file of
     None \<Rightarrow> (False, sysrev)
   | Some content \<Rightarrow>
       let nread = min buf_size (length content) in
       if nread = 0 \<or> nread = buf_size then (False, sysrev)
       else let buf = c_string (take nread content) in
         if starts_with buf ''i.MX6Q'' then (True, 0x63000)
         else if starts_with buf ''i.MX6DL'' then (True, 0x61000)
         else if starts_with buf ''i.MX6SL'' then (True, 0x60000)
         else (False, sysrev))"

definition get_system_rev :: "string option \<Rightarrow> string option \<Rightarrow> bool \<times> u32" where
  "get_system_rev cpuinfo soc_id = (case cpuinfo of
     None \<Rightarrow> (False, 0)
   | Some content \<Rightarrow>
       (case cpuinfo_rev content 0 of (ok, sysrev) \<Rightarrow>
          if ok \<and> sysrev = 0 then soc_rev soc_id sysrev else (ok, sysrev)))"

definition mxc_cpu :: "u32 \<Rightarrow> u32" where
  "mxc_cpu sysrev = drop_bit 12 sysrev"

abbreviation cpu_is_mx6q :: "u32 \<Rightarrow> bool" where
  "cpu_is_mx6q sysrev \<equiv> mxc_cpu sysrev = 0x63"

abbreviation cpu_is_mx6dl :: "u32 \<Rightarrow> bool" where
  "cpu_is_mx6dl sysrev \<equiv> mxc_cpu sysrev = 0x61"

abbreviation cpu_is_mx6sl :: "u32 \<Rightarrow> bool" where
  "cpu_is_mx6sl sysrev \<equiv> mxc_cpu sysrev = 0x60"

subsection \<open>Bus masters\<close>

definition axi_filter :: "u32 \<Rightarrow> string \<Rightarrow> (u32 \<times> string) option" where
  "axi_filter sysrev a =
     (if a = ''IPU1'' then Some (0x00070004, ''MMDC IPU1'')
      else if a = ''IPU2'' \<and> cpu_is_mx6q sysrev then Some (0x00070005, ''MMDC IPU2'')
      else if a = ''GPU3D'' \<and> cpu_is_mx6dl sysrev then Some (0x003F0002, ''MMDC GPU3D'')
      else if a = ''GPU3D'' \<and> cpu_is_mx6q sysrev then Some (0x003E0002, ''MMDC GPU3D'')
      else if a = ''GPU2D1'' \<and> cpu_is_mx6dl sysrev then Some (0x003F000A, ''MMDC GPU2D1'')
      else if a = ''GPU2D'' \<and> cpu_is_mx6q sysrev then Some (0x003E000B, ''MMDC GPU2D'')
      else if a = ''GPU2D2'' \<and> cpu_is_mx6dl sysrev then Some (0x003F0003, ''MMDC GPU2D2'')
      else if a = ''GPU2D'' \<and> cpu_is_mx6sl sysrev then Some (0x0017000F, ''MMDC GPU2D'')
      else if a = ''VPU'' \<and> cpu_is_mx6dl sysrev then Some (0x003F000B, ''MMDC VPU'')
      else if a = ''VPU'' \<and> cpu_is_mx6q sysrev then Some (0x003F0013, ''MMDC VPU'')
      else if a = ''GPUVG'' \<and> cpu_is_mx6q sysrev then Some (0x003F0022, ''MMDC GPUVG'')
      else if a = ''GPUVG'' \<and> cpu_is_mx6sl sysrev then Some (0x001F0017, ''MMDC GPUVG'')
      else if a = ''ARM'' then Some (0x00060000, ''MMDC ARM'')
      else if a = ''SUM'' then Some (0, ''MMDC SUM'')
      else None)"

subsection \<open>Measuring\<close>

definition profile ::
  "device \<Rightarrow> (history \<Rightarrow> (int \<times> int) option) \<Rightarrow> int \<Rightarrow> unit dio" where
  "profile dev clock seconds =
     andthen clear_mmdc_results (\<lambda>_.
     andthen (getTickCount clock) (\<lambda>ulStartTime.
     andthen start_mmdc_profiling (\<lambda>_.
     andthen (emit (Sleep seconds)) (\<lambda>_.
     andthen (load_mmdc_results dev) (\<lambda>_.
     andthen (get_mmdc_profiling_results dev) (\<lambda>results.
     andthen (getTickCount clock) (\<lambda>now.
     andthen (print_mmdc_profiling_results results RES_FULL (wrap32 (now - ulStartTime))) (\<lambda>_.
       stop_mmdc_profiling))))))))"

text \<open>One round over the operands: whether the program goes on, or met an unknown operand.\<close>

fun profile_args ::
  "device \<Rightarrow> (history \<Rightarrow> (int \<times> int) option) \<Rightarrow> int \<Rightarrow> u32 \<Rightarrow> string list \<Rightarrow> bool dio" where
  "profile_args dev clock seconds sysrev [] = give True"
| "profile_args dev clock seconds sysrev (a # as) =
     (case axi_filter sysrev a of
        None \<Rightarrow>
          andthen (emit (Say (''MMDC DOES NOT KNOW '' @ a))) (\<lambda>_.
          andthen (emit Help) (\<lambda>_. give False))
      | Some (m, name) \<Rightarrow>
          andthen (emit (Write (reg ''madpcr1'') m)) (\<lambda>_.
          andthen (emit (Say name)) (\<lambda>_.
          andthen (emit (Msync (reg ''madpcr1''))) (\<lambda>_.
          andthen (profile dev clock seconds) (\<lambda>_.
            profile_args dev clock seconds sysrev as)))))"

definition profile_default ::
  "device \<Rightarrow> (history \<Rightarrow> (int \<times> int) option) \<Rightarrow> int \<Rightarrow> u32 \<Rightarrow> bool dio" where
  "profile_default dev clock seconds custom =
     andthen (set_reg ''madpcr1'' custom) (\<lambda>_.
     andthen (emit (Say (if custom \<noteq> 0 then ''MMDC custom'' else ''MMDC SUM''))) (\<lambda>_.
     andthen (profile dev clock seconds) (\<lambda>_. give True)))"

text \<open>
  The rounds; no value when the fuel runs out first. \<open>g_quit\<close> stays 0, because no signal
  handler is installed.
\<close>

fun mmdc_rounds :: "nat \<Rightarrow> bool dio \<Rightarrow> int \<Rightarrow> int \<Rightarrow> history \<Rightarrow> (bool \<times> history) ck option" where
  "mmdc_rounds 0 body loopcount i h = None"
| "mmdc_rounds (Suc fuel) body loopcount i h =
     (if i = loopcount then Some (Inr (True, h))
      else case body h of
        Inl e \<Rightarrow> Some (Inl e)
      | Inr (False, h') \<Rightarrow> Some (Inr (False, h'))
      | Inr (True, h') \<Rightarrow> mmdc_rounds fuel body loopcount (wrap32 (i + 1)) h')"

record mmdc_env =
  MMDC_SLEEPTIME :: "string option"
  MMDC_LOOPCOUNT :: "string option"
  MMDC_CUST_MADPCR1 :: "string option"
  dev_mem_opens :: bool
  mmap_works :: bool
  cpuinfo :: "string option"
  soc_id :: "string option"

definition sleep_time :: "mmdc_env \<Rightarrow> int" where
  "sleep_time env = (case MMDC_SLEEPTIME env of
     None \<Rightarrow> 1 | Some p \<Rightarrow> let t = strtol 10 p in if t = 0 then 1 else t)"

definition loop_count :: "mmdc_env \<Rightarrow> int" where
  "loop_count env = (case MMDC_LOOPCOUNT env of None \<Rightarrow> 1 | Some p \<Rightarrow> strtol 10 p)"

definition custom_filter :: "mmdc_env \<Rightarrow> u32" where
  "custom_filter env = (case MMDC_CUST_MADPCR1 env of None \<Rightarrow> 0 | Some p \<Rightarrow> of_int (strtol 16 p))"

text \<open>The exit status and the history, for the operands after the program name.\<close>

definition mmdc_main ::
  "nat \<Rightarrow> device \<Rightarrow> (history \<Rightarrow> (int \<times> int) option) \<Rightarrow> mmdc_env \<Rightarrow> string list \<Rightarrow>
     (int \<times> history) ck option" where
  "mmdc_main fuel dev clock env operands =
     (if \<not> dev_mem_opens env then Some (Inr (- 1, [Say ''Could not open /dev/mem'']))
      else if \<not> mmap_works env then Some (Inr (- 1, [Say ''Mapping failed mmdc_p0'']))
      else
        let (ok, sysrev) = get_system_rev (cpuinfo env) (soc_id env);
            as = (if ok then operands else []);
            h = (if ok then [] else [Say ''Fail to get system revision,parameter will be ignored '']);
            body = (if as \<noteq> [] then profile_args dev clock (sleep_time env) sysrev as
                    else profile_default dev clock (sleep_time env) (custom_filter env))
        in map_option (\<lambda>r. bindr r (\<lambda>(_, h'). Inr (0, h')))
             (mmdc_rounds fuel body (loop_count env) 0 h))"

end
