(* ===== verification/MmdcRun.thy ===== *)
theory MmdcRun
  imports MmdcMain
begin

text \<open>
  Properties of the profiler: the order in which it drives the counters, and what its figures
  are worth.
\<close>

subsection \<open>The protocol of the counters\<close>

lemma reg_offsets:
  "reg ''madpcr0'' = 0x410" "reg ''madpcr1'' = 0x414" "reg ''madpsr0'' = 0x418"
  "reg ''madpsr1'' = 0x41C" "reg ''madpsr2'' = 0x420" "reg ''madpsr3'' = 0x424"
  "reg ''madpsr4'' = 0x428" "reg ''madpsr5'' = 0x42C"
  by (simp_all add: MMDC_t_def)

text \<open>
  What the device asks of its user: the filter changes only while the counters are off, the
  counters are cleared before they count, the results are read only while they are frozen.
\<close>

datatype counting = Off | Cleared | Counting | Frozen

fun watch :: "counting \<Rightarrow> mev \<Rightarrow> counting option" where
  "watch p (Write r v) =
     (if r = 0x414 then if p = Off then Some Off else None
      else if r = 0x410 then
        if v = 0xA \<and> (p = Off \<or> p = Cleared) then Some Cleared
        else if v = 1 \<and> p = Cleared then Some Counting
        else if bit v 2 \<and> p = Counting then Some Frozen
        else if v = 0 \<and> p = Frozen then Some Off
        else None
      else None)"
| "watch p (Read r) =
     (if r = 0x410 \<and> p = Counting \<or> 0x418 \<le> r \<and> r \<le> 0x42C \<and> p = Frozen then Some p else None)"
| "watch p (Sleep t) = (if p = Counting then Some p else None)"
| "watch p (Full r t a b c) = (if p = Frozen then Some p else None)"
| "watch p _ = Some p"

fun watch_all :: "counting \<Rightarrow> history \<Rightarrow> counting option" where
  "watch_all p [] = Some p"
| "watch_all p (e # es) = Option.bind (watch p e) (\<lambda>q. watch_all q es)"

lemma watch_all_append: "watch_all p (es @ fs) = Option.bind (watch_all p es) (\<lambda>q. watch_all q fs)"
  by (induction es arbitrary: p) (auto split: Option.bind_splits)

definition moves :: "'a dio \<Rightarrow> counting \<Rightarrow> counting \<Rightarrow> bool" where
  "moves m p q \<longleftrightarrow> (\<forall>h. ends_or {BadCast, DivByZero}
     (\<lambda>(x, h'). \<exists>es. h' = h @ es \<and> watch_all p es = Some q) (m h))"

lemma moves_andthen:
  fixes m :: "'a dio"
  assumes "moves m p q" and "\<And>x. moves (k x) q r"
  shows "moves (andthen m k) p r"
  unfolding moves_def andthen_def
proof (intro allI ends_or_bind)
  fix h
  show "ends_or {BadCast, DivByZero} (\<lambda>(x, h'). \<exists>es. h' = h @ es \<and> watch_all p es = Some q) (m h)"
    using assms(1) by (simp add: moves_def)
next
  fix h and xh :: "'a \<times> history"
  assume "case xh of (x :: 'a, h') \<Rightarrow> \<exists>es. h' = h @ es \<and> watch_all p es = Some q"
  then obtain x es where xh: "xh = (x, h @ es)" and p: "watch_all p es = Some q"
    by auto
  have "ends_or {BadCast, DivByZero}
      (\<lambda>(y, h'). \<exists>fs. h' = (h @ es) @ fs \<and> watch_all q fs = Some r) (k x (h @ es))"
    using assms(2) unfolding moves_def by blast
  then show "ends_or {BadCast, DivByZero} (\<lambda>(x, h'). \<exists>es. h' = h @ es \<and> watch_all p es = Some r)
      (case xh of (x, h') \<Rightarrow> k x h')"
    unfolding xh prod.case by (rule ends_or_mono) (auto simp: watch_all_append p)
qed

lemmas moves_stay = moves_andthen [of _ p p _ p for p]

lemma moves_emit: "watch p e = Some q \<Longrightarrow> moves (emit e) p q"
  by (simp add: moves_def emit_def)

lemma moves_give: "moves (give x) p p"
  by (simp add: moves_def give_def)

lemma moves_read: "watch p (Read (reg f)) = Some q \<Longrightarrow> moves (read_reg dev f) p q"
  by (simp add: moves_def read_reg_def)

lemma moves_lift: "ends_or {BadCast, DivByZero} (\<lambda>x. True) r \<Longrightarrow> moves (lift r) p p"
  by (cases r) (auto simp: moves_def lift_def)

lemma moves_if: "moves m p q \<Longrightarrow> moves n p q \<Longrightarrow> moves (if b then m else n) p q"
  by simp

lemma moves_clock: "moves (getTickCount clock) p p"
  by (simp add: moves_def getTickCount_def)

lemma moves_set: "watch p (Write (reg f) v) = Some q \<Longrightarrow> moves (set_reg f v) p q"
  unfolding set_reg_def by (rule moves_andthen) (auto intro: moves_emit)

lemma cast_ends [simp]:
  "ends_or {BadCast, DivByZero} (\<lambda>x. True) (float_int r)"
  "ends_or {BadCast, DivByZero} (\<lambda>x. True) (uint_div a b)"
  by (auto simp: float_int_def uint_div_def Let_def split: option.splits)

lemma moves_results: "moves (get_mmdc_profiling_results dev) Frozen Frozen"
  unfolding get_mmdc_profiling_results_def burst_def utilization_of_def data_load_of_def access_of_def
  by (intro moves_stay moves_if moves_give moves_lift moves_read cast_ends; simp add: reg_offsets)

lemma moves_print: "moves (print_mmdc_profiling_results r RES_FULL t) Frozen Frozen"
  unfolding print_mmdc_profiling_results_def
  by (intro moves_stay moves_if moves_give moves_emit; simp)

lemma moves_profile: "moves (profile dev clock t) Off Off"
proof -
  have "moves (load_mmdc_results dev) Counting Frozen"
    unfolding load_mmdc_results_def
  proof (rule moves_andthen)
    show "moves (read_reg dev ''madpcr0'') Counting Counting"
      by (rule moves_read) (simp add: reg_offsets)
    fix v :: u32
    have b: "bit (v OR 4) 2"
      by (simp add: bit_simps)
    moreover have "v OR 4 \<noteq> 1"
    proof
      assume "v OR 4 = 1"
      with b have "bit (1 :: u32) 2" by simp
      then show False by simp
    qed
    ultimately have "v OR 4 \<noteq> 1 \<and> bit (v OR 4) 2" by simp
    then show "moves (set_reg ''madpcr0'' (v OR 4)) Counting Frozen"
      by (intro moves_set) (simp add: reg_offsets)
  qed
  moreover have "moves clear_mmdc_results Off Cleared" "moves start_mmdc_profiling Cleared Counting"
    "moves stop_mmdc_profiling Frozen Off"
    unfolding clear_mmdc_results_def start_mmdc_profiling_def stop_mmdc_profiling_def
    by (auto intro!: moves_andthen [where q = Cleared] moves_set simp: reg_offsets)
  moreover have "moves (emit (Sleep t)) Counting Counting"
    by (rule moves_emit) simp
  ultimately show ?thesis
    unfolding profile_def
    by (blast intro: moves_andthen moves_clock moves_results moves_print)
qed


lemma moves_profile_args: "moves (profile_args dev clock t sysrev as) Off Off"
proof (induction as)
  case Nil
  then show ?case by (simp add: moves_give)
next
  case (Cons a as)
  have w: "moves (emit (Write (reg ''madpcr1'') m)) Off Off" for m
    by (rule moves_emit) (simp add: reg_offsets)
  have e: "moves (emit (Say s)) Off Off" "moves (emit Help) Off Off" "moves (emit (Msync r)) Off Off" for s r
    by (simp_all add: moves_emit)
  show ?case
  proof (cases "axi_filter sysrev a")
    case None
    then show ?thesis by (auto intro: moves_stay e moves_give)
  next
    case (Some mn)
    obtain m n where mn: "mn = (m, n)" by (cases mn)
    have "moves (andthen (emit (Write (reg ''madpcr1'') m)) (\<lambda>_. andthen (emit (Say n)) (\<lambda>_.
        andthen (emit (Msync (reg ''madpcr1''))) (\<lambda>_. andthen (profile dev clock t) (\<lambda>_.
          profile_args dev clock t sysrev as))))) Off Off"
      by (intro moves_stay w e moves_profile Cons.IH)
    with Some mn show ?thesis by simp
  qed
qed

lemma moves_profile_default: "moves (profile_default dev clock t custom) Off Off"
  unfolding profile_default_def
  by (intro moves_stay moves_profile moves_give moves_set moves_emit) (simp_all add: reg_offsets)

definition watched :: "history \<Rightarrow> ('a \<times> history) ck option \<Rightarrow> bool" where
  "watched h r \<longleftrightarrow> (\<exists>x. r = Some x \<and> ends_or {BadCast, DivByZero}
     (\<lambda>(y, h'). watch_all Off h' = Some Off) x)"

lemma rounds_watched:
  assumes "moves body Off Off" "watch_all Off h = Some Off" "0 \<le> i" "i \<le> n" "n < 2 ^ 31"
    and "nat (n - i) < fuel"
  shows "watched h (mmdc_rounds fuel body n i h)"
  using assms
proof (induction fuel body n i h rule: mmdc_rounds.induct)
  case (1 body n i h)
  then show ?case by simp
next
  case (2 fuel body n i h)
  show ?case
  proof (cases "i = n")
    case True
    with 2 show ?thesis by (simp add: watched_def)
  next
    case False
    have w: "wrap32 (i + 1) = i + 1"
      using "2.prems" False by (intro wrap32_id) auto
    have "ends_or {BadCast, DivByZero}
        (\<lambda>(x, h'). \<exists>es. h' = h @ es \<and> watch_all Off es = Some Off) (body h)"
      using "2.prems"(1) unfolding moves_def by blast
    then consider e where "body h = Inl e" "e \<in> {BadCast, DivByZero}"
      | b h' where "body h = Inr (b, h')" "watch_all Off h' = Some Off"
      using "2.prems"(2) by (cases "body h") (auto simp: watch_all_append)
    then show ?thesis
    proof cases
      case 1
      with False show ?thesis by (simp add: watched_def)
    next
      case b: 2
      show ?thesis
      proof (cases b)
        case True
        have "watched h' (mmdc_rounds fuel body n (wrap32 (i + 1)) h')"
          using 2 False b True w by (intro "2.IH") auto
        with False b True show ?thesis by (simp add: watched_def)
      qed (use False b in \<open>simp add: watched_def\<close>)
    qed
  qed
qed


lemma loop_count_range: "loop_count env < 2 ^ 31"
  by (auto simp: loop_count_def strtol_def Let_def split: option.splits prod.splits)

text \<open>
  C20: On every device and every clock, for all operands, environments and processors, the program
  ends after its rounds (a negative count asks for endless ones) with the counters off: it sets a
  filter only while they are off, clears them before each measurement, reads results only while
  they are frozen, and it leaves the protocol on no path, the unknown operand included. The only
  other outcome is a conversion or division that C leaves undefined.
\<close>
theorem mmdc_counter_protocol:
  assumes "0 \<le> loop_count env" and "nat (loop_count env) < fuel"
  shows "\<exists>r. mmdc_main fuel dev clock env operands = Some r \<and>
    ends_or {BadCast, DivByZero} (\<lambda>(code, h). watch_all Off h = Some Off) r"
proof (cases "dev_mem_opens env \<and> mmap_works env")
  case False
  then show ?thesis by (auto simp: mmdc_main_def)
next
  case True
  obtain ok sysrev where r: "get_system_rev (cpuinfo env) (soc_id env) = (ok, sysrev)"
    by (cases "get_system_rev (cpuinfo env) (soc_id env)")
  define h where "h = (if ok then [] else [Say ''Fail to get system revision,parameter will be ignored ''])"
  define as where "as = (if ok then operands else [])"
  define body where "body = (if as \<noteq> [] then profile_args dev clock (sleep_time env) sysrev as
                    else profile_default dev clock (sleep_time env) (custom_filter env))"
  have "watched h (mmdc_rounds fuel body (loop_count env) 0 h)"
    using assms loop_count_range [of env]
    by (intro rounds_watched)
      (auto simp: body_def h_def intro: moves_profile_args moves_profile_default)
  then obtain x where "mmdc_rounds fuel body (loop_count env) 0 h = Some x"
    "ends_or {BadCast, DivByZero} (\<lambda>(y, h'). watch_all Off h' = Some Off) x"
    by (auto simp: watched_def)
  moreover have "mmdc_main fuel dev clock env operands = map_option (\<lambda>r. bindr r (\<lambda>(_, h'). Inr (0, h')))
      (mmdc_rounds fuel body (loop_count env) 0 h)"
    using True r by (simp add: mmdc_main_def Let_def h_def body_def as_def)
  ultimately show ?thesis
    by (cases x) auto
qed

definition idle_env :: mmdc_env where
  "idle_env = \<lparr>MMDC_SLEEPTIME = None, MMDC_LOOPCOUNT = Some ''2'', MMDC_CUST_MADPCR1 = None,
     dev_mem_opens = True, mmap_works = True, cpuinfo = Some ''Revision : 63000'', soc_id = None\<rparr>"

lemma idle_env_count: "loop_count idle_env = 2"
  by (simp add: idle_env_def loop_count_def strtol_def sign_of_def skip_0x_def digit_of_def
      isspace_def Let_def)

theorem mmdc_counter_protocol_witness:
  "\<exists>r. mmdc_main 3 (\<lambda>_ _. 0) (\<lambda>_. None) idle_env [''ARM'', ''NPU''] = Some r \<and>
    ends_or {BadCast, DivByZero} (\<lambda>(code, h). watch_all Off h = Some Off) r"
  by (rule mmdc_counter_protocol) (simp_all add: idle_env_count)

subsection \<open>The figures\<close>

lemma fl_nonneg: "0 \<le> x \<Longrightarrow> 0 \<le> fl x"
  using fl_bounds [of x] by (cases "x = 0") (auto dest: fl_pos [of x])

lemma float_int_ok:
  assumes "0 \<le> x" "x < 2 ^ 31"
  shows "\<exists>w. float_int (Some x) = Inr w \<and> uint w = \<lfloor>x\<rfloor>"
proof -
  have "0 \<le> \<lfloor>x\<rfloor>" "\<lfloor>x\<rfloor> < 2 ^ 31"
    using assms by (simp_all add: floor_less_iff)
  then show ?thesis
    using assms
    by (auto simp: float_int_def Let_def uint_word_of_int simp del: of_int_eq_iff)
qed

text \<open>The relative error of a chain of roundings, as bounds on both sides.\<close>

definition near :: "nat \<Rightarrow> rat \<Rightarrow> rat \<Rightarrow> bool" where
  "near n x y \<longleftrightarrow> x * (1 - 1 / 2 ^ 24) ^ n \<le> y \<and> y * (1 - 1 / 2 ^ 24) ^ n \<le> x \<and> 0 \<le> y"

lemma near_fl:
  assumes "near n x y"
  shows "near (Suc n) x (fl y)"
proof -
  define E :: rat where "E = 1 - 1 / 2 ^ 24"
  have E: "0 < E" "(1 + 1 / 2 ^ 24) * E \<le> 1" by (simp_all add: E_def)
  have y: "0 \<le> y" "x * E ^ n \<le> y" "y * E ^ n \<le> x"
    using assms by (simp_all add: near_def E_def)
  have b: "y * E \<le> fl y" "fl y \<le> y * (1 + 1 / 2 ^ 24)"
    using fl_bounds [OF y(1)] by (simp_all add: E_def)
  have "x * E ^ Suc n \<le> y * E"
    using mult_right_mono [OF y(2), of E] E by (simp add: mult.assoc mult.commute)
  then have "x * E ^ Suc n \<le> fl y" using b(1) by linarith
  moreover have "fl y * E ^ Suc n \<le> x"
  proof -
    have "fl y * E \<le> y * ((1 + 1 / 2 ^ 24) * E)"
      using mult_right_mono [OF b(2), of E] E by (simp add: mult.assoc)
    also have "\<dots> \<le> y * 1"
      using E(2) y(1) by (rule mult_left_mono)
    finally have "fl y * E \<le> y" by simp
    then have "fl y * E * E ^ n \<le> y * E ^ n"
      using E by (intro mult_right_mono) auto
    with y(3) show ?thesis by (simp add: mult.assoc)
  qed
  ultimately show ?thesis
    using fl_nonneg [OF y(1)] by (simp only: near_def E_def)
qed

lemma near_refl: "0 \<le> x \<Longrightarrow> near 0 x x"
  by (simp add: near_def)

lemma near_float: "near 1 (of_int (uint w)) (float_of w)"
proof -
  have "(0 :: rat) \<le> of_int (uint w)" by (simp del: of_int_uint)
  then show ?thesis
    using near_fl [OF near_refl, of "of_int (uint w)"] unfolding float_of_def One_nat_def by blast
qed

lemma near_add: "near n x y \<Longrightarrow> near n x' y' \<Longrightarrow> near n (x + x') (y + y')"
  by (simp add: near_def distrib_right add_mono)

lemma near_mult:
  assumes "near n x y" "0 \<le> c"
  shows "near n (x * c) (y * c)"
proof -
  define F :: rat where "F = (1 - 1 / 2 ^ 24) ^ n"
  have "x * F * c \<le> y * c" "y * F * c \<le> x * c" "0 \<le> y * c"
    using assms by (auto simp: near_def F_def intro!: mult_right_mono)
  then show ?thesis by (simp add: near_def F_def mult_ac)
qed

lemma near_divide:
  assumes "near n x y" "near m x' y'" "0 < x'"
  shows "near (n + m) (x / x') (y / y')" and "0 < y'"
proof -
  define E :: rat where "E = 1 - 1 / 2 ^ 24"
  have E: "0 < E" by (simp add: E_def)
  have h: "x * E ^ n \<le> y" "y * E ^ n \<le> x" "0 \<le> y" "x' * E ^ m \<le> y'" "y' * E ^ m \<le> x'"
    using assms by (simp_all add: near_def E_def)
  have "0 < x' * E ^ m" using assms(3) E by simp
  with h(4) show y': "0 < y'" by linarith
  have x: "0 \<le> x"
  proof -
    have "0 \<le> y * E ^ n" using h(3) E by simp
    with h(2) show ?thesis by linarith
  qed
  have "x * E ^ n * (y' * E ^ m) \<le> y * x'"
    using h x E y' by (intro mult_mono) auto
  then have "x / x' * E ^ (n + m) \<le> y / y'"
    using assms(3) y' by (simp add: field_simps power_add)
  moreover have "y * E ^ n * (x' * E ^ m) \<le> x * y'"
    using h x E y' assms(3) by (intro mult_mono) auto
  then have "y / y' * E ^ (n + m) \<le> x / x'"
    using assms(3) y' by (simp add: field_simps power_add)
  ultimately show "near (n + m) (x / x') (y / y')"
    using h(3) y' by (simp only: near_def E_def) simp
qed

text \<open>A percentage that is computed in at most six roundings and then truncated.\<close>

lemma near_percent:
  assumes "near n x y" "n \<le> 6" "0 \<le> x" "x \<le> 100"
  shows "\<exists>w. float_int (Some y) = Inr w \<and> uint w \<le> 100 \<and>
    of_int (uint w) \<le> x + 1 / 10000 \<and> x - 1 - 1 / 10000 < of_int (uint w)"
proof -
  define E :: rat where "E = 1 - 1 / 2 ^ 24"
  have h: "x * E ^ n \<le> y" "y * E ^ n \<le> x" "0 \<le> y"
    using assms(1) by (simp_all add: near_def E_def)
  have E: "E ^ 6 \<le> E ^ n"
    using assms(2) by (intro power_decreasing) (auto simp: E_def)
  have e6: "1 - 1 / 2000000 \<le> E ^ 6"
    by (simp add: E_def power_numeral_reduce)
  have lo: "x - 1 / 10000 \<le> y"
  proof -
    have "x * (1 - 1 / 2000000) \<le> x * E ^ n"
      using E e6 assms(3) by (intro mult_left_mono) auto
    then have "x - x / 2000000 \<le> y"
      using h(1) by (simp add: right_diff_distrib)
    with assms(4) show ?thesis by linarith
  qed
  have hi: "y \<le> x + 1 / 10000"
  proof -
    have "y * (1 - 1 / 2000000) \<le> y * E ^ n"
      using E e6 h(3) by (intro mult_left_mono) auto
    then have "y - y / 2000000 \<le> x"
      using h(2) by (simp add: right_diff_distrib)
    with assms(4) show ?thesis by linarith
  qed
  obtain w where w: "float_int (Some y) = Inr w" "uint w = \<lfloor>y\<rfloor>"
    using float_int_ok [of y] h(3) hi assms(4) by force
  have "uint w \<le> 100"
    using hi assms(4) by (simp add: w(2) floor_le_iff)
  moreover have "of_int (uint w) \<le> y" "y < of_int (uint w) + 1"
    unfolding w(2) by linarith+
  then have "of_int (uint w) \<le> x + 1 / 10000" "x - 1 - 1 / 10000 < of_int (uint w)"
    using lo hi by linarith+
  ultimately show ?thesis using w(1) by blast
qed

text \<open>
  C32: The utilization that the profiler reports is right to the percent although it is computed
  in single precision: if the bytes moved fit the busy cycles at 16 bytes each, the reported number
  is at most 100, and it is the exact percentage rounded down, up to an error of 0.0001.
\<close>
theorem mmdc_utilization_accurate:
  assumes "0 < uint busy" and "uint rb + uint wb \<le> 16 * uint busy"
  shows "\<exists>w. utilization_of rb wb busy = Inr w \<and> uint w \<le> 100 \<and>
    of_int (uint w) \<le> (of_int (100 * (uint rb + uint wb)) / of_int (16 * uint busy) :: rat) + 1 / 10000 \<and>
    of_int (100 * (uint rb + uint wb)) / of_int (16 * uint busy) - 1 - (1 / 10000 :: rat) < of_int (uint w)"
proof -
  define R B :: rat where "R = of_int (uint rb + uint wb)" and "B = of_int (16 * uint busy)"
  have B: "0 < B" "0 \<le> R" "R \<le> B" "(of_int (uint busy) :: rat) * 16 = B"
    using assms unfolding B_def R_def by (simp_all del: of_int_uint)
  have "near 2 R (fl (float_of rb + float_of wb))"
    using near_fl [OF near_add [OF near_float near_float], of rb wb]
    by (simp add: R_def numeral_2_eq_2)
  moreover have d: "near 2 B (fl (float_of busy * 16))"
    using near_fl [OF near_mult [OF near_float, of 16], of busy]
    by (simp add: B_def numeral_2_eq_2 mult.commute)
  ultimately have n4: "near 4 (R / B) (fl (float_of rb + float_of wb) / fl (float_of busy * 16))"
    and pos: "0 < fl (float_of busy * 16)"
    using near_divide [of 2 R _ 2 B] B(1) by auto
  have n5: "near 5 (R / B) (fl (fl (float_of rb + float_of wb) / fl (float_of busy * 16)))"
    using near_fl [OF n4] by (simp add: eval_nat_numeral)
  have "near 6 (R / B * 100) (fl (fl (fl (float_of rb + float_of wb) / fl (float_of busy * 16)) * 100))"
    using near_fl [OF near_mult [OF n5, of 100]] by (simp add: eval_nat_numeral del: times_divide_eq_left)
  moreover have "R / B * 100 = of_int (100 * (uint rb + uint wb)) / of_int (16 * uint busy)"
    by (simp add: R_def B_def)
  moreover have "R / B * 100 \<le> 100" "0 \<le> R / B * 100"
    using B by (simp_all add: field_simps)
  moreover have "utilization_of rb wb busy =
      float_int (Some (fl (fl (fl (float_of rb + float_of wb) / fl (float_of busy * 16)) * 100)))"
    using pos by (simp add: utilization_of_def fdiv_def)
  ultimately show ?thesis
    using near_percent [of 6 "R / B * 100"] by auto
qed

theorem mmdc_utilization_accurate_witness:
  "\<exists>w. utilization_of 3000 5000 1000 = Inr w \<and> uint w \<le> 100 \<and> uint w \<ge> 49"
proof -
  obtain w where w: "utilization_of 3000 5000 1000 = Inr w" "uint w \<le> 100"
    "of_int (100 * (uint (3000 :: u32) + uint (5000 :: u32))) / of_int (16 * uint (1000 :: u32)) - 1 -
       (1 / 10000 :: rat) < of_int (uint w)"
    using mmdc_utilization_accurate [of 1000 3000 5000] by auto
  from w(3) have "(48 :: rat) < of_int (uint w)" by simp
  then have "49 \<le> uint w" by linarith
  with w show ?thesis by blast
qed

text \<open>With bytes moved in no busy cycle the quotient is not finite and its conversion undefined.\<close>

lemma mmdc_no_busy_cycles: "utilization_of rb wb 0 = Inl BadCast"
  by (simp add: utilization_of_def float_of_def fdiv_def float_int_def)

lemma fl_negative:
  assumes "x < 0"
  shows "fl x < 0"
proof -
  define u :: rat where "u = 2 powi (ilog \<bar>x\<bar> - 23)"
  have u: "0 < u" by (simp add: u_def)
  have "2 powi ilog \<bar>x\<bar> \<le> \<bar>x\<bar>"
    using assms by (intro ilog_bounds) simp
  then have "u \<le> \<bar>x\<bar>"
  proof (rule order_trans [rotated])
    show "u \<le> 2 powi ilog \<bar>x\<bar>"
      unfolding u_def by (intro power_int_increasing) auto
  qed
  then have "x / u \<le> - 1"
    using assms u by (simp add: field_simps)
  then have "(of_int (round_even (x / u)) :: rat) < 0"
    using round_even_close [of "x / u"] by linarith
  then show ?thesis
    using assms u unfolding fl_def Let_def u_def [symmetric] by (simp add: mult_neg_pos)
qed

text \<open>
  Measurements of 2048 ms and more (two seconds and up, with the default of one second
  overridden) report a wrong read rate: the divisor \<open>1024*1024*time\<close> is computed in int and
  overflows, and for the first two seconds beyond the limit the rate printed is negative, where the
  write rate for the same number of bytes is positive.
\<close>
theorem mmdc_read_rate_overflows:
  assumes "rb \<noteq> 0" and "2048 \<le> time" and "time < 4096"
  shows "\<exists>r w. read_rate rb time = Some r \<and> r < 0 \<and> float_rate rb time = Some w \<and> 0 < w"
proof -
  define v where "v = 1024 * 1024 * time"
  have v: "2 ^ 31 \<le> v" "v < 2 ^ 32" using assms(2,3) by (simp_all add: v_def)
  then have "(v + 2 ^ 31) mod 2 ^ 32 = v + 2 ^ 31 - 2 ^ 32"
    by (subst minus_mod_self2 [symmetric], intro mod_pos_pos_trivial) auto
  then have n: "wrap32 v < 0" using v by (simp add: wrap32_def)
  have "uint rb \<noteq> 0" using assms(1) by (simp add: unsigned_eq_0_iff)
  then have "0 < uint rb" using uint_ge_0 [of rb] by linarith
  then have "0 < float_of rb" unfolding float_of_def by (intro fl_pos) (simp del: of_int_uint)
  then have a: "0 < fl (float_of rb * 1000)" by (intro fl_pos) simp
  have d: "fl (of_int (wrap32 v)) < 0" using n by (intro fl_negative) simp
  have e: "0 < fl (1024 * 1024 * fl (of_int time))"
    using assms(2) by (intro fl_pos mult_pos_pos) simp_all
  have "read_rate rb time = Some (fl (fl (float_of rb * 1000) / fl (of_int (wrap32 v))))"
    using d by (simp add: read_rate_def fdiv_def v_def)
  moreover have "fl (fl (float_of rb * 1000) / fl (of_int (wrap32 v))) < 0"
    using a d by (intro fl_negative) (simp add: divide_pos_neg)
  moreover have "float_rate rb time = Some (fl (fl (float_of rb * 1000) / fl (1024 * 1024 * fl (of_int time))))"
    using e by (simp add: float_rate_def fdiv_def)
  moreover have "0 < fl (fl (float_of rb * 1000) / fl (1024 * 1024 * fl (of_int time)))"
    by (rule fl_pos [OF divide_pos_pos [OF a e]])
  ultimately show ?thesis by blast
qed

theorem mmdc_read_rate_overflows_witness:
  "\<exists>r w. read_rate 1000000 3000 = Some r \<and> r < 0 \<and> float_rate 1000000 3000 = Some w \<and> 0 < w"
  by (rule mmdc_read_rate_overflows) simp_all

end
