(* ===== verification/Blkid.thy ===== *)
theory Blkid
  imports Checked
begin

text \<open>
  The volume prober \<open>src/testcode/linux/blkid/blkid.c\<close>: reading a device in pieces, the two
  cached buffers, and the probe for a FAT file system. Sizes have 64 bits, the host is little
  endian, and allocation succeeds.
\<close>

subsection \<open>Reading\<close>

text \<open>
  A device is its content and a position. How the next reads end is a script: interrupted,
  failed, or cut short after at most \<open>Suc n\<close> bytes; when it is used up reads are complete.
\<close>

datatype read_event = Interrupted | Broken | Cut nat

record disk =
  image :: "byte list"
  position :: nat
  script :: "read_event list"
  seekable :: bool

datatype read_result = EINTR | EIO | Data "byte list"

definition read_bytes :: "disk \<Rightarrow> nat \<Rightarrow> byte list \<times> disk" where
  "read_bytes io n = (let bs = take n (drop (position io) (image io))
     in (bs, io\<lparr>position := position io + length bs\<rparr>))"

definition sys_read :: "disk \<Rightarrow> nat \<Rightarrow> read_result \<times> disk" where
  "sys_read io count = (case script io of
     [] \<Rightarrow> (case read_bytes io count of (bs, ik) \<Rightarrow> (Data bs, ik))
   | Interrupted # es \<Rightarrow> (EINTR, io\<lparr>script := es\<rparr>)
   | Broken # es \<Rightarrow> (EIO, io\<lparr>script := es\<rparr>)
   | Cut n # es \<Rightarrow>
       (case read_bytes (io\<lparr>script := es\<rparr>) (min count (Suc n)) of (bs, ik) \<Rightarrow> (Data bs, ik)))"

lemma sys_read_script: "sys_read io n = (EINTR, ik) \<Longrightarrow> length (script ik) < length (script io)"
  by (auto simp: sys_read_def split: list.splits read_event.splits prod.splits)

function safe_read :: "disk \<Rightarrow> nat \<Rightarrow> byte list option \<times> disk" where
  "safe_read io count = (case sys_read io count of
     (EINTR, ik) \<Rightarrow> safe_read ik count
   | (EIO, ik) \<Rightarrow> (None, ik)
   | (Data bs, ik) \<Rightarrow> (Some bs, ik))"
  by auto
termination
  by (relation "measure (\<lambda>(io, n). length (script io))") (auto dest: sys_read_script [OF sym])

declare safe_read.simps [simp del]

text \<open>The bytes stored so far and their number, or the error of the first read.\<close>

function full_read :: "disk \<Rightarrow> byte list \<Rightarrow> nat \<Rightarrow> byte list option \<times> disk" where
  "full_read io got len =
     (if len = 0 then (Some got, io)
      else case safe_read io len of
        (None, ik) \<Rightarrow> (if got \<noteq> [] then Some got else None, ik)
      | (Some bs, ik) \<Rightarrow>
          if bs = [] then (Some got, ik) else full_read ik (got @ bs) (len - length bs))"
  by auto
termination
  by (relation "measure (\<lambda>(io, got, len). len)") auto

declare full_read.simps [simp del]

subsection \<open>Buffers\<close>

definition SB_BUFFER_SIZE :: nat where
  "SB_BUFFER_SIZE = 0x11000"

definition SEEK_BUFFER_SIZE :: nat where
  "SEEK_BUFFER_SIZE = 0x10000"

record volume_id =
  fd :: disk
  error :: bool
  sbbuf_len :: nat
  seekbuf_len :: nat
  sbbuf :: "byte list option"
  seekbuf :: "byte list option"
  seekbuf_off :: nat
  volume_label :: "byte list"

datatype pointer = SB nat | SEEK nat

definition u64_add :: "nat \<Rightarrow> nat \<Rightarrow> nat" where
  "u64_add a b = (a + b) mod 2 ^ 64"

definition volume_id_free_buffer :: "volume_id \<Rightarrow> volume_id" where
  "volume_id_free_buffer v = v\<lparr>sbbuf := None, sbbuf_len := 0, seekbuf := None, seekbuf_len := 0,
     seekbuf_off := 0\<rparr>"

text \<open>The common end: position the device, fill the buffer from its start, or give up.\<close>

definition give_up :: "nat \<Rightarrow> volume_id \<Rightarrow> pointer option \<times> volume_id" where
  "give_up off v =
     (None, volume_id_free_buffer (if off < 64 * 1024 then v\<lparr>error := True\<rparr> else v))"

definition do_read ::
  "volume_id \<Rightarrow> nat \<Rightarrow> nat \<Rightarrow> (byte list \<Rightarrow> volume_id \<Rightarrow> volume_id) \<Rightarrow> pointer \<Rightarrow>
     pointer option \<times> volume_id" where
  "do_read v off len store p =
     (if \<not> seekable (fd v) \<or> 2 ^ 63 \<le> off then give_up off v
      else case full_read (fd v\<lparr>position := off\<rparr>) [] len of
        (got, io) \<Rightarrow>
          (let v = v\<lparr>fd := io\<rparr> in case got of
             None \<Rightarrow> give_up off v
           | Some bs \<Rightarrow> if length bs \<noteq> len then give_up off v else (Some p, store bs v)))"

definition volume_id_get_buffer :: "volume_id \<Rightarrow> nat \<Rightarrow> nat \<Rightarrow> pointer option \<times> volume_id" where
  "volume_id_get_buffer v off len =
     (if u64_add off len \<le> SB_BUFFER_SIZE
      then
        let b = (case sbbuf v of None \<Rightarrow> replicate SB_BUFFER_SIZE 0 | Some b \<Rightarrow> b);
            v = v\<lparr>sbbuf := Some b\<rparr>;
            small_off = off mod 2 ^ 32;
            len = u64_add len off
        in if len \<le> sbbuf_len v then (Some (SB small_off), v)
           else do_read (v\<lparr>sbbuf_len := len\<rparr>) 0 len
             (\<lambda>bs w. w\<lparr>sbbuf := Some (bs @ drop len b)\<rparr>) (SB small_off)
      else if SEEK_BUFFER_SIZE < len then (None, v)
      else if seekbuf_off v \<le> off \<and> u64_add off len \<le> u64_add (seekbuf_off v) (seekbuf_len v)
      then (Some (SEEK ((off - seekbuf_off v) mod 2 ^ 32)), v)
      else do_read (v\<lparr>seekbuf_off := off, seekbuf_len := len\<rparr>) off len
             (\<lambda>bs w. w\<lparr>seekbuf := Some bs\<rparr>) (SEEK 0))"

text \<open>Memory behind a pointer; a null buffer has no byte.\<close>

definition load :: "volume_id \<Rightarrow> pointer \<Rightarrow> nat \<Rightarrow> nat \<Rightarrow> byte list ck" where
  "load v p i n = (case p of
     SB k \<Rightarrow> rds (case sbbuf v of None \<Rightarrow> [] | Some b \<Rightarrow> b) (k + i) n
   | SEEK k \<Rightarrow> rds (case seekbuf v of None \<Rightarrow> [] | Some b \<Rightarrow> b) (k + i) n)"

definition store_sb :: "volume_id \<Rightarrow> nat \<Rightarrow> byte list \<Rightarrow> volume_id ck" where
  "store_sb v i bs = (case sbbuf v of
     None \<Rightarrow> Inl OutOfBounds
   | Some b \<Rightarrow>
       (case mem_write b i bs of None \<Rightarrow> Inl OutOfBounds | Some b' \<Rightarrow> Inr (v\<lparr>sbbuf := Some b'\<rparr>)))"

subsection \<open>Layout\<close>

text \<open>
  The fields of a structure as (name, element size, count), laid out with natural alignment:
  \<open>PACKED\<close> is not a macro here, it declares a variable.
\<close>

type_synonym layout = "(string \<times> nat \<times> nat) list"

definition align :: "nat \<Rightarrow> nat \<Rightarrow> nat" where
  "align a k = (k + (a - 1)) div a * a"

fun offset_from :: "nat \<Rightarrow> layout \<Rightarrow> string \<Rightarrow> nat" where
  "offset_from k [] f = k"
| "offset_from k ((g, a, n) # fs) f =
     (if f = g then align a k else offset_from (align a k + a * n) fs f)"

definition vfat_super_block :: layout where
  "vfat_super_block =
     [(''boot_jump'', 1, 3), (''sysid'', 1, 8), (''sector_size_bytes'', 2, 1),
      (''sectors_per_cluster'', 1, 1), (''reserved_sct'', 2, 1), (''fats'', 1, 1),
      (''dir_entries'', 2, 1), (''sectors'', 2, 1), (''media'', 1, 1), (''fat_length'', 2, 1),
      (''secs_track'', 2, 1), (''heads'', 2, 1), (''hidden'', 4, 1), (''total_sect'', 4, 1),
      (''type'', 4, 1)]"

definition fat_super_block :: layout where
  "fat_super_block =
     [(''unknown'', 1, 3), (''serno'', 1, 4), (''label'', 1, 11), (''magic'', 1, 8),
      (''dummy2'', 1, 192), (''pmagic'', 1, 2)]"

definition fat32_super_block :: layout where
  "fat32_super_block =
     [(''fat32_length'', 4, 1), (''flags'', 2, 1), (''version'', 1, 2), (''root_cluster'', 4, 1),
      (''insfo_sector'', 2, 1), (''backup_boot'', 2, 1), (''reserved2'', 2, 6),
      (''unknown'', 1, 3), (''serno'', 1, 4), (''label'', 1, 11), (''magic'', 1, 8),
      (''dummy2'', 1, 164), (''pmagic'', 1, 2)]"

definition vfat_dir_entry :: layout where
  "vfat_dir_entry =
     [(''name'', 1, 11), (''attr'', 1, 1), (''time_creat'', 2, 1), (''date_creat'', 2, 1),
      (''time_acc'', 2, 1), (''date_acc'', 2, 1), (''cluster_high'', 2, 1), (''time_write'', 2, 1),
      (''date_write'', 2, 1), (''cluster_low'', 2, 1), (''size'', 4, 1)]"

definition vs_off :: "string \<Rightarrow> nat" where
  "vs_off f = offset_from 0 vfat_super_block f"

definition fat_off :: "string \<Rightarrow> nat" where
  "fat_off f = vs_off ''type'' + offset_from 0 fat_super_block f"

definition fat32_off :: "string \<Rightarrow> nat" where
  "fat32_off f = vs_off ''type'' + offset_from 0 fat32_super_block f"

definition dir_off :: "string \<Rightarrow> nat" where
  "dir_off f = offset_from 0 vfat_dir_entry f"

definition dir_size :: nat where
  "dir_size = align 4 (offset_from 0 vfat_dir_entry '''')"

fun little :: "byte list \<Rightarrow> nat" where
  "little [] = 0"
| "little (b # bs) = unat b + 256 * little bs"

subsection \<open>The probe\<close>

definition FAT16_MAX :: nat where
  "FAT16_MAX = 0xfff4"

definition field :: "volume_id \<Rightarrow> nat \<Rightarrow> nat \<Rightarrow> (nat \<Rightarrow> 'a ck) \<Rightarrow> 'a ck" where
  "field v i n k = bindr (load v (SB 0) i n) (\<lambda>bs. k (little bs))"

text \<open>The offset of the name of the first volume label among \<open>count\<close> directory entries.\<close>

fun get_attr_volume_id :: "volume_id \<Rightarrow> pointer \<Rightarrow> nat \<Rightarrow> nat \<Rightarrow> nat option ck" where
  "get_attr_volume_id v p dir 0 = Inr None"
| "get_attr_volume_id v p dir (Suc count) =
     bindr (load v p dir 1) (\<lambda>name.
       if name = [0] then Inr None
       else if name = [0xe5] then get_attr_volume_id v p (dir + dir_size) count
       else bindr (load v p (dir + dir_off ''attr'') 1) (\<lambda>attr.
         let a = hd attr in
         if a AND 0x3f = 0x0f then get_attr_volume_id v p (dir + dir_size) count
         else if a AND (0x08 OR 0x10) = 0x08 then
           bindr (load v p (dir + dir_off ''cluster_high'') 2) (\<lambda>hi.
             if little hi \<noteq> 0 then get_attr_volume_id v p (dir + dir_size) count
             else bindr (load v p (dir + dir_off ''cluster_low'') 2) (\<lambda>lo.
               if little lo \<noteq> 0 then get_attr_volume_id v p (dir + dir_size) count
               else Inr (Some dir)))
         else get_attr_volume_id v p (dir + dir_size) count))"

text \<open>The signature tests; \<open>Inr False\<close>: not a FAT volume.\<close>

definition guess_floppy :: "volume_id \<Rightarrow> bool ck" where
  "guess_floppy v =
     field v (vs_off ''boot_jump'') 1 (\<lambda>j0. field v (vs_off ''boot_jump'' + 2) 1 (\<lambda>j2.
       if (j0 \<noteq> 0xeb \<or> j2 \<noteq> 0x90) \<and> j0 \<noteq> 0xe9 then Inr False
       else field v (vs_off ''heads'') 2 (\<lambda>heads.
         if heads = 0 then Inr False
         else field v (vs_off ''sectors_per_cluster'') 1 (\<lambda>spc.
           if spc = 0 \<or> of_nat spc AND (of_nat spc - 1 :: u32) \<noteq> 0 then Inr False
           else field v (vs_off ''media'') 1 (\<lambda>media.
             if media < 0xf8 \<and> media \<noteq> 0xf0 then Inr False
             else field v (vs_off ''fats'') 1 (\<lambda>fats. Inr (fats = 2)))))))"

definition looks_like_fat :: "volume_id \<Rightarrow> bool ck" where
  "looks_like_fat v =
     bindr (load v (SB 0) (vs_off ''sysid'') 4) (\<lambda>sysid.
     if sysid = bytes ''NTFS'' then Inr False
     else bindr (load v (SB 0) (fat32_off ''magic'') 8) (\<lambda>m32.
     if take 5 m32 = bytes ''MSWIN'' then Inr True
     else if m32 = bytes ''FAT32   '' then Inr True
     else bindr (load v (SB 0) (fat_off ''magic'') 8) (\<lambda>m.
     if m = bytes ''FAT16   '' then Inr True
     else if take 5 m = bytes ''MSDOS'' then Inr True
     else if m = bytes ''FAT12   '' then Inr True
     else guess_floppy v)))"

text \<open>
  The walk along the root directory: \<open>maxloop\<close> counts down, and the cluster is never
  advanced. The result tells whether the walk went to its end or a read failed.
\<close>

fun root_walk ::
  "nat \<Rightarrow> volume_id \<Rightarrow> nat \<Rightarrow> nat \<Rightarrow> nat \<Rightarrow> nat \<Rightarrow> (bool \<times> volume_id) ck" where
  "root_walk 0 v start_data_sct next_cluster ssz buf_size = Inr (True, v)"
| "root_walk (Suc maxloop) v start_data_sct next_cluster ssz buf_size =
     field v (vs_off ''sectors_per_cluster'') 1 (\<lambda>spc.
       let next_off_sct = (next_cluster + 2 ^ 32 - 2) mod 2 ^ 32 * spc;
           next_off = (start_data_sct + next_off_sct) * ssz
       in case volume_id_get_buffer v next_off buf_size of
            (None, v) \<Rightarrow> Inr (False, v)
          | (Some buf, v) \<Rightarrow>
              bindr (get_attr_volume_id v buf 0 (buf_size div dir_size)) (\<lambda>label.
                case label of
                  Some _ \<Rightarrow> Inr (True, v)
                | None \<Rightarrow> root_walk maxloop v start_data_sct next_cluster ssz buf_size))"

definition probe_root :: "volume_id \<Rightarrow> nat \<Rightarrow> nat \<Rightarrow> nat \<Rightarrow> (int \<times> volume_id) ck" where
  "probe_root v reserved_sct fat_size_sct ssz =
     field v (vs_off ''sectors_per_cluster'') 1 (\<lambda>spc.
     field v (fat32_off ''root_cluster'') 4 (\<lambda>root_cluster.
       bindr (root_walk 99 v ((reserved_sct + fat_size_sct) mod 2 ^ 32) root_cluster ssz (spc * ssz))
         (\<lambda>(whole, v).
           if \<not> whole then Inr (0, v)
           else case volume_id_get_buffer v 0 0x200 of
             (None, v) \<Rightarrow> Inr (- 1, v)
           | (Some _, v) \<Rightarrow> Inr (0, v))))"

definition probe_geometry :: "volume_id \<Rightarrow> (int \<times> volume_id) ck" where
  "probe_geometry v =
     field v (vs_off ''sector_size_bytes'') 2 (\<lambda>ssz.
     if ssz \<noteq> 0x200 \<and> ssz \<noteq> 0x400 \<and> ssz \<noteq> 0x800 \<and> ssz \<noteq> 0x1000 then Inr (- 1, v)
     else
     field v (vs_off ''reserved_sct'') 2 (\<lambda>reserved_sct.
     field v (vs_off ''sectors'') 2 (\<lambda>sectors.
     field v (vs_off ''total_sect'') 4 (\<lambda>total_sect.
     field v (vs_off ''fat_length'') 2 (\<lambda>fat_length.
     field v (fat32_off ''fat32_length'') 4 (\<lambda>fat32_length.
     field v (vs_off ''fats'') 1 (\<lambda>fats.
     field v (vs_off ''dir_entries'') 2 (\<lambda>dir_entries.
     field v (vs_off ''sectors_per_cluster'') 1 (\<lambda>spc.
       let sect_count = (if sectors = 0 then total_sect else sectors);
           fat_size_sct = (if fat_length = 0 then fat32_length else fat_length) * fats mod 2 ^ 32
       in bindr (divr (dir_entries * dir_size + (ssz - 1)) ssz) (\<lambda>dir_size_sct.
          let clusters = (sect_count + 2 ^ 33 - (reserved_sct + fat_size_sct + dir_size_sct) mod 2 ^ 32) mod 2 ^ 32
          in bindr (divr clusters spc) (\<lambda>cluster_count.
            if FAT16_MAX \<le> cluster_count then probe_root v reserved_sct fat_size_sct ssz
            else probe_root v reserved_sct fat_size_sct ssz)))))))))))"

definition volume_id_probe_vfat :: "volume_id \<Rightarrow> (int \<times> volume_id) ck" where
  "volume_id_probe_vfat v =
     (case volume_id_get_buffer v 0 0x200 of
        (None, v) \<Rightarrow> Inr (- 1, v)
      | (Some _, v) \<Rightarrow>
          bindr (store_sb v (fat32_off ''magic'') (bytes ''FAT32   '')) (\<lambda>v.
          bindr (looks_like_fat v) (\<lambda>valid.
            if \<not> valid then Inr (- 1, v) else probe_geometry v)))"

text \<open>The main program: the label that it prints and the state at its end.\<close>

definition fresh_volume :: "disk \<Rightarrow> volume_id" where
  "fresh_volume io = \<lparr>fd = io, error = False, sbbuf_len = 0, seekbuf_len = 0, sbbuf = None,
     seekbuf = None, seekbuf_off = 0, volume_label = replicate 65 0\<rparr>"

definition blkid_main :: "disk \<Rightarrow> (byte list \<times> volume_id) ck" where
  "blkid_main io = bindr (volume_id_probe_vfat (fresh_volume io))
     (\<lambda>(_, v). Inr (takeWhile (\<lambda>b. b \<noteq> 0) (volume_label v), v))"

end
