(* ===== verification/BlkidCache.thy ===== *)
theory BlkidCache
  imports Blkid
begin

text \<open>
  The prober's input: reads that are cut short, interrupted or fail, and the two buffers as a
  cache of the device.
\<close>

subsection \<open>Reading\<close>

definition reads_from :: "disk \<Rightarrow> byte list \<Rightarrow> disk \<Rightarrow> bool" where
  "reads_from io bs io' \<longleftrightarrow> image io' = image io \<and> position io' = position io + length bs \<and>
     bs = take (length bs) (drop (position io) (image io))"

lemma reads_from_nil: "image io' = image io \<Longrightarrow> position io' = position io \<Longrightarrow> reads_from io [] io'"
  by (simp add: reads_from_def)

lemma reads_from_trans: "reads_from io bs io' \<Longrightarrow> reads_from io' ds io'' \<Longrightarrow> reads_from io (bs @ ds) io''"
  by (auto simp: reads_from_def take_add ac_simps)

lemma take_drop_min: "take (min (length xs - k) n) (drop k xs) = take n (drop k xs)"
  by (cases "n \<le> length xs - k") (auto simp: min_def)

lemma sys_read_reads:
  "sys_read io n = (r, io') \<Longrightarrow>
     (case r of Data bs \<Rightarrow> reads_from io bs io' \<and> length bs \<le> n | _ \<Rightarrow> reads_from io [] io')"
  by (auto simp: sys_read_def read_bytes_def reads_from_def Let_def take_drop_min
      split: list.splits read_event.splits read_result.splits)

lemma safe_read_reads:
  "safe_read io n = (r, io') \<Longrightarrow>
     (case r of Some bs \<Rightarrow> reads_from io bs io' \<and> length bs \<le> n | None \<Rightarrow> reads_from io [] io')"
proof (induction io n rule: safe_read.induct)
  case (1 io n)
  obtain s io1 where s: "sys_read io n = (s, io1)" by (cases "sys_read io n")
  note f = sys_read_reads [OF s]
  show ?case
  proof (cases s)
    case EINTR
    with f have t: "reads_from io [] io1" by simp
    have "safe_read io1 n = (r, io')"
      using "1.prems" s EINTR by (simp add: safe_read.simps [of io])
    from "1.IH" [OF s [symmetric] EINTR this] show ?thesis
      using reads_from_trans [OF t] by (auto split: option.splits)
  qed (use "1.prems" s f in \<open>auto simp: safe_read.simps [of io]\<close>)
qed

lemma full_read_reads:
  "full_read io got len = (r, io') \<Longrightarrow>
     (case r of Some bs \<Rightarrow> \<exists>ds. bs = got @ ds \<and> length ds \<le> len \<and> reads_from io ds io'
      | None \<Rightarrow> image io' = image io)"
proof (induction io got len rule: full_read.induct)
  case (1 io got len)
  obtain s io1 where s: "safe_read io len = (s, io1)" by (cases "safe_read io len")
  note f = safe_read_reads [OF s]
  note eq = full_read.simps [of io got len]
  show ?case
  proof (cases "len = 0 \<or> s = None \<or> s = Some []")
    case True
    with "1.prems" s f show ?thesis
      by (auto simp: eq reads_from_def split: if_splits option.splits)
  next
    case False
    then obtain bs where bs: "s = Some bs" "bs \<noteq> []" "len \<noteq> 0" by (cases s) auto
    with s "1.prems" have e: "full_read io1 (got @ bs) (len - length bs) = (r, io')"
      by (simp add: eq)
    note ih = "1.IH" [OF bs(3) s [symmetric] bs(1,2) e]
    show ?thesis
    proof (cases r)
      case None
      with ih f bs(1) show ?thesis by (simp add: reads_from_def)
    next
      case (Some cs)
      with ih obtain ds where "cs = (got @ bs) @ ds" "length ds \<le> len - length bs" "reads_from io1 ds io'"
        by auto
      with Some f bs show ?thesis
        using reads_from_trans [of io bs io1 ds io'] by (auto intro!: exI [of _ "bs @ ds"])
    qed
  qed
qed

text \<open>Without errors, every way of cutting and interrupting the reads gives the same bytes.\<close>

lemma sys_read_works:
  assumes "Broken \<notin> set (script io)" "sys_read io n = (r, io')" "n \<noteq> 0"
  shows "r \<noteq> EIO \<and> Broken \<notin> set (script io') \<and>
    (r = Data [] \<longrightarrow> length (image io) \<le> position io)"
  using assms
  by (auto simp: sys_read_def read_bytes_def Let_def split: list.splits read_event.splits)

lemma safe_read_works:
  assumes "Broken \<notin> set (script io)" "safe_read io n = (r, io')" "n \<noteq> 0"
  shows "\<exists>bs. r = Some bs \<and> Broken \<notin> set (script io') \<and>
    (bs = [] \<longrightarrow> length (image io) \<le> position io)"
  using assms
proof (induction io n rule: safe_read.induct)
  case (1 io n)
  obtain s io1 where s: "sys_read io n = (s, io1)" by (cases "sys_read io n")
  note f = sys_read_works [OF "1.prems"(1) s "1.prems"(3)]
  show ?case
  proof (cases s)
    case EINTR
    have "safe_read io1 n = (r, io')"
      using "1.prems"(2) s EINTR by (simp add: safe_read.simps [of io])
    from "1.IH" [OF s [symmetric] EINTR _ this "1.prems"(3)] f
    show ?thesis
      using sys_read_reads [OF s] EINTR by (auto simp: reads_from_def)
  qed (use "1.prems" s f in \<open>auto simp: safe_read.simps [of io]\<close>)
qed

lemma full_read_works:
  assumes "Broken \<notin> set (script io)"
  shows "\<exists>io'. full_read io got len = (Some (got @ take len (drop (position io) (image io))), io')"
  using assms
proof (induction io got len rule: full_read.induct)
  case (1 io got len)
  note eq = full_read.simps [of io got len]
  show ?case
  proof (cases "len = 0")
    case False
    obtain s io1 where s: "safe_read io len = (s, io1)" by (cases "safe_read io len")
    from safe_read_works [OF "1.prems" s False] obtain bs
      where bs: "s = Some bs" "Broken \<notin> set (script io1)"
        "bs = [] \<Longrightarrow> length (image io) \<le> position io" by blast
    have r: "reads_from io bs io1" "length bs \<le> len"
      using safe_read_reads [OF s] bs(1) by auto
    show ?thesis
    proof (cases "bs = []")
      case True
      with False s bs show ?thesis by (simp add: eq)
    next
      case ne: False
      from "1.IH" [OF False s [symmetric] bs(1) ne bs(2)] obtain io'
        where "full_read io1 (got @ bs) (len - length bs) =
          (Some ((got @ bs) @ take (len - length bs) (drop (position io1) (image io1))), io')" by blast
      moreover have "bs @ take (len - length bs) (drop (position io1) (image io1)) =
          take len (drop (position io) (image io))"
      proof -
        have b: "bs = take (length bs) (drop (position io) (image io))"
          using r(1) by (simp add: reads_from_def)
        have "take len (drop (position io) (image io)) =
            take (length bs) (drop (position io) (image io)) @
            take (len - length bs) (drop (length bs) (drop (position io) (image io)))"
          using r(2) take_add [of "length bs" "len - length bs" "drop (position io) (image io)"]
          by (simp add: add.commute)
        with b r(1) show ?thesis by (simp add: reads_from_def add.commute)
      qed
      ultimately show ?thesis
        using False s bs(1) ne by (simp add: eq)
    qed
  qed (simp add: full_read.simps [of io got 0])
qed

subsection \<open>Buffers\<close>

text \<open>The sizes of the buffers.\<close>

definition shaped :: "volume_id \<Rightarrow> bool" where
  "shaped v \<longleftrightarrow>
     (case sbbuf v of
        None \<Rightarrow> sbbuf_len v = 0
      | Some b \<Rightarrow> length b = SB_BUFFER_SIZE \<and> sbbuf_len v \<le> SB_BUFFER_SIZE) \<and>
     (case seekbuf v of
        None \<Rightarrow> seekbuf_len v = 0 \<and> seekbuf_off v = 0
      | Some b \<Rightarrow> length b = seekbuf_len v \<and> seekbuf_len v \<le> SEEK_BUFFER_SIZE \<and>
          seekbuf_off v + seekbuf_len v < 2 ^ 64)"

text \<open>The contents of the buffers: the bytes of the device.\<close>

definition mirrors :: "volume_id \<Rightarrow> bool" where
  "mirrors v \<longleftrightarrow>
     (\<forall>b. sbbuf v = Some b \<longrightarrow> sbbuf_len v \<le> length (image (fd v)) \<and>
        take (sbbuf_len v) b = take (sbbuf_len v) (image (fd v))) \<and>
     (\<forall>b. seekbuf v = Some b \<longrightarrow> seekbuf_off v + seekbuf_len v \<le> length (image (fd v)) \<and>
        b = take (seekbuf_len v) (drop (seekbuf_off v) (image (fd v))))"

definition points_to :: "volume_id \<Rightarrow> pointer \<Rightarrow> nat \<Rightarrow> bool" where
  "points_to v p n \<longleftrightarrow> (case p of
     SB k \<Rightarrow> sbbuf v \<noteq> None \<and> k + n \<le> SB_BUFFER_SIZE
   | SEEK k \<Rightarrow> (case seekbuf v of None \<Rightarrow> False | Some b \<Rightarrow> k + n \<le> length b))"

lemma load_ok:
  assumes "shaped v" "points_to v p n" "i + m \<le> n"
  shows "\<exists>bs. load v p i m = Inr bs \<and> length bs = m"
  using assms by (auto simp: shaped_def points_to_def load_def split: pointer.splits option.splits)

lemma give_up_shaped: "give_up off v = (r, w) \<Longrightarrow>
   r = None \<and> shaped w \<and> mirrors w \<and> image (fd w) = image (fd v)"
  by (auto simp: give_up_def volume_id_free_buffer_def shaped_def mirrors_def)

lemma do_read_cases:
  assumes "do_read v off len store p = (r, w)"
  shows "r = None \<and> shaped w \<and> mirrors w \<and> image (fd w) = image (fd v) \<or>
    (\<exists>io bs. r = Some p \<and> w = store bs (v\<lparr>fd := io\<rparr>) \<and> length bs = len \<and> image io = image (fd v) \<and>
       bs = take len (drop off (image (fd v))))"
proof -
  obtain got io where g: "full_read (fd v\<lparr>position := off\<rparr>) [] len = (got, io)"
    by (cases "full_read (fd v\<lparr>position := off\<rparr>) [] len")
  note f = full_read_reads [OF g]
  have same: "image io = image (fd v)"
    using f by (auto simp: reads_from_def split: option.splits)
  show ?thesis
  proof (cases "seekable (fd v) \<and> off < 2 ^ 63 \<and> (\<exists>bs. got = Some bs \<and> length bs = len)")
    case True
    then obtain bs where "got = Some bs" "length bs = len" by blast
    with True f assms g same show ?thesis
      by (auto simp: do_read_def reads_from_def)
  next
    case False
    then obtain v' where "give_up off v' = (r, w)" "image (fd v') = image (fd v)"
      using assms g same by (auto simp: do_read_def Let_def split: option.splits if_splits)
    with give_up_shaped [OF this(1)] show ?thesis by simp
  qed
qed

definition buffered :: "volume_id \<Rightarrow> nat \<Rightarrow> nat \<Rightarrow> pointer option \<Rightarrow> volume_id \<Rightarrow> bool" where
  "buffered v off len r w \<longleftrightarrow> shaped w \<and> image (fd w) = image (fd v) \<and>
     (\<forall>p. r = Some p \<longrightarrow> points_to w p len) \<and>
     (r \<noteq> None \<longrightarrow> sbbuf v \<noteq> None \<longrightarrow> sbbuf w \<noteq> None) \<and>
     (mirrors v \<longrightarrow> mirrors w \<and>
       (\<forall>p. r = Some p \<longrightarrow> load w p 0 len = Inr (take len (drop off (image (fd v)))) \<and>
          off + len \<le> length (image (fd v))))"

lemma take_drop_take: "off + len \<le> n \<Longrightarrow> take n b = take n m \<Longrightarrow> take len (drop off b) = take len (drop off m)"
proof -
  assume le: "off + len \<le> n" and eq: "take n b = take n m"
  have "take len (drop off b) = take len (drop off (take n b))"
    using le by (simp add: drop_take min_def)
  also have "\<dots> = take len (drop off m)"
    using le by (simp add: eq drop_take min_def)
  finally show ?thesis .
qed

lemma sb_buffered:
  assumes "shaped v" "off + len \<le> SB_BUFFER_SIZE" "volume_id_get_buffer v off len = (r, w)"
  shows "buffered v off len r w"
proof -
  define b where "b = (case sbbuf v of None \<Rightarrow> replicate SB_BUFFER_SIZE 0 | Some b \<Rightarrow> b)"
  define u where "u = v\<lparr>sbbuf := Some b\<rparr>"
  have small: "u64_add off len = off + len" "u64_add len off = len + off" "off mod 4294967296 = off"
    using assms(2) by (simp_all add: u64_add_def SB_BUFFER_SIZE_def)
  have eq: "volume_id_get_buffer v off len =
      (if len + off \<le> sbbuf_len v then (Some (SB off), u)
       else do_read (u\<lparr>sbbuf_len := len + off\<rparr>) 0 (len + off)
         (\<lambda>bs w. w\<lparr>sbbuf := Some (bs @ drop (len + off) b)\<rparr>) (SB off))"
    using assms(2) by (simp add: volume_id_get_buffer_def small b_def u_def Let_def)
  have b: "length b = SB_BUFFER_SIZE"
    using assms(1) by (auto simp: shaped_def b_def split: option.splits)
  show ?thesis
  proof (cases "len + off \<le> sbbuf_len v")
    case True
    then have w: "r = Some (SB off)" "w = u" using assms(3) eq by simp_all
    have u: "shaped u"
      using assms(1) b by (auto simp: shaped_def u_def split: option.splits)
    have m: "mirrors u \<and> take len (drop off b) = take len (drop off (image (fd v))) \<and>
        off + len \<le> length (image (fd v))" if "mirrors v"
    proof (cases "sbbuf v")
      case None
      then have "len + off = 0" using True assms(1) by (simp add: shaped_def)
      with that None show ?thesis
        using assms(1) by (auto simp: mirrors_def u_def shaped_def)
    next
      case (Some c)
      then have "b = c" "take (sbbuf_len v) b = take (sbbuf_len v) (image (fd v))"
        "sbbuf_len v \<le> length (image (fd v))"
        using that by (auto simp: b_def mirrors_def)
      with True that Some show ?thesis
        using take_drop_take [of off len "sbbuf_len v" b "image (fd v)"]
        by (auto simp: mirrors_def u_def add.commute)
    qed
    have l: "load u (SB off) 0 len = Inr (take len (drop off b))"
      using assms(2) b by (simp add: load_def u_def)
    show ?thesis
      unfolding buffered_def w using u m l assms(2)
      by (auto simp: points_to_def u_def)
  next
    case False
    then have d: "do_read (u\<lparr>sbbuf_len := len + off\<rparr>) 0 (len + off)
         (\<lambda>bs w. w\<lparr>sbbuf := Some (bs @ drop (len + off) b)\<rparr>) (SB off) = (r, w)"
      using assms(3) eq by simp
    from do_read_cases [OF d] show ?thesis
    proof (elim disjE exE conjE)
      assume "r = None" "shaped w" "mirrors w" "image (fd w) = image (fd (u\<lparr>sbbuf_len := len + off\<rparr>))"
      then show ?thesis by (simp add: buffered_def u_def)
    next
      fix io bs
      assume h: "r = Some (SB off)" "w = (u\<lparr>sbbuf_len := len + off\<rparr>\<lparr>fd := io\<rparr>)\<lparr>sbbuf := Some (bs @ drop (len + off) b)\<rparr>"
        "length bs = len + off" "image io = image (fd (u\<lparr>sbbuf_len := len + off\<rparr>))"
        "bs = take (len + off) (drop 0 (image (fd (u\<lparr>sbbuf_len := len + off\<rparr>))))"
      then have im: "image io = image (fd v)" "bs = take (len + off) (image (fd v))"
        "len + off \<le> length (image (fd v))"
        by (auto simp: u_def)
      have "shaped w"
        using assms(1,2) b h(2,3) by (auto simp: shaped_def u_def add.commute split: option.splits)
      moreover have "mirrors v \<Longrightarrow> mirrors w"
        using h(2,3) im by (auto simp: mirrors_def u_def)
      moreover have "load w (SB off) 0 len = Inr (take len (drop off (image (fd v))))"
      proof -
        have "load w (SB off) 0 len = Inr (take len (drop off (bs @ drop (len + off) b)))"
          using h(2,3) by (simp add: load_def)
        moreover have "take len (drop off (bs @ drop (len + off) b)) = take len (drop off bs)"
          using h(3) by simp
        moreover have "take len (drop off bs) = take len (drop off (image (fd v)))"
          unfolding im(2) by (simp add: drop_take)
        ultimately show ?thesis by simp
      qed
      ultimately show ?thesis
        using h(1,2) im assms(2) by (auto simp: buffered_def points_to_def u_def add.commute)
    qed
  qed
qed

lemma seek_buffered:
  assumes "shaped v" "SB_BUFFER_SIZE < off + len" "off + len < 2 ^ 64" "0 < len"
    "volume_id_get_buffer v off len = (r, w)"
  shows "buffered v off len r w"
proof -
  have small: "u64_add off len = off + len"
    using assms(3) by (simp add: u64_add_def)
  have small': "u64_add (seekbuf_off v) (seekbuf_len v) = seekbuf_off v + seekbuf_len v"
    using assms(1) by (auto simp: u64_add_def shaped_def split: option.splits)
  have eq: "volume_id_get_buffer v off len =
     (if SEEK_BUFFER_SIZE < len then (None, v)
      else if seekbuf_off v \<le> off \<and> off + len \<le> seekbuf_off v + seekbuf_len v
      then (Some (SEEK ((off - seekbuf_off v) mod 2 ^ 32)), v)
      else do_read (v\<lparr>seekbuf_off := off, seekbuf_len := len\<rparr>) off len
             (\<lambda>bs w. w\<lparr>seekbuf := Some bs\<rparr>) (SEEK 0))"
    using assms(2) by (simp add: volume_id_get_buffer_def small small')
  consider "SEEK_BUFFER_SIZE < len"
    | "len \<le> SEEK_BUFFER_SIZE" "seekbuf_off v \<le> off" "off + len \<le> seekbuf_off v + seekbuf_len v"
    | "len \<le> SEEK_BUFFER_SIZE" "\<not> (seekbuf_off v \<le> off \<and> off + len \<le> seekbuf_off v + seekbuf_len v)"
    by linarith
  then show ?thesis
  proof cases
    case 1
    with assms(1,5) eq show ?thesis by (auto simp: buffered_def)
  next
    case 2
    then obtain b where b: "seekbuf v = Some b" "length b = seekbuf_len v" "seekbuf_len v \<le> SEEK_BUFFER_SIZE"
      using assms(1,2) by (auto simp: shaped_def split: option.splits)
    have k: "(off - seekbuf_off v) mod 2 ^ 32 = off - seekbuf_off v"
      using 2 b(3) by (intro mod_less) (simp add: SEEK_BUFFER_SIZE_def)
    have w: "r = Some (SEEK (off - seekbuf_off v))" "w = v"
      using 2 assms(5) eq k by auto
    have "take len (drop (off - seekbuf_off v) b) = take len (drop off (image (fd v))) \<and>
        off + len \<le> length (image (fd v))" if "mirrors v"
      using that b(1) 2 by (auto simp: mirrors_def drop_take min_def)
    then show ?thesis
      unfolding buffered_def w using assms(1) b 2
      by (auto simp: points_to_def load_def)
  next
    case 3
    then have d: "do_read (v\<lparr>seekbuf_off := off, seekbuf_len := len\<rparr>) off len
        (\<lambda>bs w. w\<lparr>seekbuf := Some bs\<rparr>) (SEEK 0) = (r, w)"
      using assms(5) eq by (auto simp: split: if_splits)
    from do_read_cases [OF d] show ?thesis
    proof (elim disjE exE conjE)
      assume "r = None" "shaped w" "mirrors w"
        "image (fd w) = image (fd (v\<lparr>seekbuf_off := off, seekbuf_len := len\<rparr>))"
      then show ?thesis by (simp add: buffered_def)
    next
      fix io bs
      assume h: "r = Some (SEEK 0)"
        "w = (v\<lparr>seekbuf_off := off, seekbuf_len := len\<rparr>\<lparr>fd := io\<rparr>)\<lparr>seekbuf := Some bs\<rparr>"
        "length bs = len" "image io = image (fd (v\<lparr>seekbuf_off := off, seekbuf_len := len\<rparr>))"
        "bs = take len (drop off (image (fd (v\<lparr>seekbuf_off := off, seekbuf_len := len\<rparr>))))"
      then have im: "image io = image (fd v)" "bs = take len (drop off (image (fd v)))"
        by simp_all
      have "SB_BUFFER_SIZE < off + len" using assms(2) .
      then have "off + len \<le> length (image (fd v))"
        using h(3) im(2) assms(4) by (auto simp: min_def split: if_splits)
      then show ?thesis
        unfolding buffered_def using h im assms(1,3) 3(1)
        by (auto simp: shaped_def mirrors_def points_to_def load_def split: option.splits)
    qed
  qed
qed

lemma get_buffered:
  "shaped v \<Longrightarrow> off + len < 2 ^ 64 \<Longrightarrow> 0 < len \<Longrightarrow> volume_id_get_buffer v off len = (r, w) \<Longrightarrow> buffered v off len r w"
  using sb_buffered seek_buffered by (cases "off + len \<le> SB_BUFFER_SIZE") auto


subsection \<open>The buffers are a cache of the device\<close>

fun requests :: "volume_id \<Rightarrow> (nat \<times> nat) list \<Rightarrow> volume_id" where
  "requests v [] = v"
| "requests v ((off, len) # rs) = requests (snd (volume_id_get_buffer v off len)) rs"

lemma fresh_ok: "shaped (fresh_volume io)" "mirrors (fresh_volume io)" "fd (fresh_volume io) = io"
  by (simp_all add: fresh_volume_def shaped_def mirrors_def)

lemma requests_ok:
  assumes "shaped v" "mirrors v" "\<forall>(off, len) \<in> set rs. 0 < len \<and> off + len < 2 ^ 64"
  shows "shaped (requests v rs) \<and> mirrors (requests v rs) \<and>
    image (fd (requests v rs)) = image (fd v)"
  using assms
proof (induction v rs rule: requests.induct)
  case (2 v off len rs)
  obtain r w where g: "volume_id_get_buffer v off len = (r, w)"
    by (cases "volume_id_get_buffer v off len")
  have "buffered v off len r w"
    using get_buffered [OF "2.prems"(1) _ _ g] "2.prems"(3) by auto
  then have "shaped w" "mirrors w" "image (fd w) = image (fd v)"
    using "2.prems"(2) by (simp_all add: buffered_def)
  with 2 g show ?case by simp
qed simp

text \<open>
  C22: Whatever was requested before, and however reads were interrupted, cut short or failed,
  a pointer that \<open>volume_id_get_buffer\<close> returns gives the requested bytes of the device, all of
  them on the device: the two buffers never serve stale or partly filled memory.
\<close>
theorem blkid_buffers_mirror_device:
  assumes "\<forall>(off, len) \<in> set rs. 0 < len \<and> off + len < 2 ^ 64" and "0 < len" and "off + len < 2 ^ 64"
    and "volume_id_get_buffer (requests (fresh_volume io) rs) off len = (Some p, w)"
  shows "load w p 0 len = Inr (take len (drop off (image io))) \<and> off + len \<le> length (image io)"
proof -
  have r: "shaped (requests (fresh_volume io) rs)" "mirrors (requests (fresh_volume io) rs)"
    "image (fd (requests (fresh_volume io) rs)) = image io"
    using requests_ok [OF fresh_ok(1,2) assms(1), of io] by (simp_all add: fresh_ok)
  from get_buffered [OF r(1) assms(3,2,4)] r(2,3) show ?thesis
    by (simp add: buffered_def)
qed

theorem blkid_buffers_mirror_device_witness:
  "\<exists>p w. volume_id_get_buffer (requests (fresh_volume \<lparr>image = [7, 8, 9, 10], position = 0,
       script = [Interrupted, Cut 0], seekable = True\<rparr>) [(0, 2)]) 1 3 = (Some p, w) \<and>
     load w p 0 3 = Inr [8, 9, 10]"
proof -
  let ?v = "requests (fresh_volume \<lparr>image = [7, 8, 9, 10], position = 0,
       script = [Interrupted, Cut 0], seekable = True\<rparr>) [(0, 2)]"
  obtain p w where "volume_id_get_buffer ?v 1 3 = (Some p, w)"
    by (simp add: fresh_volume_def volume_id_get_buffer_def u64_add_def SB_BUFFER_SIZE_def
        do_read_def full_read.simps safe_read.simps sys_read_def read_bytes_def Let_def)
  moreover from blkid_buffers_mirror_device [OF _ _ _ this]
  have "load w p 0 3 = Inr [8, 9, 10]" by simp
  ultimately show ?thesis by blast
qed

end
