(* ===== verification/BlkidProbe.thy ===== *)
theory BlkidProbe
  imports BlkidCache
begin

text \<open>
  The probe for a FAT volume: it stays in its buffers and returns, and what it makes of a FAT
  volume.
\<close>

subsection \<open>The probe stays in its buffers\<close>

text \<open>Where the compiler puts the fields that the probe reads.\<close>

lemma vs_offsets [simp]:
  "vs_off ''boot_jump'' = 0" "vs_off ''sysid'' = 3" "vs_off ''sector_size_bytes'' = 12"
  "vs_off ''sectors_per_cluster'' = 14" "vs_off ''reserved_sct'' = 16" "vs_off ''fats'' = 18"
  "vs_off ''dir_entries'' = 20" "vs_off ''sectors'' = 22" "vs_off ''media'' = 24"
  "vs_off ''fat_length'' = 26" "vs_off ''heads'' = 30" "vs_off ''total_sect'' = 36"
  "vs_off ''type'' = 40"
  by (simp_all add: vs_off_def vfat_super_block_def align_def)

lemma type_offsets [simp]:
  "fat_off ''magic'' = 58" "fat32_off ''fat32_length'' = 40" "fat32_off ''root_cluster'' = 48"
  "fat32_off ''magic'' = 86" "dir_off ''attr'' = 11" "dir_off ''cluster_high'' = 20"
  "dir_off ''cluster_low'' = 26" "dir_size = 32"
  by (simp_all add: fat_off_def fat32_off_def fat_super_block_def fat32_super_block_def dir_off_def
      dir_size_def vfat_dir_entry_def align_def)

lemma little_less: "little bs < 256 ^ length bs"
proof (induction bs)
  case (Cons b bs)
  have "unat b < 256" using unsigned_less [of b] by simp
  with Cons show ?case by simp
qed simp

definition has_sb :: "volume_id \<Rightarrow> bool" where
  "has_sb v \<longleftrightarrow> shaped v \<and> sbbuf v \<noteq> None"

lemma has_sb_points: "has_sb v \<Longrightarrow> n \<le> SB_BUFFER_SIZE \<Longrightarrow> points_to v (SB 0) n"
  by (simp add: has_sb_def points_to_def)

lemma load_sb:
  assumes "has_sb v" "i + n \<le> 0x200"
  shows "\<exists>bs. load v (SB 0) i n = Inr bs \<and> length bs = n"
  using assms load_ok [OF _ has_sb_points [of v "0x200"], of i n]
  by (auto simp: has_sb_def SB_BUFFER_SIZE_def)

lemma field_ends:
  assumes "has_sb v" "i + n \<le> 0x200" "\<And>x. x < 256 ^ n \<Longrightarrow> ends_or E P (k x)"
  shows "ends_or E P (field v i n k)"
  using load_sb [OF assms(1,2)] assms(3) little_less by (fastforce simp: field_def)

lemma load_ends:
  assumes "has_sb v" "i + n \<le> 0x200" "\<And>bs. length bs = n \<Longrightarrow> ends_or E P (k bs)"
  shows "ends_or E P (bindr (load v (SB 0) i n) k)"
  using load_sb [OF assms(1,2)] assms(3) by auto

lemma guess_ends: "has_sb v \<Longrightarrow> ends_or E (\<lambda>_. True) (guess_floppy v)"
proof -
  assume "has_sb v"
  note l = load_sb [OF this]
  obtain j0 j2 he sp me fa where r: "load v (SB 0) 0 1 = Inr j0" "load v (SB 0) 2 1 = Inr j2"
    "load v (SB 0) 30 2 = Inr he" "load v (SB 0) 14 1 = Inr sp" "load v (SB 0) 24 1 = Inr me"
    "load v (SB 0) 18 1 = Inr fa"
    using l [of 0 1] l [of 2 1] l [of 30 2] l [of 14 1] l [of 24 1] l [of 18 1] by auto
  show ?thesis
    unfolding guess_floppy_def field_def vs_offsets add_0 r bindr.simps by simp
qed

lemma looks_ends: "has_sb v \<Longrightarrow> ends_or E (\<lambda>_. True) (looks_like_fat v)"
  using load_sb [of v 3 4] load_sb [of v 86 8] load_sb [of v 58 8] guess_ends [of v E]
  by (auto simp: looks_like_fat_def)

lemma attr_ends:
  assumes "shaped v" "points_to v p n" "dir + count * 32 \<le> n"
  shows "ends_or E (\<lambda>_. True) (get_attr_volume_id v p dir count)"
  using assms(3)
proof (induction count arbitrary: dir)
  case (Suc count)
  have l: "\<exists>bs. load v p (dir + i) m = Inr bs \<and> length bs = m" if "i + m \<le> 32" for i m
    using load_ok [OF assms(1,2), of "dir + i" m] that Suc.prems by simp
  have rest: "ends_or E (\<lambda>_. True) (get_attr_volume_id v p (dir + 32) count)"
    using Suc.prems by (intro Suc.IH) simp
  obtain nm at hi lo where "load v p dir 1 = Inr nm" "load v p (dir + 11) 1 = Inr at"
    "load v p (dir + 20) 2 = Inr hi" "load v p (dir + 26) 2 = Inr lo"
    using l [of 0 1] l [of 11 1] l [of 20 2] l [of 26 2] by auto
  with rest show ?case by (simp add: Let_def)
qed simp

lemma walk_ends:
  assumes "has_sb v" "start < 2 ^ 32" "ssz \<le> 0x1000" "0 < buf_size" "buf_size < 2 ^ 32"
  shows "ends_or E (\<lambda>(whole, w). whole \<longrightarrow> has_sb w) (root_walk n v start cluster ssz buf_size)"
  using assms(1)
proof (induction n arbitrary: v)
  case (Suc n)
  show ?case
    unfolding root_walk.simps Let_def
  proof (rule field_ends [OF Suc.prems])
    fix spc :: nat
    assume spc: "spc < 256 ^ 1"
    define off where "off = (start + (cluster + 2 ^ 32 - 2) mod 2 ^ 32 * spc) * ssz"
    have "(cluster + 2 ^ 32 - 2) mod 2 ^ 32 * spc \<le> 2 ^ 32 * 255"
      using spc by (intro mult_le_mono) auto
    then have "start + (cluster + 2 ^ 32 - 2) mod 2 ^ 32 * spc \<le> 2 ^ 32 + 2 ^ 32 * 255"
      using assms(2) by simp
    from mult_le_mono [OF this assms(3)] have "off \<le> (2 ^ 32 + 2 ^ 32 * 255) * 0x1000"
      unfolding off_def .
    then have o: "off + buf_size < 2 ^ 64"
      using assms(5) by simp
    obtain r w where g: "volume_id_get_buffer v off buf_size = (r, w)"
      by (cases "volume_id_get_buffer v off buf_size")
    have b: "buffered v off buf_size r w"
      using get_buffered [OF _ o assms(4) g] Suc.prems by (simp add: has_sb_def)
    show "ends_or E (\<lambda>(whole, w). whole \<longrightarrow> has_sb w)
      (case volume_id_get_buffer v ((start + (cluster + 2 ^ 32 - 2) mod 2 ^ 32 * spc) * ssz) buf_size of
         (None, v) \<Rightarrow> Inr (False, v)
       | (Some buf, v) \<Rightarrow> bindr (get_attr_volume_id v buf 0 (buf_size div dir_size))
           (\<lambda>label. case label of Some x \<Rightarrow> Inr (True, v)
             | None \<Rightarrow> root_walk n v start cluster ssz buf_size))"
      unfolding off_def [symmetric] g
    proof (cases r)
      case (Some p)
      have w: "has_sb w" "shaped w" "points_to w p buf_size"
        using b Some Suc.prems by (auto simp: buffered_def has_sb_def)
      have "ends_or E (\<lambda>_. True) (get_attr_volume_id w p 0 (buf_size div dir_size))"
        using w(2,3) by (rule attr_ends) simp
      then show "ends_or E (\<lambda>(whole, w). whole \<longrightarrow> has_sb w)
         (case (r, w) of (None, v) \<Rightarrow> Inr (False, v)
          | (Some buf, v) \<Rightarrow> bindr (get_attr_volume_id v buf 0 (buf_size div dir_size))
           (\<lambda>label. case label of Some x \<Rightarrow> Inr (True, v)
             | None \<Rightarrow> root_walk n v start cluster ssz buf_size))"
        using Some w(1) Suc.IH [OF w(1)]
        by (auto intro: ends_or_bind split: option.splits)
    qed simp
  qed simp
qed simp

lemma root_ends:
  assumes "has_sb v" "ssz \<le> 0x1000" "0 < ssz"
    and spc: "load v (SB 0) 14 1 = Inr bs" "little bs \<noteq> 0" "little bs < 256"
  shows "ends_or E (\<lambda>_. True) (probe_root v reserved fat ssz)"
proof -
  obtain rc where rc: "load v (SB 0) 48 4 = Inr rc"
    using load_sb [OF assms(1), of 48 4] by auto
  have size: "little bs * ssz \<le> 256 * 0x1000"
    using assms(2) spc(3) by (intro mult_le_mono) auto
  have walk: "ends_or E (\<lambda>(whole, w). whole \<longrightarrow> has_sb w)
      (root_walk 99 v ((reserved + fat) mod 2 ^ 32) (little rc) ssz (little bs * ssz))"
    using assms(1-3) spc(2) size by (intro walk_ends) auto
  show ?thesis
    unfolding probe_root_def field_def vs_offsets type_offsets spc(1) rc bindr.simps
    by (rule ends_or_bind [OF walk]) (auto split: prod.splits option.splits)
qed

text \<open>The one division that nothing guards is that by the sectors per cluster.\<close>

abbreviation accepted_size :: "nat \<Rightarrow> bool" where
  "accepted_size ssz \<equiv> ssz \<in> {0x200, 0x400, 0x800, 0x1000}"

lemma geometry_Inl:
  assumes "has_sb v" and "load v (SB 0) 12 2 = Inr zs" and "load v (SB 0) 14 1 = Inr ss"
  shows "probe_geometry v = Inl e \<longleftrightarrow> e = DivByZero \<and> accepted_size (little zs) \<and> little ss = 0"
proof -
  note l = load_sb [OF assms(1)]
  obtain rs se ts fl f32 fa de where r: "load v (SB 0) 16 2 = Inr rs" "load v (SB 0) 22 2 = Inr se"
    "load v (SB 0) 36 4 = Inr ts" "load v (SB 0) 26 2 = Inr fl" "load v (SB 0) 40 4 = Inr f32"
    "load v (SB 0) 18 1 = Inr fa" "load v (SB 0) 20 2 = Inr de"
    using l [of 16 2] l [of 22 2] l [of 36 4] l [of 26 2] l [of 40 4] l [of 18 1] l [of 20 2] by auto
  have "length ss = 1" using l [of 14 1] assms(3) by simp
  then have ss: "little ss < 256" using little_less [of ss] by simp
  have "ends_or {} (\<lambda>_. True) (probe_root v a b z)"
    if "0 < little ss" "accepted_size z" for a b z
    using that by (intro root_ends [OF assms(1) _ _ assms(3) _ ss]) auto
  then have root: "probe_root v a b z \<noteq> Inl e"
    if "0 < little ss" "z = 0x200 \<or> z = 0x400 \<or> z = 0x800 \<or> z = 0x1000" for a b z
    using that by (intro ends_or_empty) auto
  show ?thesis
    unfolding probe_geometry_def field_def vs_offsets type_offsets r assms(2,3) bindr.simps Let_def divr_def
    by (cases "little ss = 0") (auto simp: root)
qed

lemma get_first:
  assumes "volume_id_get_buffer (fresh_volume io) 0 0x200 = (r, v)"
  shows "r = None \<or> r = Some (SB 0) \<and> has_sb v \<and> 0x200 \<le> length (image io) \<and>
    (\<forall>i n. i + n \<le> 0x200 \<longrightarrow> load v (SB 0) i n = Inr (take n (drop i (image io))))"
proof (cases r)
  case (Some p)
  have b: "buffered (fresh_volume io) 0 0x200 r v"
    by (rule get_buffered [OF fresh_ok(1) _ _ assms]) simp_all
  have p: "p = SB 0"
    using assms Some
    by (auto simp: volume_id_get_buffer_def u64_add_def SB_BUFFER_SIZE_def fresh_volume_def do_read_def
        give_up_def Let_def split: if_splits option.splits prod.splits)
  have v: "has_sb v" and len: "0x200 \<le> length (image io)"
    and all: "load v (SB 0) 0 0x200 = Inr (take 0x200 (image io))"
    using b Some p fresh_ok by (auto simp: buffered_def has_sb_def points_to_def)
  obtain c where c: "sbbuf v = Some c" "length c = SB_BUFFER_SIZE"
    using v by (auto simp: has_sb_def shaped_def)
  have "take 0x200 c = take 0x200 (image io)"
    using all c by (simp add: load_def SB_BUFFER_SIZE_def)
  then have "load v (SB 0) i n = Inr (take n (drop i (image io)))" if "i + n \<le> 0x200" for i n
    using c that take_drop_take [OF that] by (simp add: load_def SB_BUFFER_SIZE_def)
  with Some p v len show ?thesis by simp
qed simp

text \<open>The store of the magic number leaves the fields in front of it alone.\<close>

lemma after_magic:
  assumes "has_sb v"
  shows "\<exists>w. store_sb v 86 (bytes ''FAT32   '') = Inr w \<and> has_sb w \<and>
    (\<forall>i n. i + n \<le> 86 \<longrightarrow> load w (SB 0) i n = load v (SB 0) i n)"
proof -
  obtain b where b: "sbbuf v = Some b" "length b = SB_BUFFER_SIZE"
    using assms by (auto simp: has_sb_def shaped_def)
  define w where "w = v\<lparr>sbbuf := Some (take 86 b @ bytes ''FAT32   '' @ drop 94 b)\<rparr>"
  have "store_sb v 86 (bytes ''FAT32   '') = Inr w"
    using b by (simp add: store_sb_def w_def SB_BUFFER_SIZE_def)
  moreover have "has_sb w"
    using assms b
    by (auto simp: has_sb_def shaped_def w_def SB_BUFFER_SIZE_def split: option.splits)
  moreover have "load w (SB 0) i n = load v (SB 0) i n" if "i + n \<le> 86" for i n
    using that b by (simp add: load_def w_def SB_BUFFER_SIZE_def drop_take min_def) arith
  ultimately show ?thesis by blast
qed

lemma magic_kept:
  assumes "has_sb v" and "store_sb v 86 bs = Inr w" and "length bs = 8"
  shows "load w (SB 0) 86 8 = Inr bs"
proof -
  obtain b where "sbbuf v = Some b" "length b = SB_BUFFER_SIZE"
    using assms(1) by (auto simp: has_sb_def shaped_def)
  with assms(2,3) show ?thesis by (auto simp: store_sb_def load_def SB_BUFFER_SIZE_def)
qed

lemma looks_after_magic:
  assumes "has_sb w" and "load w (SB 0) 86 8 = Inr (bytes ''FAT32   '')" and "load w (SB 0) 3 4 = Inr n"
  shows "looks_like_fat w = Inr (n \<noteq> bytes ''NTFS'')"
  using assms by (auto simp: looks_like_fat_def)

text \<open>
  C24: For every device content and every way in which its reads end, the probe returns, and it
  reads and writes only inside its buffers, with one exception, and that is when exactly: the first
  sector can be read, is not one of NTFS, has a sector size that the probe accepts, and zero sectors
  per cluster. Then it divides by zero.
\<close>
theorem blkid_probe_safe:
  "volume_id_probe_vfat (fresh_volume io) = Inl e \<longleftrightarrow>
     e = DivByZero \<and> fst (volume_id_get_buffer (fresh_volume io) 0 0x200) \<noteq> None \<and>
     take 4 (drop 3 (image io)) \<noteq> bytes ''NTFS'' \<and>
     little (take 2 (drop 12 (image io))) \<in> {0x200, 0x400, 0x800, 0x1000} \<and> image io ! 14 = 0"
proof -
  obtain r v where g: "volume_id_get_buffer (fresh_volume io) 0 0x200 = (r, v)"
    by (cases "volume_id_get_buffer (fresh_volume io) 0 0x200")
  show ?thesis
  proof (cases r)
    case None
    with g show ?thesis by (simp add: volume_id_probe_vfat_def)
  next
    case (Some p)
    with get_first [OF g] have v: "has_sb v" and len: "0x200 \<le> length (image io)"
      and l: "\<forall>i n. i + n \<le> 0x200 \<longrightarrow> load v (SB 0) i n = Inr (take n (drop i (image io)))" by simp_all
    obtain w where s: "store_sb v 86 (bytes ''FAT32   '') = Inr w" and w: "has_sb w"
      and lw: "\<forall>i n. i + n \<le> 86 \<longrightarrow> load w (SB 0) i n = load v (SB 0) i n"
      using after_magic [OF v] by blast
    have at: "load w (SB 0) 12 2 = Inr (take 2 (drop 12 (image io)))" "load w (SB 0) 14 1 = Inr (take 1 (drop 14 (image io)))"
      "load w (SB 0) 3 4 = Inr (take 4 (drop 3 (image io)))" using l lw by simp_all
    have "drop 14 (image io) = image io ! 14 # drop 15 (image io)"
      using len by (simp add: Cons_nth_drop_Suc eval_nat_numeral)
    then have one: "little (take 1 (drop 14 (image io))) = 0 \<longleftrightarrow> image io ! 14 = 0" by (simp add: unsigned_eq_0_iff)
    have "looks_like_fat w = Inr (take 4 (drop 3 (image io)) \<noteq> bytes ''NTFS'')"
      using looks_after_magic [OF w magic_kept [OF v s] at(3)] by simp
    with g Some s geometry_Inl [OF w at(1,2), of e] one show ?thesis
      by (simp add: volume_id_probe_vfat_def)
  qed
qed

lemma geometry_bad:
  assumes "load w (SB 0) 12 2 = Inr bs" "little bs \<notin> {0x200, 0x400, 0x800, 0x1000}"
  shows "probe_geometry w = Inr (- 1, w)"
proof -
  have f: "field w 12 2 k = k (little bs)" for k :: "nat \<Rightarrow> (int \<times> volume_id) ck"
    by (simp add: field_def assms(1))
  show ?thesis unfolding probe_geometry_def vs_offsets f by (rule if_P) (use assms(2) in simp)
qed

lemma accepted_shift:
  assumes "little [a, b] \<in> {0x200, 0x400, 0x800, 0x1000}"
  shows "little [b, c] \<notin> {0x200, 0x400, 0x800, 0x1000}"
proof
  assume m: "little [b, c] \<in> {0x200, 0x400, 0x800, 0x1000}"
  define n where "n = little [b, c]"
  from m have "n mod 256 = 0" unfolding n_def [symmetric] by auto
  then have "unat b mod 256 = 0" by (simp add: n_def)
  moreover have "unat b < 256" "unat a < 256"
    using unsigned_less [of a] unsigned_less [of b] by simp_all
  ultimately have "unat b = 0" by simp
  with assms \<open>unat a < 256\<close> show False by auto
qed

text \<open>
  The probe rejects every FAT volume. The superblock structure is not packed, so the sector
  size is read one byte too far: a volume whose sector size, in the place where FAT has it, is one
  of the four that the probe accepts never passes, however its reads end.
\<close>
theorem blkid_rejects_fat:
  assumes "little (take 2 (drop 11 (image io))) \<in> {0x200, 0x400, 0x800, 0x1000}"
  shows "\<exists>v. volume_id_probe_vfat (fresh_volume io) = Inr (- 1, v)"
proof -
  obtain r v where g: "volume_id_get_buffer (fresh_volume io) 0 0x200 = (r, v)"
    by (cases "volume_id_get_buffer (fresh_volume io) 0 0x200")
  show ?thesis
  proof (cases r)
    case None
    with g show ?thesis by (simp add: volume_id_probe_vfat_def)
  next
    case (Some p)
    with get_first [OF g] have v: "has_sb v" and len: "0x200 \<le> length (image io)"
      and l: "load v (SB 0) 12 2 = Inr (take 2 (drop 12 (image io)))" by auto
    obtain w where s: "store_sb v 86 (bytes ''FAT32   '') = Inr w" and w: "has_sb w"
      "load w (SB 0) 12 2 = Inr (take 2 (drop 12 (image io)))"
      using after_magic [OF v] l by auto
    have "drop 11 (image io) = image io ! 11 # image io ! 12 # image io ! 13 # drop 14 (image io)"
      using len by (simp add: Cons_nth_drop_Suc eval_nat_numeral)
    then have first: "take 2 (drop 11 (image io)) = [image io ! 11, image io ! 12]"
      by simp
    have "drop 12 (image io) = image io ! 12 # image io ! 13 # drop 14 (image io)"
      using len by (simp add: Cons_nth_drop_Suc eval_nat_numeral)
    then have "take 2 (drop 12 (image io)) = [image io ! 12, image io ! 13]"
      by simp
    then have "little (take 2 (drop 12 (image io))) \<notin> {0x200, 0x400, 0x800, 0x1000}"
      using assms first accepted_shift by metis
    with w(2) have geo: "probe_geometry w = Inr (- 1, w)"
      by (rule geometry_bad)
    obtain valid where "looks_like_fat w = Inr valid"
      using looks_ends [OF w(1), of "{}"] by (cases "looks_like_fat w") auto
    with g Some s geo show ?thesis
      by (simp add: volume_id_probe_vfat_def)
  qed
qed

theorem blkid_rejects_fat_witness:
  "\<exists>v. volume_id_probe_vfat (fresh_volume \<lparr>image = replicate 12 0 @ 2 # replicate 499 1,
     position = 0, script = [Cut 5], seekable = True\<rparr>) = Inr (- 1, v)"
  by (rule blkid_rejects_fat) simp

end
