(* ===== verification/SensorReader.thy ===== *)
theory SensorReader
  imports Prelude Checked
begin

text \<open>
  The circular buffer of input events of the sensor module
  (\<open>testcode/android/libsensors/InputEventReader.cpp\<close>), and its refinement of a bounded queue.

  Pointers into the buffer are indices. A cell that was never written is \<open>None\<close>, and so is a
  use of it; the device is the list of what successive calls of \<open>read\<close> find, and a call that
  finds nothing blocks, since the descriptors are in blocking mode.
\<close>

subsection \<open>Events and the device\<close>

record input_event =
  ie_sec :: int
  ie_usec :: int
  ie_type :: int
  ie_code :: int
  ie_value :: int

text \<open>Why a call has no result: it leaves an array, it waits for ever, or it loops for ever.\<close>

datatype hal_stop = OutOfArray | Blocks | Spins

type_synonym 'a hal = "hal_stop + 'a"

text \<open>\<open>read\<close> fails with an error number, delivers part of an event, or whole events.\<close>

datatype dev_read = ReadFails nat | ReadPart | ReadEvents "input_event list"

fun read_dev :: "nat \<Rightarrow> dev_read list \<Rightarrow> (dev_read \<times> dev_read list) hal" where
  "read_dev n [] = Inl Blocks"
| "read_dev n (ReadEvents es # ds) =
     (if length es \<le> n then Inr (ReadEvents es, ds)
      else Inr (ReadEvents (take n es), ReadEvents (drop n es) # ds))"
| "read_dev n (d # ds) = Inr (d, ds)"

definition EINVAL :: int where
  "EINVAL = 22"

subsection \<open>The buffer\<close>

record InputEventCircularReader =
  mBuffer :: "input_event option list"
  mBufferEnd :: nat
  mHead :: nat
  mCurr :: nat
  mFreeSpace :: nat

definition new_InputEventCircularReader :: "nat \<Rightarrow> InputEventCircularReader" where
  "new_InputEventCircularReader numEvents =
     \<lparr>mBuffer = replicate (numEvents * 2) None, mBufferEnd = numEvents, mHead = 0, mCurr = 0,
      mFreeSpace = numEvents\<rparr>"

text \<open>Storing what was read at the head, and moving what lies behind the end to the front.\<close>

definition fill_store :: "InputEventCircularReader \<Rightarrow> input_event list \<Rightarrow> InputEventCircularReader hal" where
  "fill_store r es =
     (case mem_write (mBuffer r) (mHead r) (map Some es) of
        None \<Rightarrow> Inl OutOfArray
      | Some b \<Rightarrow>
          (let h = mHead r + length es; free = mFreeSpace r - length es
           in if mBufferEnd r < h then
                (let s = h - mBufferEnd r
                 in case mem_read b (mBufferEnd r) s of
                      None \<Rightarrow> Inl OutOfArray
                    | Some moved \<Rightarrow>
                        (case mem_write b 0 moved of
                           None \<Rightarrow> Inl OutOfArray
                         | Some b' \<Rightarrow> Inr (r\<lparr>mBuffer := b', mHead := s, mFreeSpace := free\<rparr>)))
              else Inr (r\<lparr>mBuffer := b, mHead := h, mFreeSpace := free\<rparr>)))"

definition fill ::
  "InputEventCircularReader \<Rightarrow> dev_read list \<Rightarrow> (int \<times> InputEventCircularReader \<times> dev_read list) hal" where
  "fill r dev =
     (if mFreeSpace r = 0 then Inr (0, r, dev)
      else bindr (read_dev (mFreeSpace r) dev) (\<lambda>(got, dev').
        case got of
          ReadFails e \<Rightarrow> Inr (- int e, r, dev')
        | ReadPart \<Rightarrow> Inr (- EINVAL, r, dev')
        | ReadEvents es \<Rightarrow>
            if es = [] then Inr (0, r, dev')
            else bindr (fill_store r es) (\<lambda>r'. Inr (int (length es), r', dev'))))"

text \<open>The position of the next event, and whether there is one.\<close>

definition readEvent :: "InputEventCircularReader \<Rightarrow> nat \<times> bool" where
  "readEvent r = (mCurr r, mBufferEnd r \<noteq> mFreeSpace r)"

definition next_event :: "InputEventCircularReader \<Rightarrow> InputEventCircularReader" where
  "next_event r =
     (let c = mCurr r + 1
      in r\<lparr>mCurr := if mBufferEnd r \<le> c then 0 else c, mFreeSpace := mFreeSpace r + 1\<rparr>)"

text \<open>Using the pointer that \<open>readEvent\<close> gave.\<close>

definition event_at :: "InputEventCircularReader \<Rightarrow> nat \<Rightarrow> input_event hal" where
  "event_at r p =
     (if p < length (mBuffer r)
      then case mBuffer r ! p of None \<Rightarrow> Inl OutOfArray | Some e \<Rightarrow> Inr e
      else Inl OutOfArray)"

subsection \<open>The queue it implements\<close>

text \<open>\<open>holds r es\<close>: the buffer is sound and its unread events, oldest first, are \<open>es\<close>.\<close>

definition holds :: "InputEventCircularReader \<Rightarrow> input_event list \<Rightarrow> bool" where
  "holds r es \<longleftrightarrow>
     length (mBuffer r) = 2 * mBufferEnd r \<and> mCurr r < mBufferEnd r \<and> mHead r \<le> mBufferEnd r \<and>
     mFreeSpace r + length es = mBufferEnd r \<and>
     (mCurr r + length es) mod mBufferEnd r = mHead r mod mBufferEnd r \<and>
     (\<forall>i < length es. mBuffer r ! ((mCurr r + i) mod mBufferEnd r) = Some (es ! i))"

lemma holds_new: "0 < n \<Longrightarrow> holds (new_InputEventCircularReader n) []"
  by (simp add: holds_def new_InputEventCircularReader_def)

lemma holds_readEvent: "holds r es \<Longrightarrow> readEvent r = (mCurr r, es \<noteq> [])"
  by (cases es) (auto simp: holds_def readEvent_def)

lemma holds_event_at: "holds r (e # es) \<Longrightarrow> event_at r (mCurr r) = Inr e"
proof -
  assume h: "holds r (e # es)"
  then have "mBuffer r ! ((mCurr r + 0) mod mBufferEnd r) = Some ((e # es) ! 0)"
    unfolding holds_def by blast
  with h show ?thesis by (simp add: event_at_def holds_def)
qed

lemma next_event_end [simp]: "mBufferEnd (next_event r) = mBufferEnd r"
  by (simp add: next_event_def Let_def)

lemma holds_next: "holds r (e # es) \<Longrightarrow> holds (next_event r) es"
proof -
  assume h: "holds r (e # es)"
  then have N: "mCurr r < mBufferEnd r" by (simp add: holds_def)
  have c: "mCurr (next_event r) = Suc (mCurr r) mod mBufferEnd r"
    using N by (cases "mBufferEnd r = Suc (mCurr r)") (auto simp: next_event_def Let_def)
  have "mBuffer r ! ((Suc (mCurr r) mod mBufferEnd r + i) mod mBufferEnd r) = Some (es ! i)"
    if "i < length es" for i
  proof -
    have "mBuffer r ! ((mCurr r + Suc i) mod mBufferEnd r) = Some ((e # es) ! Suc i)"
      using h that unfolding holds_def by (metis Suc_less_eq length_Cons)
    then show ?thesis by (simp add: mod_simps)
  qed
  moreover have "(Suc (mCurr r) mod mBufferEnd r + length es) mod mBufferEnd r = mHead r mod mBufferEnd r"
    using h by (simp add: holds_def mod_simps)
  moreover have "mBuffer (next_event r) = mBuffer r" "mHead (next_event r) = mHead r"
      "mBufferEnd (next_event r) = mBufferEnd r" "mFreeSpace (next_event r) = Suc (mFreeSpace r)"
    by (simp_all add: next_event_def Let_def)
  ultimately show ?thesis
    using h N by (simp add: holds_def c)
qed

text \<open>Positions in the buffer: taking a remainder is at most one subtraction.\<close>

lemma ring_position: "c < N \<Longrightarrow> i < N \<Longrightarrow> (c + i) mod N = (if c + i < N then c + i else c + i - N)" for c i N :: nat
  by (simp add: le_mod_geq)

lemma ring_head:
  fixes c n h N :: nat
  assumes "c < N" "n \<le> N" "h \<le> N" "(c + n) mod N = h mod N"
  shows "h = c + n \<or> h + N = c + n \<or> h = N \<and> c + n = 0"
proof -
  have "(c + n) mod N = (if c + n < N then c + n else c + n - N)"
    using assms(1,2) by (simp add: le_mod_geq)
  moreover have "h mod N = (if h = N then 0 else h)" using assms(3) by simp
  ultimately show ?thesis using assms by (auto split: if_splits)
qed

text \<open>What the stores of \<open>fill\<close> leave in the first half of the buffer.\<close>

definition ring_written :: "nat \<Rightarrow> nat \<Rightarrow> 'a list \<Rightarrow> 'a option list \<Rightarrow> 'a option list \<Rightarrow> bool" where
  "ring_written N h evs m m' \<longleftrightarrow> (\<forall>p < N. m' ! p =
     (if h \<le> p \<and> p < h + length evs then Some (evs ! (p - h))
      else if p + N < h + length evs then Some (evs ! (p + N - h)) else m ! p))"

lemma ring_written_keeps:
  assumes "ring_written N h evs m m'" and "c < N" and "h \<le> N" and "h = c + n \<or> h + N = c + n \<or> h = N \<and> c + n = 0"
    and "i < n" and "n + length evs \<le> N"
  shows "m' ! ((c + i) mod N) = m ! ((c + i) mod N)"
proof -
  let ?p = "(c + i) mod N"
  have p: "?p = (if c + i < N then c + i else c + i - N)" using assms by (intro ring_position) auto
  then have "?p < N" using assms by (auto split: if_splits)
  moreover have "\<not> (h \<le> ?p \<and> ?p < h + length evs)" "\<not> ?p + N < h + length evs"
    using assms(2-) unfolding p by (auto split: if_splits)
  ultimately show ?thesis using assms(1) by (auto simp: ring_written_def)
qed

lemma ring_written_adds:
  assumes "ring_written N h evs m m'" and "c < N" and "h \<le> N" and "h = c + n \<or> h + N = c + n \<or> h = N \<and> c + n = 0"
    and "j < length evs" and "n + length evs \<le> N"
  shows "m' ! ((c + (n + j)) mod N) = Some (evs ! j)"
proof -
  let ?p = "(c + (n + j)) mod N"
  have p: "?p = (if c + (n + j) < N then c + (n + j) else c + (n + j) - N)"
    using assms by (intro ring_position) auto
  then have "?p < N" using assms by (auto split: if_splits)
  moreover have "h \<le> ?p \<and> ?p < h + length evs \<and> ?p - h = j \<or>
      \<not> (h \<le> ?p \<and> ?p < h + length evs) \<and> ?p + N < h + length evs \<and> ?p + N - h = j"
    using assms(2-) unfolding p by (auto split: if_splits)
  ultimately show ?thesis using assms(1) by (auto simp: ring_written_def)
qed

lemma fill_store_written:
  assumes "holds r es" and "length evs \<le> mFreeSpace r"
  shows "\<exists>r'. fill_store r evs = Inr r' \<and>
    ring_written (mBufferEnd r) (mHead r) evs (mBuffer r) (mBuffer r') \<and>
    length (mBuffer r') = length (mBuffer r) \<and> mBufferEnd r' = mBufferEnd r \<and> mCurr r' = mCurr r \<and>
    mFreeSpace r' = mFreeSpace r - length evs \<and> mHead r' \<le> mBufferEnd r \<and>
    mHead r' mod mBufferEnd r = (mHead r + length evs) mod mBufferEnd r"
proof -
  let ?N = "mBufferEnd r" and ?h = "mHead r" and ?m = "mBuffer r"
  have len: "length ?m = 2 * ?N" "?h \<le> ?N" "mFreeSpace r \<le> ?N" "?h + length evs \<le> length ?m"
    using assms by (auto simp: holds_def)
  define b where "b = take ?h ?m @ map Some evs @ drop (?h + length evs) ?m"
  have w: "mem_write ?m ?h (map Some evs) = Some b"
    using len(4) by (simp add: b_def)
  have lb: "length b = 2 * ?N" using len by (simp add: b_def)
  have nb: "b ! p = (if ?h \<le> p \<and> p < ?h + length evs then Some (evs ! (p - ?h)) else ?m ! p)"
    if "p < 2 * ?N" for p
    using that len by (auto simp: b_def nth_append min_def not_less)
  show ?thesis
  proof (cases "?N < ?h + length evs")
    case True
    define s where "s = ?h + length evs - ?N"
    have s: "s \<le> ?N" using len assms(2) by (simp add: s_def)
    have rd: "mem_read b ?N s = Some (take s (drop ?N b))"
      using s lb by simp
    have wb: "mem_write b 0 (take s (drop ?N b)) = Some (take s (drop ?N b) @ drop s b)"
      using s lb by (simp add: min_def)
    have nb': "(take s (drop ?N b) @ drop s b) ! p = (if p < s then b ! (p + ?N) else b ! p)" if "p < ?N" for p
      using that s lb by (auto simp: nth_append add.commute)
    have "ring_written ?N ?h evs ?m (take s (drop ?N b) @ drop s b)"
      unfolding ring_written_def using nb nb' s True len(2) assms(2) len(3)
      by (auto simp: s_def)
    moreover have "(?h + length evs - ?N) mod ?N = (?h + length evs) mod ?N"
      using True by (simp add: le_mod_geq)
    ultimately show ?thesis
      using w rd wb s lb len True by (auto simp: fill_store_def Let_def s_def [symmetric])
  next
    case False
    have "ring_written ?N ?h evs ?m b"
      unfolding ring_written_def using nb False len(2) by auto
    then show ?thesis
      using w False lb len by (simp add: fill_store_def)
  qed
qed

lemma holds_fill_store:
  assumes "holds r es" and "length evs \<le> mFreeSpace r"
  shows "\<exists>r'. fill_store r evs = Inr r' \<and> holds r' (es @ evs) \<and> mBufferEnd r' = mBufferEnd r"
proof -
  obtain r' where r': "fill_store r evs = Inr r'"
      "ring_written (mBufferEnd r) (mHead r) evs (mBuffer r) (mBuffer r')"
      "length (mBuffer r') = length (mBuffer r)" "mBufferEnd r' = mBufferEnd r" "mCurr r' = mCurr r"
      "mFreeSpace r' = mFreeSpace r - length evs" "mHead r' \<le> mBufferEnd r"
      "mHead r' mod mBufferEnd r = (mHead r + length evs) mod mBufferEnd r"
    using fill_store_written [OF assms] by blast
  have c: "mCurr r < mBufferEnd r" and le: "mHead r \<le> mBufferEnd r"
    and n: "length es + length evs \<le> mBufferEnd r"
    using assms by (auto simp: holds_def)
  have h: "mHead r = mCurr r + length es \<or> mHead r + mBufferEnd r = mCurr r + length es \<or>
      mHead r = mBufferEnd r \<and> mCurr r + length es = 0"
    using assms n by (intro ring_head) (auto simp: holds_def)
  have "(mCurr r + length (es @ evs)) mod mBufferEnd r = mHead r' mod mBufferEnd r"
    using assms(1) unfolding holds_def r'(8) by (metis add.assoc length_append mod_add_left_eq)
  moreover have "mBuffer r' ! ((mCurr r + i) mod mBufferEnd r) = Some ((es @ evs) ! i)"
    if "i < length (es @ evs)" for i
  proof (cases "i < length es")
    case True
    with ring_written_keeps [OF r'(2) c le h True n] assms(1) show ?thesis
      by (simp add: holds_def nth_append)
  next
    case False
    with that ring_written_adds [OF r'(2) c le h _ n, of "i - length es"] show ?thesis
      by (simp add: nth_append)
  qed
  ultimately show ?thesis
    using assms r' unfolding holds_def by (intro exI [of _ r']) auto
qed

text \<open>The events that a device has yet to deliver, and whether all its reads deliver events.\<close>

definition dev_events :: "dev_read list \<Rightarrow> input_event list" where
  "dev_events dev = concat (map (\<lambda>d. case d of ReadEvents es \<Rightarrow> es | _ \<Rightarrow> []) dev)"

definition dev_good :: "dev_read list \<Rightarrow> bool" where
  "dev_good dev \<longleftrightarrow> list_all (\<lambda>d. case d of ReadEvents es \<Rightarrow> True | _ \<Rightarrow> False) dev"

lemma dev_simps [simp]:
  "dev_events [] = []" "dev_events (ReadEvents es # dev) = es @ dev_events dev"
  "dev_good []" "dev_good (ReadEvents es # dev) = dev_good dev"
  "dev_events (ReadFails e # dev) = dev_events dev" "dev_events (ReadPart # dev) = dev_events dev"
  "\<not> dev_good (ReadFails e # dev)" "\<not> dev_good (ReadPart # dev)"
  by (simp_all add: dev_events_def dev_good_def)

text \<open>The work that is left: reads, and events to read, counted twice.\<close>

fun dev_work :: "dev_read list \<Rightarrow> nat" where
  "dev_work [] = 0"
| "dev_work (ReadEvents es # ds) = 1 + 2 * length es + dev_work ds"
| "dev_work (d # ds) = 1 + dev_work ds"

lemma dev_work_append: "dev_work (xs @ ys) = dev_work xs + dev_work ys"
  by (induction xs rule: dev_work.induct) simp_all

text \<open>
  One call of \<open>fill\<close>: it waits, fails, or moves events from the device to the end of the queue.
\<close>

lemma holds_fill:
  assumes "holds r es" and "fill r dev = q"
  shows "q = Inl Blocks \<and> dev = [] \<or> (\<exists>n dev'. q = Inr (n, r, dev') \<and> n < 0 \<and> \<not> dev_good dev \<and> dev_events dev = dev_events dev') \<or>
    (\<exists>n r' dev' evs. q = Inr (n, r', dev') \<and> 0 \<le> n \<and> holds r' (es @ evs) \<and> mBufferEnd r' = mBufferEnd r \<and>
       dev_events dev = evs @ dev_events dev' \<and> (dev_good dev \<longrightarrow> dev_good dev') \<and>
       (dev \<noteq> [] \<longrightarrow> dev_work dev' + length evs < dev_work dev \<or> dev' = dev \<and> evs = [] \<and> es \<noteq> []))"
proof (cases "mFreeSpace r = 0")
  case True
  with assms(1) have "es \<noteq> []" by (auto simp: holds_def)
  with True assms show ?thesis by (auto simp: fill_def)
next
  case False
  show ?thesis
  proof (cases dev)
    case Nil
    with False assms(2) show ?thesis by (simp add: fill_def)
  next
    case (Cons d ds)
    show ?thesis
    proof (cases d)
      case (ReadEvents xs)
      define got rest where "got = take (mFreeSpace r) xs"
        and "rest = (if length xs \<le> mFreeSpace r then ds else ReadEvents (drop (mFreeSpace r) xs) # ds)"
      have rd: "read_dev (mFreeSpace r) dev = Inr (ReadEvents got, rest)"
        by (simp add: Cons ReadEvents got_def rest_def)
      have ev: "dev_events dev = got @ dev_events rest" "dev_good dev \<longrightarrow> dev_good rest"
        by (auto simp: Cons ReadEvents got_def rest_def)
      obtain r' where "fill_store r got = Inr r'" "holds r' (es @ got)" "mBufferEnd r' = mBufferEnd r"
        using holds_fill_store [OF assms(1), of got] by (auto simp: got_def)
      then have "\<exists>n r'. q = Inr (n, r', rest) \<and> 0 \<le> n \<and> holds r' (es @ got) \<and> mBufferEnd r' = mBufferEnd r"
        using False rd assms by (auto simp: fill_def)
      moreover have "dev_work rest + length got < dev_work dev"
        using False by (auto simp: Cons ReadEvents got_def rest_def)
      ultimately show ?thesis using ev by blast
    next
      case (ReadFails e)
      have "q = Inr (- int e, r, ds) \<and> dev_events dev = dev_events ds"
        using False Cons ReadFails assms(2) by (auto simp: fill_def)
      then show ?thesis using assms(1) Cons ReadFails by (cases e) (auto intro!: exI [of _ "[]"])
    next
      case ReadPart
      then show ?thesis using False Cons assms(2) by (auto simp: fill_def EINVAL_def)
    qed
  qed
qed

subsection \<open>Use of the buffer\<close>

text \<open>
  Its user fills it from one read, or asks for an event and, if there is one, uses it and goes on
  to the next. What the user sees of a sequence of such operations.
\<close>

datatype ring_op = Fill dev_read | Take

datatype ring_obs = Filled int | Taken "input_event option"

fun ring_run :: "InputEventCircularReader \<Rightarrow> ring_op list \<Rightarrow> ring_obs list hal" where
  "ring_run r [] = Inr []"
| "ring_run r (Fill d # xs) =
     bindr (fill r [d]) (\<lambda>(n, r', _). bindr (ring_run r' xs) (\<lambda>out. Inr (Filled n # out)))"
| "ring_run r (Take # xs) =
     (case readEvent r of (p, available) \<Rightarrow>
        if available then
          bindr (event_at r p) (\<lambda>e. bindr (ring_run (next_event r) xs) (\<lambda>out. Inr (Taken (Some e) # out)))
        else bindr (ring_run r xs) (\<lambda>out. Inr (Taken None # out)))"

text \<open>The same of a queue of at most \<open>N\<close> events.\<close>

fun queue_fill :: "nat \<Rightarrow> dev_read \<Rightarrow> int \<times> input_event list" where
  "queue_fill room (ReadFails e) = (if room = 0 then 0 else - int e, [])"
| "queue_fill room ReadPart = (if room = 0 then 0 else - EINVAL, [])"
| "queue_fill room (ReadEvents es) = (int (min room (length es)), take room es)"

fun queue_run :: "nat \<Rightarrow> input_event list \<Rightarrow> ring_op list \<Rightarrow> ring_obs list" where
  "queue_run N q [] = []"
| "queue_run N q (Fill d # xs) =
     (case queue_fill (N - length q) d of (n, new) \<Rightarrow> Filled n # queue_run N (q @ new) xs)"
| "queue_run N q (Take # xs) =
     (case q of [] \<Rightarrow> Taken None # queue_run N [] xs | e # q' \<Rightarrow> Taken (Some e) # queue_run N q' xs)"

lemma holds_room: "holds r q \<Longrightarrow> mFreeSpace r = mBufferEnd r - length q"
  by (metis holds_def diff_add_inverse2)

lemma fill_queue:
  assumes "holds r q"
  shows "\<exists>r' dev'. fill r [d] = Inr (fst (queue_fill (mFreeSpace r) d), r', dev') \<and>
    holds r' (q @ snd (queue_fill (mFreeSpace r) d)) \<and> mBufferEnd r' = mBufferEnd r"
proof (cases "mFreeSpace r = 0")
  case True
  with assms show ?thesis by (cases d) (auto simp: fill_def)
next
  case False
  show ?thesis
  proof (cases d)
    case (ReadEvents es)
    let ?got = "take (mFreeSpace r) es"
    obtain r' where r': "fill_store r ?got = Inr r'" "holds r' (q @ ?got)" "mBufferEnd r' = mBufferEnd r"
      using holds_fill_store [OF assms, of ?got] by auto
    show ?thesis
    proof (cases "es = []")
      case True
      with False assms ReadEvents show ?thesis by (auto simp: fill_def)
    next
      case nonempty: False
      show ?thesis
      proof (cases "length es \<le> mFreeSpace r")
        case True
        with r' False nonempty ReadEvents show ?thesis by (auto simp: fill_def)
      next
        case long: False
        then have "?got \<noteq> []" using nonempty False by simp
        with r' False long ReadEvents show ?thesis by (auto simp: fill_def min_def)
      qed
    qed
  qed (use False assms in \<open>auto simp: fill_def\<close>)
qed

lemma ring_queue: "holds r q \<Longrightarrow> ring_run r xs = Inr (queue_run (mBufferEnd r) q xs)"
proof (induction xs arbitrary: r q)
  case (Cons x xs)
  show ?case
  proof (cases x)
    case (Fill d)
    obtain r' dev' where f: "fill r [d] = Inr (fst (queue_fill (mFreeSpace r) d), r', dev')"
        "holds r' (q @ snd (queue_fill (mFreeSpace r) d))" "mBufferEnd r' = mBufferEnd r"
      using fill_queue [OF Cons.prems] by blast
    show ?thesis
      using Fill f Cons.IH [OF f(2)] by (simp add: holds_room [OF Cons.prems] split: prod.split)
  next
    case Take
    show ?thesis
    proof (cases q)
      case Nil
      with Take Cons show ?thesis by (simp add: holds_readEvent)
    next
      case (Cons e q')
      note h = \<open>holds r q\<close> [unfolded Cons]
      show ?thesis
        using Take Cons Cons.IH [OF holds_next [OF h]] by (simp add: holds_readEvent [OF h] holds_event_at [OF h])
    qed
  qed
qed simp

text \<open>
  C19: The circular buffer is a queue: whatever it is filled with, in whatever pieces, and however
  taking is mixed with filling, a new buffer for \<open>N\<close> events shows its user exactly what a
  bounded first-in first-out queue shows, and never leaves its memory or uses a cell that was
  not written.
\<close>

theorem sensor_buffer_is_queue:
  assumes "0 < N"
  shows "ring_run (new_InputEventCircularReader N) xs = Inr (queue_run N [] xs)"
  using ring_queue [OF holds_new [OF assms]] by (simp add: new_InputEventCircularReader_def)

definition ex_event :: "int \<Rightarrow> input_event" where
  "ex_event v = \<lparr>ie_sec = 1, ie_usec = 0, ie_type = 3, ie_code = 0, ie_value = v\<rparr>"

lemma sensor_buffer_is_queue_witness:
  "ring_run (new_InputEventCircularReader 2)
      [Fill (ReadEvents [ex_event 1]), Take, Fill (ReadEvents [ex_event 2, ex_event 3, ex_event 4]), Take, Take, Take] =
     Inr [Filled 1, Taken (Some (ex_event 1)), Filled 2, Taken (Some (ex_event 2)), Taken (Some (ex_event 3)), Taken None]"
  by (subst sensor_buffer_is_queue) simp_all

end
