(* ===== verification/SensorDrivers.thy ===== *)
theory SensorDrivers
  imports SensorReader Float32
begin

text \<open>
  The sensor classes of \<open>testcode/android/libsensors\<close>: \<open>SensorBase\<close> and its subclasses for the
  accelerometer, the magnetometer with the orientation, the barometer with the thermometer and
  the gyroscope. Every class is its own group of operations, as in the code; the loop that all
  of them repeat is shared.

  The constants of the header \<open>hardware/sensors.h\<close>, which is not in the repository, are the
  record \<open>android\<close>. The arrays of a class are functions of the index; the classes with one
  sensor use index 0. \<open>float\<close> arithmetic rounds every operation.
\<close>

subsection \<open>Constants\<close>

record android =
  sizeof_sensors_event :: int
  GRAVITY_EARTH :: rat
  SENSOR_TYPE_ACCELEROMETER :: int
  SENSOR_TYPE_MAGNETIC_FIELD :: int
  SENSOR_TYPE_ORIENTATION :: int
  SENSOR_TYPE_GYROSCOPE :: int
  SENSOR_TYPE_PRESSURE :: int
  SENSOR_TYPE_TEMPERATURE :: int
  SENSOR_STATUS_ACCURACY_LOW :: int
  SENSOR_STATUS_ACCURACY_HIGH :: int

definition ID_A :: int where "ID_A = 0"
definition ID_M :: int where "ID_M = 1"
definition ID_O :: int where "ID_O = 2"
definition ID_GY :: int where "ID_GY = 3"
definition ID_L :: int where "ID_L = 4"
definition ID_P :: int where "ID_P = 5"
definition ID_T :: int where "ID_T = 6"
definition ID_PX :: int where "ID_PX = 7"

lemmas sensor_ids = ID_A_def ID_M_def ID_O_def ID_GY_def ID_L_def ID_P_def ID_T_def ID_PX_def

text \<open>The event types and codes of \<open>linux/input.h\<close>.\<close>

definition EV_SYN :: int where "EV_SYN = 0"
definition EV_KEY :: int where "EV_KEY = 1"
definition EV_REL :: int where "EV_REL = 2"
definition EV_ABS :: int where "EV_ABS = 3"
definition ABS_X :: int where "ABS_X = 0"
definition ABS_Y :: int where "ABS_Y = 1"
definition ABS_Z :: int where "ABS_Z = 2"
definition ABS_RX :: int where "ABS_RX = 3"
definition ABS_RY :: int where "ABS_RY = 4"
definition ABS_RZ :: int where "ABS_RZ = 5"
definition ABS_WHEEL :: int where "ABS_WHEEL = 8"
definition ABS_PRESSURE :: int where "ABS_PRESSURE = 24"
definition ABS_MISC :: int where "ABS_MISC = 40"

lemmas input_consts = EV_SYN_def EV_KEY_def EV_REL_def EV_ABS_def ABS_X_def ABS_Y_def ABS_Z_def
  ABS_RX_def ABS_RY_def ABS_RZ_def ABS_WHEEL_def ABS_PRESSURE_def ABS_MISC_def

subsection \<open>State\<close>

text \<open>
  An event for the framework: three floats, of which some sensors use one, and a status, a
  signed char.
\<close>

record sensors_event =
  version :: int
  sensor :: int
  event_type :: int
  timestamp :: int
  data_x :: rat
  data_y :: rat
  data_z :: rat
  status :: int

record sensor_st =
  mUser :: int
  mEnabled :: "nat \<Rightarrow> int"
  mDelay :: "nat \<Rightarrow> int"
  mPendingMask :: int
  mPendingEvent :: "nat \<Rightarrow> sensors_event"
  mClassPath :: string

text \<open>The attributes in \<open>sysfs\<close>: what comes of the next writes, and what was written where.\<close>

datatype attr_result = AttrOk | OpenFails nat | WriteFails nat

record sysfs =
  attr_results :: "attr_result list"
  attr_log :: "(string \<times> string) list"

definition event_zero :: sensors_event where
  "event_zero = \<lparr>version = 0, sensor = 0, event_type = 0, timestamp = 0, data_x = 0, data_y = 0,
     data_z = 0, status = 0\<rparr>"

definition timevalToNano :: "input_event \<Rightarrow> int" where
  "timevalToNano e = ie_sec e * 1000000000 + ie_usec e * 1000"

subsection \<open>Writing attributes\<close>

fun dec_digits :: "nat \<Rightarrow> string" where
  "dec_digits n = (if n < 10 then [char_of (48 + n)] else dec_digits (n div 10) @ [char_of (48 + n mod 10)])"

declare dec_digits.simps [simp del]

text \<open>Opening an attribute, writing a string with its terminating zero, and closing it.\<close>

definition write_attr :: "string \<Rightarrow> string \<Rightarrow> string \<Rightarrow> sysfs \<Rightarrow> attr_result \<times> sysfs" where
  "write_attr path name text io =
     (let r = (case attr_results io of [] \<Rightarrow> AttrOk | r # _ \<Rightarrow> r)
      in (r, \<lparr>attr_results = tl (attr_results io),
              attr_log = attr_log io @ (if r = AttrOk then [(path @ ''/'' @ name, text @ [CHR 0x00])] else [])\<rparr>))"

definition mag_writeEnable :: "sensor_st \<Rightarrow> bool \<Rightarrow> sysfs \<Rightarrow> int \<times> sysfs" where
  "mag_writeEnable s isEnable io =
     (if mClassPath s = [] then (-1, io)
      else case write_attr (mClassPath s) ''enable'' (if isEnable then ''1'' else ''0'') io of
             (AttrOk, io') \<Rightarrow> (0, io')
           | (OpenFails e, io') \<Rightarrow> (- int e, io')
           | (WriteFails e, io') \<Rightarrow> (- int e, io'))"

definition press_writeEnable :: "sensor_st \<Rightarrow> bool \<Rightarrow> sysfs \<Rightarrow> int \<times> sysfs" where
  "press_writeEnable = mag_writeEnable"

definition acc_writeEnable :: "sensor_st \<Rightarrow> bool \<Rightarrow> sysfs \<Rightarrow> int \<times> sysfs" where
  "acc_writeEnable s isEnable io = (0, io)"

definition gyro_writeEnable :: "sensor_st \<Rightarrow> bool \<Rightarrow> sysfs \<Rightarrow> int \<times> sysfs" where
  "gyro_writeEnable s isEnable io = (0, io)"

text \<open>The delay in milliseconds, within bounds that the code gives in nanoseconds.\<close>

definition delay_text :: "int \<Rightarrow> string" where
  "delay_text ns =
     (let ns = (if ns > 10240000000 then 10240000000 else ns);
          ns = (if ns < 312500 then 312500 else ns)
      in dec_digits (nat (ns div 1000 div 1000)))"

definition mag_writeDelay :: "sensor_st \<Rightarrow> int \<Rightarrow> sysfs \<Rightarrow> int \<times> sysfs" where
  "mag_writeDelay s ns io =
     (if mClassPath s = [] then (-1, io)
      else case write_attr (mClassPath s) ''poll'' (delay_text ns) io of
             (OpenFails e, io') \<Rightarrow> (- int e, io')
           | (_, io') \<Rightarrow> (0, io'))"

definition press_writeDelay :: "sensor_st \<Rightarrow> int \<Rightarrow> sysfs \<Rightarrow> int \<times> sysfs" where
  "press_writeDelay = mag_writeDelay"

definition acc_writeDelay :: "sensor_st \<Rightarrow> int \<Rightarrow> sysfs \<Rightarrow> int \<times> sysfs" where
  "acc_writeDelay = mag_writeDelay"

definition gyro_writeDelay :: "sensor_st \<Rightarrow> int \<Rightarrow> sysfs \<Rightarrow> int \<times> sysfs" where
  "gyro_writeDelay = mag_writeDelay"

lemmas class_writes = press_writeEnable_def acc_writeEnable_def gyro_writeEnable_def
  press_writeDelay_def acc_writeDelay_def gyro_writeDelay_def

subsection \<open>Switching sensors on and off\<close>

definition count_user :: "int \<Rightarrow> int \<Rightarrow> int" where
  "count_user n en = (let n = (if en \<noteq> 0 then n + 1 else n - 1) in if n < 0 then 0 else n)"

text \<open>The counter of users of the accelerometer and the gyroscope, clamped only on the way down.\<close>

definition count_mUser :: "int \<Rightarrow> int \<Rightarrow> int" where
  "count_mUser n en = (if en \<noteq> 0 then n + 1 else if n - 1 < 0 then 0 else n - 1)"

definition mag_update_delay :: "sensor_st \<Rightarrow> nat \<Rightarrow> sysfs \<Rightarrow> int \<times> sysfs" where
  "mag_update_delay s what io =
     (if mEnabled s what \<noteq> 0 then mag_writeDelay s (mDelay s what) io else (0, io))"

definition mag_what :: "int \<Rightarrow> nat" where
  "mag_what handle = (if handle = ID_O then 1 else 0)"

definition mag_setEnable :: "sensor_st \<Rightarrow> int \<Rightarrow> int \<Rightarrow> sysfs \<Rightarrow> int \<times> sensor_st \<times> sysfs" where
  "mag_setEnable s handle en io =
     (let what = mag_what handle;
          s = s\<lparr>mEnabled := (mEnabled s)(what := count_user (mEnabled s what) en)\<rparr>
      in case mag_writeEnable s (mEnabled s 0 > 0 \<or> mEnabled s 1 > 0) io of
           (err, io') \<Rightarrow>
             (if err = 0 then case mag_update_delay s what io' of (_, io'') \<Rightarrow> (err, s, io'')
              else (err, s, io')))"

definition mag_setDelay :: "sensor_st \<Rightarrow> int \<Rightarrow> int \<Rightarrow> sysfs \<Rightarrow> int \<times> sensor_st \<times> sysfs" where
  "mag_setDelay s handle ns io =
     (if ns < 0 then (- EINVAL, s, io)
      else let what = mag_what handle;
               s = s\<lparr>mDelay := (mDelay s)(what := ns)\<rparr>
           in case mag_update_delay s what io of (err, io') \<Rightarrow> (err, s, io'))"

definition press_update_delay :: "sensor_st \<Rightarrow> nat \<Rightarrow> sysfs \<Rightarrow> int \<times> sysfs" where
  "press_update_delay s what io =
     (if mEnabled s what \<noteq> 0 then press_writeDelay s (mDelay s what) io else (0, io))"

definition press_what :: "int \<Rightarrow> nat" where
  "press_what handle = (if handle = ID_T then 1 else 0)"

definition press_setEnable :: "sensor_st \<Rightarrow> int \<Rightarrow> int \<Rightarrow> sysfs \<Rightarrow> int \<times> sensor_st \<times> sysfs" where
  "press_setEnable s handle en io =
     (let what = press_what handle;
          s = s\<lparr>mEnabled := (mEnabled s)(what := count_user (mEnabled s what) en)\<rparr>
      in case press_writeEnable s (mEnabled s 0 > 0 \<or> mEnabled s 1 > 0) io of
           (err, io') \<Rightarrow>
             (if err = 0 then case press_update_delay s what io' of (_, io'') \<Rightarrow> (err, s, io'')
              else (err, s, io')))"

definition press_setDelay :: "sensor_st \<Rightarrow> int \<Rightarrow> int \<Rightarrow> sysfs \<Rightarrow> int \<times> sensor_st \<times> sysfs" where
  "press_setDelay s handle ns io =
     (if ns < 0 then (- EINVAL, s, io)
      else let what = press_what handle;
               s = s\<lparr>mDelay := (mDelay s)(what := ns)\<rparr>
           in case press_update_delay s what io of (err, io') \<Rightarrow> (err, s, io'))"

definition acc_setEnable :: "sensor_st \<Rightarrow> int \<Rightarrow> int \<Rightarrow> sysfs \<Rightarrow> int \<times> sensor_st \<times> sysfs" where
  "acc_setEnable s handle en io =
     (if handle \<noteq> ID_A \<and> handle \<noteq> ID_O \<and> handle \<noteq> ID_M then (-1, s, io)
      else let s = s\<lparr>mUser := count_mUser (mUser s) en\<rparr>
      in case acc_writeEnable s (mUser s > 0) io of
           (err, io') \<Rightarrow>
             (let s = (if handle = ID_A then s\<lparr>mEnabled := (mEnabled s)(0 := count_user (mEnabled s 0) en)\<rparr> else s)
              in case acc_writeDelay s (mDelay s 0) io' of (_, io'') \<Rightarrow> (err, s, io'')))"

definition acc_setDelay :: "sensor_st \<Rightarrow> int \<Rightarrow> int \<Rightarrow> sysfs \<Rightarrow> int \<times> sensor_st \<times> sysfs" where
  "acc_setDelay s handle ns io =
     (if ns < 0 then (- EINVAL, s, io)
      else let s = s\<lparr>mDelay := (mDelay s)(0 := ns)\<rparr>
           in case acc_writeDelay s (mDelay s 0) io of (err, io') \<Rightarrow> (err, s, io'))"

definition gyro_setEnable :: "sensor_st \<Rightarrow> int \<Rightarrow> int \<Rightarrow> sysfs \<Rightarrow> int \<times> sensor_st \<times> sysfs" where
  "gyro_setEnable s handle en io =
     (if handle \<noteq> ID_GY then (-1, s, io)
      else let s = s\<lparr>mUser := count_mUser (mUser s) en\<rparr>
      in case gyro_writeEnable s (mUser s > 0) io of
           (err, io') \<Rightarrow>
             (let s = s\<lparr>mEnabled := (mEnabled s)(0 := count_user (mEnabled s 0) en)\<rparr>
              in case gyro_writeDelay s (mDelay s 0) io' of (_, io'') \<Rightarrow> (err, s, io'')))"

definition gyro_setDelay :: "sensor_st \<Rightarrow> int \<Rightarrow> int \<Rightarrow> sysfs \<Rightarrow> int \<times> sensor_st \<times> sysfs" where
  "gyro_setDelay s handle ns io =
     (if ns < 0 then (- EINVAL, s, io)
      else let s = s\<lparr>mDelay := (mDelay s)(0 := ns)\<rparr>
           in case gyro_writeDelay s (mDelay s 0) io of (err, io') \<Rightarrow> (err, s, io'))"

subsection \<open>Conversion of values\<close>

definition float_of :: "int \<Rightarrow> rat" where
  "float_of v = fl (of_int v)"

definition MAG_DATA_CONVERSION :: "int \<Rightarrow> rat" where
  "MAG_DATA_CONVERSION v = fl (float_of v / 20)"

definition ORN_DATA_CONVERSION :: "int \<Rightarrow> rat" where
  "ORN_DATA_CONVERSION v = fl (float_of v / 100)"

definition ACC_DATA_CONVERSION :: "android \<Rightarrow> int \<Rightarrow> rat" where
  "ACC_DATA_CONVERSION hw v = fl (float_of v * fl (GRAVITY_EARTH hw / 0x4000))"

definition PRESS_DATA_CONVERSION :: "int \<Rightarrow> rat" where
  "PRESS_DATA_CONVERSION v = fl (float_of v / fl (4 * 100))"

definition TEMPERATURE_DATA_CONVERSION :: "int \<Rightarrow> rat" where
  "TEMPERATURE_DATA_CONVERSION v = fl (float_of v / 16)"

definition M_PI :: rat where
  "M_PI = 314159265358979323846 / 10 ^ 20"

definition CONVERT_GYRO :: rat where
  "CONVERT_GYRO = fl (fl (70 / 1000) * fl (fl M_PI / 180))"

text \<open>Storing an int in a signed char.\<close>

definition schar :: "int \<Rightarrow> int" where
  "schar v = (v + 128) mod 256 - 128"

subsection \<open>Input events\<close>

text \<open>One axis, or another value, of the pending event of sensor \<open>i\<close>; its bit is set.\<close>

definition pend :: "nat \<Rightarrow> (sensors_event \<Rightarrow> sensors_event) \<Rightarrow> sensor_st \<Rightarrow> sensor_st" where
  "pend i f s = s\<lparr>mPendingMask := mPendingMask s OR push_bit i 1,
     mPendingEvent := (mPendingEvent s)(i := f (mPendingEvent s i))\<rparr>"

definition mag_processEvent :: "int \<Rightarrow> int \<Rightarrow> sensor_st \<Rightarrow> sensor_st" where
  "mag_processEvent code v s =
     (if code = ABS_X then pend 0 (\<lambda>e. e\<lparr>data_x := MAG_DATA_CONVERSION v\<rparr>) s
      else if code = ABS_Y then pend 0 (\<lambda>e. e\<lparr>data_y := MAG_DATA_CONVERSION v\<rparr>) s
      else if code = ABS_Z then pend 0 (\<lambda>e. e\<lparr>data_z := MAG_DATA_CONVERSION v\<rparr>) s
      else if code = ABS_RX then pend 1 (\<lambda>e. e\<lparr>data_x := ORN_DATA_CONVERSION v\<rparr>) s
      else if code = ABS_RY then pend 1 (\<lambda>e. e\<lparr>data_y := ORN_DATA_CONVERSION v\<rparr>) s
      else if code = ABS_RZ then pend 1 (\<lambda>e. e\<lparr>data_z := ORN_DATA_CONVERSION v\<rparr>) s
      else if code = ABS_WHEEL then
        pend 1 (\<lambda>e. e\<lparr>status := schar v\<rparr>) (pend 0 (\<lambda>e. e\<lparr>status := schar v\<rparr>) s)
      else s)"

definition press_processEvent :: "int \<Rightarrow> int \<Rightarrow> sensor_st \<Rightarrow> sensor_st" where
  "press_processEvent code v s =
     (if code = ABS_PRESSURE then pend 0 (\<lambda>e. e\<lparr>data_x := PRESS_DATA_CONVERSION v\<rparr>) s
      else if code = ABS_MISC then pend 1 (\<lambda>e. e\<lparr>data_x := TEMPERATURE_DATA_CONVERSION v\<rparr>) s
      else s)"

text \<open>The classes with one sensor assign the mask.\<close>

definition pend_only :: "(sensors_event \<Rightarrow> sensors_event) \<Rightarrow> sensor_st \<Rightarrow> sensor_st" where
  "pend_only f s = s\<lparr>mPendingMask := 1, mPendingEvent := (mPendingEvent s)(0 := f (mPendingEvent s 0))\<rparr>"

definition acc_processEvent :: "android \<Rightarrow> int \<Rightarrow> int \<Rightarrow> sensor_st \<Rightarrow> sensor_st" where
  "acc_processEvent hw code v s =
     (if code = ABS_X then pend_only (\<lambda>e. e\<lparr>data_x := fl (16 * ACC_DATA_CONVERSION hw v)\<rparr>) s
      else if code = ABS_Y then pend_only (\<lambda>e. e\<lparr>data_y := fl (16 * ACC_DATA_CONVERSION hw v)\<rparr>) s
      else if code = ABS_Z then pend_only (\<lambda>e. e\<lparr>data_z := fl (- 16 * ACC_DATA_CONVERSION hw v)\<rparr>) s
      else s)"

definition gyro_processEvent :: "int \<Rightarrow> int \<Rightarrow> sensor_st \<Rightarrow> sensor_st" where
  "gyro_processEvent code v s =
     (if code = ABS_X then pend_only (\<lambda>e. e\<lparr>data_x := fl (float_of v * CONVERT_GYRO)\<rparr>) s
      else if code = ABS_Y then pend_only (\<lambda>e. e\<lparr>data_y := fl (float_of v * - CONVERT_GYRO)\<rparr>) s
      else if code = ABS_Z then pend_only (\<lambda>e. e\<lparr>data_z := fl (float_of v * CONVERT_GYRO)\<rparr>) s
      else s)"

text \<open>
  What \<open>EV_SYN\<close> does: the pending events get the time and go to \<open>data\<close>, as far as there is room
  (\<open>count\<close>) and their sensors are enabled. The result is what was stored in \<open>data\<close>.
\<close>

definition syn_one :: "int \<Rightarrow> nat \<Rightarrow> sensor_st \<Rightarrow> sensors_event list \<times> sensor_st" where
  "syn_one time count s =
     (if mPendingMask s \<noteq> 0 then
        let s = s\<lparr>mPendingMask := 0,
                  mPendingEvent := (mPendingEvent s)(0 := (mPendingEvent s 0)\<lparr>timestamp := time\<rparr>)\<rparr>
        in (if mEnabled s 0 \<noteq> 0 then [mPendingEvent s 0] else [], s)
      else ([], s))"

fun syn_slots :: "int \<Rightarrow> nat list \<Rightarrow> nat \<Rightarrow> sensor_st \<Rightarrow> sensors_event list \<times> sensor_st" where
  "syn_slots time [] count s = ([], s)"
| "syn_slots time (i # is) count s =
     (if mPendingMask s \<noteq> 0 \<and> count \<noteq> 0 then
        if mPendingMask s AND push_bit i 1 \<noteq> 0 then
          let s = s\<lparr>mPendingMask := mPendingMask s AND NOT (push_bit i 1),
                    mPendingEvent := (mPendingEvent s)(i := (mPendingEvent s i)\<lparr>timestamp := time\<rparr>)\<rparr>
          in if mEnabled s i \<noteq> 0 then
               case syn_slots time is (count - 1) s of (out, s') \<Rightarrow> (mPendingEvent s i # out, s')
             else syn_slots time is count s
        else syn_slots time is count s
      else ([], s))"

definition syn_two :: "int \<Rightarrow> nat \<Rightarrow> sensor_st \<Rightarrow> sensors_event list \<times> sensor_st" where
  "syn_two time count s = syn_slots time [0, 1] count s"

text \<open>
  The loop of \<open>readEvents\<close>, with the functions that distinguish the classes. Every turn removes
  an event or uses up the room, so that fuel for one turn more than the buffer has cells, and
  the last test, is enough.
\<close>

fun read_loop ::
  "(int \<Rightarrow> int \<Rightarrow> sensor_st \<Rightarrow> sensor_st) \<Rightarrow> (int \<Rightarrow> nat \<Rightarrow> sensor_st \<Rightarrow> sensors_event list \<times> sensor_st) \<Rightarrow>
   nat \<Rightarrow> sensor_st \<Rightarrow> InputEventCircularReader \<Rightarrow> nat \<Rightarrow>
   (sensors_event list \<times> sensor_st \<times> InputEventCircularReader) hal" where
  "read_loop process syn 0 s r count = Inl Spins"
| "read_loop process syn (Suc fuel) s r count =
     (case readEvent r of (event, available) \<Rightarrow>
        if count \<noteq> 0 \<and> available then
          bindr (event_at r event) (\<lambda>e.
            if ie_type e = EV_ABS \<or> ie_type e = EV_REL \<or> ie_type e = EV_KEY then
              read_loop process syn fuel (process (ie_code e) (ie_value e) s) (next_event r) count
            else if ie_type e = EV_SYN then
              (case syn (timevalToNano e) count s of (out, s') \<Rightarrow>
                 bindr (read_loop process syn fuel s' (if mPendingMask s' = 0 then next_event r else r)
                          (count - length out))
                   (\<lambda>(out', s'', r'). Inr (out @ out', s'', r')))
            else read_loop process syn fuel s (next_event r) count)
        else Inr ([], s, r))"

record sensor_obj =
  members :: sensor_st
  mInputReader :: InputEventCircularReader
  data_fd :: "dev_read list"

definition read_events ::
  "(int \<Rightarrow> int \<Rightarrow> sensor_st \<Rightarrow> sensor_st) \<Rightarrow> (int \<Rightarrow> nat \<Rightarrow> sensor_st \<Rightarrow> sensors_event list \<times> sensor_st) \<Rightarrow>
   sensor_obj \<Rightarrow> int \<Rightarrow> (int \<times> sensors_event list \<times> sensor_obj) hal" where
  "read_events process syn s count =
     (if count < 1 then Inr (- EINVAL, [], s)
      else bindr (fill (mInputReader s) (data_fd s)) (\<lambda>(n, r, dev).
        if n < 0 then Inr (n, [], s\<lparr>mInputReader := r, data_fd := dev\<rparr>)
        else bindr (read_loop process syn (mBufferEnd r + 2) (members s) r (nat count)) (\<lambda>(out, st, r').
          Inr (int (length out), out, \<lparr>members = st, mInputReader = r', data_fd = dev\<rparr>))))"

definition mag_readEvents :: "sensor_obj \<Rightarrow> int \<Rightarrow> (int \<times> sensors_event list \<times> sensor_obj) hal" where
  "mag_readEvents = read_events mag_processEvent syn_two"

definition press_readEvents :: "sensor_obj \<Rightarrow> int \<Rightarrow> (int \<times> sensors_event list \<times> sensor_obj) hal" where
  "press_readEvents = read_events press_processEvent syn_two"

definition acc_readEvents :: "android \<Rightarrow> sensor_obj \<Rightarrow> int \<Rightarrow> (int \<times> sensors_event list \<times> sensor_obj) hal" where
  "acc_readEvents hw = read_events (acc_processEvent hw) syn_one"

definition gyro_readEvents :: "sensor_obj \<Rightarrow> int \<Rightarrow> (int \<times> sensors_event list \<times> sensor_obj) hal" where
  "gyro_readEvents = read_events gyro_processEvent syn_one"

end
