(* ===== verification/SensorStream.thy ===== *)
theory SensorStream
  imports SensorDrivers
begin

text \<open>
  What \<open>readEvents\<close> of a sensor class makes of its input: the specification runs over the whole
  stream of input events, the code sees it in pieces and has room for a few results at a time.
  The locale \<open>sensor_class\<close> states what the functions that differ from class to class must keep;
  it is interpreted on each of the four classes.
\<close>

subsection \<open>The stream specification\<close>

text \<open>\<open>EV_SYN\<close> with room for everything: the pending events of the first \<open>k\<close> sensors.\<close>

definition flush :: "nat \<Rightarrow> int \<Rightarrow> sensor_st \<Rightarrow> sensors_event list \<times> sensor_st" where
  "flush k t s =
     (map (\<lambda>i. (mPendingEvent s i)\<lparr>timestamp := t\<rparr>)
        (filter (\<lambda>i. bit (mPendingMask s) i \<and> mEnabled s i \<noteq> 0) [0..<k]),
      s\<lparr>mPendingMask := 0,
        mPendingEvent := (\<lambda>i. if bit (mPendingMask s) i then (mPendingEvent s i)\<lparr>timestamp := t\<rparr>
                              else mPendingEvent s i)\<rparr>)"

definition is_axis :: "input_event \<Rightarrow> bool" where
  "is_axis e \<longleftrightarrow> ie_type e = EV_ABS \<or> ie_type e = EV_REL \<or> ie_type e = EV_KEY"

fun sens_run ::
  "(int \<Rightarrow> int \<Rightarrow> sensor_st \<Rightarrow> sensor_st) \<Rightarrow> nat \<Rightarrow> sensor_st \<Rightarrow> input_event list \<Rightarrow> sensors_event list" where
  "sens_run process k s [] = []"
| "sens_run process k s (e # es) =
     (if is_axis e then sens_run process k (process (ie_code e) (ie_value e) s) es
      else if ie_type e = EV_SYN then
        (case flush k (timevalToNano e) s of (out, s') \<Rightarrow> out @ sens_run process k s' es)
      else sens_run process k s es)"

definition mask_ok :: "nat \<Rightarrow> sensor_st \<Rightarrow> bool" where
  "mask_ok k s \<longleftrightarrow> 0 \<le> mPendingMask s \<and> mPendingMask s < 2 ^ k"

text \<open>What reading events does not touch.\<close>

definition same_sensor :: "sensor_st \<Rightarrow> sensor_st \<Rightarrow> bool" where
  "same_sensor s s' \<longleftrightarrow> mUser s' = mUser s \<and> mEnabled s' = mEnabled s \<and> mDelay s' = mDelay s \<and>
     mClassPath s' = mClassPath s \<and> (\<forall>i. sensor (mPendingEvent s' i) = sensor (mPendingEvent s i))"

lemma same_sensor_refl [simp]: "same_sensor s s"
  by (simp add: same_sensor_def)

lemma same_sensor_trans: "same_sensor a b \<Longrightarrow> same_sensor b c \<Longrightarrow> same_sensor a c"
  by (simp add: same_sensor_def)

lemma flush_empty: "mPendingMask s = 0 \<Longrightarrow> flush k t s = ([], s)"
  by (simp add: flush_def)

lemma flush_same: "same_sensor s (snd (flush k t s))"
  by (simp add: flush_def same_sensor_def)

lemma flush_mask: "mask_ok k (snd (flush k t s))"
  by (simp add: flush_def mask_ok_def)

text \<open>The unread events of a buffer, and what a sensor has to deliver if \<open>rest\<close> follows.\<close>

definition unread :: "InputEventCircularReader \<Rightarrow> input_event list" where
  "unread r = map (\<lambda>i. the (mBuffer r ! ((mCurr r + i) mod mBufferEnd r))) [0..<mBufferEnd r - mFreeSpace r]"

lemma holds_unread: "holds r es \<Longrightarrow> unread r = es"
proof -
  assume h: "holds r es"
  then have "mFreeSpace r + length es = mBufferEnd r" by (simp add: holds_def)
  then have "mBufferEnd r - mFreeSpace r = length es" by simp
  with h show ?thesis by (intro nth_equalityI) (simp_all add: unread_def holds_def)
qed

definition stream_left ::
  "(int \<Rightarrow> int \<Rightarrow> sensor_st \<Rightarrow> sensor_st) \<Rightarrow> nat \<Rightarrow> sensor_obj \<Rightarrow> input_event list \<Rightarrow> sensors_event list" where
  "stream_left process k obj rest =
     sens_run process k (members obj) (unread (mInputReader obj) @ dev_events (data_fd obj) @ rest)"

text \<open>The work that is left: also the events in the buffer.\<close>

definition obj_work :: "sensor_obj \<Rightarrow> nat" where
  "obj_work obj = dev_work (data_fd obj) + length (unread (mInputReader obj))"

text \<open>
  A sound sensor object: its buffer, its mask, its counters, and the identifiers of its pending
  events.
\<close>

definition obj_ok :: "nat \<Rightarrow> (nat \<Rightarrow> int) \<Rightarrow> sensor_obj \<Rightarrow> bool" where
  "obj_ok k ids obj \<longleftrightarrow>
     holds (mInputReader obj) (unread (mInputReader obj)) \<and> mask_ok k (members obj) \<and>
     0 \<le> mUser (members obj) \<and> (\<forall>i. 0 \<le> mEnabled (members obj) i \<and> 0 \<le> mDelay (members obj) i) \<and>
     (\<forall>i<k. sensor (mPendingEvent (members obj) i) = ids i)"

lemma obj_ok_same:
  assumes "obj_ok k ids obj" "same_sensor (members obj) st" "mask_ok k st" "holds r es"
  shows "obj_ok k ids \<lparr>members = st, mInputReader = r, data_fd = dev\<rparr>"
  using assms holds_unread [OF assms(4)] by (simp add: obj_ok_def same_sensor_def)

locale sensor_class =
  fixes process :: "int \<Rightarrow> int \<Rightarrow> sensor_st \<Rightarrow> sensor_st"
    and syn :: "int \<Rightarrow> nat \<Rightarrow> sensor_st \<Rightarrow> sensors_event list \<times> sensor_st"
    and k :: nat
  assumes process_mask: "mask_ok k s \<Longrightarrow> mask_ok k (process c v s)"
    and process_same: "same_sensor s (process c v s)"
    and syn_flush: "mask_ok k s \<Longrightarrow> 0 < count \<Longrightarrow> syn t count s = (out, s') \<Longrightarrow>
      out @ fst (flush k t s') = fst (flush k t s) \<and> snd (flush k t s') = snd (flush k t s)"
    and syn_room: "mask_ok k s \<Longrightarrow> 0 < count \<Longrightarrow> syn t count s = (out, s') \<Longrightarrow>
      length out \<le> count \<and> (mPendingMask s' \<noteq> 0 \<longrightarrow> length out = count)"
    and syn_same: "mask_ok k s \<Longrightarrow> syn t count s = (out, s') \<Longrightarrow> mask_ok k s' \<and> same_sensor s s'"
begin

lemma syn_done:
  assumes "mask_ok k s" "0 < count" "syn t count s = (out, s')" "mPendingMask s' = 0"
  shows "flush k t s = (out, s')"
  using syn_flush [OF assms(1-3)] by (simp add: flush_empty [OF assms(4)] prod_eq_iff)

text \<open>The loop of \<open>readEvents\<close> computes a prefix of what the stream gives.\<close>

lemma loop_stream:
  assumes "holds r es" and "mask_ok k s" and "length es + (if count = 0 then 0 else 1) < fuel"
  shows "\<exists>out s' r' es'. read_loop process syn fuel s r count = Inr (out, s', r') \<and> holds r' es' \<and>
    mBufferEnd r' = mBufferEnd r \<and> mask_ok k s' \<and> same_sensor s s' \<and> length out \<le> count \<and> (length out < count \<longrightarrow> es' = []) \<and>
    length es' \<le> length es \<and> (es \<noteq> [] \<and> count \<noteq> 0 \<longrightarrow> length es' < length es + length out) \<and>
    (\<forall>rest. out @ sens_run process k s' (es' @ rest) = sens_run process k s (es @ rest))"
  using assms
proof (induction fuel arbitrary: s r es count)
  case (Suc fuel)
  show ?case
  proof (cases "count = 0 \<or> es = []")
    case True
    then show ?thesis
      using Suc.prems by (auto simp: holds_readEvent [OF Suc.prems(1)])
  next
    case False
    then obtain e tl where es: "es = e # tl" by (cases es) auto
    have loop: "read_loop process syn (Suc fuel) s r count =
       (if is_axis e then read_loop process syn fuel (process (ie_code e) (ie_value e) s) (next_event r) count
        else if ie_type e = EV_SYN then
          (case syn (timevalToNano e) count s of (out, s') \<Rightarrow>
             bindr (read_loop process syn fuel s' (if mPendingMask s' = 0 then next_event r else r)
                      (count - length out))
               (\<lambda>(out', s'', r'). Inr (out @ out', s'', r')))
        else read_loop process syn fuel s (next_event r) count)"
      using False es Suc.prems(1)
      by (simp add: holds_readEvent holds_event_at is_axis_def)
    have nxt: "holds (next_event r) tl" using Suc.prems(1) es holds_next by blast
    have fuel: "length tl + (if count = 0 then 0 else 1) < fuel" using Suc.prems(3) es False by simp
    consider (axis) "is_axis e" | (syn) "\<not> is_axis e" "ie_type e = EV_SYN"
      | (other) "\<not> is_axis e" "ie_type e \<noteq> EV_SYN" by blast
    then show ?thesis
    proof cases
      case axis
      let ?s = "process (ie_code e) (ie_value e) s"
      obtain out s' r' es' where IH: "read_loop process syn fuel ?s (next_event r) count = Inr (out, s', r')"
          "holds r' es'" "mBufferEnd r' = mBufferEnd r" "mask_ok k s'" "same_sensor ?s s'" "length out \<le> count"
          "length out < count \<longrightarrow> es' = []" "length es' \<le> length tl"
          "\<forall>rest. out @ sens_run process k s' (es' @ rest) = sens_run process k ?s (tl @ rest)"
        using Suc.IH [OF nxt process_mask [OF Suc.prems(2)] fuel] unfolding next_event_end by blast
      moreover have "same_sensor s s'" using IH(5) process_same same_sensor_trans by blast
      ultimately show ?thesis unfolding loop es using axis by (intro exI conjI) (assumption | simp)+
    next
      case other
      obtain out s' r' es' where "read_loop process syn fuel s (next_event r) count = Inr (out, s', r')"
          "holds r' es'" "mBufferEnd r' = mBufferEnd r" "mask_ok k s'" "same_sensor s s'" "length out \<le> count"
          "length out < count \<longrightarrow> es' = []" "length es' \<le> length tl"
          "\<forall>rest. out @ sens_run process k s' (es' @ rest) = sens_run process k s (tl @ rest)"
        using Suc.IH [OF nxt Suc.prems(2) fuel] unfolding next_event_end by blast
      then show ?thesis unfolding loop es using other by (intro exI conjI) (assumption | simp)+
    next
      case syn
      obtain out s1 where y: "syn (timevalToNano e) count s = (out, s1)" by fastforce
      have pos: "0 < count" using False by simp
      note room = syn_room [OF Suc.prems(2) pos y] and same = syn_same [OF Suc.prems(2) y]
        and fl = syn_flush [OF Suc.prems(2) pos y]
      define es1 where "es1 = (if mPendingMask s1 = 0 then tl else es)"
      have h1: "holds (if mPendingMask s1 = 0 then next_event r else r) es1"
        using nxt Suc.prems(1) by (simp add: es1_def)
      have f1: "length es1 + (if count - length out = 0 then 0 else 1) < fuel"
        using fuel room Suc.prems(3) es pos by (auto simp: es1_def)
      have run: "out @ sens_run process k s1 (es1 @ rest) = sens_run process k s (es @ rest)" for rest
        using syn_done [OF Suc.prems(2) pos y] fl syn
        by (auto simp: es1_def es split: prod.split)
      obtain out' s' r' es' where IH: "read_loop process syn fuel s1
            (if mPendingMask s1 = 0 then next_event r else r) (count - length out) = Inr (out', s', r')"
          "holds r' es'" "mBufferEnd r' = mBufferEnd (if mPendingMask s1 = 0 then next_event r else r)" "mask_ok k s'" "same_sensor s1 s'" "length out' \<le> count - length out"
          "length out' < count - length out \<longrightarrow> es' = []" "length es' \<le> length es1"
          "\<forall>rest. out' @ sens_run process k s' (es' @ rest) = sens_run process k s1 (es1 @ rest)"
        using Suc.IH [OF h1 conjunct1 [OF same] f1] by blast
      have "read_loop process syn (Suc fuel) s r count = Inr (out @ out', s', r')"
        unfolding loop using syn IH(1) by (simp add: y)
      moreover have "same_sensor s s'" using same IH(5) same_sensor_trans by blast
      moreover have "length (out @ out') \<le> count" "length (out @ out') < count \<longrightarrow> es' = []"
        using IH(6,7) room by auto
      moreover have "length es' \<le> length es" "length es' < length es + length (out @ out')"
        using IH(8) room es pos by (auto simp: es1_def split: if_splits)
      moreover have "(out @ out') @ sens_run process k s' (es' @ rest) = sens_run process k s (es @ rest)" for rest
        using IH(9) run [of rest] by simp
      moreover have "mBufferEnd r' = mBufferEnd r" using IH(3) by (simp split: if_splits)
      ultimately show ?thesis using IH(2,4) by blast
    qed
  qed
qed simp

text \<open>The identifiers in what is delivered.\<close>

lemma run_sensors:
  "mask_ok k s \<Longrightarrow> e \<in> set (sens_run process k s es) \<Longrightarrow> \<exists>i<k. sensor e = sensor (mPendingEvent s i)"
proof (induction es arbitrary: s)
  case (Cons x es)
  consider (axis) "is_axis x" | (syn) "\<not> is_axis x" "ie_type x = EV_SYN"
    | (other) "\<not> is_axis x" "ie_type x \<noteq> EV_SYN" by blast
  then show ?case
  proof cases
    case axis
    then obtain i where "i < k" "sensor e = sensor (mPendingEvent (process (ie_code x) (ie_value x) s) i)"
      using Cons.IH [OF process_mask [OF Cons.prems(1)]] Cons.prems(2) by auto
    then show ?thesis
      using process_same [of s "ie_code x" "ie_value x"] by (auto simp: same_sensor_def)
  next
    case other
    with Cons show ?thesis by simp
  next
    case syn
    let ?f = "flush k (timevalToNano x) s"
    from syn Cons.prems(2) have "e \<in> set (fst ?f) \<or> e \<in> set (sens_run process k (snd ?f) es)"
      by (simp add: case_prod_unfold)
    then show ?thesis
    proof
      assume "e \<in> set (fst ?f)"
      then show ?thesis by (auto simp: flush_def)
    next
      assume "e \<in> set (sens_run process k (snd ?f) es)"
      with Cons.IH [OF flush_mask] obtain i where "i < k" "sensor e = sensor (mPendingEvent (snd ?f) i)"
        by blast
      then show ?thesis using flush_same [of s k] by (auto simp: same_sensor_def)
    qed
  qed
qed simp

text \<open>One call of \<open>readEvents\<close> with room for \<open>count\<close> events.\<close>

lemma read_events_stream:
  assumes "obj_ok k ids obj" and "1 \<le> count"
  shows "read_events process syn obj count = Inl Blocks \<and> data_fd obj = [] \<or>
    (\<exists>n dev'. read_events process syn obj count = Inr (n, [], obj\<lparr>data_fd := dev'\<rparr>) \<and> n < 0 \<and>
       \<not> dev_good (data_fd obj)) \<or>
    (\<exists>out obj'. read_events process syn obj count = Inr (int (length out), out, obj') \<and>
       int (length out) \<le> count \<and> obj_ok k ids obj' \<and> same_sensor (members obj) (members obj') \<and>
       (\<forall>rest. out @ stream_left process k obj' rest = stream_left process k obj rest) \<and>
       (\<forall>e\<in>set out. \<exists>i<k. sensor e = ids i) \<and>
       mBufferEnd (mInputReader obj') = mBufferEnd (mInputReader obj) \<and>
       length (unread (mInputReader obj')) \<le> length (unread (mInputReader obj) @ dev_events (data_fd obj)) \<and>
       (dev_good (data_fd obj) \<longrightarrow> dev_good (data_fd obj')) \<and>
       (int (length out) < count \<longrightarrow> unread (mInputReader obj') = []) \<and>
       (data_fd obj \<noteq> [] \<longrightarrow> obj_work obj' < obj_work obj + length out))"
    (is "?wait \<or> ?fail \<or> ?run")
proof -
  let ?r = "mInputReader obj" and ?dev = "data_fd obj"
  have h: "holds ?r (unread ?r)" using assms(1) by (simp add: obj_ok_def)
  have m: "mask_ok k (members obj)" using assms(1) by (simp add: obj_ok_def)
  consider "fill ?r ?dev = Inl Blocks" "?dev = []"
    | (bad) n dev' where "fill ?r ?dev = Inr (n, ?r, dev')" "n < 0" "\<not> dev_good ?dev"
    | (good) n r' dev' evs where "fill ?r ?dev = Inr (n, r', dev')" "0 \<le> n" "holds r' (unread ?r @ evs)"
        "mBufferEnd r' = mBufferEnd ?r" "dev_events ?dev = evs @ dev_events dev'" "dev_good ?dev \<longrightarrow> dev_good dev'"
        "?dev \<noteq> [] \<longrightarrow> dev_work dev' + length evs < dev_work ?dev \<or> dev' = ?dev \<and> evs = [] \<and> unread ?r \<noteq> []"
    using holds_fill [OF h refl] by blast
  then show ?thesis
  proof cases
    case 1
    with assms(2) show ?thesis by (simp add: read_events_def)
  next
    case good
    let ?es = "unread ?r @ evs"
    have "length ?es + (if nat count = 0 then 0 else 1) < mBufferEnd r' + 2"
      using good(3) by (simp add: holds_def)
    then obtain out s' r'' es' where run: "read_loop process syn (mBufferEnd r' + 2) (members obj) r' (nat count) = Inr (out, s', r'')"
        "holds r'' es'" "mBufferEnd r'' = mBufferEnd r'" "mask_ok k s'" "same_sensor (members obj) s'" "length out \<le> nat count"
        "length out < nat count \<longrightarrow> es' = []" "length es' \<le> length ?es"
        "?es \<noteq> [] \<and> nat count \<noteq> 0 \<longrightarrow> length es' < length ?es + length out"
        "\<forall>rest. out @ sens_run process k s' (es' @ rest) = sens_run process k (members obj) (?es @ rest)"
      using loop_stream [OF good(3) m] by blast
    define obj' where "obj' = \<lparr>members = s', mInputReader = r'', data_fd = dev'\<rparr>"
    have "read_events process syn obj count = Inr (int (length out), out, obj')"
      using assms(2) good(1,2) run(1) by (simp add: read_events_def obj'_def)
    moreover have "obj_ok k ids obj'" "same_sensor (members obj) (members obj')"
      using obj_ok_same [OF assms(1) run(5,4,2)] run(5) by (simp_all add: obj'_def)
    moreover have left: "out @ stream_left process k obj' rest = stream_left process k obj rest" for rest
      using run(10) good(5) holds_unread [OF run(2)] by (simp add: stream_left_def obj'_def)
    moreover have "\<exists>i<k. sensor e = ids i" if "e \<in> set out" for e
    proof -
      have "e \<in> set (stream_left process k obj [])" using that unfolding left [symmetric] by simp
      then obtain i where "i < k" "sensor e = sensor (mPendingEvent (members obj) i)"
        using run_sensors [OF m] by (auto simp: stream_left_def)
      with assms(1) show ?thesis by (auto simp: obj_ok_def)
    qed
    moreover have "int (length out) \<le> count" using run(6) assms(2) by simp
    moreover have "dev_good ?dev \<longrightarrow> dev_good (data_fd obj')" using good(6) by (simp add: obj'_def)
    moreover have "int (length out) < count \<longrightarrow> unread (mInputReader obj') = []"
      using run(7) holds_unread [OF run(2)] by (auto simp: obj'_def)
    moreover have "?dev \<noteq> [] \<longrightarrow> obj_work obj' < obj_work obj + length out"
      using good(7) run(8,9) assms(2) holds_unread [OF run(2)] by (auto simp: obj_work_def obj'_def)
    moreover have "mBufferEnd (mInputReader obj') = mBufferEnd ?r" using run(3) good(4) by (simp add: obj'_def)
    moreover have "length (unread (mInputReader obj')) \<le> length (unread ?r @ dev_events ?dev)"
      using run(8) good(5) holds_unread [OF run(2)] by (simp add: obj'_def)
    ultimately have ?run by blast
    then show ?thesis by blast
  next
    case bad
    from bad(1,2) assms(2) have "read_events process syn obj count = Inr (n, [], obj\<lparr>data_fd := dev'\<rparr>)"
      by (simp add: read_events_def)
    with bad have ?fail by blast
    then show ?thesis by blast
  qed
qed

text \<open>The case that matters: data is there and no read fails.\<close>

lemma read_events_good:
  assumes "obj_ok k ids obj" and "1 \<le> count" and "dev_good (data_fd obj)" and "data_fd obj \<noteq> []"
  shows "\<exists>out obj'. read_events process syn obj count = Inr (int (length out), out, obj') \<and>
       int (length out) \<le> count \<and> obj_ok k ids obj' \<and> dev_good (data_fd obj') \<and>
       (\<forall>rest. out @ stream_left process k obj' rest = stream_left process k obj rest) \<and>
       (\<forall>e\<in>set out. \<exists>i<k. sensor e = ids i) \<and>
       (int (length out) < count \<longrightarrow> unread (mInputReader obj') = []) \<and>
       obj_work obj' < obj_work obj + length out"
  using read_events_stream [OF assms(1,2)] assms(3,4) by auto

end

subsection \<open>The four classes\<close>

lemma mask_cases: "mask_ok 2 s \<longleftrightarrow> mPendingMask s \<in> {0, 1, 2, 3}"
  by (auto simp: mask_ok_def)

lemma mask_one: "mask_ok (Suc 0) s \<longleftrightarrow> mPendingMask s \<in> {0, 1}"
  by (auto simp: mask_ok_def)

lemma pend_ok: "i < 2 \<Longrightarrow> mask_ok 2 s \<Longrightarrow> mask_ok 2 (pend i f s)"
  by (auto simp: mask_cases pend_def less_2_cases_iff)

lemma pend_same: "(\<And>e. sensor (f e) = sensor e) \<Longrightarrow> same_sensor s (pend i f s)"
  by (simp add: pend_def same_sensor_def)

lemma pend_only_ok: "mask_ok (Suc 0) (pend_only f s)"
  by (simp add: mask_ok_def pend_only_def)

lemma pend_only_same: "(\<And>e. sensor (f e) = sensor e) \<Longrightarrow> same_sensor s (pend_only f s)"
  by (simp add: pend_only_def same_sensor_def)

lemma mask_bits:
  "bit (0 :: int) = (\<lambda>n. False)" "bit (1 :: int) = (\<lambda>n. n = 0)" "bit (2 :: int) = (\<lambda>n. n = 1)"
  "bit (3 :: int) = (\<lambda>n. n \<le> 1)"
proof -
  have "(2 :: int) = push_bit 1 1" by simp
  then show "bit (2 :: int) = (\<lambda>n. n = 1)"
    by (simp only: bit_push_bit_iff bit_1_iff fun_eq_iff) auto
  have "(3 :: int) = mask 2" by (simp add: mask_eq_exp_minus_1)
  then show "bit (3 :: int) = (\<lambda>n. n \<le> 1)" by (simp only: bit_mask_iff fun_eq_iff) auto
qed (auto simp: fun_eq_iff bit_1_iff)

lemma flush_two:
  "fst (flush 2 t s) =
     (if bit (mPendingMask s) 0 \<and> mEnabled s 0 \<noteq> 0 then [(mPendingEvent s 0)\<lparr>timestamp := t\<rparr>] else []) @
     (if bit (mPendingMask s) 1 \<and> mEnabled s 1 \<noteq> 0 then [(mPendingEvent s 1)\<lparr>timestamp := t\<rparr>] else [])"
  by (simp add: flush_def numeral_2_eq_2)

definition stamp :: "(nat \<Rightarrow> bool) \<Rightarrow> int \<Rightarrow> int \<Rightarrow> sensor_st \<Rightarrow> sensor_st" where
  "stamp P t m s = s\<lparr>mPendingMask := m,
     mPendingEvent := (\<lambda>i. if P i then (mPendingEvent s i)\<lparr>timestamp := t\<rparr> else mPendingEvent s i)\<rparr>"

lemma flush_stamp: "snd (flush k t s) = stamp (bit (mPendingMask s)) t 0 s"
  by (simp add: flush_def stamp_def)

lemma stamp_stamp: "stamp Q t n (stamp P t m s) = stamp (\<lambda>i. P i \<or> Q i) t n s"
  by (rule sensor_st.equality) (auto simp: stamp_def)

lemma stamp_simps [simp]:
  "mPendingMask (stamp P t m s) = m" "mEnabled (stamp P t m s) = mEnabled s"
  "mPendingEvent (stamp P t m s) i = (if P i then (mPendingEvent s i)\<lparr>timestamp := t\<rparr> else mPendingEvent s i)"
  "same_sensor s (stamp P t m s)"
  by (auto simp: stamp_def same_sensor_def)

lemma stamp_slot:
  "e = (mPendingEvent s i)\<lparr>timestamp := t\<rparr> \<Longrightarrow>
   s\<lparr>mPendingMask := m, mPendingEvent := (mPendingEvent s)(i := e)\<rparr> = stamp (\<lambda>j. j = i) t m s"
  by (rule sensor_st.equality) (auto simp: stamp_def)

lemma syn_two_stamp:
  "syn_two t count s =
     (let m = mPendingMask s; a = mPendingEvent s 0; b = mPendingEvent s 1 in
      if m = 0 \<or> count = 0 then ([], s)
      else if m AND 1 \<noteq> 0 then
        (let m' = m AND NOT 1; out = (if mEnabled s 0 \<noteq> 0 then [a\<lparr>timestamp := t\<rparr>] else []) in
         if m' = 0 \<or> count = length out \<or> m' AND 2 = 0 then (out, stamp (\<lambda>i. i = 0) t m' s)
         else (out @ (if mEnabled s 1 \<noteq> 0 then [b\<lparr>timestamp := t\<rparr>] else []), stamp (\<lambda>i. i \<le> 1) t (m' AND NOT 2) s))
      else if m AND 2 \<noteq> 0 then
        ((if mEnabled s 1 \<noteq> 0 then [b\<lparr>timestamp := t\<rparr>] else []), stamp (\<lambda>i. i = 1) t (m AND NOT 2) s)
      else ([], s))"
proof -
  have le: "(\<lambda>i :: nat. i = 0 \<or> i = Suc 0) = (\<lambda>i. i \<le> Suc 0)" by (auto simp: fun_eq_iff)
  show ?thesis
    by (simp add: syn_two_def Let_def stamp_slot stamp_stamp le)
qed

lemma syn_two_laws:
  assumes "mask_ok 2 s" and "syn_two t count s = (out, s')"
  shows "mask_ok 2 s' \<and> same_sensor s s' \<and>
    (0 < count \<longrightarrow> length out \<le> count \<and> (mPendingMask s' \<noteq> 0 \<longrightarrow> length out = count) \<and>
      out @ fst (flush 2 t s') = fst (flush 2 t s) \<and> snd (flush 2 t s') = snd (flush 2 t s))"
proof -
  from assms(1) consider "mPendingMask s = 0" | "mPendingMask s = 1" | "mPendingMask s = 2" | "mPendingMask s = 3"
    by (auto simp: mask_cases)
  then show ?thesis
  proof cases
    case 1
    then show ?thesis using assms by (simp add: syn_two_stamp)
  next
    case 2
    then show ?thesis using assms(2)
      by (auto simp: syn_two_stamp Let_def mask_cases mask_bits flush_two flush_stamp stamp_stamp split: if_splits)
  next
    case 3
    then show ?thesis using assms(2)
      by (auto simp: syn_two_stamp Let_def mask_cases mask_bits flush_two flush_stamp stamp_stamp split: if_splits)
  next
    case 4
    have le: "(\<lambda>i :: nat. i = 0 \<or> i = Suc 0) = (\<lambda>i. i \<le> Suc 0)" by (auto simp: fun_eq_iff)
    have "(out, s') =
       (if count = 0 then ([], s)
        else if count = 1 \<and> mEnabled s 0 \<noteq> 0 then ([(mPendingEvent s 0)\<lparr>timestamp := t\<rparr>], stamp (\<lambda>i. i = 0) t 2 s)
        else ((if mEnabled s 0 \<noteq> 0 then [(mPendingEvent s 0)\<lparr>timestamp := t\<rparr>] else []) @
              (if mEnabled s 1 \<noteq> 0 then [(mPendingEvent s 1)\<lparr>timestamp := t\<rparr>] else []), stamp (\<lambda>i. i \<le> 1) t 0 s))"
      using assms(2) 4 by (auto simp: syn_two_stamp)
    with 4 show ?thesis
      by (elim if_elim)
        (simp_all add: mask_cases mask_bits flush_two flush_stamp stamp_stamp le split: if_splits)
  qed
qed

lemma syn_one_laws:
  assumes "mask_ok (Suc 0) s" and "syn_one t count s = (out, s')"
  shows "mask_ok (Suc 0) s' \<and> same_sensor s s' \<and> mPendingMask s' = 0 \<and> length out \<le> 1 \<and>
    flush (Suc 0) t s = (out, s')"
proof -
  from assms(1) consider "mPendingMask s = 0" | "mPendingMask s = 1"
    by (auto simp: mask_one)
  then show ?thesis
    using assms(2)
    by cases (auto simp: syn_one_def mask_one same_sensor_def flush_def Let_def fun_eq_iff mask_bits)
qed

lemma two_sensors:
  assumes "\<And>c v s. mask_ok 2 s \<Longrightarrow> mask_ok 2 (process c v s)" and "\<And>c v s. same_sensor s (process c v s)"
  shows "sensor_class process syn_two 2"
  using assms syn_two_laws by unfold_locales blast+

lemma one_sensor:
  assumes "\<And>c v s. mask_ok (Suc 0) s \<Longrightarrow> mask_ok (Suc 0) (process c v s)" and "\<And>c v s. same_sensor s (process c v s)"
  shows "sensor_class process syn_one (Suc 0)"
proof unfold_locales
  fix s count t out s'
  assume a: "mask_ok (Suc 0) s" "0 < (count :: nat)" "syn_one t count s = (out, s')"
  note laws = syn_one_laws [OF a(1,3)]
  then show "out @ fst (flush (Suc 0) t s') = fst (flush (Suc 0) t s) \<and> snd (flush (Suc 0) t s') = snd (flush (Suc 0) t s)"
    by (simp add: flush_empty)
  show "length out \<le> count \<and> (mPendingMask s' \<noteq> 0 \<longrightarrow> length out = count)"
    using laws a(2) by auto
qed (use assms syn_one_laws in blast)+

interpretation mag: sensor_class mag_processEvent syn_two 2
  by (rule two_sensors)
    (simp_all add: mag_processEvent_def pend_ok pend_same same_sensor_trans [OF pend_same pend_same])

interpretation press: sensor_class press_processEvent syn_two 2
  by (rule two_sensors) (simp_all add: press_processEvent_def pend_ok pend_same)

interpretation acc: sensor_class "acc_processEvent hw" syn_one "Suc 0" for hw
  by (rule one_sensor) (simp_all add: acc_processEvent_def pend_only_ok pend_only_same)

interpretation gyro: sensor_class gyro_processEvent syn_one "Suc 0"
  by (rule one_sensor) (simp_all add: gyro_processEvent_def pend_only_ok pend_only_same)

end
