(* ===== verification/SensorPoll.thy ===== *)
theory SensorPoll
  imports SensorStream
begin

text \<open>
  The sensor module of \<open>testcode/android/libsensors\<close> as the framework sees it (\<open>sensors.cpp\<close>): the
  construction of the four sensor objects, \<open>activate\<close>, \<open>setDelay\<close> and \<open>pollEvents\<close>.

  The kernel's side of \<open>poll\<close> is a list of what happens at successive calls: data arrives for
  some of the devices and bytes arrive in the wake pipe, or the call fails. A device is ready
  when it has something to read.
\<close>

subsection \<open>Construction\<close>

datatype name_file = NameOpenFails | NameReadFails | NameRead string

text \<open>
  The search for the directory of a sensor: its file \<open>name\<close> must hold the given name and one more
  character, which is overwritten. An empty file makes the code write before its buffer.
\<close>

fun class_path_scan ::
  "(string \<Rightarrow> bool) \<Rightarrow> string \<Rightarrow> string \<Rightarrow> (string \<times> name_file) list \<Rightarrow> (int \<times> string) hal" where
  "class_path_scan wanted dirname name [] = Inr (-1, [])"
| "class_path_scan wanted dirname name ((d_name, f) # ds) =
     (if \<not> wanted d_name then class_path_scan wanted dirname name ds
      else case f of
             NameRead text \<Rightarrow>
               (let buf = take 256 text in
                if buf = [] then Inl OutOfArray
                else if takeWhile (\<lambda>c. c \<noteq> CHR 0x00) (butlast buf) = name
                then Inr (0, dirname @ ''/'' @ d_name)
                else class_path_scan wanted dirname name ds)
           | _ \<Rightarrow> class_path_scan wanted dirname name ds)"

definition mag_sensor_get_class_path :: "(string \<times> name_file) list option \<Rightarrow> (int \<times> string) hal" where
  "mag_sensor_get_class_path dir =
     (case dir of
        None \<Rightarrow> Inr (-1, [])
      | Some ds \<Rightarrow> class_path_scan (\<lambda>d. take 5 d = ''input'') ''/sys/class/input'' ''FreescaleMagnetometer'' ds)"

definition press_sensor_get_class_path :: "(string \<times> name_file) list option \<Rightarrow> (int \<times> string) hal" where
  "press_sensor_get_class_path dir =
     (case dir of
        None \<Rightarrow> Inr (-1, [])
      | Some ds \<Rightarrow> class_path_scan (\<lambda>d. take 5 d = ''input'') ''/sys/class/input'' ''mpl3115'' ds)"

definition acc_sensor_get_class_path :: "(string \<times> name_file) list option \<Rightarrow> (int \<times> string) hal" where
  "acc_sensor_get_class_path dir =
     (case dir of
        None \<Rightarrow> Inr (-1, [])
      | Some ds \<Rightarrow> class_path_scan (\<lambda>d. True) ''/sys/devices/platform/imx-i2c.1/i2c-1'' ''lsm330dlc_acc'' ds)"

definition gyro_sensor_get_class_path :: "(string \<times> name_file) list option \<Rightarrow> (int \<times> string) hal" where
  "gyro_sensor_get_class_path dir =
     (case dir of
        None \<Rightarrow> Inr (-1, [])
      | Some ds \<Rightarrow> class_path_scan (\<lambda>d. True) ''/sys/devices/platform/imx-i2c.1/i2c-1'' ''lsm330dlc_gyr'' ds)"

text \<open>
  The input devices: the name of the node, whether it opens, the name that the driver gives, if
  it gives one, and what reads will find. Without a node the descriptor is \<open>-1\<close>, which \<open>poll\<close>
  ignores, like a device that never has data.
\<close>

record dev_node =
  node_name :: string
  node_opens :: bool
  node_ev_name :: "string option"
  node_reads :: "dev_read list"

fun open_input_scan :: "dev_node list \<Rightarrow> string \<Rightarrow> dev_read list" where
  "open_input_scan [] inputName = []"
| "open_input_scan (n # ns) inputName =
     (if node_name n = ''.'' \<or> node_name n = ''..'' then open_input_scan ns inputName
      else if node_opens n \<and> (case node_ev_name n of None \<Rightarrow> [] | Some name \<Rightarrow> name) = inputName
      then node_reads n
      else open_input_scan ns inputName)"

definition openInput :: "dev_node list option \<Rightarrow> string \<Rightarrow> dev_read list" where
  "openInput nodes inputName = (case nodes of None \<Rightarrow> [] | Some ns \<Rightarrow> open_input_scan ns inputName)"

definition new_event :: "android \<Rightarrow> int \<Rightarrow> int \<Rightarrow> int \<Rightarrow> sensors_event" where
  "new_event hw ident ty st =
     event_zero\<lparr>version := sizeof_sensors_event hw, sensor := ident, event_type := ty, status := st\<rparr>"

definition new_members :: "(nat \<Rightarrow> sensors_event) \<Rightarrow> string \<Rightarrow> sensor_st" where
  "new_members events path =
     \<lparr>mUser = 0, mEnabled = (\<lambda>_. 0), mDelay = (\<lambda>_. 0), mPendingMask = 0, mPendingEvent = events,
      mClassPath = path\<rparr>"

definition new_MagSensor :: "android \<Rightarrow> dev_node list option \<Rightarrow> (string \<times> name_file) list option \<Rightarrow> sensor_obj hal" where
  "new_MagSensor hw nodes dir =
     bindr (mag_sensor_get_class_path dir) (\<lambda>(_, path).
       Inr \<lparr>members = new_members
              ((\<lambda>_. event_zero)
                (0 := new_event hw ID_M (SENSOR_TYPE_MAGNETIC_FIELD hw) (SENSOR_STATUS_ACCURACY_LOW hw),
                 1 := new_event hw ID_O (SENSOR_TYPE_ORIENTATION hw) (SENSOR_STATUS_ACCURACY_LOW hw))) path,
            mInputReader = new_InputEventCircularReader 16, data_fd = openInput nodes ''eCompass''\<rparr>)"

definition new_PressSensor :: "android \<Rightarrow> dev_node list option \<Rightarrow> (string \<times> name_file) list option \<Rightarrow> sensor_obj hal" where
  "new_PressSensor hw nodes dir =
     bindr (press_sensor_get_class_path dir) (\<lambda>(_, path).
       Inr \<lparr>members = new_members
              ((\<lambda>_. event_zero)
                (0 := new_event hw ID_P (SENSOR_TYPE_PRESSURE hw) (SENSOR_STATUS_ACCURACY_HIGH hw),
                 1 := new_event hw ID_T (SENSOR_TYPE_TEMPERATURE hw) (SENSOR_STATUS_ACCURACY_HIGH hw))) path,
            mInputReader = new_InputEventCircularReader 4, data_fd = openInput nodes ''mpl3115''\<rparr>)"

definition new_AccelSensor :: "android \<Rightarrow> dev_node list option \<Rightarrow> (string \<times> name_file) list option \<Rightarrow> sensor_obj hal" where
  "new_AccelSensor hw nodes dir =
     bindr (acc_sensor_get_class_path dir) (\<lambda>(_, path).
       Inr \<lparr>members = new_members
              ((\<lambda>_. event_zero)
                (0 := new_event hw ID_A (SENSOR_TYPE_ACCELEROMETER hw) (SENSOR_STATUS_ACCURACY_HIGH hw))) path,
            mInputReader = new_InputEventCircularReader 4, data_fd = openInput nodes ''lsm330dlc_acc''\<rparr>)"

definition new_GyroSensor :: "android \<Rightarrow> dev_node list option \<Rightarrow> (string \<times> name_file) list option \<Rightarrow> sensor_obj hal" where
  "new_GyroSensor hw nodes dir =
     bindr (gyro_sensor_get_class_path dir) (\<lambda>(_, path).
       Inr \<lparr>members = new_members
              ((\<lambda>_. event_zero)
                (0 := new_event hw ID_GY (SENSOR_TYPE_GYROSCOPE hw) (SENSOR_STATUS_ACCURACY_HIGH hw))) path,
            mInputReader = new_InputEventCircularReader 4, data_fd = openInput nodes ''lsm330dlc_gyr''\<rparr>)"

subsection \<open>The context\<close>

datatype driver = Accel | Mag | Pressure | Gyro

definition drivers :: "driver list" where
  "drivers = [Accel, Mag, Pressure, Gyro]"

text \<open>\<open>revents\<close> is the bit \<open>POLLIN\<close> of the entries of \<open>mPollFds\<close>; the wake pipe is its bytes.\<close>

record sensors_poll_context =
  mSensors :: "driver \<Rightarrow> sensor_obj"
  revents :: "driver \<Rightarrow> bool"
  wake_pipe :: nat
  attributes :: sysfs

definition new_sensors_poll_context ::
  "android \<Rightarrow> dev_node list option \<Rightarrow> (string \<times> name_file) list option \<Rightarrow> (string \<times> name_file) list option \<Rightarrow>
   sysfs \<Rightarrow> sensors_poll_context hal" where
  "new_sensors_poll_context hw nodes class_input i2c io =
     bindr (new_AccelSensor hw nodes i2c) (\<lambda>acc.
     bindr (new_MagSensor hw nodes class_input) (\<lambda>mag.
     bindr (new_PressSensor hw nodes class_input) (\<lambda>press.
     bindr (new_GyroSensor hw nodes i2c) (\<lambda>gyro.
       Inr \<lparr>mSensors = (\<lambda>d. case d of Accel \<Rightarrow> acc | Mag \<Rightarrow> mag | Pressure \<Rightarrow> press | Gyro \<Rightarrow> gyro),
            revents = (\<lambda>_. False), wake_pipe = 0, attributes = io\<rparr>))))"

definition handleToDriver :: "int \<Rightarrow> driver option" where
  "handleToDriver handle =
     (if handle = ID_A then Some Accel
      else if handle = ID_M \<or> handle = ID_O then Some Mag
      else if handle = ID_P \<or> handle = ID_T then Some Pressure
      else if handle = ID_GY then Some Gyro
      else None)"

subsection \<open>The virtual functions\<close>

fun SensorBase_setEnable :: "driver \<Rightarrow> sensor_st \<Rightarrow> int \<Rightarrow> int \<Rightarrow> sysfs \<Rightarrow> int \<times> sensor_st \<times> sysfs" where
  "SensorBase_setEnable Accel = acc_setEnable"
| "SensorBase_setEnable Mag = mag_setEnable"
| "SensorBase_setEnable Pressure = press_setEnable"
| "SensorBase_setEnable Gyro = gyro_setEnable"

fun SensorBase_setDelay :: "driver \<Rightarrow> sensor_st \<Rightarrow> int \<Rightarrow> int \<Rightarrow> sysfs \<Rightarrow> int \<times> sensor_st \<times> sysfs" where
  "SensorBase_setDelay Accel = acc_setDelay"
| "SensorBase_setDelay Mag = mag_setDelay"
| "SensorBase_setDelay Pressure = press_setDelay"
| "SensorBase_setDelay Gyro = gyro_setDelay"

fun SensorBase_readEvents ::
  "android \<Rightarrow> driver \<Rightarrow> sensor_obj \<Rightarrow> int \<Rightarrow> (int \<times> sensors_event list \<times> sensor_obj) hal" where
  "SensorBase_readEvents hw Accel = acc_readEvents hw"
| "SensorBase_readEvents hw Mag = mag_readEvents"
| "SensorBase_readEvents hw Pressure = press_readEvents"
| "SensorBase_readEvents hw Gyro = gyro_readEvents"

definition hasPendingEvents :: "sensor_obj \<Rightarrow> bool" where
  "hasPendingEvents obj = False"

subsection \<open>Activation and delays\<close>

definition call_setEnable :: "driver \<Rightarrow> int \<Rightarrow> int \<Rightarrow> sensors_poll_context \<Rightarrow> int \<times> sensors_poll_context" where
  "call_setEnable d handle enabled c =
     (case SensorBase_setEnable d (members (mSensors c d)) handle enabled (attributes c) of
        (err, st, io) \<Rightarrow>
          (err, c\<lparr>mSensors := (mSensors c)(d := (mSensors c d)\<lparr>members := st\<rparr>), attributes := io\<rparr>))"

definition call_setDelay :: "driver \<Rightarrow> int \<Rightarrow> int \<Rightarrow> sensors_poll_context \<Rightarrow> int \<times> sensors_poll_context" where
  "call_setDelay d handle ns c =
     (case SensorBase_setDelay d (members (mSensors c d)) handle ns (attributes c) of
        (err, st, io) \<Rightarrow>
          (err, c\<lparr>mSensors := (mSensors c)(d := (mSensors c d)\<lparr>members := st\<rparr>), attributes := io\<rparr>))"

text \<open>A pipe holds 64 KiB; a byte more is refused, which is only reported.\<close>

definition PIPE_SIZE :: nat where
  "PIPE_SIZE = 65536"

definition activate :: "int \<Rightarrow> int \<Rightarrow> sensors_poll_context \<Rightarrow> int \<times> sensors_poll_context" where
  "activate handle enabled c =
     (case handleToDriver handle of
        None \<Rightarrow> (- EINVAL, c)
      | Some index \<Rightarrow>
          (case (if handle = ID_O \<or> handle = ID_M then call_setEnable Accel handle enabled c else (0, c)) of
             (err, c) \<Rightarrow>
               (if err \<noteq> 0 then (err, c)
                else case call_setEnable index handle enabled c of
                       (err, c) \<Rightarrow>
                         (err, if enabled \<noteq> 0 \<and> err = 0 then c\<lparr>wake_pipe := min PIPE_SIZE (wake_pipe c + 1)\<rparr>
                               else c))))"

definition setDelay :: "int \<Rightarrow> int \<Rightarrow> sensors_poll_context \<Rightarrow> int \<times> sensors_poll_context" where
  "setDelay handle ns c =
     (case handleToDriver handle of
        None \<Rightarrow> (- EINVAL, c)
      | Some index \<Rightarrow>
          call_setDelay index handle ns
            (if handle = ID_O \<or> handle = ID_M then snd (call_setDelay Accel handle ns c) else c))"

subsection \<open>Polling\<close>

text \<open>
  A running call: the context, the caller's array, the position of \<open>data\<close> in it, \<open>count\<close> and
  \<open>nbEvents\<close>.
\<close>

record poll_st =
  ctx :: sensors_poll_context
  data :: "sensors_event list"
  pos :: int
  room :: int
  nbEvents :: int

definition store_events :: "sensors_event list \<Rightarrow> int \<Rightarrow> sensors_event list \<Rightarrow> sensors_event list hal" where
  "store_events m p out =
     (if out = [] then Inr m
      else if p < 0 then Inl OutOfArray
      else case mem_write m (nat p) out of None \<Rightarrow> Inl OutOfArray | Some m' \<Rightarrow> Inr m')"

fun poll_scan ::
  "(driver \<Rightarrow> sensor_obj \<Rightarrow> int \<Rightarrow> (int \<times> sensors_event list \<times> sensor_obj) hal) \<Rightarrow> driver list \<Rightarrow> poll_st \<Rightarrow>
   poll_st hal" where
  "poll_scan readEvents [] p = Inr p"
| "poll_scan readEvents (d # ds) p =
     (if room p \<noteq> 0 then
        if revents (ctx p) d \<or> hasPendingEvents (mSensors (ctx p) d) then
          bindr (readEvents d (mSensors (ctx p) d) (room p)) (\<lambda>(nb, out, obj).
          bindr (store_events (data p) (pos p) out) (\<lambda>m.
            poll_scan readEvents ds
              (p\<lparr>ctx := (ctx p)\<lparr>mSensors := (mSensors (ctx p))(d := obj),
                                 revents := (if nb < room p then (revents (ctx p))(d := False) else revents (ctx p))\<rparr>,
                 data := m, pos := pos p + nb, room := room p - nb, nbEvents := nbEvents p + nb\<rparr>)))
        else poll_scan readEvents ds p
      else Inr p)"

text \<open>What happens at a call of \<open>poll\<close>, and the call itself: its result, or that it waits for ever.\<close>

datatype kernel_step = PollFails nat | Arrive "driver \<Rightarrow> dev_read list" nat

datatype poll_end = Waits | Stops hal_stop

definition EINTR :: nat where
  "EINTR = 4"

definition arrive :: "(driver \<Rightarrow> dev_read list) \<Rightarrow> nat \<Rightarrow> sensors_poll_context \<Rightarrow> sensors_poll_context" where
  "arrive f k c =
     c\<lparr>mSensors := (\<lambda>d. (mSensors c d)\<lparr>data_fd := data_fd (mSensors c d) @ f d\<rparr>), wake_pipe := wake_pipe c + k\<rparr>"

definition ready :: "sensors_poll_context \<Rightarrow> nat" where
  "ready c = length (filter (\<lambda>d. data_fd (mSensors c d) \<noteq> []) drivers) + (if wake_pipe c = 0 then 0 else 1)"

definition set_revents :: "sensors_poll_context \<Rightarrow> sensors_poll_context" where
  "set_revents c = c\<lparr>revents := (\<lambda>d. data_fd (mSensors c d) \<noteq> [])\<rparr>"

fun sys_poll ::
  "bool \<Rightarrow> sensors_poll_context \<Rightarrow> kernel_step list \<Rightarrow> ((nat + nat) \<times> sensors_poll_context \<times> kernel_step list) option" where
  "sys_poll at_once c [] =
     (if ready c = 0 \<and> \<not> at_once then None else Some (Inr (ready c), set_revents c, []))"
| "sys_poll at_once c (PollFails e # ks) =
     (if e = EINTR then sys_poll at_once c ks else Some (Inl e, c, ks))"
| "sys_poll at_once c (Arrive f k # ks) =
     (let c' = arrive f k c in
      if ready c' = 0 \<and> \<not> at_once then sys_poll at_once c' ks
      else Some (Inr (ready c'), set_revents c', ks))"

text \<open>Reading one byte from the wake pipe, when \<open>poll\<close> reports it.\<close>

definition read_wake :: "sensors_poll_context \<Rightarrow> sensors_poll_context" where
  "read_wake c = c\<lparr>wake_pipe := wake_pipe c - 1\<rparr>"

fun poll_loop ::
  "(driver \<Rightarrow> sensor_obj \<Rightarrow> int \<Rightarrow> (int \<times> sensors_event list \<times> sensor_obj) hal) \<Rightarrow> nat \<Rightarrow> poll_st \<Rightarrow>
   kernel_step list \<Rightarrow> poll_end + (int \<times> poll_st \<times> kernel_step list)" where
  "poll_loop readEvents 0 p ks = Inl (Stops Spins)"
| "poll_loop readEvents (Suc fuel) p ks =
     (case poll_scan readEvents drivers p of
        Inl stop \<Rightarrow> Inl (Stops stop)
      | Inr p \<Rightarrow>
          (if room p = 0 then Inr (nbEvents p, p, ks)
           else case sys_poll (nbEvents p \<noteq> 0) (ctx p) ks of
                  None \<Rightarrow> Inl Waits
                | Some (Inl e, c, ks) \<Rightarrow> Inr (- int e, p\<lparr>ctx := c\<rparr>, ks)
                | Some (Inr n, c, ks) \<Rightarrow>
                    (let p = p\<lparr>ctx := read_wake c\<rparr>
                     in if n \<noteq> 0 then poll_loop readEvents fuel p ks else Inr (nbEvents p, p, ks))))"

text \<open>
  Every turn reads something or empties the wake pipe: fuel for twice the work that is there and
  that will arrive is enough.
\<close>

fun steps_work :: "kernel_step list \<Rightarrow> nat" where
  "steps_work [] = 0"
| "steps_work (PollFails e # ks) = 1 + steps_work ks"
| "steps_work (Arrive f k # ks) = 1 + k + sum_list (map (\<lambda>d. dev_work (f d)) drivers) + steps_work ks"

definition ctx_work :: "sensors_poll_context \<Rightarrow> nat" where
  "ctx_work c = sum_list (map (\<lambda>d. obj_work (mSensors c d)) drivers) + wake_pipe c"

definition pollEvents ::
  "android \<Rightarrow> sensors_poll_context \<Rightarrow> sensors_event list \<Rightarrow> int \<Rightarrow> kernel_step list \<Rightarrow>
   poll_end + (int \<times> poll_st \<times> kernel_step list)" where
  "pollEvents hw c m count ks =
     poll_loop (SensorBase_readEvents hw) (2 * (ctx_work c + nat count + steps_work ks) + 3)
       \<lparr>ctx = c, data = m, pos = 0, room = count, nbEvents = 0\<rparr> ks"

end
