(* ===== verification/SensorContract.thy ===== *)
theory SensorContract
  imports SensorPoll
begin

text \<open>
  The locale \<open>sensor_base\<close>: the contract of the virtual function \<open>readEvents\<close> of the sensor module,
  and what \<open>pollEvents\<close> makes of any sensors that fulfil it.
\<close>

subsection \<open>Polling over the contract of a sensor\<close>

definition arrivals :: "driver \<Rightarrow> kernel_step list \<Rightarrow> input_event list" where
  "arrivals d ks = concat (map (\<lambda>k. case k of Arrive f n \<Rightarrow> dev_events (f d) | _ \<Rightarrow> []) ks)"

definition steps_good :: "kernel_step list \<Rightarrow> bool" where
  "steps_good ks \<longleftrightarrow> list_all (\<lambda>k. case k of Arrive f n \<Rightarrow> \<forall>d. dev_good (f d) | _ \<Rightarrow> True) ks"

lemma arrivals_simps [simp]:
  "arrivals d [] = []" "arrivals d (PollFails e # ks) = arrivals d ks"
  "arrivals d (Arrive f n # ks) = dev_events (f d) @ arrivals d ks"
  "steps_good []" "steps_good (PollFails e # ks) = steps_good ks"
  "steps_good (Arrive f n # ks) \<longleftrightarrow> (\<forall>d. dev_good (f d)) \<and> steps_good ks"
  by (simp_all add: arrivals_def steps_good_def)

lemma dev_append: "dev_events (xs @ ys) = dev_events xs @ dev_events ys" "dev_good (xs @ ys) \<longleftrightarrow> dev_good xs \<and> dev_good ys"
  by (simp_all add: dev_events_def dev_good_def)

lemma all_drivers: "d \<in> set drivers" "distinct drivers"
  by (cases d; simp add: drivers_def) (simp add: drivers_def)

text \<open>The caller's array while events are added to it.\<close>

definition poll_shape :: "sensors_event list \<Rightarrow> int \<Rightarrow> poll_st \<Rightarrow> bool" where
  "poll_shape m count p \<longleftrightarrow>
     0 \<le> nbEvents p \<and> pos p = nbEvents p \<and> room p = count - nbEvents p \<and> 0 \<le> room p \<and>
     count \<le> int (length m) \<and> length (data p) = length m \<and>
     drop (nat (nbEvents p)) (data p) = drop (nat (nbEvents p)) m"

definition delivered :: "poll_st \<Rightarrow> sensors_event list" where
  "delivered p = take (nat (nbEvents p)) (data p)"

lemma store_shape:
  assumes "poll_shape m count p" and "int (length out) \<le> room p"
  shows "\<exists>m'. store_events (data p) (pos p) out = Inr m' \<and>
    poll_shape m count (p\<lparr>ctx := c, data := m', pos := pos p + length out, room := room p - length out,
      nbEvents := nbEvents p + length out\<rparr>) \<and>
    delivered (p\<lparr>ctx := c, data := m', pos := pos p + length out, room := room p - length out,
      nbEvents := nbEvents p + length out\<rparr>) = delivered p @ out"
proof -
  define n where "n = nat (nbEvents p)"
  have n: "nbEvents p = int n" "pos p = int n" using assms(1) by (simp_all add: poll_shape_def n_def)
  have fits: "n + length out \<le> length (data p)" using assms by (auto simp: poll_shape_def n)
  define m' where "m' = take n (data p) @ out @ drop (n + length out) (data p)"
  have st: "store_events (data p) (pos p) out = Inr m'"
    using fits by (simp add: store_events_def n m'_def)
  have "drop (n + length out) (data p) = drop (n + length out) m"
  proof -
    have "drop n (data p) = drop n m" using assms(1) by (simp add: poll_shape_def n)
    then have "drop (length out) (drop n (data p)) = drop (length out) (drop n m)" by simp
    then show ?thesis by (simp add: add.commute)
  qed
  then have "drop (n + length out) m' = drop (n + length out) m" "length m' = length (data p)"
    "take (n + length out) m' = take n (data p) @ out"
    using fits assms(1) by (simp_all add: m'_def poll_shape_def)
  then have "poll_shape m count (p\<lparr>ctx := c, data := m', pos := pos p + length out, room := room p - length out,
        nbEvents := nbEvents p + length out\<rparr>)"
    "delivered (p\<lparr>ctx := c, data := m', pos := pos p + length out, room := room p - length out,
      nbEvents := nbEvents p + length out\<rparr>) = delivered p @ out"
    using assms by (simp_all add: poll_shape_def delivered_def n nat_int_add)
  with st show ?thesis by blast
qed

locale sensor_base =
  fixes readEvents :: "driver \<Rightarrow> sensor_obj \<Rightarrow> int \<Rightarrow> (int \<times> sensors_event list \<times> sensor_obj) hal"
    and ok :: "driver \<Rightarrow> sensor_obj \<Rightarrow> bool"
    and left :: "driver \<Rightarrow> sensor_obj \<Rightarrow> input_event list \<Rightarrow> sensors_event list"
    and ids :: "driver \<Rightarrow> int set"
  assumes read: "ok d obj \<Longrightarrow> 1 \<le> count \<Longrightarrow> dev_good (data_fd obj) \<Longrightarrow> data_fd obj \<noteq> [] \<Longrightarrow>
      \<exists>out obj'. readEvents d obj count = Inr (int (length out), out, obj') \<and>
       int (length out) \<le> count \<and> ok d obj' \<and> dev_good (data_fd obj') \<and>
       (\<forall>rest. out @ left d obj' rest = left d obj rest) \<and> (\<forall>e\<in>set out. sensor e \<in> ids d) \<and>
       (int (length out) < count \<longrightarrow> unread (mInputReader obj') = []) \<and>
       obj_work obj' < obj_work obj + length out"
    and ids_differ: "d \<noteq> d' \<Longrightarrow> ids d \<inter> ids d' = {}"
    and ok_data: "ok d obj \<Longrightarrow> ok d (obj\<lparr>data_fd := dev\<rparr>)"
    and left_data: "left d (obj\<lparr>data_fd := data_fd obj @ dev\<rparr>) rest = left d obj (dev_events dev @ rest)"
    and left_nothing: "ok d obj \<Longrightarrow> unread (mInputReader obj) = [] \<Longrightarrow> data_fd obj = [] \<Longrightarrow> left d obj [] = []"
begin

text \<open>The array holds only events of the drivers.\<close>

definition filled :: "sensors_event list \<Rightarrow> int \<Rightarrow> poll_st \<Rightarrow> bool" where
  "filled m count p \<longleftrightarrow> poll_shape m count p \<and> (\<forall>e\<in>set (delivered p). \<exists>d. sensor e \<in> ids d)"

text \<open>The account of a driver: what it delivered, and what it has left.\<close>

definition account :: "poll_st \<Rightarrow> kernel_step list \<Rightarrow> driver \<Rightarrow> sensors_event list" where
  "account p ks d = filter (\<lambda>e. sensor e \<in> ids d) (delivered p) @ left d (mSensors (ctx p) d) (arrivals d ks)"

definition sound :: "sensors_poll_context \<Rightarrow> bool" where
  "sound c \<longleftrightarrow> (\<forall>d. ok d (mSensors c d) \<and> dev_good (data_fd (mSensors c d)) \<and>
     (unread (mInputReader (mSensors c d)) \<noteq> [] \<longrightarrow> revents c d))"

lemma scan_step:
  assumes "sound (ctx p)" "filled m count p" "room p \<noteq> 0" "revents (ctx p) d" "data_fd (mSensors (ctx p) d) \<noteq> []"
  shows "\<exists>p'. poll_scan readEvents (d # ds) p = poll_scan readEvents ds p' \<and> sound (ctx p') \<and> filled m count p' \<and>
    account p' ks = account p ks \<and> (room p' \<noteq> 0 \<longrightarrow> \<not> revents (ctx p') d) \<and>
    (\<forall>d'. d' \<noteq> d \<longrightarrow> revents (ctx p') d' = revents (ctx p) d' \<and> mSensors (ctx p') d' = mSensors (ctx p) d') \<and>
    wake_pipe (ctx p') = wake_pipe (ctx p) \<and>
    ctx_work (ctx p') + nat (room p') < ctx_work (ctx p) + nat (room p)"
proof -
  let ?obj = "mSensors (ctx p) d"
  have room: "1 \<le> room p" using assms(2,3) by (simp add: filled_def poll_shape_def)
  obtain out obj' where r: "readEvents d ?obj (room p) = Inr (int (length out), out, obj')"
      "int (length out) \<le> room p" "ok d obj'" "dev_good (data_fd obj')"
      "\<forall>rest. out @ left d obj' rest = left d ?obj rest" "\<forall>e\<in>set out. sensor e \<in> ids d"
      "int (length out) < room p \<longrightarrow> unread (mInputReader obj') = []"
      "obj_work obj' < obj_work ?obj + length out"
    using read [of d ?obj "room p"] assms(1,5) room by (auto simp: sound_def)
  define c' where "c' = (ctx p)\<lparr>mSensors := (mSensors (ctx p))(d := obj'),
     revents := (if int (length out) < room p then (revents (ctx p))(d := False) else revents (ctx p))\<rparr>"
  obtain m' where st: "store_events (data p) (pos p) out = Inr m'"
      "poll_shape m count (p\<lparr>ctx := c', data := m', pos := pos p + length out, room := room p - length out,
        nbEvents := nbEvents p + length out\<rparr>)"
      "delivered (p\<lparr>ctx := c', data := m', pos := pos p + length out, room := room p - length out,
        nbEvents := nbEvents p + length out\<rparr>) = delivered p @ out"
    using store_shape [OF conjunct1 [OF assms(2) [unfolded filled_def]] r(2)] by blast
  define p' where "p' = p\<lparr>ctx := c', data := m', pos := pos p + length out, room := room p - length out,
        nbEvents := nbEvents p + length out\<rparr>"
  have "poll_scan readEvents (d # ds) p = poll_scan readEvents ds p'"
    using assms(3,4) r(1) st(1) by (simp add: p'_def c'_def)
  moreover have "sound (ctx p')"
    using assms(1,4) r(3,4,7) by (auto simp: sound_def p'_def c'_def)
  moreover have "account p' ks d' = account p ks d'" for d'
  proof (cases "d' = d")
    case True
    have "filter (\<lambda>e. sensor e \<in> ids d) out = out" using r(6) by simp
    then show ?thesis
      using True st(3) r(5) by (simp add: account_def p'_def [symmetric]) (simp add: p'_def c'_def)
  next
    case False
    then have "filter (\<lambda>e. sensor e \<in> ids d') out = []"
      using r(6) ids_differ [of d' d] by (auto simp: filter_empty_conv)
    then show ?thesis
      using False st(3) by (simp add: account_def p'_def [symmetric]) (simp add: p'_def c'_def)
  qed
  moreover have "ctx_work (ctx p') + nat (room p') < ctx_work (ctx p) + nat (room p)"
    using r(2,8) by (cases d) (auto simp: ctx_work_def drivers_def p'_def c'_def)
  moreover have "room p' \<noteq> 0 \<longrightarrow> \<not> revents (ctx p') d"
    using r(2) by (auto simp: p'_def c'_def)
  moreover have "filled m count p'"
    using st(2,3) assms(2) r(6) by (auto simp: filled_def p'_def [symmetric])
  ultimately show ?thesis
    by (intro exI [of _ p']) (auto simp: p'_def c'_def)
qed

lemma scan:
  assumes "sound (ctx p)" "filled m count p" "distinct ds"
    and "\<forall>d\<in>set ds. revents (ctx p) d \<longrightarrow> data_fd (mSensors (ctx p) d) \<noteq> []"
  shows "\<exists>p'. poll_scan readEvents ds p = Inr p' \<and> sound (ctx p') \<and> filled m count p' \<and>
    account p' ks = account p ks \<and> (room p' \<noteq> 0 \<longrightarrow> (\<forall>d\<in>set ds. \<not> revents (ctx p') d)) \<and>
    (\<forall>d. d \<notin> set ds \<longrightarrow> revents (ctx p') d = revents (ctx p) d) \<and>
    wake_pipe (ctx p') = wake_pipe (ctx p) \<and>
    ctx_work (ctx p') + nat (room p') \<le> ctx_work (ctx p) + nat (room p) \<and>
    (room p \<noteq> 0 \<and> (\<exists>d\<in>set ds. revents (ctx p) d) \<longrightarrow>
       ctx_work (ctx p') + nat (room p') < ctx_work (ctx p) + nat (room p))"
  using assms
proof (induction ds arbitrary: p)
  case (Cons d ds)
  show ?case
  proof (cases "room p \<noteq> 0 \<and> revents (ctx p) d")
    case False
    show ?thesis
    proof (cases "room p = 0")
      case True
      then show ?thesis using Cons.prems by auto
    next
      case room: False
      have "\<forall>d\<in>set ds. revents (ctx p) d \<longrightarrow> data_fd (mSensors (ctx p) d) \<noteq> []" "distinct ds" "d \<notin> set ds"
        using Cons.prems by auto
      then obtain p' where "poll_scan readEvents ds p = Inr p' \<and> sound (ctx p') \<and> filled m count p' \<and>
          account p' ks = account p ks \<and> (room p' \<noteq> 0 \<longrightarrow> (\<forall>d\<in>set ds. \<not> revents (ctx p') d)) \<and>
          (\<forall>d. d \<notin> set ds \<longrightarrow> revents (ctx p') d = revents (ctx p) d) \<and>
          wake_pipe (ctx p') = wake_pipe (ctx p) \<and>
          ctx_work (ctx p') + nat (room p') \<le> ctx_work (ctx p) + nat (room p) \<and>
          (room p \<noteq> 0 \<and> (\<exists>d\<in>set ds. revents (ctx p) d) \<longrightarrow>
             ctx_work (ctx p') + nat (room p') < ctx_work (ctx p) + nat (room p))"
        using Cons.IH [OF Cons.prems(1,2)] by blast
      then show ?thesis
        using room False \<open>d \<notin> set ds\<close> by (intro exI [of _ p']) (auto simp: hasPendingEvents_def)
    qed
  next
    case True
    then obtain p1 where p1: "poll_scan readEvents (d # ds) p = poll_scan readEvents ds p1" "sound (ctx p1)"
        "filled m count p1" "account p1 ks = account p ks" "room p1 \<noteq> 0 \<longrightarrow> \<not> revents (ctx p1) d"
        "\<forall>d'. d' \<noteq> d \<longrightarrow> revents (ctx p1) d' = revents (ctx p) d' \<and> mSensors (ctx p1) d' = mSensors (ctx p) d'"
        "wake_pipe (ctx p1) = wake_pipe (ctx p)"
        "ctx_work (ctx p1) + nat (room p1) < ctx_work (ctx p) + nat (room p)"
      using scan_step [OF Cons.prems(1,2), of d ds ks] Cons.prems(4) by auto
    have "\<forall>d'\<in>set ds. revents (ctx p1) d' \<longrightarrow> data_fd (mSensors (ctx p1) d') \<noteq> []" "distinct ds" "d \<notin> set ds"
      using Cons.prems p1(6) by auto
    then obtain p' where p': "poll_scan readEvents ds p1 = Inr p'" "sound (ctx p')" "filled m count p'"
        "account p' ks = account p1 ks" "room p' \<noteq> 0 \<longrightarrow> (\<forall>d\<in>set ds. \<not> revents (ctx p') d)"
        "\<forall>d. d \<notin> set ds \<longrightarrow> revents (ctx p') d = revents (ctx p1) d"
        "wake_pipe (ctx p') = wake_pipe (ctx p1)"
        "ctx_work (ctx p') + nat (room p') \<le> ctx_work (ctx p1) + nat (room p1)"
      using Cons.IH [OF p1(2,3)] by blast
    have "room p1 = 0 \<longrightarrow> p' = p1" using p'(1) by (cases ds) auto
    then have "room p' \<noteq> 0 \<longrightarrow> \<not> revents (ctx p') d"
      using p'(6) p1(5) \<open>d \<notin> set ds\<close> by auto
    then show ?thesis
      using p' p1 by (intro exI [of _ p']) auto
  qed
qed auto

text \<open>A call of \<open>poll\<close> when all flags are clear and nothing is left in the buffers.\<close>

definition idle :: "sensors_poll_context \<Rightarrow> bool" where
  "idle c \<longleftrightarrow> (\<forall>d. ok d (mSensors c d) \<and> dev_good (data_fd (mSensors c d)) \<and>
     unread (mInputReader (mSensors c d)) = [])"

lemma idle_arrive: "idle c \<Longrightarrow> \<forall>d. dev_good (f d) \<Longrightarrow> idle (arrive f k c)"
  by (simp add: idle_def arrive_def dev_append ok_data)

lemma work_arrive:
  "ctx_work (arrive f k c) = ctx_work c + k + sum_list (map (\<lambda>d. dev_work (f d)) drivers)"
  by (simp add: ctx_work_def arrive_def obj_work_def dev_work_append drivers_def)

lemma left_arrive: "left d (mSensors (arrive f k c) d) rest = left d (mSensors c d) (dev_events (f d) @ rest)"
  by (simp add: arrive_def left_data)

lemma ready_zero: "ready c = 0 \<longleftrightarrow> (\<forall>d. data_fd (mSensors c d) = []) \<and> wake_pipe c = 0"
  using all_drivers by (auto simp: ready_def filter_empty_conv)

lemma idle_polled: "idle c \<Longrightarrow> idle (read_wake (set_revents c)) \<and> sound (read_wake (set_revents c)) \<and>
   (\<forall>d. revents (read_wake (set_revents c)) d \<longrightarrow> data_fd (mSensors (read_wake (set_revents c)) d) \<noteq> [])"
  by (simp add: idle_def sound_def read_wake_def set_revents_def)

lemma work_polled:
  "ready c \<noteq> 0 \<Longrightarrow> ctx_work (read_wake (set_revents c)) < ctx_work c \<or>
     ctx_work (read_wake (set_revents c)) = ctx_work c \<and> (\<exists>d. revents (read_wake (set_revents c)) d)"
  by (auto simp: ready_zero ctx_work_def read_wake_def set_revents_def)

lemma left_polled [simp]: "mSensors (read_wake (set_revents c)) = mSensors c"
  by (simp add: read_wake_def set_revents_def)

text \<open>What a call of \<open>poll\<close> leaves, with \<open>w\<close> work left before it and \<open>T d\<close> left to deliver.\<close>

definition polled ::
  "bool \<Rightarrow> nat \<Rightarrow> (driver \<Rightarrow> sensors_event list) \<Rightarrow> nat set \<Rightarrow>
   ((nat + nat) \<times> sensors_poll_context \<times> kernel_step list) option \<Rightarrow> bool" where
  "polled at_once w T fails r \<longleftrightarrow>
     (case r of
        None \<Rightarrow> \<not> at_once \<and> (\<forall>d. T d = [])
      | Some (Inl e, c, ks) \<Rightarrow> e \<in> fails \<and> (\<forall>d. left d (mSensors c d) (arrivals d ks) = T d)
      | Some (Inr n, c', ks) \<Rightarrow>
          (\<exists>c. n = ready c \<and> c' = set_revents c \<and> idle c \<and> steps_good ks \<and> (at_once \<or> n \<noteq> 0) \<and>
             {e. PollFails e \<in> set ks} \<subseteq> fails \<and> ctx_work c + steps_work ks \<le> w \<and> (\<forall>d. left d (mSensors c d) (arrivals d ks) = T d)))"

lemma polled_mono: "polled at_once w T fails r \<Longrightarrow> w \<le> w' \<Longrightarrow> fails \<subseteq> fails' \<Longrightarrow> polled at_once w' T fails' r"
  unfolding polled_def by (auto split: option.splits sum.splits) (use le_trans in blast)+

lemma polledI:
  "{e. PollFails e \<in> set ks} \<subseteq> fails \<Longrightarrow> idle c \<Longrightarrow> steps_good ks \<Longrightarrow> at_once \<or> ready c \<noteq> 0 \<Longrightarrow> ctx_work c + steps_work ks \<le> w \<Longrightarrow>
   (\<And>d. left d (mSensors c d) (arrivals d ks) = T d) \<Longrightarrow>
   polled at_once w T fails (Some (Inr (ready c), set_revents c, ks))"
  by (auto simp: polled_def)

lemma poll_call:
  assumes "idle c" "steps_good ks"
  shows "polled at_once (ctx_work c + steps_work ks) (\<lambda>d. left d (mSensors c d) (arrivals d ks))
    {e. PollFails e \<in> set ks} (sys_poll at_once c ks)"
  using assms
proof (induction at_once c ks rule: sys_poll.induct)
  case (1 at_once c)
  show ?case
  proof (cases "ready c = 0 \<and> \<not> at_once")
    case True
    with 1 show ?thesis by (auto simp: polled_def ready_zero idle_def left_nothing)
  next
    case False
    with 1 polledI [OF _ 1, of "{}" at_once] show ?thesis by auto
  qed
next
  case (2 at_once c e ks)
  show ?case
  proof (cases "e = EINTR")
    case True
    then have "polled at_once (ctx_work c + steps_work ks) (\<lambda>d. left d (mSensors c d) (arrivals d ks))
        {e. PollFails e \<in> set ks} (sys_poll at_once c ks)"
      using 2 by simp
    then show ?thesis using True by (auto intro: polled_mono)
  next
    case False
    then show ?thesis by (simp add: polled_def)
  qed
next
  case (3 at_once c f k ks)
  let ?c = "arrive f k c"
  have c: "idle ?c" "steps_good ks" using 3(2,3) idle_arrive by auto
  have w: "ctx_work ?c + steps_work ks \<le> ctx_work c + steps_work (Arrive f k # ks)"
    by (simp add: work_arrive)
  show ?case
  proof (cases "ready ?c = 0 \<and> \<not> at_once")
    case True
    have "polled at_once (ctx_work ?c + steps_work ks) (\<lambda>d. left d (mSensors ?c d) (arrivals d ks))
        {e. PollFails e \<in> set ks} (sys_poll at_once ?c ks)"
      using 3(1) [OF refl True c] .
    then show ?thesis using True w by (auto simp: Let_def left_arrive intro: polled_mono)
  next
    case False
    then have eq: "sys_poll at_once c (Arrive f k # ks) = Some (Inr (ready ?c), set_revents ?c, ks)"
      by (auto simp: Let_def)
    show ?thesis
      unfolding eq using c w False by (intro polledI) (auto simp: left_arrive)
  qed
qed

text \<open>
  The loop: with fuel for the work that is left it does not stop early, and the accounts of all
  drivers stay as they are.
\<close>

definition poll_done ::
  "sensors_event list \<Rightarrow> int \<Rightarrow> (driver \<Rightarrow> sensors_event list) \<Rightarrow> nat set \<Rightarrow>
   poll_end + (int \<times> poll_st \<times> kernel_step list) \<Rightarrow> bool" where
  "poll_done m count T fails r \<longleftrightarrow>
     (case r of
        Inl Waits \<Rightarrow> \<forall>d. T d = []
      | Inl (Stops stop) \<Rightarrow> False
      | Inr (n, p, ks) \<Rightarrow> filled m count p \<and> account p ks = T \<and>
          (n = nbEvents p \<and> 0 < n \<or> (\<exists>e\<in>fails. n = - int e)))"

lemma poll_done_mono: "poll_done m count T fails r \<Longrightarrow> fails \<subseteq> fails' \<Longrightarrow> poll_done m count T fails' r"
  unfolding poll_done_def by (auto split: sum.splits poll_end.splits)

lemma loop:
  assumes "sound (ctx p)" "filled m count p" "steps_good ks" "1 \<le> count"
    and "\<forall>d. revents (ctx p) d \<longrightarrow> data_fd (mSensors (ctx p) d) \<noteq> []"
    and "2 * (ctx_work (ctx p) + nat (room p) + steps_work ks) +
      (if \<exists>d. revents (ctx p) d then 0 else 1) < fuel"
  shows "poll_done m count (account p ks) {e. PollFails e \<in> set ks} (poll_loop readEvents fuel p ks)"
  using assms
proof (induction fuel arbitrary: p ks)
  case (Suc fuel)
  obtain q where q: "poll_scan readEvents drivers p = Inr q" "sound (ctx q)" "filled m count q"
      "account q ks = account p ks" "room q \<noteq> 0 \<longrightarrow> (\<forall>d\<in>set drivers. \<not> revents (ctx q) d)"
      "ctx_work (ctx q) + nat (room q) \<le> ctx_work (ctx p) + nat (room p)"
      "room p \<noteq> 0 \<and> (\<exists>d\<in>set drivers. revents (ctx p) d) \<longrightarrow>
         ctx_work (ctx q) + nat (room q) < ctx_work (ctx p) + nat (room p)"
    using scan [OF Suc.prems(1,2) all_drivers(2)] Suc.prems(5) by blast
  show ?case
  proof (cases "room q = 0")
    case True
    then have "0 < nbEvents q" using q(3) Suc.prems(4) by (simp add: filled_def poll_shape_def)
    then show ?thesis using True q by (simp add: poll_done_def)
  next
    case False
    have idle: "idle (ctx q)"
      using q(2,5) False all_drivers(1) by (auto simp: sound_def idle_def)
    have room: "room p \<noteq> 0"
    proof
      assume "room p = 0"
      then have "q = p" using q(1) by (simp add: drivers_def)
      with \<open>room p = 0\<close> False show False by simp
    qed
    have acc: "account q ks = account p ks" by (rule q(4))
    note call = poll_call [OF idle Suc.prems(3), of "nbEvents q \<noteq> 0"]
    show ?thesis
    proof (cases "sys_poll (nbEvents q \<noteq> 0) (ctx q) ks")
      case None
      then have "delivered q = []" "\<forall>d. left d (mSensors (ctx q) d) (arrivals d ks) = []"
        using call by (auto simp: polled_def delivered_def)
      then have "\<forall>d. account p ks d = []" unfolding acc [symmetric] by (simp add: account_def)
      then show ?thesis using None False q(1) by (simp add: poll_done_def)
    next
      case (Some r)
      obtain res c ks' where r: "r = (res, c, ks')" by (cases r)
      show ?thesis
      proof (cases res)
        case (Inl e)
        then have e: "PollFails e \<in> set ks" "\<forall>d. left d (mSensors c d) (arrivals d ks') = left d (mSensors (ctx q) d) (arrivals d ks)"
          using call Some r by (auto simp: polled_def)
        then have "account (q\<lparr>ctx := c\<rparr>) ks' = account p ks"
          unfolding acc [symmetric] by (simp add: account_def delivered_def fun_eq_iff)
        moreover have "filled m count (q\<lparr>ctx := c\<rparr>)" using q(3) by (simp add: filled_def poll_shape_def delivered_def)
        ultimately show ?thesis using Some r Inl e(1) False q(1) by (auto simp: poll_done_def)
      next
        case (Inr n)
        then obtain c0 where c0: "n = ready c0" "c = set_revents c0" "idle c0" "steps_good ks'"
            "nbEvents q \<noteq> 0 \<or> n \<noteq> 0" "{e. PollFails e \<in> set ks'} \<subseteq> {e. PollFails e \<in> set ks}" "ctx_work c0 + steps_work ks' \<le> ctx_work (ctx q) + steps_work ks"
            "\<forall>d. left d (mSensors c0 d) (arrivals d ks') = left d (mSensors (ctx q) d) (arrivals d ks)"
          using call Some r by (auto simp: polled_def)
        define p' where "p' = q\<lparr>ctx := read_wake c\<rparr>"
        have shape: "filled m count p'" using q(3) by (simp add: filled_def poll_shape_def delivered_def p'_def)
        have acc': "account p' ks' = account p ks"
          unfolding acc [symmetric] using c0(8)
          by (simp add: account_def delivered_def fun_eq_iff p'_def c0(2))
        show ?thesis
        proof (cases "n = 0")
          case True
          then have "0 < nbEvents p'" using c0(5) q(3) by (auto simp: filled_def poll_shape_def p'_def)
          then show ?thesis
            using True Some r Inr False q(1) shape acc' by (simp add: poll_done_def p'_def Let_def)
        next
          case n: False
          have "sound (ctx p')" "\<forall>d. revents (ctx p') d \<longrightarrow> data_fd (mSensors (ctx p') d) \<noteq> []"
            using idle_polled [OF c0(3)] by (simp_all add: p'_def c0(2))
          moreover have "2 * (ctx_work (ctx p') + nat (room p') + steps_work ks') +
              (if \<exists>d. revents (ctx p') d then 0 else 1) < fuel"
          proof -
            have "room p' = room q" by (simp add: p'_def)
            moreover have "ctx_work (ctx p') < ctx_work c0 \<or> ctx_work (ctx p') = ctx_work c0 \<and> (\<exists>d. revents (ctx p') d)"
              using work_polled [of c0] n c0(1) by (simp add: p'_def c0(2))
            ultimately show ?thesis
              using Suc.prems(6) q(6,7) c0(7) room all_drivers(1) by (auto split: if_splits)
          qed
          ultimately have "poll_done m count (account p' ks') {e. PollFails e \<in> set ks'} (poll_loop readEvents fuel p' ks')"
            using Suc.IH shape c0(4) Suc.prems(4) by blast
          moreover have "poll_loop readEvents (Suc fuel) p ks = poll_loop readEvents fuel p' ks'"
            using Some r Inr False q(1) n by (simp add: p'_def Let_def)
          moreover have "{e. PollFails e \<in> set ks'} \<subseteq> {e. PollFails e \<in> set ks}" by (rule c0(6))
          ultimately show ?thesis unfolding acc' using poll_done_mono by auto
        qed
      qed
    qed
  qed
qed simp

end

end
