(* ===== verification/SensorRun.thy ===== *)
theory SensorRun
  imports SensorContract
begin

text \<open>
  Properties of the sensor module: the four classes fulfil the contract of \<open>readEvents\<close>, what
  \<open>pollEvents\<close> delivers, where it goes wrong, and that all objects stay well formed.
\<close>

subsection \<open>The four classes fulfil the contract\<close>

fun slots :: "driver \<Rightarrow> nat" where
  "slots Accel = 1" | "slots Mag = 2" | "slots Pressure = 2" | "slots Gyro = 1"

fun slot_id :: "driver \<Rightarrow> nat \<Rightarrow> int" where
  "slot_id Accel i = ID_A"
| "slot_id Mag i = (if i = 0 then ID_M else ID_O)"
| "slot_id Pressure i = (if i = 0 then ID_P else ID_T)"
| "slot_id Gyro i = ID_GY"

definition driver_ids :: "driver \<Rightarrow> int set" where
  "driver_ids d = slot_id d ` {..<slots d}"

fun process_of :: "android \<Rightarrow> driver \<Rightarrow> int \<Rightarrow> int \<Rightarrow> sensor_st \<Rightarrow> sensor_st" where
  "process_of hw Accel = acc_processEvent hw"
| "process_of hw Mag = mag_processEvent"
| "process_of hw Pressure = press_processEvent"
| "process_of hw Gyro = gyro_processEvent"

text \<open>A sound object of a driver, and what it has to deliver if \<open>rest\<close> follows.\<close>

definition driver_ok :: "driver \<Rightarrow> sensor_obj \<Rightarrow> bool" where
  "driver_ok d obj \<longleftrightarrow> obj_ok (slots d) (slot_id d) obj"

definition driver_left :: "android \<Rightarrow> driver \<Rightarrow> sensor_obj \<Rightarrow> input_event list \<Rightarrow> sensors_event list" where
  "driver_left hw d obj rest = stream_left (process_of hw d) (slots d) obj rest"

lemma driver_ids_simps:
  "driver_ids Accel = {ID_A}" "driver_ids Mag = {ID_M, ID_O}" "driver_ids Pressure = {ID_P, ID_T}"
  "driver_ids Gyro = {ID_GY}"
proof -
  have two: "{..<2 :: nat} = {0, 1}" by auto
  show "driver_ids Accel = {ID_A}" "driver_ids Mag = {ID_M, ID_O}" "driver_ids Pressure = {ID_P, ID_T}"
    "driver_ids Gyro = {ID_GY}"
    by (auto simp: driver_ids_def two)
qed

lemma driver_ids_eq: "sensor e \<in> driver_ids d \<longleftrightarrow> (\<exists>i < slots d. sensor e = slot_id d i)"
  by (auto simp: driver_ids_def)

text \<open>The laws of one class, for the virtual function.\<close>

lemma driver_class: "sensor_class (process_of hw d) (if d = Mag \<or> d = Pressure then syn_two else syn_one) (slots d)"
  using acc.sensor_class_axioms mag.sensor_class_axioms press.sensor_class_axioms gyro.sensor_class_axioms
  by (cases d) simp_all

lemma driver_read:
  "SensorBase_readEvents hw d = read_events (process_of hw d) (if d = Mag \<or> d = Pressure then syn_two else syn_one)"
  by (cases d) (simp_all add: acc_readEvents_def mag_readEvents_def press_readEvents_def gyro_readEvents_def)

lemma driver_read_stream:
  assumes "driver_ok d obj" and "1 \<le> count"
  shows "SensorBase_readEvents hw d obj count = Inl Blocks \<and> data_fd obj = [] \<or>
    (\<exists>n dev'. SensorBase_readEvents hw d obj count = Inr (n, [], obj\<lparr>data_fd := dev'\<rparr>) \<and> n < 0 \<and>
       \<not> dev_good (data_fd obj)) \<or>
    (\<exists>out obj'. SensorBase_readEvents hw d obj count = Inr (int (length out), out, obj') \<and>
       int (length out) \<le> count \<and> driver_ok d obj' \<and> same_sensor (members obj) (members obj') \<and>
       (\<forall>rest. out @ driver_left hw d obj' rest = driver_left hw d obj rest) \<and>
       (\<forall>e\<in>set out. sensor e \<in> driver_ids d) \<and>
       mBufferEnd (mInputReader obj') = mBufferEnd (mInputReader obj) \<and>
       length (unread (mInputReader obj')) \<le> length (unread (mInputReader obj) @ dev_events (data_fd obj)) \<and>
       (dev_good (data_fd obj) \<longrightarrow> dev_good (data_fd obj')) \<and>
       (int (length out) < count \<longrightarrow> unread (mInputReader obj') = []) \<and>
       (data_fd obj \<noteq> [] \<longrightarrow> obj_work obj' < obj_work obj + length out))"
  using sensor_class.read_events_stream [OF driver_class assms(1) [unfolded driver_ok_def] assms(2), of hw]
  by (simp only: driver_read driver_left_def driver_ok_def driver_ids_eq)

interpretation hal: sensor_base "SensorBase_readEvents hw" driver_ok "driver_left hw" driver_ids for hw
proof unfold_locales
  fix d obj and count :: int
  assume "driver_ok d obj" "1 \<le> count" "dev_good (data_fd obj)" "data_fd obj \<noteq> []"
  then show "\<exists>out obj'. SensorBase_readEvents hw d obj count = Inr (int (length out), out, obj') \<and>
       int (length out) \<le> count \<and> driver_ok d obj' \<and> dev_good (data_fd obj') \<and>
       (\<forall>rest. out @ driver_left hw d obj' rest = driver_left hw d obj rest) \<and> (\<forall>e\<in>set out. sensor e \<in> driver_ids d) \<and>
       (int (length out) < count \<longrightarrow> unread (mInputReader obj') = []) \<and>
       obj_work obj' < obj_work obj + length out"
    using driver_read_stream [of d obj count hw] by auto
next
  fix d d' :: driver
  assume "d \<noteq> d'"
  then show "driver_ids d \<inter> driver_ids d' = {}"
    by (cases d; cases d') (simp_all add: driver_ids_simps sensor_ids)
qed (simp_all add: driver_ok_def obj_ok_def driver_left_def stream_left_def dev_append)

text \<open>
  A context between two calls: sound objects, no failing read ahead, nothing in a buffer
  without its flag; and \<open>fresh\<close> flags, which a device backs.
\<close>

definition context_ok :: "sensors_poll_context \<Rightarrow> bool" where
  "context_ok c \<longleftrightarrow> (\<forall>d. driver_ok d (mSensors c d) \<and> dev_good (data_fd (mSensors c d)) \<and>
     (unread (mInputReader (mSensors c d)) \<noteq> [] \<longrightarrow> revents c d))"

definition flags_fresh :: "sensors_poll_context \<Rightarrow> bool" where
  "flags_fresh c \<longleftrightarrow> (\<forall>d. revents c d \<longrightarrow> data_fd (mSensors c d) \<noteq> [])"

definition to_deliver :: "android \<Rightarrow> sensors_poll_context \<Rightarrow> kernel_step list \<Rightarrow> driver \<Rightarrow> sensors_event list" where
  "to_deliver hw c ks d = driver_left hw d (mSensors c d) (arrivals d ks)"

lemma poll_delivers:
  assumes "context_ok c" "flags_fresh c" "steps_good ks" "1 \<le> count" "count \<le> int (length m)"
  shows "hal.poll_done hw m count (to_deliver hw c ks) {e. PollFails e \<in> set ks} (pollEvents hw c m count ks)"
proof -
  let ?p = "\<lparr>ctx = c, data = m, pos = 0, room = count, nbEvents = 0\<rparr>"
  have "hal.account hw ?p ks = to_deliver hw c ks"
    by (simp add: hal.account_def delivered_def to_deliver_def fun_eq_iff)
  moreover have "hal.sound (ctx ?p)" using assms(1) by (simp add: hal.sound_def context_ok_def)
  moreover have "hal.filled m count ?p"
    using assms(4,5) by (simp add: hal.filled_def poll_shape_def delivered_def)
  ultimately show ?thesis
    using hal.loop [of ?p m count ks "2 * (ctx_work c + nat count + steps_work ks) + 3" hw] assms(2-4)
    by (simp add: pollEvents_def flags_fresh_def)
qed

subsection \<open>The read that waits for ever\<close>

lemma fill_all:
  assumes "holds r []" and "length es \<le> mBufferEnd r" and "fill r [ReadEvents es] = Inr (n, r', dev)"
  shows "dev = []"
  using assms by (auto simp: fill_def holds_def bindr_Inr split: if_splits)

text \<open>One driver gets a burst that fits into its buffer; the others have nothing.\<close>

definition burst :: "driver \<Rightarrow> input_event list \<Rightarrow> kernel_step" where
  "burst d es = Arrive (\<lambda>d'. if d' = d then [ReadEvents es] else []) 0"

definition quiet :: "sensors_poll_context \<Rightarrow> bool" where
  "quiet c \<longleftrightarrow> (\<forall>d. driver_ok d (mSensors c d) \<and> data_fd (mSensors c d) = [] \<and>
     unread (mInputReader (mSensors c d)) = [] \<and> \<not> revents c d)"

lemma scan_skip: "\<forall>d\<in>set ds. \<not> revents (ctx p) d \<Longrightarrow> poll_scan rdev ds p = Inr p"
  by (induction ds) (simp_all add: hasPendingEvents_def)

lemma burst_read:
  assumes "driver_ok d obj" "unread (mInputReader obj) = []" "data_fd obj = [ReadEvents es]"
    and "length es < mBufferEnd (mInputReader obj)"
    and "1 \<le> count"
  shows "\<exists>out obj'. SensorBase_readEvents hw d obj count = Inr (int (length out), out, obj') \<and>
    int (length out) \<le> count \<and> data_fd obj' = [] \<and> driver_ok d obj' \<and> mFreeSpace (mInputReader obj') \<noteq> 0 \<and>
    out @ driver_left hw d obj' [] = driver_left hw d obj [] \<and>
    (int (length out) < count \<longrightarrow> out = driver_left hw d obj [])"
proof -
  obtain out' obj' where r: "SensorBase_readEvents hw d obj count = Inr (int (length out'), out', obj')"
      "int (length out') \<le> count" "driver_ok d obj'" "\<forall>rest. out' @ driver_left hw d obj' rest = driver_left hw d obj rest"
      "int (length out') < count \<longrightarrow> unread (mInputReader obj') = []"
      "mBufferEnd (mInputReader obj') = mBufferEnd (mInputReader obj)"
      "length (unread (mInputReader obj')) \<le> length es"
    using driver_read_stream [OF assms(1,5), of hw] assms(2,3) by auto
  have h: "holds (mInputReader obj) []" using assms(1,2) by (simp add: driver_ok_def obj_ok_def)
  have dev: "data_fd obj' = []"
  proof -
    have eq: "bindr (fill (mInputReader obj) [ReadEvents es]) (\<lambda>(n, r, dev).
        if n < 0 then Inr (n, [], obj\<lparr>mInputReader := r, data_fd := dev\<rparr>)
        else bindr (read_loop (process_of hw d) (if d = Mag \<or> d = Pressure then syn_two else syn_one)
               (mBufferEnd r + 2) (members obj) r (nat count)) (\<lambda>(out, st, r').
          Inr (int (length out), out, \<lparr>members = st, mInputReader = r', data_fd = dev\<rparr>)))
        = Inr (int (length out'), out', obj')"
      using r(1) assms(3,5) by (simp add: driver_read read_events_def)
    obtain n r' dev where f: "fill (mInputReader obj) [ReadEvents es] = Inr (n, r', dev)"
      and "data_fd obj' = dev"
      using eq by (elim bindr_InrE) (auto split: if_splits elim!: bindr_InrE)
    with fill_all [OF h less_imp_le [OF assms(4)]] show ?thesis by blast
  qed
  have out: "out' = driver_left hw d obj []" if "int (length out') < count"
  proof -
    have "driver_left hw d obj' [] = []"
      using r(3,5) dev that by (simp add: driver_left_def stream_left_def)
    with r(4) show ?thesis by (metis append_Nil2)
  qed
  have "holds (mInputReader obj') (unread (mInputReader obj'))" using r(3) by (simp add: driver_ok_def obj_ok_def)
  then have "mFreeSpace (mInputReader obj') \<noteq> 0" using r(6,7) assms(4) by (auto simp: holds_def)
  with r(1-4) dev out show ?thesis by blast
qed

lemma blocked_read:
  assumes "1 \<le> count" "data_fd obj = []" "mFreeSpace (mInputReader obj) \<noteq> 0"
  shows "SensorBase_readEvents hw d obj count = Inl Blocks"
  using assms by (simp add: driver_read read_events_def fill_def)

text \<open>Scanning when only one driver has its flag set.\<close>

lemma scan_one:
  assumes "\<forall>d'\<in>set ds. revents (ctx p) d' \<longleftrightarrow> d' = d" "d \<in> set ds" "distinct ds" "room p \<noteq> 0"
  shows "poll_scan rdev ds p =
    bindr (rdev d (mSensors (ctx p) d) (room p)) (\<lambda>(nb, out, obj).
    bindr (store_events (data p) (pos p) out) (\<lambda>m.
      Inr (p\<lparr>ctx := (ctx p)\<lparr>mSensors := (mSensors (ctx p))(d := obj),
               revents := (if nb < room p then (revents (ctx p))(d := False) else revents (ctx p))\<rparr>,
             data := m, pos := pos p + nb, room := room p - nb, nbEvents := nbEvents p + nb\<rparr>)))"
proof -
  obtain xs ys where ds: "ds = xs @ d # ys" "d \<notin> set xs" "d \<notin> set ys"
    using assms(2,3) by (metis distinct.simps(2) distinct_append not_distinct_conv_prefix split_list disjoint_iff list.set_intros(1))
  have pre: "poll_scan rdev (xs @ zs) p = poll_scan rdev zs p" if "d \<notin> set xs" "set xs \<subseteq> set ds" for xs zs
    using that assms(1,4) by (induction xs) (auto simp: hasPendingEvents_def)
  have post: "poll_scan rdev ys p' = Inr p'" if "\<forall>d'. d' \<noteq> d \<longrightarrow> revents (ctx p') d' = revents (ctx p) d'" for p'
    using that ds assms(1) by (intro scan_skip) auto
  have "poll_scan rdev ds p = poll_scan rdev (d # ys) p"
  proof -
    have "set xs \<subseteq> set ds" using ds(1) by auto
    with pre [OF ds(2)] show ?thesis by (simp only: ds(1))
  qed
  then show ?thesis
    using assms(1,2,4) by (auto simp: post intro!: arg_cong2 [of _ _ _ _ bindr] split: prod.split)
qed

lemma poll_fuel: "2 * k + 3 = Suc (Suc (Suc (2 * k)))" for k :: nat
  by simp

lemma exact_read:
  assumes "quiet c" and "length es < mBufferEnd (mInputReader (mSensors c d))"
    and "length (to_deliver hw c [burst d es] d) = n" and "0 < n" and "n \<le> length m"
  shows "\<exists>p. pollEvents hw c m (int n) [burst d es] = Inr (int n, p, []) \<and>
    take n (data p) = to_deliver hw c [burst d es] d \<and> (\<forall>d'. revents (ctx p) d' \<longleftrightarrow> d' = d) \<and>
    data_fd (mSensors (ctx p) d) = [] \<and> mFreeSpace (mInputReader (mSensors (ctx p) d)) \<noteq> 0"
proof -
  let ?p = "\<lparr>ctx = c, data = m, pos = 0, room = int n, nbEvents = 0\<rparr>"
  define c1 where "c1 = arrive (\<lambda>d'. if d' = d then [ReadEvents es] else []) 0 c"
  define obj where "obj = (mSensors c d)\<lparr>data_fd := [ReadEvents es]\<rparr>"
  have c1: "mSensors c1 d = obj" "data_fd (mSensors c1 d') \<noteq> [] \<longleftrightarrow> d' = d" for d'
    using assms(1) by (simp_all add: c1_def arrive_def obj_def quiet_def)
  have "ready c1 \<noteq> 0" using c1(2) by (auto simp: hal.ready_zero)
  then have poll: "sys_poll False c [burst d es] = Some (Inr (ready c1), set_revents c1, [])"
    by (simp add: burst_def c1_def [symmetric] Let_def)
  have skip: "poll_scan (SensorBase_readEvents hw) drivers ?p = Inr ?p"
    using assms(1) by (intro scan_skip) (simp add: quiet_def)
  define q where "q = ?p\<lparr>ctx := read_wake (set_revents c1)\<rparr>"
  have flags: "revents (ctx q) d' \<longleftrightarrow> d' = d" for d'
    using c1(2) by (simp add: q_def read_wake_def set_revents_def)
  have ok: "driver_ok d obj" "unread (mInputReader obj) = []"
    using assms(1) by (simp_all add: quiet_def obj_def hal.ok_data)
  have left: "driver_left hw d obj [] = to_deliver hw c [burst d es] d"
    using assms(1) by (simp add: to_deliver_def driver_left_def stream_left_def obj_def quiet_def burst_def)
  obtain out obj' where r: "SensorBase_readEvents hw d obj (int n) = Inr (int (length out), out, obj')"
      "int (length out) \<le> int n" "data_fd obj' = []" "mFreeSpace (mInputReader obj') \<noteq> 0"
      "out @ driver_left hw d obj' [] = driver_left hw d obj []"
      "int (length out) < int n \<longrightarrow> out = driver_left hw d obj []"
    using burst_read [OF ok, of es "int n" hw] assms(2,4) by (auto simp: obj_def)
  have out: "length out = n" "out = to_deliver hw c [burst d es] d"
  proof -
    show n: "length out = n" using r(2,6) assms(3) unfolding left by auto
    show "out = to_deliver hw c [burst d es] d"
      using r(5) n assms(3) unfolding left by (metis append_eq_conv_conj take_all order_refl)
  qed
  have "poll_scan (SensorBase_readEvents hw) drivers q =
     Inr (q\<lparr>ctx := (ctx q)\<lparr>mSensors := (mSensors (ctx q))(d := obj')\<rparr>,
             data := out @ drop n m, pos := int n, room := 0, nbEvents := int n\<rparr>)"
    using scan_one [of drivers q d "SensorBase_readEvents hw"] flags all_drivers assms(4,5) r(1) out(1) c1(1)
    by (auto simp: q_def store_events_def)
  then have "pollEvents hw c m (int n) [burst d es] =
     Inr (int n, q\<lparr>ctx := (ctx q)\<lparr>mSensors := (mSensors (ctx q))(d := obj')\<rparr>,
             data := out @ drop n m, pos := int n, room := 0, nbEvents := int n\<rparr>, [])"
    using skip poll assms(4) \<open>ready c1 \<noteq> 0\<close>
    unfolding pollEvents_def poll_fuel by (simp add: q_def Let_def del: poll_scan.simps)
  then show ?thesis using out flags r(3,4) by (intro exI conjI) (assumption | simp)+
qed

lemma stale_flag_blocks:
  assumes "\<forall>d'. revents c d' \<longleftrightarrow> d' = d" "data_fd (mSensors c d) = []"
    and "mFreeSpace (mInputReader (mSensors c d)) \<noteq> 0" "1 \<le> count"
  shows "pollEvents hw c m count ks = Inl (Stops Blocks)"
  using scan_one [of drivers "\<lparr>ctx = c, data = m, pos = 0, room = count, nbEvents = 0\<rparr>" d "SensorBase_readEvents hw"]
    all_drivers assms blocked_read [OF assms(4,2,3)]
  unfolding pollEvents_def poll_fuel by simp

subsection \<open>The read that fails\<close>

text \<open>
  A failed read moves \<open>data\<close> back by the error number; the next event is written before the
  caller's array.
\<close>

lemma failed_read:
  assumes "revents c Accel" "data_fd (mSensors c Accel) = ReadFails e # dev" "0 < e"
    and "mFreeSpace (mInputReader (mSensors c Accel)) \<noteq> 0"
    and "\<forall>d'. d' \<noteq> Accel \<longrightarrow> (revents c d' \<longleftrightarrow> d' = d)" "d \<noteq> Accel"
    and "driver_ok d (mSensors c d)" "unread (mInputReader (mSensors c d)) = []"
    and "data_fd (mSensors c d) = [ReadEvents es]" "length es < mBufferEnd (mInputReader (mSensors c d))"
    and "to_deliver hw c [] d \<noteq> []" and "1 \<le> count"
  shows "pollEvents hw c m count ks = Inl (Stops OutOfArray)"
proof -
  let ?rd = "SensorBase_readEvents hw"
  let ?p = "\<lparr>ctx = c, data = m, pos = 0, room = count, nbEvents = 0\<rparr>"
  define acc where "acc = (mSensors c Accel)\<lparr>data_fd := dev\<rparr>"
  define q where "q = ?p\<lparr>ctx := c\<lparr>mSensors := (mSensors c)(Accel := acc), revents := (revents c)(Accel := False)\<rparr>,
     pos := - int e, room := count + int e, nbEvents := - int e\<rparr>"
  have "?rd Accel (mSensors c Accel) count = Inr (- int e, [], acc)"
    using assms(2-4,12) by (simp add: acc_readEvents_def read_events_def fill_def acc_def)
  then have 1: "poll_scan ?rd drivers ?p = poll_scan ?rd [Mag, Pressure, Gyro] q"
    using assms(1,3,12) unfolding drivers_def poll_scan.simps(2) [of ?rd Accel]
    by (simp add: store_events_def q_def del: SensorBase_readEvents.simps poll_scan.simps)
  obtain out obj' where r: "?rd d (mSensors c d) (count + int e) = Inr (int (length out), out, obj')"
      "out @ driver_left hw d obj' [] = driver_left hw d (mSensors c d) []"
      "int (length out) < count + int e \<longrightarrow> out = driver_left hw d (mSensors c d) []"
    using burst_read [OF assms(7-10), of "count + int e" hw] assms(12) by auto
  have out: "out \<noteq> []"
    using r(3) assms(11,12) by (auto simp: to_deliver_def)
  have "d \<in> set [Mag, Pressure, Gyro]" using assms(6) by (cases d) auto
  then have "poll_scan ?rd [Mag, Pressure, Gyro] q = Inl OutOfArray"
    using scan_one [of "[Mag, Pressure, Gyro]" q d ?rd] assms(3,5,6,12) r(1) out
    by (auto simp: q_def store_events_def)
  with 1 show ?thesis unfolding pollEvents_def poll_fuel by simp
qed

subsection \<open>Every object stays sound\<close>

lemma count_nonneg: "0 \<le> n \<Longrightarrow> 0 \<le> count_user n en" "0 \<le> n \<Longrightarrow> 0 \<le> count_mUser n en"
  by (simp_all add: count_user_def count_mUser_def Let_def)

text \<open>What switching and setting delays touch: counters and delays, which stay non-negative.\<close>

definition members_ok :: "sensor_st \<Rightarrow> sensor_st \<Rightarrow> bool" where
  "members_ok s s' \<longleftrightarrow> mPendingMask s' = mPendingMask s \<and> mPendingEvent s' = mPendingEvent s \<and>
     (0 \<le> mUser s \<longrightarrow> 0 \<le> mUser s') \<and> ((\<forall>i. 0 \<le> mEnabled s i) \<longrightarrow> (\<forall>i. 0 \<le> mEnabled s' i)) \<and>
     ((\<forall>i. 0 \<le> mDelay s i) \<longrightarrow> (\<forall>i. 0 \<le> mDelay s' i))"

lemma setEnable_ok: "SensorBase_setEnable d s handle en io = (err, s', io') \<Longrightarrow> members_ok s s'"
  by (cases d)
    (auto simp: members_ok_def count_nonneg acc_setEnable_def mag_setEnable_def press_setEnable_def
      gyro_setEnable_def Let_def split: if_splits prod.splits)

lemma setDelay_ok: "SensorBase_setDelay d s handle ns io = (err, s', io') \<Longrightarrow> members_ok s s'"
  by (cases d)
    (auto simp: members_ok_def acc_setDelay_def mag_setDelay_def press_setDelay_def
      gyro_setDelay_def Let_def split: if_splits prod.splits)

lemma driver_ok_members: "driver_ok d obj \<Longrightarrow> members_ok (members obj) s \<Longrightarrow> driver_ok d (obj\<lparr>members := s\<rparr>)"
  by (simp add: driver_ok_def obj_ok_def members_ok_def mask_ok_def)

definition all_ok :: "sensors_poll_context \<Rightarrow> bool" where
  "all_ok c \<longleftrightarrow> (\<forall>d. driver_ok d (mSensors c d))"

lemma all_ok_upd: "all_ok c \<Longrightarrow> members_ok (members (mSensors c d)) s \<Longrightarrow>
  all_ok (c\<lparr>mSensors := (mSensors c)(d := (mSensors c d)\<lparr>members := s\<rparr>), attributes := io\<rparr>)"
  by (simp add: all_ok_def driver_ok_members)

lemma call_ok:
  assumes "all_ok c"
  shows "call_setEnable d handle en c = (err, c') \<Longrightarrow> all_ok c'" "call_setDelay d handle ns c = (err, c') \<Longrightarrow> all_ok c'"
  using assms by (auto simp: call_setEnable_def call_setDelay_def setEnable_ok setDelay_ok
    intro: all_ok_upd split: prod.splits)

lemma activate_ok:
  assumes "all_ok c" "activate handle en c = (err, c')"
  shows "all_ok c'"
proof (cases "handleToDriver handle")
  case (Some d)
  have wake: "all_ok (c\<lparr>wake_pipe := n\<rparr>) \<longleftrightarrow> all_ok c" for c n by (simp add: all_ok_def)
  obtain err1 c1 where 1: "(if handle = ID_O \<or> handle = ID_M then call_setEnable Accel handle en c else (0, c)) = (err1, c1)"
    by fastforce
  then have ok1: "all_ok c1" using assms(1) call_ok(1) by (auto split: if_splits)
  obtain err2 c2 where 2: "call_setEnable d handle en c1 = (err2, c2)" by fastforce
  then have "all_ok c2" using ok1 call_ok(1) by blast
  with assms(2) Some 1 2 ok1 show ?thesis by (auto simp: activate_def wake split: if_splits)
qed (use assms in \<open>simp add: activate_def\<close>)

lemma setDelay_all_ok:
  assumes "all_ok c" "setDelay handle ns c = (err, c')"
  shows "all_ok c'"
proof (cases "handleToDriver handle")
  case (Some d)
  let ?c = "if handle = ID_O \<or> handle = ID_M then snd (call_setDelay Accel handle ns c) else c"
  have "all_ok ?c" using assms(1) call_ok(2) [OF assms(1), of Accel handle ns] by (auto simp: prod_eq_iff)
  then show ?thesis using assms(2) Some call_ok(2) by (simp add: setDelay_def)
qed (use assms in \<open>simp add: setDelay_def\<close>)

lemma read_ok:
  assumes "driver_ok d obj" "SensorBase_readEvents hw d obj count = Inr (n, out, obj')"
  shows "driver_ok d obj'"
proof (cases "1 \<le> count")
  case True
  with driver_read_stream [OF assms(1) True, of hw] assms show ?thesis by (auto simp: hal.ok_data)
next
  case False
  with assms show ?thesis by (simp add: driver_read read_events_def)
qed

lemma scan_ok: "all_ok (ctx p) \<Longrightarrow> poll_scan (SensorBase_readEvents hw) ds p = Inr p' \<Longrightarrow> all_ok (ctx p')"
proof (induction ds arbitrary: p)
  case (Cons d ds)
  show ?case
  proof (cases "room p \<noteq> 0 \<and> revents (ctx p) d")
    case True
    then obtain n out obj m where r: "SensorBase_readEvents hw d (mSensors (ctx p) d) (room p) = Inr (n, out, obj)"
      and rest: "poll_scan (SensorBase_readEvents hw) ds
              (p\<lparr>ctx := (ctx p)\<lparr>mSensors := (mSensors (ctx p))(d := obj),
                                 revents := (if n < room p then (revents (ctx p))(d := False) else revents (ctx p))\<rparr>,
                 data := m, pos := pos p + n, room := room p - n, nbEvents := nbEvents p + n\<rparr>) = Inr p'"
        (is "poll_scan _ _ ?q = _")
      using Cons.prems(2) by (auto elim!: bindr_InrE)
    have "driver_ok d obj" using read_ok [OF _ r] Cons.prems(1) by (simp add: all_ok_def)
    then have "all_ok (ctx ?q)" using Cons.prems(1) by (simp add: all_ok_def)
    then show ?thesis using Cons.IH rest by blast
  next
    case False
    with Cons show ?thesis by (auto simp: hasPendingEvents_def split: if_splits)
  qed
qed simp

lemma poll_ok:
  "all_ok c \<Longrightarrow> sys_poll at_once c ks = Some (res, c', ks') \<Longrightarrow> all_ok c'"
proof (induction at_once c ks rule: sys_poll.induct)
  case (3 at_once c f k ks)
  have "all_ok (arrive f k c)" using 3(2) by (simp add: all_ok_def arrive_def hal.ok_data)
  with 3(1,3) show ?case
    by (auto simp: Let_def all_ok_def set_revents_def split: if_splits)
qed (auto simp: all_ok_def set_revents_def split: if_splits)

lemma loop_ok:
  "all_ok (ctx p) \<Longrightarrow> poll_loop (SensorBase_readEvents hw) fuel p ks = Inr (n, p', ks') \<Longrightarrow> all_ok (ctx p')"
proof (induction fuel arbitrary: p ks)
  case (Suc fuel)
  from Suc.prems obtain q where q: "poll_scan (SensorBase_readEvents hw) drivers p = Inr q"
    by (auto split: sum.splits)
  have ok: "all_ok (ctx q)" by (rule scan_ok [OF Suc.prems(1) q])
  show ?case
  proof (cases "room q = 0")
    case False
    with Suc.prems(2) q obtain res c ks1 where poll: "sys_poll (nbEvents q \<noteq> 0) (ctx q) ks = Some (res, c, ks1)"
      by (auto split: option.splits)
    have c: "all_ok c" "all_ok (read_wake c)" using poll_ok [OF ok poll] by (simp_all add: all_ok_def read_wake_def)
    show ?thesis
    proof (cases res)
      case (Inl e)
      with Suc.prems(2) q False poll c show ?thesis by auto
    next
      case (Inr k)
      with Suc.prems(2) q False poll c Suc.IH [of "q\<lparr>ctx := read_wake c\<rparr>"] show ?thesis
        by (auto simp: Let_def split: if_splits)
    qed
  qed (use Suc.prems q ok in auto)
qed simp

lemma unread_new: "unread (new_InputEventCircularReader n) = []"
  by (simp add: unread_def new_InputEventCircularReader_def)

lemma new_ok: "new_sensors_poll_context hw nodes class_input i2c io = Inr c \<Longrightarrow> all_ok c"
proof -
  assume "new_sensors_poll_context hw nodes class_input i2c io = Inr c"
  then obtain a m p g where new: "new_AccelSensor hw nodes i2c = Inr a" "new_MagSensor hw nodes class_input = Inr m"
      "new_PressSensor hw nodes class_input = Inr p" "new_GyroSensor hw nodes i2c = Inr g"
    and c: "mSensors c = (\<lambda>d. case d of Accel \<Rightarrow> a | Mag \<Rightarrow> m | Pressure \<Rightarrow> p | Gyro \<Rightarrow> g)"
    unfolding new_sensors_poll_context_def by (auto elim!: bindr_InrE)
  have "driver_ok Accel a" "driver_ok Mag m" "driver_ok Pressure p" "driver_ok Gyro g"
    using new unfolding new_AccelSensor_def new_MagSensor_def new_PressSensor_def new_GyroSensor_def
    by (auto elim!: bindr_InrE simp: driver_ok_def obj_ok_def unread_new holds_new mask_ok_def new_members_def
        new_event_def less_2_cases_iff)
  then show ?thesis unfolding all_ok_def c by (auto split: driver.splits)
qed

subsection \<open>Properties\<close>

text \<open>
  C16: Nothing is lost, doubled or put out of order on the way through the sensor module. From a
  sound context without stale flags of an earlier \<open>poll\<close>, whose reads do not fail, with \<open>count\<close> at
  least 1 and room for \<open>count\<close> events: \<open>pollEvents\<close> returns
  between one and \<open>count\<close> events (or the error of \<open>poll\<close>), has written exactly so many at the front
  of the caller's array, and for every driver the events with its identifiers, followed by what
  it still has to deliver, are what the specification makes of the whole input of its device. It
  waits for ever only if no driver has anything to deliver.
\<close>

theorem sensors_poll_delivers:
  assumes "context_ok c" and "flags_fresh c" and "steps_good ks" and "1 \<le> count" and "count \<le> int (length m)"
  shows "case pollEvents hw c m count ks of
      Inl Waits \<Rightarrow> \<forall>d. to_deliver hw c ks d = []
    | Inl (Stops stop) \<Rightarrow> False
    | Inr (n, p, ks') \<Rightarrow>
        (0 < n \<and> n = nbEvents p \<or> (\<exists>e. PollFails e \<in> set ks \<and> n = - int e)) \<and>
        0 \<le> nbEvents p \<and> nbEvents p \<le> count \<and> length (data p) = length m \<and>
        drop (nat (nbEvents p)) (data p) = drop (nat (nbEvents p)) m \<and>
        (\<forall>e\<in>set (take (nat (nbEvents p)) (data p)). \<exists>d. sensor e \<in> driver_ids d) \<and>
        (\<forall>d. filter (\<lambda>e. sensor e \<in> driver_ids d) (take (nat (nbEvents p)) (data p)) @
           to_deliver hw (ctx p) ks' d = to_deliver hw c ks d)"
  using poll_delivers [OF assms, of hw]
  by (auto simp: hal.poll_done_def hal.filled_def poll_shape_def hal.account_def delivered_def to_deliver_def
      fun_eq_iff split: sum.splits poll_end.splits)

text \<open>A context for the examples: all objects new, and the accelerometer switched on.\<close>

definition ex_android :: android where
  "ex_android = \<lparr>sizeof_sensors_event = 104, GRAVITY_EARTH = 10, SENSOR_TYPE_ACCELEROMETER = 1,
     SENSOR_TYPE_MAGNETIC_FIELD = 2, SENSOR_TYPE_ORIENTATION = 3, SENSOR_TYPE_GYROSCOPE = 4,
     SENSOR_TYPE_PRESSURE = 6, SENSOR_TYPE_TEMPERATURE = 7, SENSOR_STATUS_ACCURACY_LOW = 1,
     SENSOR_STATUS_ACCURACY_HIGH = 3\<rparr>"

definition ex_object :: "driver \<Rightarrow> sensor_obj" where
  "ex_object d = \<lparr>members = new_members (\<lambda>i. event_zero\<lparr>sensor := slot_id d i\<rparr>) ''x''\<lparr>mEnabled := \<lambda>_. 1\<rparr>,
     mInputReader = new_InputEventCircularReader 4, data_fd = []\<rparr>"

definition ex_context :: sensors_poll_context where
  "ex_context = \<lparr>mSensors = ex_object, revents = (\<lambda>_. False), wake_pipe = 1,
     attributes = \<lparr>attr_results = [], attr_log = []\<rparr>\<rparr>"

definition ex_burst :: "input_event list" where
  "ex_burst = [\<lparr>ie_sec = 1, ie_usec = 0, ie_type = 3, ie_code = 1, ie_value = 0\<rparr>,
     \<lparr>ie_sec = 1, ie_usec = 0, ie_type = 0, ie_code = 0, ie_value = 0\<rparr>]"

lemma ex_object_ok: "driver_ok d (ex_object d)" "unread (mInputReader (ex_object d)) = []" "data_fd (ex_object d) = []"
proof -
  have "unread (mInputReader (ex_object d)) = []"
    by (simp add: ex_object_def unread_new)
  then show "driver_ok d (ex_object d)" "unread (mInputReader (ex_object d)) = []"
    by (simp_all add: driver_ok_def obj_ok_def ex_object_def holds_new mask_ok_def new_members_def)
qed (simp add: ex_object_def)

lemma ex_context_ok: "context_ok ex_context" "flags_fresh ex_context" "quiet ex_context"
  by (simp_all add: context_ok_def flags_fresh_def quiet_def ex_context_def ex_object_ok)

lemma sensors_poll_delivers_witness:
  "case pollEvents ex_android ex_context [event_zero, event_zero] 2 [burst Accel ex_burst] of
      Inl Waits \<Rightarrow> \<forall>d. to_deliver ex_android ex_context [burst Accel ex_burst] d = []
    | Inl (Stops stop) \<Rightarrow> False
    | Inr (n, p, ks') \<Rightarrow>
        (0 < n \<and> n = nbEvents p \<or> (\<exists>e. PollFails e \<in> set [burst Accel ex_burst] \<and> n = - int e)) \<and>
        0 \<le> nbEvents p \<and> nbEvents p \<le> 2 \<and> length (data p) = length [event_zero, event_zero] \<and>
        drop (nat (nbEvents p)) (data p) = drop (nat (nbEvents p)) [event_zero, event_zero] \<and>
        (\<forall>e\<in>set (take (nat (nbEvents p)) (data p)). \<exists>d. sensor e \<in> driver_ids d) \<and>
        (\<forall>d. filter (\<lambda>e. sensor e \<in> driver_ids d) (take (nat (nbEvents p)) (data p)) @
           to_deliver ex_android (ctx p) ks' d = to_deliver ex_android ex_context [burst Accel ex_burst] d)"
  by (rule sensors_poll_delivers) (simp_all add: ex_context_ok burst_def)

text \<open>
  C23: A burst of samples that exactly fills the caller's array leaves the module waiting in a
  \<open>read\<close>: the flag of the device is kept, the device is empty, and every later \<open>pollEvents\<close> blocks
  without asking \<open>poll\<close>, whatever the other sensors deliver.
\<close>

theorem sensors_full_array_blocks:
  assumes "quiet c" and "length es < mBufferEnd (mInputReader (mSensors c d))"
    and "length (to_deliver hw c [burst d es] d) = n" and "0 < n" and "n \<le> length m"
  shows "\<exists>p. pollEvents hw c m (int n) [burst d es] = Inr (int n, p, []) \<and>
    take n (data p) = to_deliver hw c [burst d es] d \<and>
    (\<forall>m' count ks. 1 \<le> count \<longrightarrow> pollEvents hw (ctx p) m' count ks = Inl (Stops Blocks))"
  using exact_read [OF assms] stale_flag_blocks by metis

lemma ex_arrivals: "arrivals Accel [burst Accel ex_burst] = ex_burst"
  by (simp add: burst_def)

lemma ex_delivers:
  "length (to_deliver ex_android ex_context [burst Accel ex_burst] Accel) = 1"
proof -
  have "sens_run (acc_processEvent ex_android) (Suc 0) (members (ex_object Accel)) ex_burst =
    [(mPendingEvent (acc_processEvent ex_android 1 0 (members (ex_object Accel))) 0)\<lparr>timestamp := 1000000000\<rparr>]"
    by (simp add: ex_burst_def is_axis_def input_consts acc_processEvent_def pend_only_def flush_def
        ex_object_def new_members_def timevalToNano_def mask_bits)
  then show ?thesis
    by (simp add: to_deliver_def driver_left_def stream_left_def ex_arrivals ex_object_ok ex_context_def)
qed

lemma sensors_full_array_blocks_witness:
  "\<exists>p. pollEvents ex_android ex_context [event_zero] (int 1) [burst Accel ex_burst] = Inr (int 1, p, []) \<and>
    take 1 (data p) = to_deliver ex_android ex_context [burst Accel ex_burst] Accel \<and>
    (\<forall>m' count ks. 1 \<le> count \<longrightarrow> pollEvents ex_android (ctx p) m' count ks = Inl (Stops Blocks))"
  by (rule sensors_full_array_blocks [OF ex_context_ok(3) _ ex_delivers])
    (simp_all add: ex_burst_def ex_context_def ex_object_def
      new_InputEventCircularReader_def)

text \<open>
  C25: A failed read of the accelerometer (also: any negative result of \<open>readEvents\<close>) is added to
  the position in the caller's array and taken from the count; if another sensor has something
  to deliver in the same pass, its event is written before the array.
\<close>

theorem sensors_failed_read_overruns:
  assumes "revents c Accel" and "data_fd (mSensors c Accel) = ReadFails e # dev" and "0 < e"
    and "mFreeSpace (mInputReader (mSensors c Accel)) \<noteq> 0"
    and "\<forall>d'. d' \<noteq> Accel \<longrightarrow> (revents c d' \<longleftrightarrow> d' = d)" and "d \<noteq> Accel"
    and "driver_ok d (mSensors c d)" and "unread (mInputReader (mSensors c d)) = []"
    and "data_fd (mSensors c d) = [ReadEvents es]" and "length es < mBufferEnd (mInputReader (mSensors c d))"
    and "to_deliver hw c [] d \<noteq> []" and "1 \<le> count"
  shows "pollEvents hw c m count ks = Inl (Stops OutOfArray)"
  using assms by (rule failed_read)

definition ex_failing :: sensors_poll_context where
  "ex_failing = ex_context\<lparr>mSensors := ex_object(Accel := (ex_object Accel)\<lparr>data_fd := [ReadFails 19]\<rparr>,
     Gyro := (ex_object Gyro)\<lparr>data_fd := [ReadEvents ex_burst]\<rparr>), revents := (\<lambda>d. d = Accel \<or> d = Gyro)\<rparr>"

lemma sensors_failed_read_overruns_witness:
  "pollEvents ex_android ex_failing [event_zero] 1 [] = Inl (Stops OutOfArray)"
proof (rule sensors_failed_read_overruns)
  show "to_deliver ex_android ex_failing [] Gyro \<noteq> []"
    by (simp add: to_deliver_def driver_left_def stream_left_def ex_failing_def ex_object_ok ex_burst_def
        is_axis_def input_consts gyro_processEvent_def pend_only_def flush_def ex_object_def new_members_def
        timevalToNano_def mask_bits unread_new)
  show "driver_ok Gyro (mSensors ex_failing Gyro)"
    by (simp add: ex_failing_def hal.ok_data ex_object_ok)
  show "unread (mInputReader (mSensors ex_failing Gyro)) = []"
    by (simp add: ex_failing_def ex_object_ok)
qed (auto simp: ex_failing_def ex_object_ok ex_burst_def ex_object_def ex_context_def new_InputEventCircularReader_def)

text \<open>Calls of the framework, in any order.\<close>

datatype hal_call = Activate int int | SetDelay int int | Poll "sensors_event list" int "kernel_step list"

fun hal_calls :: "android \<Rightarrow> sensors_poll_context \<Rightarrow> hal_call list \<Rightarrow> poll_end + sensors_poll_context" where
  "hal_calls hw c [] = Inr c"
| "hal_calls hw c (Activate handle enabled # hs) = hal_calls hw (snd (activate handle enabled c)) hs"
| "hal_calls hw c (SetDelay handle ns # hs) = hal_calls hw (snd (setDelay handle ns c)) hs"
| "hal_calls hw c (Poll m count ks # hs) =
     (case pollEvents hw c m count ks of Inl e \<Rightarrow> Inl e | Inr (n, p, ks') \<Rightarrow> hal_calls hw (ctx p) hs)"

lemma calls_ok: "all_ok c \<Longrightarrow> hal_calls hw c hs = Inr c' \<Longrightarrow> all_ok c'"
proof (induction hw c hs rule: hal_calls.induct)
  case (2 hw c handle enabled hs)
  then show ?case using activate_ok [OF 2(2), of handle enabled] by (simp add: prod_eq_iff)
next
  case (3 hw c handle ns hs)
  then show ?case using setDelay_all_ok [OF 3(2), of handle ns] by (simp add: prod_eq_iff)
next
  case (4 hw c m count ks hs)
  then obtain n p ks' where poll: "pollEvents hw c m count ks = Inr (n, p, ks')"
    and rest: "hal_calls hw (ctx p) hs = Inr c'"
    by (auto split: sum.splits)
  have "all_ok (ctx p)"
    using loop_ok [of "\<lparr>ctx = c, data = m, pos = 0, room = count, nbEvents = 0\<rparr>"] 4(2) poll
    by (simp add: pollEvents_def)
  with 4(1) [OF poll refl refl] rest show ?case by blast
qed simp

text \<open>
  C21: Every object stays well formed. After any calls of the framework on a new context, with any
  devices and any failures, as long as they return: every circular buffer is sound (its events
  are readable, in order, its free space exact), every pending mask has only the bits of its
  class, no counter of users and no delay is negative, and every pending event has the
  identifier of its sensor.
\<close>

theorem sensors_objects_well_formed:
  assumes "new_sensors_poll_context hw nodes class_input i2c io = Inr c" and "hal_calls hw c hs = Inr c'"
  shows "driver_ok d (mSensors c' d)"
  using calls_ok [OF new_ok [OF assms(1)] assms(2)] by (simp add: all_ok_def)

lemma sensors_objects_well_formed_witness:
  "\<exists>c c'. new_sensors_poll_context ex_android None None None \<lparr>attr_results = [], attr_log = []\<rparr> = Inr c \<and>
    hal_calls ex_android c [Activate 1 1, SetDelay 1 5000000, Activate 4 1] = Inr c' \<and> driver_ok Mag (mSensors c' Mag)"
proof -
  obtain c where c: "new_sensors_poll_context ex_android None None None \<lparr>attr_results = [], attr_log = []\<rparr> = Inr c"
    by (simp add: new_sensors_poll_context_def new_AccelSensor_def new_MagSensor_def new_PressSensor_def
        new_GyroSensor_def acc_sensor_get_class_path_def mag_sensor_get_class_path_def
        press_sensor_get_class_path_def gyro_sensor_get_class_path_def)
  obtain c' where "hal_calls ex_android c [Activate 1 1, SetDelay 1 5000000, Activate 4 1] = Inr c'" by simp
  with c sensors_objects_well_formed [OF c] show ?thesis by blast
qed

text \<open>
  The delay that reaches the driver is the delay asked for in whole milliseconds, at most
  10240: the lower bound of 312500 ns in the code never has an effect, and a shorter delay than a
  millisecond is written as 0.
\<close>

lemma delay_text_value: "delay_text ns = dec_digits (nat (min (ns div 1000000) 10240))"
proof -
  have "ns div 1000 div 1000 = ns div 1000000" for ns :: int
    by (simp add: zdiv_zmult2_eq flip: zdiv_zmult2_eq)
  moreover have "ns div 1000000 \<le> 0" if "ns < 312500"
    using that by (simp add: pos_imp_zdiv_neg_iff)
  moreover have "ns div 1000000 \<le> 10240" if "ns \<le> 10240000000"
    using zdiv_mono1 [OF that, of 1000000] by simp
  moreover have "10240 \<le> ns div 1000000" if "10240000000 < ns"
    using zdiv_mono1 [of 10240000000 ns 1000000] that by simp
  ultimately show ?thesis
    by (auto simp: delay_text_def Let_def min_def)
qed

lemma sensors_delay_written:
  assumes "mClassPath s \<noteq> []" and "attr_results io = []"
  shows "mag_writeDelay s ns io = (0, io\<lparr>attr_log := attr_log io @
    [(mClassPath s @ ''/poll'', dec_digits (nat (min (ns div 1000000) 10240)) @ [CHR 0x00])]\<rparr>)"
  using assms by (simp add: mag_writeDelay_def write_attr_def delay_text_value)

end
