(* ===== verification/AthrGps.thy ===== *)
theory AthrGps
  imports Prelude
begin

text \<open>
  The threads of \<open>testcode/android/libgps/athr_gps.c\<close>, a GPS module whose receiver is put to sleep
  and woken: the functions that the framework calls, the control thread, the thread that reads
  sentences and the timer thread, which reports fixes and puts the receiver to sleep.

  One step is one access to the shared variables, one call of the semaphore or one call of the
  system; \<open>gps_opentty\<close> and \<open>gps_closetty\<close> are one step each. What the system answers and what a
  sentence changes is a \<open>choice\<close> (the sentences are those of \<open>gps_neu.c\<close>). The model begins when
  the control thread enters its loop.
\<close>

subsection \<open>State\<close>

definition STATE_QUIT :: nat where "STATE_QUIT = 0"
definition STATE_INIT :: nat where "STATE_INIT = 1"
definition STATE_START :: nat where "STATE_START = 2"
definition CMD_QUIT :: nat where "CMD_QUIT = 0"
definition CMD_START :: nat where "CMD_START = 1"
definition CMD_STOP :: nat where "CMD_STOP = 2"

lemmas athr_consts = STATE_QUIT_def STATE_INIT_def STATE_START_def CMD_QUIT_def CMD_START_def CMD_STOP_def

datatype chip_command = WAKEUP | SLEEP

text \<open>Program counters: of the shared functions, and of the four threads.\<close>

datatype wake_pc = W1 | W2 | W3 | W4 | W5 | W6 | W7
datatype sleep_pc = S1 | S2 | S3 | S4 | S5 | S6 | S7 | S8 | S9

datatype ctl_pc = C1 | C2 nat | C3 | C3a | C3b | CWake wake_pc | C4 | C5 | CQ1 | CQ2 | CQ3 | CDone

datatype nmea_pc = N1 | N2 | N2b | N3 | N3a | N4 | N4b | N5 | NWake wake_pc | N5c | N5d | N6 | N7 | N8 | N9
  | NLock nat | NParse nat | NUnlock nat | N13 | NErr1 | NErr2 | NDone | NFault

datatype timer_pc = T0 | T1 | T1b | T2 | T3 | T4 | T5 | T6 | T7 | T8 nat | T9 nat | T10 | T11 | T12
  | TSleep sleep_pc | T15 | TDone

datatype api_pc = ANone | ALock nat | ASet nat | AUnlock nat | AWrite nat | AQuit | ASleep sleep_pc | AJoin
  | AFree | ADone

record athr =
  gps_init :: nat
  tty :: int
  fix_sem :: nat
  fix_freq :: int
  first_fix :: bool
  control :: "nat list"
  has_fix :: bool
  sv_changed :: bool
  sleep_lock :: nat
  lastcmd :: nat
  bGetFormalNMEA :: bool
  started :: bool
  continue_thread :: bool
  bOrionShutdown :: bool
  chip :: "chip_command list"
  api :: api_pc
  ctl :: ctl_pc
  nmea :: nmea_pc
  timer :: timer_pc

text \<open>
  What is left open in a step: whether the call of the system works, a number it returns, and
  what a sentence changes.
\<close>

record choice =
  works :: bool
  number :: nat
  formal :: bool
  fix_found :: bool
  svs_found :: bool

definition sem_take :: "athr \<Rightarrow> athr option" where
  "sem_take s = (if fix_sem s = 0 then None else Some (s\<lparr>fix_sem := fix_sem s - 1\<rparr>))"

definition sem_give :: "athr \<Rightarrow> athr" where
  "sem_give s = s\<lparr>fix_sem := fix_sem s + 1\<rparr>"

definition gps_opentty :: "choice \<Rightarrow> athr \<Rightarrow> athr" where
  "gps_opentty ch s = (if tty s = -1 \<and> works ch then s\<lparr>tty := int (number ch)\<rparr> else s)"

definition gps_closetty :: "athr \<Rightarrow> athr" where
  "gps_closetty s = s\<lparr>tty := -1\<rparr>"

text \<open>A command to the chip; if it cannot be written, the chip counts as shut down.\<close>

definition send_chip :: "choice \<Rightarrow> chip_command \<Rightarrow> athr \<Rightarrow> athr" where
  "send_chip ch c s =
     (if works ch \<and> tty s \<noteq> -1 then s\<lparr>bOrionShutdown := False, chip := chip s @ [c]\<rparr>
      else s\<lparr>bOrionShutdown := True\<rparr>)"

definition reader_init :: "athr \<Rightarrow> athr" where
  "reader_init s = s\<lparr>has_fix := False, sv_changed := False\<rparr>"

subsection \<open>Waking and putting to sleep\<close>

text \<open>A step of a function: where it goes on, or that it returns; \<open>None\<close> if it has to wait.\<close>

fun wake_step :: "choice \<Rightarrow> wake_pc \<Rightarrow> athr \<Rightarrow> (wake_pc option \<times> athr) option" where
  "wake_step ch W1 s = Some (if sleep_lock s = 0 then Some W2 else None, s)"
| "wake_step ch W2 s = map_option (Pair (Some W3)) (sem_take s)"
| "wake_step ch W3 s = Some (Some W4, gps_opentty ch s)"
| "wake_step ch W4 s = Some (Some W5, s\<lparr>sleep_lock := Suc (number ch)\<rparr>)"
| "wake_step ch W5 s = Some (Some W6, send_chip ch WAKEUP s)"
| "wake_step ch W6 s = Some (Some W7, s\<lparr>bGetFormalNMEA := False\<rparr>)"
| "wake_step ch W7 s = Some (None, sem_give s)"

fun sleep_step :: "choice \<Rightarrow> sleep_pc \<Rightarrow> athr \<Rightarrow> (sleep_pc option \<times> athr) option" where
  "sleep_step ch S1 s = map_option (Pair (Some S2)) (sem_take s)"
| "sleep_step ch S2 s = Some (Some S3, if tty s = -1 then gps_opentty ch s else s)"
| "sleep_step ch S3 s = Some (Some S4, send_chip ch SLEEP s)"
| "sleep_step ch S4 s = Some (Some S5, s\<lparr>started := False\<rparr>)"
| "sleep_step ch S5 s = Some (Some S6, s\<lparr>sleep_lock := 0\<rparr>)"
| "sleep_step ch S6 s = Some (Some S7, sem_give s)"
| "sleep_step ch S7 s = map_option (Pair (Some S8)) (sem_take s)"
| "sleep_step ch S8 s = Some (Some S9, gps_closetty s)"
| "sleep_step ch S9 s = Some (None, sem_give s)"

subsection \<open>The framework's calls\<close>

text \<open>
  \<open>athr_gps_start\<close> and \<open>athr_gps_stop\<close> set \<open>lastcmd\<close> under the semaphore and send the command;
  \<open>athr_gps_cleanup\<close> sends \<open>CMD_QUIT\<close>, puts the receiver to sleep and waits for the control thread.
\<close>

fun api_step :: "choice \<Rightarrow> athr \<Rightarrow> athr option" where
  "api_step ch s =
     (case api s of
        ANone \<Rightarrow> Some (s\<lparr>api := if number ch = CMD_QUIT then AQuit
                               else ALock (if number ch = CMD_START then CMD_START else CMD_STOP)\<rparr>)
      | ALock c \<Rightarrow> map_option (\<lambda>s. s\<lparr>api := ASet c\<rparr>) (sem_take s)
      | ASet c \<Rightarrow> Some (s\<lparr>lastcmd := c, api := AUnlock c\<rparr>)
      | AUnlock c \<Rightarrow> Some ((sem_give s)\<lparr>api := AWrite c\<rparr>)
      | AWrite c \<Rightarrow> Some (s\<lparr>control := control s @ [c], api := ANone\<rparr>)
      | AQuit \<Rightarrow> Some (s\<lparr>control := control s @ [CMD_QUIT], api := ASleep S1\<rparr>)
      | ASleep p \<Rightarrow>
          map_option (\<lambda>(next, s). s\<lparr>api := case next of None \<Rightarrow> AJoin | Some p \<Rightarrow> ASleep p\<rparr>) (sleep_step ch p s)
      | AJoin \<Rightarrow> if ctl s = CDone then Some (s\<lparr>api := AFree\<rparr>) else None
      | AFree \<Rightarrow> Some (s\<lparr>gps_init := STATE_QUIT, fix_freq := 0, first_fix := False, control := [], tty := 0,
                         has_fix := False, sv_changed := False, api := ADone\<rparr>)
      | ADone \<Rightarrow> None)"

subsection \<open>The control thread\<close>

text \<open>
  The other end of its socket is closed by \<open>gps_state_done\<close> only when this thread has ended, so
  \<open>epoll_wait\<close> reports no hang-up.
\<close>

fun ctl_step :: "choice \<Rightarrow> athr \<Rightarrow> athr option" where
  "ctl_step ch s =
     (case ctl s of
        C1 \<Rightarrow> (case control s of [] \<Rightarrow> None | c # cs \<Rightarrow> Some (s\<lparr>control := cs, ctl := C2 c\<rparr>))
      | C2 c \<Rightarrow> Some (s\<lparr>ctl := if c = CMD_QUIT then CQ1 else if c = CMD_START then C3
                              else if c = CMD_STOP then C4 else C1\<rparr>)
      | C3 \<Rightarrow> Some (if started s then s\<lparr>ctl := C1\<rparr> else (reader_init s)\<lparr>ctl := C3a\<rparr>)
      | C3a \<Rightarrow> Some (s\<lparr>started := True, ctl := C3b\<rparr>)
      | C3b \<Rightarrow> Some (s\<lparr>gps_init := STATE_START, ctl := CWake W1\<rparr>)
      | CWake w \<Rightarrow>
          map_option (\<lambda>(next, s). s\<lparr>ctl := case next of None \<Rightarrow> C1 | Some w \<Rightarrow> CWake w\<rparr>) (wake_step ch w s)
      | C4 \<Rightarrow> Some (s\<lparr>ctl := if started s then C5 else C1\<rparr>)
      | C5 \<Rightarrow> Some (s\<lparr>gps_init := STATE_INIT, ctl := C1\<rparr>)
      | CQ1 \<Rightarrow> Some (s\<lparr>continue_thread := False, ctl := CQ2\<rparr>)
      | CQ2 \<Rightarrow> if timer s = TDone then Some (s\<lparr>ctl := CQ3\<rparr>) else None
      | CQ3 \<Rightarrow> if nmea s = NDone then Some (s\<lparr>ctl := CDone\<rparr>) else None
      | CDone \<Rightarrow> None)"

subsection \<open>The thread that reads sentences\<close>

text \<open>
  What a sentence changes. Lines that are too short and the chip's own sentences change nothing
  that is shared (not \<open>works\<close>).
\<close>

definition parse_effect :: "choice \<Rightarrow> athr \<Rightarrow> athr" where
  "parse_effect ch s =
     (if \<not> works ch then s else
      let s = s\<lparr>bGetFormalNMEA := bGetFormalNMEA s \<or> formal ch, has_fix := has_fix s \<or> fix_found ch,
                sv_changed := svs_found ch\<rparr>
      in if \<not> first_fix s \<and> gps_init s = STATE_INIT \<and> has_fix s then s\<lparr>has_fix := False, first_fix := True\<rparr> else s)"

text \<open>
  \<open>FD_SET\<close> and \<open>FD_ISSET\<close> of descriptor \<open>-1\<close> leave the set: the thread ends in \<open>NFault\<close>. A read
  delivers at most 512 bytes, so at most as many sentences; each is parsed under the semaphore.
\<close>

fun nmea_step :: "choice \<Rightarrow> athr \<Rightarrow> athr option" where
  "nmea_step ch s =
     (case nmea s of
        N1 \<Rightarrow> Some (s\<lparr>nmea := if continue_thread s then N2 else NDone\<rparr>)
      | N2 \<Rightarrow> Some (s\<lparr>nmea := if sleep_lock s = 0 then N2b else N3\<rparr>)
      | N2b \<Rightarrow> Some (s\<lparr>nmea := if continue_thread s then N2 else N3\<rparr>)
      | N3 \<Rightarrow> Some (s\<lparr>nmea := if tty s = -1 then N3a else N4\<rparr>)
      | N3a \<Rightarrow> Some ((gps_opentty ch s)\<lparr>nmea := N1\<rparr>)
      | N4 \<Rightarrow> Some (s\<lparr>nmea := if bOrionShutdown s then N4b else N6\<rparr>)
      | N4b \<Rightarrow> Some (s\<lparr>nmea := if started s then N5 else N6\<rparr>)
      | N5 \<Rightarrow> Some (s\<lparr>sleep_lock := 0, nmea := NWake W1\<rparr>)
      | NWake w \<Rightarrow>
          map_option (\<lambda>(next, s). s\<lparr>nmea := case next of None \<Rightarrow> N5c | Some w \<Rightarrow> NWake w\<rparr>) (wake_step ch w s)
      | N5c \<Rightarrow> Some ((reader_init s)\<lparr>nmea := N5d\<rparr>)
      | N5d \<Rightarrow> Some (s\<lparr>bOrionShutdown := False, nmea := N6\<rparr>)
      | N6 \<Rightarrow> Some (s\<lparr>nmea := if continue_thread s then N7 else NDone\<rparr>)
      | N7 \<Rightarrow> Some (s\<lparr>nmea := if tty s = -1 then NFault else N8\<rparr>)
      | N8 \<Rightarrow> Some (s\<lparr>nmea := if tty s = -1 then NFault else if works ch then N9 else N13\<rparr>)
      | N9 \<Rightarrow> Some (s\<lparr>nmea := if works ch \<and> tty s \<noteq> -1
                             then (if number ch = 0 then N13 else NLock (min 512 (number ch))) else NErr1\<rparr>)
      | NLock k \<Rightarrow> map_option (\<lambda>s. s\<lparr>nmea := NParse k\<rparr>) (sem_take s)
      | NParse k \<Rightarrow> Some ((parse_effect ch s)\<lparr>nmea := NUnlock k\<rparr>)
      | NUnlock k \<Rightarrow> Some ((sem_give s)\<lparr>nmea := if k \<le> 1 then N13 else NLock (k - 1)\<rparr>)
      | N13 \<Rightarrow> Some (s\<lparr>nmea := if continue_thread s then N1 else NDone\<rparr>)
      | NErr1 \<Rightarrow> Some ((gps_closetty s)\<lparr>nmea := NErr2\<rparr>)
      | NErr2 \<Rightarrow> Some (s\<lparr>bOrionShutdown := True, nmea := N1\<rparr>)
      | NDone \<Rightarrow> None
      | NFault \<Rightarrow> None)"

subsection \<open>The timer thread\<close>

text \<open>
  Reporting what has been found, under the semaphore, with both callbacks registered (a framework that
  leaves one out gets no reports of that kind, and the flags stay set).
\<close>

definition timer_report :: "athr \<Rightarrow> athr" where
  "timer_report s =
     (let s = (if has_fix s then s\<lparr>has_fix := False, first_fix := True,
                 fix_freq := if fix_freq s = 0 then -1 else fix_freq s\<rparr> else s)
      in s\<lparr>sv_changed := False\<rparr>)"

fun timer_step :: "choice \<Rightarrow> athr \<Rightarrow> athr option" where
  "timer_step ch s =
     (case timer s of
        T0 \<Rightarrow> Some (s\<lparr>timer := T1\<rparr>)
      | T1 \<Rightarrow> Some (s\<lparr>timer := if started s then T2 else T1b\<rparr>)
      | T1b \<Rightarrow> Some (s\<lparr>timer := if continue_thread s then T1 else T2\<rparr>)
      | T2 \<Rightarrow> map_option (\<lambda>s. s\<lparr>timer := T3\<rparr>) (sem_take s)
      | T3 \<Rightarrow> Some ((timer_report s)\<lparr>timer := T4\<rparr>)
      | T4 \<Rightarrow> Some ((sem_give s)\<lparr>timer := T5\<rparr>)
      | T5 \<Rightarrow> Some (s\<lparr>timer := if gps_init s = STATE_INIT then T6 else T15\<rparr>)
      | T6 \<Rightarrow> Some (s\<lparr>timer := if lastcmd s = CMD_STOP then T7 else T15\<rparr>)
      | T7 \<Rightarrow> Some (s\<lparr>timer := if started s then T8 0 else T15\<rparr>)
      | T8 gap \<Rightarrow>
          Some (s\<lparr>timer :=
            if gps_init s \<noteq> STATE_START \<and> \<not> bGetFormalNMEA s \<and> continue_thread s \<and> \<not> bOrionShutdown s
            then (if gap + 1 > 100 then T9 (gap + 1) else T8 (gap + 1)) else T9 gap\<rparr>)
      | T9 gap \<Rightarrow> Some (s\<lparr>bGetFormalNMEA := bGetFormalNMEA s \<or> 100 \<le> gap, timer := T10\<rparr>)
      | T10 \<Rightarrow> Some (s\<lparr>timer := if gps_init s = STATE_INIT then T11 else T15\<rparr>)
      | T11 \<Rightarrow> Some (s\<lparr>timer := if lastcmd s = CMD_STOP then T12 else T15\<rparr>)
      | T12 \<Rightarrow> Some (s\<lparr>timer := if started s then TSleep S1 else T15\<rparr>)
      | TSleep p \<Rightarrow>
          map_option (\<lambda>(next, s). s\<lparr>timer := case next of None \<Rightarrow> T15 | Some p \<Rightarrow> TSleep p\<rparr>) (sleep_step ch p s)
      | T15 \<Rightarrow> Some (s\<lparr>timer := if continue_thread s then T0 else TDone\<rparr>)
      | TDone \<Rightarrow> None)"

subsection \<open>Runs\<close>

datatype thread = Api | Control | Nmea | Timer

fun athr_step :: "thread \<times> choice \<Rightarrow> athr \<Rightarrow> athr option" where
  "athr_step (Api, ch) s = api_step ch s"
| "athr_step (Control, ch) s = ctl_step ch s"
| "athr_step (Nmea, ch) s = nmea_step ch s"
| "athr_step (Timer, ch) s = timer_step ch s"

declare api_step.simps [simp del] ctl_step.simps [simp del] nmea_step.simps [simp del] timer_step.simps [simp del]

fun athr_run :: "(thread \<times> choice) list \<Rightarrow> athr \<Rightarrow> athr option" where
  "athr_run [] s = Some s"
| "athr_run (w # ws) s = (case athr_step w s of None \<Rightarrow> None | Some s' \<Rightarrow> athr_run ws s')"

text \<open>After initialisation, when the control thread enters its loop.\<close>

definition athr_start :: athr where
  "athr_start = \<lparr>gps_init = STATE_INIT, tty = -1, fix_sem = 1, fix_freq = -1, first_fix = False, control = [],
     has_fix = False, sv_changed = False, sleep_lock = 0, lastcmd = 0, bGetFormalNMEA = True,
     started = False, continue_thread = True, bOrionShutdown = False, chip = [],
     api = ANone, ctl = C1, nmea = N1, timer = T0\<rparr>"

text \<open>
  The variables outside the structure keep their values from one initialisation to the next.
\<close>

definition athr_initial :: "athr \<Rightarrow> bool" where
  "athr_initial s \<longleftrightarrow> s = athr_start\<lparr>sleep_lock := sleep_lock s, lastcmd := lastcmd s, bGetFormalNMEA := bGetFormalNMEA s,
     bOrionShutdown := bOrionShutdown s, chip := chip s\<rparr>"

definition athr_reachable :: "athr \<Rightarrow> bool" where
  "athr_reachable s \<longleftrightarrow> (\<exists>s0 ws. athr_initial s0 \<and> athr_run ws s0 = Some s)"

end
