(* ===== verification/AthrInv.thy ===== *)
theory AthrInv
  imports AthrGps
begin

text \<open>
  Invariants of the threads of the GPS module with power management: who holds the semaphore, and
  how far the threads are from their end once \<open>continue_thread\<close> is false.
\<close>

subsection \<open>Runs\<close>

lemma athr_run_append:
  "athr_run (xs @ ys) s = (case athr_run xs s of None \<Rightarrow> None | Some s' \<Rightarrow> athr_run ys s')"
  by (induction xs arbitrary: s) (auto split: option.splits)

lemma athr_initial_start: "athr_initial athr_start"
  by (simp add: athr_initial_def athr_start_def)

lemma athr_reachable_run: "athr_run ws athr_start = Some s \<Longrightarrow> athr_reachable s"
  using athr_initial_start by (auto simp only: athr_reachable_def)

lemma athr_initial_fields:
  assumes "athr_initial s"
  shows "gps_init s = STATE_INIT" "fix_sem s = 1" "api s = ANone" "ctl s = C1" "nmea s = N1" "timer s = T0"
    "continue_thread s"
  by (subst iffD1 [OF athr_initial_def assms], simp add: athr_start_def)+

lemma athr_reachable_induct [consumes 1, case_names start step]:
  assumes "athr_reachable s" and "\<And>s. athr_initial s \<Longrightarrow> P s"
    and "\<And>s w s'. athr_reachable s \<Longrightarrow> P s \<Longrightarrow> athr_step w s = Some s' \<Longrightarrow> P s'"
  shows "P s"
proof -
  obtain s0 ws where s0: "athr_initial s0" and "athr_run ws s0 = Some s" using assms(1) by (auto simp: athr_reachable_def)
  from this(2) show ?thesis
  proof (induction ws arbitrary: s rule: rev_induct)
    case Nil
    with assms(2) [OF s0] show ?case by simp
  next
    case (snoc w ws)
    then obtain t where t: "athr_run ws s0 = Some t" "athr_step w t = Some s"
      by (auto simp: athr_run_append split: option.splits)
    from t(1) s0 have "athr_reachable t" by (auto simp only: athr_reachable_def)
    with t show ?case using snoc.IH assms(3) by blast
  qed
qed

subsection \<open>The semaphore\<close>

text \<open>Where a thread holds the semaphore.\<close>

fun wake_holds :: "wake_pc \<Rightarrow> bool" where
  "wake_holds W1 = False" | "wake_holds W2 = False" | "wake_holds w = True"

fun sleep_holds :: "sleep_pc \<Rightarrow> bool" where
  "sleep_holds S1 = False" | "sleep_holds S7 = False" | "sleep_holds p = True"

fun api_holds :: "api_pc \<Rightarrow> bool" where
  "api_holds (ASet c) = True" | "api_holds (AUnlock c) = True" | "api_holds (ASleep p) = sleep_holds p"
| "api_holds a = False"

fun ctl_holds :: "ctl_pc \<Rightarrow> bool" where
  "ctl_holds (CWake w) = wake_holds w" | "ctl_holds c = False"

fun nmea_holds :: "nmea_pc \<Rightarrow> bool" where
  "nmea_holds (NWake w) = wake_holds w" | "nmea_holds (NParse k) = True" | "nmea_holds (NUnlock k) = True"
| "nmea_holds n = False"

fun timer_holds :: "timer_pc \<Rightarrow> bool" where
  "timer_holds T3 = True" | "timer_holds T4 = True" | "timer_holds (TSleep p) = sleep_holds p"
| "timer_holds t = False"

definition holders :: "athr \<Rightarrow> nat" where
  "holders s = of_bool (api_holds (api s)) + of_bool (ctl_holds (ctl s)) + of_bool (nmea_holds (nmea s)) +
     of_bool (timer_holds (timer s))"

definition sem_inv :: "athr \<Rightarrow> bool" where
  "sem_inv s \<longleftrightarrow> fix_sem s + holders s = 1"

text \<open>What the shared functions do to the semaphore and to the program counters.\<close>

definition others_same :: "athr \<Rightarrow> athr \<Rightarrow> bool" where
  "others_same s s' \<longleftrightarrow> api s' = api s \<and> ctl s' = ctl s \<and> nmea s' = nmea s \<and> timer s' = timer s \<and>
     continue_thread s' = continue_thread s"

lemma sem_take_Some [simp]: "sem_take s = Some s' \<longleftrightarrow> 0 < fix_sem s \<and> s' = s\<lparr>fix_sem := fix_sem s - 1\<rparr>"
  by (auto simp: sem_take_def)

lemma wake_effect:
  assumes "wake_step ch w s = Some (nx, s')"
  shows "fix_sem s' + of_bool (case nx of None \<Rightarrow> False | Some w' \<Rightarrow> wake_holds w') = fix_sem s + of_bool (wake_holds w) \<and>
    others_same s s'"
  using assms by (cases w; auto simp: sem_give_def gps_opentty_def send_chip_def others_same_def split: if_splits)

lemma sleep_effect:
  assumes "sleep_step ch p s = Some (nx, s')"
  shows "fix_sem s' + of_bool (case nx of None \<Rightarrow> False | Some p' \<Rightarrow> sleep_holds p') = fix_sem s + of_bool (sleep_holds p) \<and>
    others_same s s'"
  using assms by (cases p; auto simp: sem_give_def gps_opentty_def gps_closetty_def send_chip_def
    others_same_def split: if_splits)

text \<open>A step of a thread hands on what it holds, and leaves the others' program counters.\<close>

lemma api_step_effect:
  assumes "api_step ch s = Some s'"
  shows "fix_sem s' + of_bool (api_holds (api s')) = fix_sem s + of_bool (api_holds (api s)) \<and>
    ctl s' = ctl s \<and> nmea s' = nmea s \<and> timer s' = timer s \<and> continue_thread s' = continue_thread s"
proof (cases "api s")
  case (ASleep p)
  with assms obtain nx t where "sleep_step ch p s = Some (nx, t)"
    and "s' = t\<lparr>api := case nx of None \<Rightarrow> AJoin | Some p \<Rightarrow> ASleep p\<rparr>" by (auto simp: api_step.simps)
  with sleep_effect [of ch p s nx t] ASleep show ?thesis by (cases nx) (auto simp: others_same_def)
qed (use assms in \<open>auto simp: api_step.simps sem_give_def split: if_splits\<close>)

lemma ctl_step_effect:
  assumes "ctl_step ch s = Some s'"
  shows "fix_sem s' + of_bool (ctl_holds (ctl s')) = fix_sem s + of_bool (ctl_holds (ctl s)) \<and>
    api s' = api s \<and> nmea s' = nmea s \<and> timer s' = timer s"
proof (cases "ctl s")
  case (CWake w)
  with assms obtain nx t where "wake_step ch w s = Some (nx, t)"
    and "s' = t\<lparr>ctl := case nx of None \<Rightarrow> C1 | Some w \<Rightarrow> CWake w\<rparr>" by (auto simp: ctl_step.simps)
  with wake_effect [of ch w s nx t] CWake show ?thesis by (cases nx) (auto simp: others_same_def)
qed (use assms in \<open>auto simp: ctl_step.simps reader_init_def split: if_splits list.splits\<close>)

lemma parse_effect_frame [simp]:
  "fix_sem (parse_effect ch s) = fix_sem s" "api (parse_effect ch s) = api s" "ctl (parse_effect ch s) = ctl s"
  "nmea (parse_effect ch s) = nmea s" "timer (parse_effect ch s) = timer s"
  "continue_thread (parse_effect ch s) = continue_thread s"
  by (auto simp: parse_effect_def Let_def)

lemma timer_report_frame [simp]:
  "fix_sem (timer_report s) = fix_sem s" "api (timer_report s) = api s" "ctl (timer_report s) = ctl s"
  "nmea (timer_report s) = nmea s" "timer (timer_report s) = timer s"
  "continue_thread (timer_report s) = continue_thread s"
  by (auto simp: timer_report_def Let_def)

lemma nmea_step_effect:
  assumes "nmea_step ch s = Some s'"
  shows "fix_sem s' + of_bool (nmea_holds (nmea s')) = fix_sem s + of_bool (nmea_holds (nmea s)) \<and>
    api s' = api s \<and> ctl s' = ctl s \<and> timer s' = timer s \<and> continue_thread s' = continue_thread s"
proof (cases "nmea s")
  case (NWake w)
  with assms obtain nx t where "wake_step ch w s = Some (nx, t)"
    and "s' = t\<lparr>nmea := case nx of None \<Rightarrow> N5c | Some w \<Rightarrow> NWake w\<rparr>" by (auto simp: nmea_step.simps)
  with wake_effect [of ch w s nx t] NWake show ?thesis by (cases nx) (auto simp: others_same_def)
qed (use assms in \<open>auto simp: nmea_step.simps reader_init_def sem_give_def gps_opentty_def gps_closetty_def split: if_splits\<close>)

lemma timer_step_effect:
  assumes "timer_step ch s = Some s'"
  shows "fix_sem s' + of_bool (timer_holds (timer s')) = fix_sem s + of_bool (timer_holds (timer s)) \<and>
    api s' = api s \<and> ctl s' = ctl s \<and> nmea s' = nmea s \<and> continue_thread s' = continue_thread s"
proof (cases "timer s")
  case (TSleep p)
  with assms obtain nx t where "sleep_step ch p s = Some (nx, t)"
    and "s' = t\<lparr>timer := case nx of None \<Rightarrow> T15 | Some p \<Rightarrow> TSleep p\<rparr>" by (auto simp: timer_step.simps)
  with sleep_effect [of ch p s nx t] TSleep show ?thesis by (cases nx) (auto simp: others_same_def)
qed (use assms in \<open>auto simp: timer_step.simps sem_give_def split: if_splits\<close>)

lemma athr_step_sem:
  assumes "athr_step w s = Some s'" and "sem_inv s"
  shows "sem_inv s'"
proof (cases "(w, s)" rule: athr_step.cases)
  case (1 ch s) with assms api_step_effect [of ch s s'] show ?thesis by (simp add: sem_inv_def holders_def)
next
  case (2 ch s) with assms ctl_step_effect [of ch s s'] show ?thesis by (simp add: sem_inv_def holders_def)
next
  case (3 ch s) with assms nmea_step_effect [of ch s s'] show ?thesis by (simp add: sem_inv_def holders_def)
next
  case (4 ch s) with assms timer_step_effect [of ch s s'] show ?thesis by (simp add: sem_inv_def holders_def)
qed

lemma athr_reachable_sem: "athr_reachable s \<Longrightarrow> sem_inv s"
proof (induction rule: athr_reachable_induct)
  case (start s)
  then show ?case by (simp add: sem_inv_def holders_def athr_initial_fields)
next
  case (step s w s')
  then show ?case by (blast intro: athr_step_sem)
qed

definition holds :: "thread \<Rightarrow> athr \<Rightarrow> bool" where
  "holds t s = (case t of Api \<Rightarrow> api_holds (api s) | Control \<Rightarrow> ctl_holds (ctl s) | Nmea \<Rightarrow> nmea_holds (nmea s)
     | Timer \<Rightarrow> timer_holds (timer s))"

definition enabled :: "thread \<Rightarrow> athr \<Rightarrow> bool" where
  "enabled t s \<longleftrightarrow> (\<forall>ch. athr_step (t, ch) s \<noteq> None)"

lemma sem_take_None [simp]: "sem_take s = None \<longleftrightarrow> fix_sem s = 0"
  by (auto simp: sem_take_def)

lemma wake_None [simp]: "wake_step ch w s = None \<longleftrightarrow> w = W2 \<and> fix_sem s = 0"
  by (cases w) auto

lemma sleep_None [simp]: "sleep_step ch p s = None \<longleftrightarrow> (p = S1 \<or> p = S7) \<and> fix_sem s = 0"
  by (cases p) auto

text \<open>No thread waits while it holds the semaphore.\<close>

lemma holds_enabled: "holds t s \<Longrightarrow> enabled t s"
proof (cases t)
  case Api
  then show "holds t s \<Longrightarrow> enabled t s" by (cases "api s") (auto simp: holds_def enabled_def api_step.simps)
next
  case Control
  then show "holds t s \<Longrightarrow> enabled t s" by (cases "ctl s") (auto simp: holds_def enabled_def ctl_step.simps)
next
  case Nmea
  then show "holds t s \<Longrightarrow> enabled t s" by (cases "nmea s") (auto simp: holds_def enabled_def nmea_step.simps)
next
  case Timer
  then show "holds t s \<Longrightarrow> enabled t s" by (cases "timer s") (auto simp: holds_def enabled_def timer_step.simps)
qed

lemma all_thread: "(\<forall>t. P t) \<longleftrightarrow> P Api \<and> P Control \<and> P Nmea \<and> P Timer"
  by (metis thread.exhaust)

lemma sem_taken_holder: "sem_inv s \<Longrightarrow> fix_sem s = 0 \<Longrightarrow> \<exists>t. holds t s"
  by (rule ccontr) (auto simp: sem_inv_def holders_def holds_def all_thread)

lemma holders_exclusive:
  assumes "sem_inv s" and "holds t s" and "holds u s"
  shows "t = u \<and> fix_sem s = 0"
  using assms by (cases t; cases u) (auto simp: sem_inv_def holders_def holds_def)

subsection \<open>The end of the threads\<close>

text \<open>How far the threads are from their end once \<open>continue_thread\<close> is false.\<close>

fun ctl_rank :: "ctl_pc \<Rightarrow> nat" where
  "ctl_rank CQ2 = 2" | "ctl_rank CQ3 = 1" | "ctl_rank c = 0"

fun wake_rank :: "wake_pc \<Rightarrow> nat" where
  "wake_rank W1 = 7" | "wake_rank W2 = 6" | "wake_rank W3 = 5" | "wake_rank W4 = 4" | "wake_rank W5 = 3"
| "wake_rank W6 = 2" | "wake_rank W7 = 1"

fun sleep_rank :: "sleep_pc \<Rightarrow> nat" where
  "sleep_rank S1 = 9" | "sleep_rank S2 = 8" | "sleep_rank S3 = 7" | "sleep_rank S4 = 6" | "sleep_rank S5 = 5"
| "sleep_rank S6 = 4" | "sleep_rank S7 = 3" | "sleep_rank S8 = 2" | "sleep_rank S9 = 1"

fun nmea_rank :: "nmea_pc \<Rightarrow> nat" where
  "nmea_rank N1 = 1" | "nmea_rank N2 = 16" | "nmea_rank N2b = 15" | "nmea_rank N3 = 14" | "nmea_rank N3a = 2"
| "nmea_rank N4 = 13" | "nmea_rank N4b = 12" | "nmea_rank N5 = 11" | "nmea_rank (NWake w) = 3 + wake_rank w"
| "nmea_rank N5c = 3" | "nmea_rank N5d = 2" | "nmea_rank N6 = 1" | "nmea_rank N7 = 1543" | "nmea_rank N8 = 1542"
| "nmea_rank N9 = 1541" | "nmea_rank (NLock k) = 3 * k + 4" | "nmea_rank (NParse k) = 3 * k + 3"
| "nmea_rank (NUnlock k) = 3 * k + 2" | "nmea_rank N13 = 1" | "nmea_rank NErr1 = 3" | "nmea_rank NErr2 = 2"
| "nmea_rank NDone = 0" | "nmea_rank NFault = 0"

fun timer_rank :: "timer_pc \<Rightarrow> nat" where
  "timer_rank T0 = 24" | "timer_rank T1 = 23" | "timer_rank T1b = 22" | "timer_rank T2 = 21" | "timer_rank T3 = 20"
| "timer_rank T4 = 19" | "timer_rank T5 = 18" | "timer_rank T6 = 17" | "timer_rank T7 = 16"
| "timer_rank (T8 gap) = 15" | "timer_rank (T9 gap) = 14" | "timer_rank T10 = 13" | "timer_rank T11 = 12"
| "timer_rank T12 = 11" | "timer_rank (TSleep p) = 1 + sleep_rank p" | "timer_rank T15 = 1" | "timer_rank TDone = 0"

definition end_rank :: "athr \<Rightarrow> nat" where
  "end_rank s = ctl_rank (ctl s) + nmea_rank (nmea s) + timer_rank (timer s)"

text \<open>
  The flag is taken back by the control thread only, which then waits for the others; a read
  has at most 512 sentences to go.
\<close>

definition sentences_left :: "nmea_pc \<Rightarrow> nat" where
  "sentences_left n = (case n of NLock k \<Rightarrow> k | NParse k \<Rightarrow> k | NUnlock k \<Rightarrow> k | _ \<Rightarrow> 0)"

definition quit_inv :: "athr \<Rightarrow> bool" where
  "quit_inv s \<longleftrightarrow> (\<not> continue_thread s \<longleftrightarrow> ctl s \<in> {CQ2, CQ3, CDone}) \<and>
     (ctl s \<in> {CQ3, CDone} \<longrightarrow> timer s = TDone) \<and> (ctl s = CDone \<longrightarrow> nmea s = NDone) \<and> sentences_left (nmea s) \<le> 512"

lemma api_step_pcs: "api_step ch s = Some s' \<Longrightarrow>
    ctl s' = ctl s \<and> nmea s' = nmea s \<and> timer s' = timer s \<and> continue_thread s' = continue_thread s"
  using api_step_effect by blast

lemma ctl_step_quit:
  assumes "ctl_step ch s = Some s'" and "quit_inv s"
  shows "quit_inv s'"
proof (cases "ctl s")
  case (CWake w)
  with assms obtain nx t where "wake_step ch w s = Some (nx, t)"
    and "s' = t\<lparr>ctl := case nx of None \<Rightarrow> C1 | Some w \<Rightarrow> CWake w\<rparr>" by (auto simp: ctl_step.simps)
  with wake_effect [of ch w s nx t] CWake assms(2) show ?thesis
    by (cases nx) (auto simp: others_same_def quit_inv_def)
qed (use assms in \<open>auto simp: ctl_step.simps quit_inv_def reader_init_def split: if_splits list.splits\<close>)

lemma nmea_step_quit:
  assumes "nmea_step ch s = Some s'" and "quit_inv s"
  shows "quit_inv s'"
proof -
  from assms(1) have "nmea s \<noteq> NDone" by (auto simp: nmea_step.simps)
  moreover have "sentences_left (nmea s') \<le> 512"
  proof (cases "nmea s")
    case (NWake w)
    with assms obtain nx t where "s' = t\<lparr>nmea := case nx of None \<Rightarrow> N5c | Some w \<Rightarrow> NWake w\<rparr>"
      by (auto simp: nmea_step.simps)
    then show ?thesis by (cases nx) (auto simp: sentences_left_def)
  qed (use assms in \<open>auto simp: nmea_step.simps quit_inv_def sentences_left_def split: if_splits\<close>)
  ultimately show ?thesis using nmea_step_effect [OF assms(1)] assms(2) by (simp add: quit_inv_def)
qed

lemma timer_step_quit: "timer_step ch s = Some s' \<Longrightarrow> quit_inv s \<Longrightarrow> quit_inv s'"
  by (frule timer_step_effect) (auto simp: timer_step.simps quit_inv_def)

lemma athr_step_quit:
  assumes "athr_step w s = Some s'" and "quit_inv s"
  shows "quit_inv s'"
  using assms by (cases "(w, s)" rule: athr_step.cases)
    (auto dest: ctl_step_quit nmea_step_quit timer_step_quit, auto dest!: api_step_pcs simp: quit_inv_def)

lemma athr_reachable_quit: "athr_reachable s \<Longrightarrow> quit_inv s"
proof (induction rule: athr_reachable_induct)
  case (start s)
  then show ?case by (simp add: quit_inv_def sentences_left_def athr_initial_fields)
next
  case (step s w s')
  then show ?case by (blast intro: athr_step_quit)
qed

lemma wake_step_rank: "wake_step ch w s = Some (nx, s') \<Longrightarrow> (case nx of None \<Rightarrow> 0 | Some w' \<Rightarrow> wake_rank w') < wake_rank w"
  by (cases w) (auto split: if_splits)

lemma sleep_step_rank: "sleep_step ch p s = Some (nx, s') \<Longrightarrow> (case nx of None \<Rightarrow> 0 | Some p' \<Rightarrow> sleep_rank p') < sleep_rank p"
  by (cases p) auto

lemma ctl_step_rank: "ctl_step ch s = Some s' \<Longrightarrow> quit_inv s \<Longrightarrow> \<not> continue_thread s \<Longrightarrow> ctl_rank (ctl s') < ctl_rank (ctl s)"
  by (auto simp: ctl_step.simps quit_inv_def split: if_splits)

lemma nmea_step_rank:
  assumes "nmea_step ch s = Some s'" and "\<not> continue_thread s"
  shows "nmea_rank (nmea s') < nmea_rank (nmea s)"
proof (cases "nmea s")
  case (NWake w)
  with assms obtain nx t where "wake_step ch w s = Some (nx, t)"
    and "s' = t\<lparr>nmea := case nx of None \<Rightarrow> N5c | Some w \<Rightarrow> NWake w\<rparr>" by (auto simp: nmea_step.simps)
  with wake_step_rank [of ch w s nx t] NWake show ?thesis by (cases nx) auto
qed (use assms in \<open>auto simp: nmea_step.simps split: if_splits\<close>)

lemma timer_step_rank:
  assumes "timer_step ch s = Some s'" and "\<not> continue_thread s"
  shows "timer_rank (timer s') < timer_rank (timer s)"
proof (cases "timer s")
  case (TSleep p)
  with assms obtain nx t where "sleep_step ch p s = Some (nx, t)"
    and "s' = t\<lparr>timer := case nx of None \<Rightarrow> T15 | Some p \<Rightarrow> TSleep p\<rparr>" by (auto simp: timer_step.simps)
  with sleep_step_rank [of ch p s nx t] TSleep show ?thesis by (cases nx) auto
qed (use assms in \<open>auto simp: timer_step.simps split: if_splits\<close>)

text \<open>Steps of the three threads: the calls of the framework are not among them.\<close>

definition thread_steps :: "(thread \<times> choice) list \<Rightarrow> nat" where
  "thread_steps ws = length (filter (\<lambda>w. fst w \<noteq> Api) ws)"

lemma athr_step_end:
  assumes "athr_step w s = Some s'" and "quit_inv s" and "\<not> continue_thread s"
  shows "\<not> continue_thread s' \<and> end_rank s' + thread_steps [w] \<le> end_rank s"
proof (cases "(w, s)" rule: athr_step.cases)
  case (1 ch s) with assms api_step_pcs [of ch s s'] show ?thesis by (simp add: end_rank_def thread_steps_def)
next
  case (2 ch t)
  with assms have *: "ctl_step ch s = Some s'" by simp
  then have "quit_inv s'" using assms(2) by (rule ctl_step_quit)
  with * 2 assms ctl_step_rank [OF *] ctl_step_effect [OF *] show ?thesis
    by (auto simp: end_rank_def thread_steps_def quit_inv_def ctl_step.simps split: if_splits)
next
  case (3 ch s) with assms nmea_step_rank [of ch s s'] nmea_step_effect [of ch s s'] show ?thesis
    by (simp add: end_rank_def thread_steps_def)
next
  case (4 ch s) with assms timer_step_rank [of ch s s'] timer_step_effect [of ch s s'] show ?thesis
    by (simp add: end_rank_def thread_steps_def)
qed

lemma athr_run_end:
  assumes "athr_run ws s = Some s'" and "quit_inv s" and "\<not> continue_thread s"
  shows "\<not> continue_thread s' \<and> quit_inv s' \<and> end_rank s' + thread_steps ws \<le> end_rank s"
  using assms
proof (induction ws arbitrary: s)
  case Nil
  then show ?case by (simp add: thread_steps_def)
next
  case (Cons w ws)
  then obtain t where t: "athr_step w s = Some t" "athr_run ws t = Some s'" by (auto split: option.splits)
  from athr_step_end [OF t(1)] Cons.prems have e: "\<not> continue_thread t" "end_rank t + thread_steps [w] \<le> end_rank s"
    by auto
  moreover have "quit_inv t" using t(1) Cons.prems(2) by (rule athr_step_quit)
  ultimately show ?case using Cons.IH [OF t(2)] by (simp add: thread_steps_def split: if_splits)
qed

lemma athr_run_sem: "athr_run ws s = Some s' \<Longrightarrow> sem_inv s \<Longrightarrow> sem_inv s'"
  by (induction ws arbitrary: s) (auto split: option.splits dest: athr_step_sem)

lemma ctl_rank_le: "ctl_rank c \<le> 2" by (cases c) auto
lemma wake_rank_le: "wake_rank w \<le> 7" by (cases w) auto
lemma sleep_rank_le: "sleep_rank p \<le> 9" by (cases p) auto
lemma timer_rank_le: "timer_rank t \<le> 24"
proof (cases t)
  case (TSleep p) with sleep_rank_le [of p] show ?thesis by simp
qed auto
lemma nmea_rank_le: "sentences_left n \<le> 512 \<Longrightarrow> nmea_rank n \<le> 1543"
proof (cases n)
  case (NWake w) with wake_rank_le [of w] show ?thesis by simp
qed (auto simp: sentences_left_def)

lemma end_rank_le: "quit_inv s \<Longrightarrow> end_rank s \<le> 1569"
  using ctl_rank_le [of "ctl s"] timer_rank_le [of "timer s"] nmea_rank_le [of "nmea s"]
  by (simp add: end_rank_def quit_inv_def)

lemma nmea_enabled: "nmea s \<notin> {NDone, NFault} \<Longrightarrow> 0 < fix_sem s \<Longrightarrow> enabled Nmea s"
  by (cases "nmea s") (auto simp: enabled_def nmea_step.simps)

lemma timer_enabled: "timer s \<noteq> TDone \<Longrightarrow> 0 < fix_sem s \<Longrightarrow> enabled Timer s"
  by (cases "timer s") (auto simp: enabled_def timer_step.simps)

lemma end_progress:
  assumes "sem_inv s" and "quit_inv s" and "\<not> continue_thread s" and "nmea s \<noteq> NFault"
  shows "ctl s = CDone \<and> nmea s = NDone \<and> timer s = TDone \<or> (\<exists>t. enabled t s \<and> (t = Api \<longrightarrow> holds Api s))"
proof (cases "fix_sem s = 0")
  case True
  with assms(1) obtain t where "holds t s" using sem_taken_holder by blast
  then show ?thesis using holds_enabled by blast
next
  case False
  show ?thesis
  proof (cases "timer s = TDone \<and> nmea s = NDone")
    case True
    with assms(2,3) have "ctl s = CDone \<or> enabled Control s"
      by (auto simp: quit_inv_def enabled_def ctl_step.simps)
    with True show ?thesis by auto
  next
    case f: False
    with False assms(4) show ?thesis using nmea_enabled timer_enabled by fastforce
  qed
qed

end
