(* ===== verification/AthrRun.thy ===== *)
theory AthrRun
  imports AthrInv
begin

text \<open>
  Properties of the threads of the GPS module with power management: the semaphore, the end of
  the threads, and what goes wrong when the timer thread puts the receiver to sleep.
\<close>

subsection \<open>Schedules\<close>

definition call :: "nat \<Rightarrow> choice" where
  "call n = \<lparr>works = True, number = n, formal = True, fix_found = False, svs_found = False\<rparr>"

text \<open>A call of the framework, the control thread handling a start and a stop, and one read.\<close>

definition by_api :: "nat \<Rightarrow> (thread \<times> choice) list" where
  "by_api c = replicate 5 (Api, call c)"

definition by_control :: "nat \<Rightarrow> (thread \<times> choice) list" where
  "by_control n = replicate n (Control, call 7)"

definition by_nmea :: "nat \<Rightarrow> (thread \<times> choice) list" where
  "by_nmea n = replicate n (Nmea, call 1)"

definition by_timer :: "nat \<Rightarrow> (thread \<times> choice) list" where
  "by_timer n = replicate n (Timer, call 1)"

text \<open>
  C7: In every reachable state at most one thread is inside a section guarded by the semaphore, the
  semaphore is taken exactly while one is, and that thread can always go on: the semaphore is
  never lost and its holder never waits.
\<close>
theorem athr_lock_exclusive:
  assumes "athr_reachable s"
  shows "fix_sem s + holders s = 1 \<and> (\<forall>t u. holds t s \<and> holds u s \<longrightarrow> t = u) \<and>
    (fix_sem s = 0 \<longrightarrow> (\<exists>t. holds t s \<and> (\<forall>ch. athr_step (t, ch) s \<noteq> None)))"
proof -
  note inv = athr_reachable_sem [OF assms]
  from sem_taken_holder [OF inv] holds_enabled
  have "fix_sem s = 0 \<longrightarrow> (\<exists>t. holds t s \<and> (\<forall>ch. athr_step (t, ch) s \<noteq> None))" unfolding enabled_def by blast
  with inv holders_exclusive [OF inv] show ?thesis by (auto simp: sem_inv_def)
qed

theorem athr_lock_exclusive_witness:
  "\<exists>s. athr_run (by_api CMD_START @ by_control 8) athr_start = Some s \<and> fix_sem s = 0 \<and> holds Control s \<and> \<not> holds Timer s"
proof -
  have "map_option (\<lambda>s. (fix_sem s, ctl s)) (athr_run (by_api CMD_START @ by_control 8) athr_start) =
      Some (0, CWake W4)" by code_simp
  then obtain s where s: "athr_run (by_api CMD_START @ by_control 8) athr_start = Some s" "fix_sem s = 0" "ctl s = CWake W4"
    by auto
  then have "holds Control s" by (simp add: holds_def)
  moreover from s(1) have "athr_reachable s" by (rule athr_reachable_run)
  ultimately show ?thesis using athr_lock_exclusive [of s] s by blast
qed

text \<open>
  The receiver is started and stopped, and a sentence has come. The timer thread has decided
  to put the receiver to sleep.
\<close>

definition about_to_sleep :: "(thread \<times> choice) list" where
  "about_to_sleep = by_api CMD_START @ by_control 12 @ by_api CMD_STOP @ by_control 4 @ by_nmea 11 @ by_timer 13"

definition lost_schedule :: "(thread \<times> choice) list" where
  "lost_schedule = about_to_sleep @ by_api CMD_START @ by_control 3 @ by_timer 9 @ by_nmea 2"

definition fault_schedule :: "(thread \<times> choice) list" where
  "fault_schedule = about_to_sleep @ by_nmea 6 @ by_timer 9 @ by_nmea 1"

definition sleeping :: "athr \<Rightarrow> bool" where
  "sleeping s \<longleftrightarrow> ctl s = C1 \<and> control s = [] \<and> nmea s \<in> {N1, N2, N2b} \<and> timer s \<in> {T15, T0, T1, T1b} \<and>
     \<not> started s \<and> sleep_lock s = 0 \<and> continue_thread s"

lemma sleeping_step:
  assumes "athr_step w s = Some s'" and "sleeping s" and "fst w \<noteq> Api"
  shows "sleeping s' \<and> chip s' = chip s \<and> lastcmd s' = lastcmd s"
proof (cases "(w, s)" rule: athr_step.cases)
  case (1 ch s) with assms show ?thesis by simp
next
  case (2 ch s) with assms show ?thesis by (simp add: sleeping_def ctl_step.simps)
next
  case (3 ch t) with assms(1) have "nmea_step ch s = Some s'" by simp
  moreover from assms(2) have "nmea s = N1 \<or> nmea s = N2 \<or> nmea s = N2b" by (simp add: sleeping_def)
  ultimately show ?thesis using assms(2) by (elim disjE) (auto simp: nmea_step.simps sleeping_def)
next
  case (4 ch t) with assms(1) have "timer_step ch s = Some s'" by simp
  moreover from assms(2) have "timer s = T15 \<or> timer s = T0 \<or> timer s = T1 \<or> timer s = T1b" by (simp add: sleeping_def)
  ultimately show ?thesis using assms(2) by (elim disjE) (auto simp: timer_step.simps sleeping_def)
qed

lemma sleeping_run:
  "athr_run ws s = Some s' \<Longrightarrow> sleeping s \<Longrightarrow> \<forall>w\<in>set ws. fst w \<noteq> Api \<Longrightarrow>
     sleeping s' \<and> chip s' = chip s \<and> lastcmd s' = lastcmd s"
proof (induction ws arbitrary: s)
  case (Cons w ws)
  then obtain t where "athr_step w s = Some t" "athr_run ws t = Some s'" by (auto split: option.splits)
  with Cons sleeping_step [of w s t] show ?case by auto
qed simp

definition asleep :: athr where
  "asleep = \<lparr>gps_init = STATE_INIT, tty = -1, fix_sem = 1, fix_freq = -1, first_fix = False, control = [],
     has_fix = False, sv_changed = False, sleep_lock = 0, lastcmd = CMD_START, bGetFormalNMEA = True,
     started = False, continue_thread = True, bOrionShutdown = False, chip = [WAKEUP, SLEEP],
     api = ANone, ctl = C1, nmea = N2, timer = T15\<rparr>"

lemma lost_run: "athr_run lost_schedule athr_start = Some asleep"
  by code_simp

lemma asleep_sleeping: "sleeping asleep"
  by (simp add: sleeping_def asleep_def)

text \<open>
  C36: A start that arrives while the timer thread is about to put the receiver to sleep is lost: the
  control thread drops it because the receiver counts as started. Afterwards, whatever the
  threads do, the last call was a start, no command is outstanding, the chip was sent to sleep,
  and it stays asleep and not started until the framework calls again.
\<close>
theorem athr_start_lost:
  assumes "athr_run lost_schedule athr_start = Some s" and "athr_run ws s = Some s'" and "\<forall>w\<in>set ws. fst w \<noteq> Api"
  shows "lastcmd s' = CMD_START \<and> control s' = [] \<and> chip s' = [WAKEUP, SLEEP] \<and> \<not> started s' \<and> continue_thread s'"
proof -
  from assms(1) have "s = asleep" by (simp add: lost_run)
  with sleeping_run [OF assms(2) _ assms(3)] asleep_sleeping show ?thesis by (simp add: sleeping_def asleep_def)
qed

theorem athr_start_lost_witness:
  "\<exists>s'. athr_run (by_timer 4 @ by_nmea 3) asleep = Some s' \<and> lastcmd s' = CMD_START \<and> \<not> started s'"
proof -
  have "athr_run (by_timer 4 @ by_nmea 3) asleep \<noteq> None" by code_simp
  then obtain s' where "athr_run (by_timer 4 @ by_nmea 3) asleep = Some s'" by blast
  with athr_start_lost [OF lost_run, of "by_timer 4 @ by_nmea 3" s'] show ?thesis
    by (auto simp: by_timer_def by_nmea_def)
qed

text \<open>
  The timer thread puts the receiver to sleep without regard to the thread that reads: with the
  calls of one start and one stop, the descriptor is closed between the test for an open
  descriptor and \<open>FD_SET\<close>, which then writes outside the set of descriptors.
\<close>
theorem athr_closed_descriptor_selected:
  "\<exists>s. athr_run fault_schedule athr_start = Some s \<and> nmea s = NFault \<and> tty s = -1"
proof -
  have "map_option (\<lambda>s. (nmea s, tty s)) (athr_run fault_schedule athr_start) = Some (NFault, -1)" by code_simp
  then show ?thesis by auto
qed

text \<open>
  A start that finds the receiver not started wakes it, if nothing interferes and the system
  does what it is asked: after 12 steps of the control thread the tty is open, the chip has got
  one more wake-up command, the receiver counts as started and no longer as shut down, and the
  semaphore is free again.
\<close>
theorem athr_start_wakes:
  assumes "ctl s = C1" and "control s = CMD_START # cs" and "\<not> started s" and "sleep_lock s = 0" and "0 < fix_sem s"
    and "length chs = 12" and "\<forall>ch\<in>set chs. works ch"
  shows "\<exists>s'. athr_run (map (Pair Control) chs) s = Some s' \<and> ctl s' = C1 \<and> control s' = cs \<and> started s' \<and>
    gps_init s' = STATE_START \<and> tty s' \<noteq> -1 \<and> chip s' = chip s @ [WAKEUP] \<and> \<not> bOrionShutdown s' \<and>
    sleep_lock s' \<noteq> 0 \<and> \<not> bGetFormalNMEA s' \<and> fix_sem s' = fix_sem s"
proof -
  obtain a b c d e f g h i j k l where "chs = [a, b, c, d, e, f, g, h, i, j, k, l]"
    using assms(6) by (auto simp: length_Suc_conv numeral_eq_Suc)
  with assms show ?thesis
    by (simp add: ctl_step.simps athr_consts reader_init_def sem_give_def sem_take_def gps_opentty_def send_chip_def)
qed

theorem athr_start_wakes_witness:
  "\<exists>s'. athr_run (map (Pair Control) (replicate 12 (call 7))) (athr_start\<lparr>control := [CMD_START]\<rparr>) = Some s' \<and>
     chip s' = [WAKEUP] \<and> started s'"
  using athr_start_wakes [of "athr_start\<lparr>control := [CMD_START]\<rparr>" "[]" "replicate 12 (call 7)"]
  by (auto simp: athr_start_def call_def)

text \<open>
  C17: Once the control thread has told the threads to end, the three threads take at most 1569 further
  steps together, however they and the framework's calls are interleaved and whatever the
  system answers; and as long as they have not all ended one of them can go on, or the framework's
  call that holds the semaphore can (unless the thread that reads left its set of descriptors).
\<close>
theorem athr_shutdown_terminates:
  assumes "athr_reachable s" and "\<not> continue_thread s" and "athr_run ws s = Some s'"
  shows "thread_steps ws \<le> 1569 \<and>
    (nmea s' = NFault \<or> ctl s' = CDone \<and> nmea s' = NDone \<and> timer s' = TDone \<or>
      (\<exists>t. (\<forall>ch. athr_step (t, ch) s' \<noteq> None) \<and> (t = Api \<longrightarrow> holds Api s')))"
proof -
  note inv = athr_reachable_sem [OF assms(1)] athr_reachable_quit [OF assms(1)]
  note run = athr_run_end [OF assms(3) inv(2) assms(2)]
  with end_rank_le [OF inv(2)] have "thread_steps ws \<le> 1569" by simp
  moreover from end_progress [OF athr_run_sem [OF assms(3) inv(1)]] run
  have "nmea s' = NFault \<or> ctl s' = CDone \<and> nmea s' = NDone \<and> timer s' = TDone \<or>
      (\<exists>t. (\<forall>ch. athr_step (t, ch) s' \<noteq> None) \<and> (t = Api \<longrightarrow> holds Api s'))"
    unfolding enabled_def by blast
  ultimately show ?thesis ..
qed

text \<open>A quit: the control thread ends the others and itself.\<close>

definition quit_run :: "(thread \<times> choice) list" where
  "quit_run = [(Api, call CMD_QUIT), (Api, call 0)] @ by_control 3"

theorem athr_shutdown_terminates_witness:
  "\<exists>s s'. athr_run quit_run athr_start = Some s \<and> athr_run (by_timer 5 @ by_nmea 1) s = Some s' \<and>
     thread_steps (by_timer 5 @ by_nmea 1) \<le> 1569"
proof -
  have "map_option continue_thread (athr_run quit_run athr_start) = Some False" by code_simp
  then obtain s where s: "athr_run quit_run athr_start = Some s" "\<not> continue_thread s" by auto
  have "athr_run (quit_run @ by_timer 5 @ by_nmea 1) athr_start \<noteq> None" by code_simp
  then obtain s' where "athr_run (by_timer 5 @ by_nmea 1) s = Some s'"
    using s(1) by (auto simp: athr_run_append)
  moreover from s(1) have "athr_reachable s" by (rule athr_reachable_run)
  ultimately show ?thesis using s athr_shutdown_terminates [of s "by_timer 5 @ by_nmea 1" s'] by auto
qed

end
