(* ===== verification/AthrReader.thy ===== *)
theory AthrReader
  imports GpsReader AthrGps
begin

text \<open>
  The sentences of \<open>testcode/android/libgps/athr_gps.c\<close>. The tokenizer, the number parsers, the
  updates of position, altitude, bearing, speed and date of a \<open>ZDA\<close> sentence, and the \<open>GSA\<close>, \<open>GSV\<close>
  and \<open>VTG\<close> sentences are those of \<open>gps_neu.c\<close>, character by character; what differs is modelled
  here. \<open>char\<close> is unsigned, as on the ARM processors this module is for. What storing a \<open>double\<close> in
  the field \<open>accuracy\<close> does is an argument, because its type is declared in a header of the
  platform.
\<close>

subsection \<open>State\<close>

text \<open>The reader with its time map, and the variables of the module that parsing touches.\<close>

record AthrReader =
  nreader :: NmeaReader
  map_valid :: bool
  map_systime :: dbl
  map_timestamp :: int
  r_formal :: bool
  r_first_fix :: bool
  r_init :: nat

subsection \<open>Time\<close>

text \<open>The zone is read again for every time stamp, and taken off.\<close>

definition nmea_reader_get_timestamp :: "clock \<Rightarrow> NmeaReader \<Rightarrow> Token \<Rightarrow> (int option \<times> NmeaReader) ck" where
  "nmea_reader_get_timestamp k r tok =
     (if tend tok < tp tok + 6 then Inr (None, r)
      else if utc_year r < 0 then Inr (None, r)
      else
        (let m = tmem tok; p = tp tok
         in bindr (str2int m p (p + 2)) (\<lambda>hour.
            bindr (str2int m (p + 2) (p + 4)) (\<lambda>minute.
            bindr (str2float m (p + 4) (tend tok)) (\<lambda>seconds.
            bindr (dbl_int seconds) (\<lambda>sec.
              (let t = \<lparr>tm_sec = sec, tm_min = minute, tm_hour = hour, tm_mday = utc_day r,
                        tm_mon = utc_mon r - 1, tm_year = utc_year r - 1900, tm_yday = 0\<rparr>;
                   r1 = nmea_reader_update_utc_diff k r
               in Inr (Some (mktime k t - utc_diff r1), r1))))))))"

definition athr_update_time :: "clock \<Rightarrow> NmeaReader \<Rightarrow> Token \<Rightarrow> (int \<times> NmeaReader) ck" where
  "athr_update_time k r tok =
     bindr (nmea_reader_get_timestamp k r tok) (\<lambda>(t, r1).
       Inr (case t of None \<Rightarrow> (- 1, r1) | Some s \<Rightarrow> (0, upd_fix (\<lambda>f. f\<lparr>timestamp := s * 1000\<rparr>) r1)))"

text \<open>The date is read whether or not its field has six characters.\<close>

definition athr_update_date :: "clock \<Rightarrow> NmeaReader \<Rightarrow> Token \<Rightarrow> Token \<Rightarrow> (int \<times> NmeaReader) ck" where
  "athr_update_date k r date time =
     (let m = tmem date; p = tp date
      in bindr (str2int m p (p + 2)) (\<lambda>day.
         bindr (str2int m (p + 2) (p + 4)) (\<lambda>mon.
         bindr (str2int m (p + 4) (p + 6)) (\<lambda>yy.
           (let year = yy + 2000
            in if day < 0 \<or> mon < 0 \<or> year < 0 then Inr (- 1, r)
               else athr_update_time k (r\<lparr>utc_year := year, utc_mon := mon, utc_day := day\<rparr>) time)))))"

subsection \<open>The chip's own sentences\<close>

definition athr_update_accuracy :: "(dbl \<Rightarrow> dbl) \<Rightarrow> NmeaReader \<Rightarrow> Token \<Rightarrow> (int \<times> NmeaReader) ck" where
  "athr_update_accuracy store r tok =
     (if tend tok \<le> tp tok then Inr (- 1, r)
      else bindr (tok_float tok) (\<lambda>v.
        (let r1 = upd_fix (\<lambda>f. f\<lparr>accuracy := store v\<rparr>) r
         in Inr (0, if store v = Fin (9999 / 100) then r1
                    else upd_fix (\<lambda>f. f\<lparr>flags := insert HAS_ACCURACY (flags f)\<rparr>) r1))))"

definition nmea_reader_update_timemap :: "clock \<Rightarrow> AthrReader \<Rightarrow> Token \<Rightarrow> Token \<Rightarrow> (int \<times> AthrReader) ck" where
  "nmea_reader_update_timemap k a sys_tok time_tok =
     (if tend sys_tok \<le> tp sys_tok \<or> tend time_tok \<le> tp time_tok then Inr (- 1, a\<lparr>map_valid := False\<rparr>)
      else
        bindr (nmea_reader_get_timestamp k (nreader a) time_tok) (\<lambda>(t, r1).
          case t of
            None \<Rightarrow> Inr (- 1, a\<lparr>nreader := r1, map_valid := False\<rparr>)
          | Some s \<Rightarrow>
              bindr (tok_float sys_tok) (\<lambda>v.
                Inr (0, a\<lparr>nreader := r1, map_valid := True, map_systime := v, map_timestamp := s * 1000\<rparr>))))"

definition parse_punv :: "clock \<Rightarrow> (dbl \<Rightarrow> dbl) \<Rightarrow> Token list \<Rightarrow> AthrReader \<Rightarrow> AthrReader ck" where
  "parse_punv k store ts a =
     (let g = nmea_tokenizer_get ts; starts = (\<lambda>t n. rds (tmem t) (tp t) n)
      in bindr (starts (g 0) 4) (\<lambda>id.
         if id \<noteq> bytes ''PUNV'' then Inr a
         else
           bindr (starts (g 1) 5) (\<lambda>c5.
           if c5 = bytes ''CFG_R'' then Inr a
           else
             bindr (starts (g 1) 4) (\<lambda>c4.
             if c4 = bytes ''QUAL'' then
               bindr (tok0 (g 3)) (\<lambda>x.
                 if x \<noteq> COMMA
                 then bindr (athr_update_accuracy store (nreader a) (g 10)) (\<lambda>(st, r). Inr (a\<lparr>nreader := r\<rparr>))
                 else Inr a)
             else
               bindr (starts (g 1) 7) (\<lambda>c7.
               if c7 = bytes ''TIMEMAP''
               then bindr (nmea_reader_update_timemap k a (g 8) (g 2)) (\<lambda>(st, b). Inr b)
               else Inr a)))))"

subsection \<open>Sentences\<close>

definition athr_gga :: "clock \<Rightarrow> Token list \<Rightarrow> NmeaReader \<Rightarrow> NmeaReader ck" where
  "athr_gga k ts r =
     (let g = nmea_tokenizer_get ts
      in bindr (tok0 (g 6)) (\<lambda>status.
         if ascii CHR ''0'' < status then
           after (athr_update_time k r (g 1)) (\<lambda>r1.
           bindr (tok0 (g 3)) (\<lambda>lath. bindr (tok0 (g 5)) (\<lambda>lonh.
           after (nmea_reader_update_latlong r1 (g 2) lath (g 4) lonh) (\<lambda>r2.
           after (nmea_reader_update_altitude r2 (g 9) (g 10)) Inr))))
         else Inr r))"

definition athr_gll :: "clock \<Rightarrow> Token list \<Rightarrow> NmeaReader \<Rightarrow> NmeaReader ck" where
  "athr_gll k ts r =
     (let g = nmea_tokenizer_get ts
      in bindr (tok0 (g 6)) (\<lambda>status.
         if status = ascii CHR ''A'' then
           after (athr_update_time k r (g 5)) (\<lambda>r1.
           bindr (tok0 (g 2)) (\<lambda>lath. bindr (tok0 (g 4)) (\<lambda>lonh.
           after (nmea_reader_update_latlong r1 (g 1) lath (g 3) lonh) Inr)))
         else Inr r))"

definition athr_rmc :: "clock \<Rightarrow> Token list \<Rightarrow> NmeaReader \<Rightarrow> NmeaReader ck" where
  "athr_rmc k ts r =
     (let g = nmea_tokenizer_get ts
      in bindr (tok0 (g 2)) (\<lambda>status.
         if status = ascii CHR ''A'' then
           after (athr_update_date k r (g 9) (g 1)) (\<lambda>r1.
           bindr (tok0 (g 4)) (\<lambda>lath. bindr (tok0 (g 6)) (\<lambda>lonh.
           after (nmea_reader_update_latlong r1 (g 3) lath (g 5) lonh) (\<lambda>r2.
           after (nmea_reader_update_bearing r2 (g 8)) (\<lambda>r3.
           after (nmea_reader_update_speed r3 (g 7)) Inr)))))
         else Inr r))"

definition athr_zda :: "clock \<Rightarrow> Token list \<Rightarrow> NmeaReader \<Rightarrow> NmeaReader ck" where
  "athr_zda k ts r =
     (let g = nmea_tokenizer_get ts
      in bindr (tok0 (g 4)) (\<lambda>year.
         bindr (if year \<noteq> 0
                then after (nmea_reader_update_cdate r (g 2) (g 3) (g 4)) Inr else Inr r) (\<lambda>r1.
         bindr (tok0 (g 1)) (\<lambda>time.
           if time \<noteq> 0 then after (athr_update_time k r1 (g 1)) Inr else Inr r1))))"

definition athr_sentence :: "clock \<Rightarrow> Token list \<Rightarrow> byte list \<Rightarrow> NmeaReader \<Rightarrow> NmeaReader ck" where
  "athr_sentence k ts id3 r =
     (if id3 = bytes ''GGA'' then athr_gga k ts r
      else if id3 = bytes ''GLL'' then athr_gll k ts r
      else if id3 = bytes ''GSA'' then parse_gsa ts r
      else if id3 = bytes ''GSV'' then parse_gsv ts r
      else if id3 = bytes ''RMC'' then athr_rmc k ts r
      else if id3 = bytes ''VTG'' then parse_vtg ts r
      else if id3 = bytes ''ZDA'' then athr_zda k ts r
      else Inr r)"

text \<open>The first fix is reported at once.\<close>

definition athr_first_fix :: "GpsCallbacks \<Rightarrow> AthrReader \<Rightarrow> AthrReader" where
  "athr_first_fix cb a =
     (let r = nreader a
      in if \<not> r_first_fix a \<and> r_init a = STATE_INIT \<and> HAS_LAT_LONG \<in> flags (loc r)
         then (if location_cb cb
               then a\<lparr>nreader := upd_fix (\<lambda>f. f\<lparr>flags := {}\<rparr>) (emit (LocationFix (loc r)) r)\<rparr>
               else a)\<lparr>r_first_fix := True\<rparr>
         else a)"

definition report_sentence :: "clock \<Rightarrow> GpsCallbacks \<Rightarrow> byte list \<Rightarrow> NmeaReader \<Rightarrow> NmeaReader" where
  "report_sentence k cb bs r =
     (if nmea_cb cb then (emit (NmeaSentence (millis_at k (ticks r)) bs) r)\<lparr>ticks := ticks r + 1\<rparr> else r)"

definition athr_parse :: "clock \<Rightarrow> (dbl \<Rightarrow> dbl) \<Rightarrow> GpsCallbacks \<Rightarrow> AthrReader \<Rightarrow> AthrReader ck" where
  "athr_parse k store cb a =
     (let r = nreader a
      in if pos r < 9 then Inr a
         else
           (let r1 = report_sentence k cb (take (pos r) (rin r)) r
            in bindr (nmea_tokenizer_init (rin r1) 0 (pos r1)) (\<lambda>ts.
                 (let tok = nmea_tokenizer_get ts 0
                  in if tend tok < tp tok + 5 then parse_punv k store ts (a\<lparr>nreader := r1\<rparr>)
                     else
                       bindr (rds (tmem tok) (tp tok) 3) (\<lambda>g3.
                       bindr (rds (tmem tok) (tp tok + 2) 3) (\<lambda>id3.
                       bindr (athr_sentence k ts id3 r1) (\<lambda>r2.
                         Inr (athr_first_fix cb
                           (a\<lparr>nreader := r2, r_formal := r_formal a \<or> g3 = bytes ''GPG''\<rparr>)))))))))"

definition athr_addc :: "clock \<Rightarrow> (dbl \<Rightarrow> dbl) \<Rightarrow> GpsCallbacks \<Rightarrow> AthrReader \<Rightarrow> byte \<Rightarrow> AthrReader ck" where
  "athr_addc k store cb a c =
     (let r = nreader a
      in if overflow r then Inr (a\<lparr>nreader := r\<lparr>overflow := (c \<noteq> LF)\<rparr>\<rparr>)
         else if NMEA_MAX_SIZE \<le> pos r then Inr (a\<lparr>nreader := r\<lparr>overflow := True, pos := 0\<rparr>\<rparr>)
         else
           bindr (wr (rin r) (pos r) c) (\<lambda>m.
             (let a1 = a\<lparr>nreader := r\<lparr>rin := m, pos := pos r + 1\<rparr>\<rparr>
              in if c = LF
                 then bindr (athr_parse k store cb a1) (\<lambda>b. Inr (b\<lparr>nreader := (nreader b)\<lparr>pos := 0\<rparr>\<rparr>))
                 else Inr a1)))"

definition athr_feed :: "clock \<Rightarrow> (dbl \<Rightarrow> dbl) \<Rightarrow> GpsCallbacks \<Rightarrow> AthrReader \<Rightarrow> byte list \<Rightarrow> AthrReader ck" where
  "athr_feed k store cb = feeds (athr_addc k store cb)"

text \<open>
  What one \<open>read\<close> has delivered: the bytes are fed to the reader; a buffer that begins with a
  command of the chip is handed to the framework as a whole. The buffer was cleared before.
\<close>

definition athr_reader_parse :: "clock \<Rightarrow> GpsCallbacks \<Rightarrow> byte list \<Rightarrow> AthrReader \<Rightarrow> AthrReader" where
  "athr_reader_parse k cb buf a =
     (if length buf < 9 then a else a\<lparr>nreader := report_sentence k cb buf (nreader a)\<rparr>)"

text \<open>
  \<open>strstr\<close> looks for the version of the chip in the buffer of 512 bytes, which is cleared before the
  read: a read that fills it leaves no terminator, and the search has no defined result.
\<close>

definition athr_received :: "clock \<Rightarrow> (dbl \<Rightarrow> dbl) \<Rightarrow> GpsCallbacks \<Rightarrow> byte list \<Rightarrow> AthrReader \<Rightarrow> AthrReader ck" where
  "athr_received k store cb buf a =
     bindr (if 512 \<le> length buf \<and> 0 \<notin> set buf then Inl OutOfBounds else athr_feed k store cb a buf) (\<lambda>b.
       Inr (if take 3 buf = bytes ''OAP'' \<or> take 6 buf = bytes ''#!GSMA'' then athr_reader_parse k cb buf b else b))"

end
