(* ===== verification/AthrSafe.thy ===== *)
theory AthrSafe
  imports NmeaLines AthrReader
begin
text \<open>
  The reader of \<open>athr_gps.c\<close> on arbitrary input: it stays in its buffers, with three exceptions,
  and its time stamps are right.
\<close>

subsection \<open>What an update keeps\<close>

text \<open>As \<open>keeps\<close>, but the zone is read again.\<close>

definition keeps_line :: "NmeaReader \<Rightarrow> NmeaReader \<Rightarrow> bool" where
  "keeps_line r s \<longleftrightarrow> rin s = rin r \<and> pos s = pos r \<and> overflow s = overflow r \<and> sv_status s = sv_status r"

lemma keeps_line_refl [simp]: "keeps_line r r"
  by (simp add: keeps_line_def)

lemma keeps_line_trans: "keeps_line r s \<Longrightarrow> keeps_line s t \<Longrightarrow> keeps_line r t"
  by (simp add: keeps_line_def)

lemma keeps_line_ok: "keeps_line r s \<Longrightarrow> reader_ok N s = reader_ok N r"
  by (simp add: keeps_line_def reader_ok_def)

lemma keeps_keeps_line: "keeps r s \<Longrightarrow> keeps_line r s"
  by (simp add: keeps_def keeps_line_def)

abbreviation (input) upd_line :: "ub set \<Rightarrow> NmeaReader \<Rightarrow> ('a \<times> NmeaReader) ck \<Rightarrow> bool" where
  "upd_line E r c \<equiv> ends_or E (\<lambda>(st, s). keeps_line r s) c"

lemma upd_line_shared: "upd_ok r c \<Longrightarrow> BadCast \<in> E \<Longrightarrow> upd_line E r c"
  by (cases c) (auto simp: keeps_keeps_line)

lemma upd_line_after:
  assumes "upd_line E r c" and "keeps_line r0 r" and "\<And>s. keeps_line r0 s \<Longrightarrow> ends_or E P (f s)"
  shows "ends_or E P (bindr c (\<lambda>(st, s). f s))"
  using assms keeps_line_trans by (cases c) auto

lemma get_timestamp_ok:
  assumes "tok_ok t" and "BadCast \<in> E" shows "upd_line E r (nmea_reader_get_timestamp k r t)"
proof (cases "tend t < tp t + 6 \<or> utc_year r < 0")
  case False
  let ?m = "tmem t"
  have len: "tp t + 4 \<le> length ?m" using False assms by (simp add: tok_ok_def)
  obtain a b where ab: "str2int ?m (tp t) (tp t + 2) = Inr a" "str2int ?m (tp t + 2) (tp t + 4) = Inr b"
    using str2int_ok [of "tp t + 2" ?m "tp t"] str2int_ok [of "tp t + 4" ?m "tp t + 2"] len by auto
  obtain d where d: "str2float ?m (tp t + 4) (tend t) = Inr d"
    using False assms str2float_ok [of "tend t" ?m "tp t + 4"] by (auto simp: tok_ok_def)
  have z: "keeps_line r (nmea_reader_update_utc_diff k r)"
    by (simp add: nmea_reader_update_utc_diff_def keeps_line_def Let_def)
  then show ?thesis
    using False dbl_int_ok [of d] assms(2)
    unfolding nmea_reader_get_timestamp_def Let_def ab d bindr.simps
    by (cases "dbl_int d") auto
qed (auto simp: nmea_reader_get_timestamp_def)

lemma athr_time_ok:
  assumes "tok_ok t" and "BadCast \<in> E" shows "upd_line E r (athr_update_time k r t)"
  unfolding athr_update_time_def
proof (rule ends_or_bind [OF get_timestamp_ok [OF assms]])
  fix x :: "int option \<times> NmeaReader" assume "case x of (st, s) \<Rightarrow> keeps_line r s"
  then show "upd_line E r (case x of (t, r1) \<Rightarrow> Inr (case t of None \<Rightarrow> (- 1, r1)
      | Some s \<Rightarrow> (0, upd_fix (\<lambda>f. f\<lparr>timestamp := s * 1000\<rparr>) r1)))"
    by (auto simp: keeps_line_def split: option.split)
qed

text \<open>A date field of which six characters may lie outside the memory it is in.\<close>

definition date_outside :: "Token \<Rightarrow> bool" where
  "date_outside t \<longleftrightarrow> length (tmem t) < tp t + 6"

lemma athr_date_ok:
  assumes "tok_ok t" and "BadCast \<in> E" and "date_outside d \<Longrightarrow> OutOfBounds \<in> E"
  shows "upd_line E r (athr_update_date k r d t)"
proof (cases "date_outside d")
  case True
  have err: "str2int m p e = Inl x \<Longrightarrow> x = OutOfBounds" for m p e x
  proof -
    have "str2int_loop m p n acc = Inl x \<Longrightarrow> x = OutOfBounds" for n acc
      by (induction m p n acc rule: str2int_loop.induct) (auto simp: rd_def split: if_splits option.splits)
    then show "str2int m p e = Inl x \<Longrightarrow> x = OutOfBounds" by (auto simp: str2int_def split: if_splits)
  qed
  have read: "ends_or E P (bindr (str2int m p e) f)" if "\<And>i. ends_or E P (f i)" for P m p e and f :: "int \<Rightarrow> (int \<times> NmeaReader) ck"
    using that err [of m p e] assms(3) [OF True] by (cases "str2int m p e") auto
  show ?thesis unfolding athr_update_date_def Let_def
  proof (intro read)
    fix a b c
    let ?r = "r\<lparr>utc_year := c + 2000, utc_mon := b, utc_day := a\<rparr>"
    show "upd_line E r (if a < 0 \<or> b < 0 \<or> c + 2000 < 0 then Inr (- 1, r) else athr_update_time k ?r t)"
      using athr_time_ok [OF assms(1,2), of ?r k] by (simp add: keeps_line_def)
  qed
next
  case False
  let ?m = "tmem d"
  have len: "tp d + 6 \<le> length ?m" using False by (simp add: date_outside_def)
  obtain a b c where abc: "str2int ?m (tp d) (tp d + 2) = Inr a" "str2int ?m (tp d + 2) (tp d + 4) = Inr b"
    "str2int ?m (tp d + 4) (tp d + 6) = Inr c"
    using str2int_ok [of "tp d + 2" ?m "tp d"] str2int_ok [of "tp d + 4" ?m "tp d + 2"]
      str2int_ok [of "tp d + 6" ?m "tp d + 4"] len by auto
  let ?r = "r\<lparr>utc_year := c + 2000, utc_mon := b, utc_day := a\<rparr>"
  have "upd_line E r (athr_update_time k ?r t)"
    using athr_time_ok [OF assms(1,2), of ?r k] by (simp add: keeps_line_def)
  then show ?thesis unfolding athr_update_date_def Let_def abc bindr.simps by simp
qed

lemma athr_accuracy_ok: "tok_ok t \<Longrightarrow> upd_line E r (athr_update_accuracy store r t)"
  using tok_float_ok [of t] by (auto simp: athr_update_accuracy_def keeps_line_def Let_def)

subsection \<open>Sentences\<close>

lemma athr_fix_ok:
  assumes ts: "list_all tok_ok ts" and E: "BadCast \<in> E"
  shows "ends_or E (keeps_line r) (athr_gga k ts r)" "ends_or E (keeps_line r) (athr_gll k ts r)"
    "ends_or E (keeps_line r) (athr_zda k ts r)"
    "(tok_char (nmea_tokenizer_get ts 2) 0 = Inr (ascii CHR ''A'') \<Longrightarrow> date_outside (nmea_tokenizer_get ts 9) \<Longrightarrow>
      OutOfBounds \<in> E) \<Longrightarrow> ends_or E (keeps_line r) (athr_rmc k ts r)"
proof -
  note g = tok_ok_get [OF ts]
  note sh = upd_line_shared [OF _ E]
  note step = upd_line_after [where ?r0.0 = r, OF athr_time_ok [OF g E]]
    upd_line_after [where ?r0.0 = r, OF sh [OF update_latlong_ok [OF g g]]]
    upd_line_after [where ?r0.0 = r, OF sh [OF update_motion_ok(1) [OF g]]]
    upd_line_after [where ?r0.0 = r, OF sh [OF update_motion_ok(2) [OF g]]]
    upd_line_after [where ?r0.0 = r, OF sh [OF update_motion_ok(3) [OF g]]]
    upd_line_after [where ?r0.0 = r, OF sh [OF update_cdate_ok [OF g g g]]]
  have fin: "keeps_line r s \<Longrightarrow> ends_or E (keeps_line r) (Inr s)" for s by simp
  have opt: "ends_or E (keeps_line r) (if b then c else Inr s)"
    if "keeps_line r s" "ends_or E (keeps_line r) c" for b c s using that by simp
  show "ends_or E (keeps_line r) (athr_gga k ts r)" unfolding athr_gga_def Let_def
    by (intro tok0_ok g opt step fin keeps_line_refl; assumption)
  show "ends_or E (keeps_line r) (athr_gll k ts r)" unfolding athr_gll_def Let_def
    by (intro tok0_ok g opt step fin keeps_line_refl; assumption)
  show "ends_or E (keeps_line r) (athr_zda k ts r)" unfolding athr_zda_def Let_def
    by (intro tok0_ok g ends_or_bind [where Q = "keeps_line r"] opt step fin keeps_line_refl; assumption)
  assume bad: "tok_char (nmea_tokenizer_get ts 2) 0 = Inr (ascii CHR ''A'') \<Longrightarrow>
    date_outside (nmea_tokenizer_get ts 9) \<Longrightarrow> OutOfBounds \<in> E"
  obtain c where c: "tok_char (nmea_tokenizer_get ts 2) 0 = Inr c" using tok_char_ok [OF g] by blast
  show "ends_or E (keeps_line r) (athr_rmc k ts r)"
  proof (cases "c = ascii CHR ''A''")
    case True
    note date = upd_line_after [where ?r0.0 = r, OF athr_date_ok [OF g E bad [OF c [unfolded True]]]]
    show ?thesis unfolding athr_rmc_def Let_def
      by (intro tok0_ok g opt date step fin keeps_line_refl; assumption)
  next
    case False
    then show ?thesis unfolding athr_rmc_def Let_def c bindr.simps by simp
  qed
qed

text \<open>
  The lines after which the reader may have left a buffer: too many satellites, a position
  sentence whose date field is missing or stands at the end of the buffer, and a sentence of the
  chip without a second field.
\<close>

definition athr_bad_line :: "nat \<Rightarrow> byte list \<Rightarrow> nat \<Rightarrow> bool" where
  "athr_bad_line N m e \<longleftrightarrow> too_many_svs N m e \<or>
     (\<exists>ts. nmea_tokenizer_init m 0 e = Inr ts \<and>
        (date_outside (nmea_tokenizer_get ts 9) \<and> tok_char (nmea_tokenizer_get ts 2) 0 = Inr (ascii CHR ''A'') \<and>
           rds (tmem (nmea_tokenizer_get ts 0)) (tp (nmea_tokenizer_get ts 0) + 2) 3 = Inr (bytes ''RMC'') \<or>
         length ts \<le> 1 \<and> rds (tmem (nmea_tokenizer_get ts 0)) (tp (nmea_tokenizer_get ts 0)) 4 = Inr (bytes ''PUNV'')))"

lemma athr_sentence_ok:
  assumes "list_all tok_ok ts" "reader_ok N r" "tok_int (nmea_tokenizer_get ts 3) = Inr n"
    and "BadCast \<in> E" "id3 = bytes ''GSV'' \<Longrightarrow> int N < n \<Longrightarrow> OutOfBounds \<in> E"
    and "id3 = bytes ''RMC'' \<Longrightarrow> tok_char (nmea_tokenizer_get ts 2) 0 = Inr (ascii CHR ''A'') \<Longrightarrow>
      date_outside (nmea_tokenizer_get ts 9) \<Longrightarrow> OutOfBounds \<in> E"
  shows "ends_or E (reader_ok N) (athr_sentence k ts id3 r)"
proof -
  have nav: "ends_or E (reader_ok N) c" if "ends_or E (keeps_line r) c" for c
    using that assms(2) by (cases c) (simp_all add: keeps_line_ok)
  have vtg: "ends_or E (reader_ok N) (parse_vtg ts r)"
    using parse_fix_ok(4) [OF assms(1), of r] assms(2,4) by (cases "parse_vtg ts r") (simp_all add: keeps_ok)
  have sat: "ends_or E (reader_ok N) c" if "ends_or E' (step_ok N r) c" "E' \<subseteq> E" for c E'
    using that by (cases c) (auto simp: step_ok_def)
  have gsv: "id3 = bytes ''GSV'' \<Longrightarrow> ends_or E (step_ok N r) (parse_gsv ts r)"
    using assms(5) by (intro parse_gsv_ok [OF assms(1-3)]) blast
  show ?thesis
    unfolding athr_sentence_def
    using nav athr_fix_ok [OF assms(1,4), of r] vtg sat [OF parse_gsa_ok [OF assms(1,2)]] sat [OF gsv] assms(2,6)
    by (simp del: bytes_simps)
qed

definition athr_ok :: "nat \<Rightarrow> AthrReader \<Rightarrow> bool" where
  "athr_ok N a \<longleftrightarrow> reader_ok N (nreader a)"

lemma report_sentence_ok [simp]:
  "reader_ok N (report_sentence k cb bs r) = reader_ok N r" "rin (report_sentence k cb bs r) = rin r"
  "pos (report_sentence k cb bs r) = pos r"
  by (simp_all add: report_sentence_def emit_def reader_ok_def)

lemma athr_first_fix_ok [simp]: "athr_ok N (athr_first_fix cb a) = athr_ok N a"
  by (simp add: athr_first_fix_def athr_ok_def emit_def reader_ok_def Let_def)

lemma timemap_ok:
  assumes "tok_ok s" "tok_ok t" "BadCast \<in> E" "athr_ok N a"
  shows "ends_or E (\<lambda>(st, b). athr_ok N b) (nmea_reader_update_timemap k a s t)"
proof -
  obtain v where v: "tok_float s = Inr v" using tok_float_ok [OF assms(1)] by blast
  show ?thesis
  proof (cases "tend s \<le> tp s \<or> tend t \<le> tp t")
    case False
    have "ends_or E (\<lambda>(st, b). athr_ok N b) (bindr (nmea_reader_get_timestamp k (nreader a) t) (\<lambda>(ts, r1).
        case ts of None \<Rightarrow> Inr (- 1, a\<lparr>nreader := r1, map_valid := False\<rparr>)
        | Some s \<Rightarrow> Inr (0, a\<lparr>nreader := r1, map_valid := True, map_systime := v, map_timestamp := s * 1000\<rparr>)))"
    proof (rule ends_or_bind [OF get_timestamp_ok [OF assms(2,3)]])
      fix x :: "int option \<times> NmeaReader" assume "case x of (st, s) \<Rightarrow> keeps_line (nreader a) s"
      then have "reader_ok N (snd x)" using keeps_line_ok [of "nreader a" "snd x" N] assms(4) by (auto simp: athr_ok_def)
      then show "ends_or E (\<lambda>(st, b). athr_ok N b) (case x of (ts, r1) \<Rightarrow>
          case ts of None \<Rightarrow> Inr (- 1, a\<lparr>nreader := r1, map_valid := False\<rparr>)
          | Some s \<Rightarrow> Inr (0, a\<lparr>nreader := r1, map_valid := True, map_systime := v, map_timestamp := s * 1000\<rparr>))"
        by (cases x) (auto simp: athr_ok_def split: option.split)
    qed
    then show ?thesis using False unfolding nmea_reader_update_timemap_def v bindr.simps by simp
  qed (use assms(4) in \<open>simp add: nmea_reader_update_timemap_def athr_ok_def\<close>)
qed

text \<open>Where the first two fields are.\<close>

lemma token_loop_prefix: "token_loop m p e toks = Inr ts \<Longrightarrow> \<exists>us. ts = toks @ us"
proof (induction m p e toks rule: token_loop.induct)
  case (1 m p e toks)
  show ?case
  proof (cases "p < e")
    case True
    with 1(2) obtain q where q: "memchr_comma m p (e - p) = Inr q"
      by (subst (asm) token_loop.simps) (auto elim!: bindr_InrE)
    with 1(2) True have "token_loop m (if q < e then q + 1 else q) e
        (if length toks < MAX_NMEA_TOKENS then toks @ [\<lparr>tmem = m, tp = p, tend = q\<rparr>] else toks) = Inr ts"
      by (subst (asm) token_loop.simps) simp
    from "1.IH" [OF True q this] show ?thesis by (auto split: if_splits)
  next
    case False
    with 1(2) show ?thesis by (subst (asm) token_loop.simps) simp
  qed
qed

lemma token_loop_step:
  assumes "token_loop m p e toks = Inr ts" and "p < e" and "length toks < MAX_NMEA_TOKENS"
  obtains q where "p \<le> q" "q \<le> e"
    and "token_loop m (if q < e then q + 1 else q) e (toks @ [\<lparr>tmem = m, tp = p, tend = q\<rparr>]) = Inr ts"
proof -
  from assms obtain q where q: "memchr_comma m p (e - p) = Inr q"
    and t: "token_loop m (if q < e then q + 1 else q) e (toks @ [\<lparr>tmem = m, tp = p, tend = q\<rparr>]) = Inr ts"
    by (subst (asm) token_loop.simps) (auto elim!: bindr_InrE)
  from memchr_comma_range [OF q] assms(2) that [OF _ _ t] show thesis by simp
qed

lemma token_loop_first:
  assumes "token_loop m p e [] = Inr ts" and "p < e"
  shows "ts \<noteq> [] \<and> tmem (ts ! 0) = m \<and> tp (ts ! 0) = p \<and>
    (1 < length ts \<longrightarrow> tmem (ts ! 1) = m \<and> tp (ts ! 1) = tend (ts ! 0) + 1)"
proof -
  obtain q where q: "p \<le> q" "q \<le> e"
    and t: "token_loop m (if q < e then q + 1 else q) e [\<lparr>tmem = m, tp = p, tend = q\<rparr>] = Inr ts"
    using token_loop_step [OF assms] by (auto simp: MAX_NMEA_TOKENS_def)
  show ?thesis
  proof (cases "q + 1 < e")
    case True
    then obtain q' where "token_loop m (if q' < e then q' + 1 else q') e
        [\<lparr>tmem = m, tp = p, tend = q\<rparr>, \<lparr>tmem = m, tp = q + 1, tend = q'\<rparr>] = Inr ts"
      using token_loop_step [OF t] by (auto simp: MAX_NMEA_TOKENS_def)
    then show ?thesis using token_loop_prefix by fastforce
  next
    case False
    then have "ts = [\<lparr>tmem = m, tp = p, tend = q\<rparr>]" using t q by (subst (asm) token_loop.simps) (auto split: if_splits)
    then show ?thesis by simp
  qed
qed

lemma first_tokens:
  assumes "nmea_tokenizer_init m 0 e = Inr ts" and "9 \<le> e"
  shows "ts \<noteq> [] \<and> tmem (ts ! 0) = m \<and> tp (ts ! 0) \<le> 1 \<and>
    (1 < length ts \<longrightarrow> tmem (ts ! 1) = m \<and> tp (ts ! 1) = tend (ts ! 0) + 1)"
proof -
  from assms(1) obtain p1 e1 e2 where p: "skip_dollar m 0 e = Inr p1" and n: "drop_newline m p1 e = Inr e1"
    and c: "drop_checksum m p1 e1 = Inr e2" and t: "token_loop m p1 e2 [] = Inr ts"
    by (auto simp: nmea_tokenizer_init_def elim!: bindr_InrE)
  from p have "p1 \<le> 1" by (auto simp: skip_dollar_def elim!: bindr_InrE split: if_splits)
  moreover from n have "e - 2 \<le> e1" by (auto simp: drop_newline_def elim!: bindr_InrE split: if_splits)
  moreover from c have "e1 - 3 \<le> e2" by (auto simp: drop_checksum_def elim!: bindr_InrE split: if_splits)
  ultimately show ?thesis using token_loop_first [OF t] assms(2) by auto
qed

lemma parse_punv_ok:
  assumes ts: "list_all tok_ok ts" and E: "BadCast \<in> E" and a: "athr_ok N a"
    and init: "nmea_tokenizer_init m 0 e = Inr ts" "9 \<le> e" "NMEA_MAX_SIZE < length m"
    and short: "tend (nmea_tokenizer_get ts 0) < tp (nmea_tokenizer_get ts 0) + 5"
    and bad: "athr_bad_line N m e \<Longrightarrow> OutOfBounds \<in> E"
  shows "ends_or E (athr_ok N) (parse_punv k store ts a)"
proof -
  let ?g = "nmea_tokenizer_get ts"
  note g = tok_ok_get [OF ts] and f = first_tokens [OF init(1,2)]
  have g0: "?g 0 = ts ! 0" using f by (simp add: nmea_tokenizer_get_def)
  have len: "84 \<le> length m" using init(3) by (simp add: NMEA_MAX_SIZE_def)
  obtain id where id: "rds (tmem (?g 0)) (tp (?g 0)) 4 = Inr id" using f len by (auto simp: g0 rds_def)
  show ?thesis
  proof (cases "id = bytes ''PUNV''")
    case False
    then show ?thesis using a by (simp add: parse_punv_def id del: bytes_simps)
  next
    case True
    show ?thesis
    proof (cases "1 < length ts")
      case False
      then have "athr_bad_line N m e" using init(1) id True by (auto simp: athr_bad_line_def simp del: bytes_simps)
      then have "OutOfBounds \<in> E" by (rule bad)
      moreover have "rds (tmem (?g 1)) (tp (?g 1)) 5 = Inl OutOfBounds" using False by (simp add: nmea_tokenizer_get_def rds_def)
      ultimately show ?thesis using True by (simp add: parse_punv_def id Let_def del: bytes_simps)
    next
      case two: True
      have "tmem (?g 1) = m" "tp (?g 1) \<le> 6" using two f short by (auto simp: g0 nmea_tokenizer_get_def)
      then obtain c5 c4 c7 where c: "rds (tmem (?g 1)) (tp (?g 1)) 5 = Inr c5" "rds (tmem (?g 1)) (tp (?g 1)) 4 = Inr c4"
          "rds (tmem (?g 1)) (tp (?g 1)) 7 = Inr c7" using len by (auto simp: rds_def)
      obtain x where x: "tok_char (?g 3) 0 = Inr x" using tok_char_ok [OF g] by blast
      have acc: "ends_or E (athr_ok N) (bindr (athr_update_accuracy store (nreader a) (?g 10)) (\<lambda>(st, r). Inr (a\<lparr>nreader := r\<rparr>)))"
      proof (rule ends_or_bind [OF athr_accuracy_ok [OF g]])
        fix x :: "int \<times> NmeaReader" assume "case x of (st, s) \<Rightarrow> keeps_line (nreader a) s"
        then have "reader_ok N (snd x)" using keeps_line_ok [of "nreader a" "snd x" N] a by (auto simp: athr_ok_def)
        then show "ends_or E (athr_ok N) (case x of (st, r) \<Rightarrow> Inr (a\<lparr>nreader := r\<rparr>))"
          by (cases x) (simp add: athr_ok_def)
      qed
      have tm: "ends_or E (athr_ok N) (bindr (nmea_reader_update_timemap k a (?g 8) (?g 2)) (\<lambda>(st, b). Inr b))"
        using timemap_ok [OF g g E a, of k 8 2]
        by (cases "nmea_reader_update_timemap k a (?g 8) (?g 2)") auto
      show ?thesis
        unfolding parse_punv_def Let_def id c x bindr.simps using acc tm a by (simp del: bytes_simps)
    qed
  qed
qed

subsection \<open>Lines and bytes\<close>

lemma athr_parse_ok:
  assumes "athr_ok N a" "0 < pos (nreader a)" "rin (nreader a) ! (pos (nreader a) - 1) = LF"
    and "BadCast \<in> E" and "athr_bad_line N (rin (nreader a)) (pos (nreader a)) \<Longrightarrow> OutOfBounds \<in> E"
  shows "ends_or E (athr_ok N) (athr_parse k store cb a)"
proof (cases "pos (nreader a) < 9")
  case True
  then show ?thesis using assms(1) by (simp add: athr_parse_def)
next
  case False
  let ?m = "rin (nreader a)" and ?e = "pos (nreader a)"
  define r1 where "r1 = report_sentence k cb (take ?e ?m) (nreader a)"
  have ok: "reader_ok N r1" "rin r1 = ?m" "pos r1 = ?e" using assms(1) by (simp_all add: r1_def athr_ok_def)
  have len: "?e \<le> length ?m" "NMEA_MAX_SIZE < length ?m" using assms(1) by (simp_all add: athr_ok_def reader_ok_def)
  obtain ts where ts: "nmea_tokenizer_init ?m 0 ?e = Inr ts" "list_all tok_ok ts"
    using tokenizer_line [OF len(1) assms(2,3)] by blast
  let ?t = "nmea_tokenizer_get ts 0"
  note P = athr_parse_def [of k store cb a, unfolded Let_def, folded r1_def, unfolded ok ts(1) bindr.simps]
  show ?thesis
  proof (cases "tend ?t < tp ?t + 5")
    case True
    have "athr_ok N (a\<lparr>nreader := r1\<rparr>)" using ok(1) by (simp add: athr_ok_def)
    from parse_punv_ok [OF ts(2) assms(4) this ts(1) _ len(2) True assms(5)] False True
    show ?thesis by (simp add: P)
  next
    case long: False
    have "tok_ok ?t" by (rule tok_ok_get [OF ts(2)])
    then have "tp ?t + 5 \<le> length (tmem ?t)" using long by (simp add: tok_ok_def)
    then obtain g3 id3 where id: "rds (tmem ?t) (tp ?t) 3 = Inr g3" "rds (tmem ?t) (tp ?t + 2) 3 = Inr id3" by simp
    obtain n where n: "tok_int (nmea_tokenizer_get ts 3) = Inr n"
      using tok_int_ok tok_ok_get [OF ts(2)] by blast
    have "ends_or E (reader_ok N) (athr_sentence k ts id3 r1)"
    proof (rule athr_sentence_ok [OF ts(2) ok(1) n assms(4)])
      assume "id3 = bytes ''GSV''" "int N < n"
      then have "too_many_svs N ?m ?e" using ts(1) id n by (auto simp: too_many_svs_def simp del: bytes_simps)
      then show "OutOfBounds \<in> E" using assms(5) by (simp add: athr_bad_line_def)
    next
      assume "id3 = bytes ''RMC''" "tok_char (nmea_tokenizer_get ts 2) 0 = Inr (ascii CHR ''A'')"
        "date_outside (nmea_tokenizer_get ts 9)"
      then show "OutOfBounds \<in> E" using assms(5) ts(1) id(2) by (auto simp: athr_bad_line_def simp del: bytes_simps)
    qed
    then have "ends_or E (athr_ok N) (bindr (athr_sentence k ts id3 r1) (\<lambda>r2. Inr (athr_first_fix cb
        (a\<lparr>nreader := r2, r_formal := r_formal a \<or> g3 = bytes ''GPG''\<rparr>))))"
      by (rule ends_or_bind) (simp only: ends_or.simps athr_first_fix_ok, simp add: athr_ok_def)
    then show ?thesis using False long unfolding P id bindr.simps by simp
  qed
qed

lemma athr_addc_ok:
  assumes "athr_ok N a"
  shows "case athr_addc k store cb a c of Inr b \<Rightarrow> athr_ok N b
    | Inl e \<Rightarrow> e = BadCast \<or> e = OutOfBounds \<and> c = LF \<and> athr_bad_line N (line_of (nreader a)) (pos (nreader a) + 1)"
proof (cases "overflow (nreader a) \<or> NMEA_MAX_SIZE \<le> pos (nreader a)")
  case True
  then have "athr_addc k store cb a c = Inr (if overflow (nreader a) then a\<lparr>nreader := (nreader a)\<lparr>overflow := (c \<noteq> LF)\<rparr>\<rparr>
      else a\<lparr>nreader := (nreader a)\<lparr>overflow := True, pos := 0\<rparr>\<rparr>)"
    by (auto simp: athr_addc_def Let_def)
  then show ?thesis using assms by (simp add: athr_ok_def reader_ok_def)
next
  case False
  let ?r = "nreader a" let ?m = "(rin ?r)[pos ?r := c]"
  let ?a = "a\<lparr>nreader := ?r\<lparr>rin := ?m, pos := pos ?r + 1\<rparr>\<rparr>"
  have w: "wr (rin ?r) (pos ?r) c = Inr ?m" using assms False by (simp add: athr_ok_def reader_ok_def)
  have ok: "athr_ok N ?a" using assms False by (simp add: athr_ok_def reader_ok_def)
  show ?thesis
  proof (cases "c = LF")
    case True
    let ?E = "{e. e = BadCast \<or> e = OutOfBounds \<and> athr_bad_line N (line_of ?r) (pos ?r + 1)}"
    have "ends_or ?E (athr_ok N) (athr_parse k store cb ?a)"
    proof (rule athr_parse_ok [OF ok])
      show "rin (nreader ?a) ! (pos (nreader ?a) - 1) = LF" using True assms False by (simp add: athr_ok_def reader_ok_def)
      assume "athr_bad_line N (rin (nreader ?a)) (pos (nreader ?a))"
      then show "OutOfBounds \<in> ?E" using True by (simp add: line_of_def)
    qed simp_all
    then show ?thesis using False True w
      by (cases "athr_parse k store cb ?a") (auto simp: athr_addc_def athr_ok_def reader_ok_def)
  next
    case c: False
    then show ?thesis using False w ok by (simp add: athr_addc_def Let_def)
  qed
qed

text \<open>
  C11: No byte stream makes the reader of the module with power management leave its line buffer or a
  sentence, and its buffers stay well-formed, with these exceptions: a \<open>GSV\<close> sentence that
  announces more satellites than the list holds, an \<open>RMC\<close> sentence with a fix whose tenth field, the
  date, is missing or starts in the last six bytes of the buffer (the code notices and reads it
  all the same), and a sentence of the chip without a second field.
\<close>
theorem athr_feed_safe:
  assumes "reader_ok N (nreader a)"
  shows "case athr_feed k store cb a bs of
      Inr b \<Rightarrow> reader_ok N (nreader b)
    | Inl e \<Rightarrow> e = BadCast \<or> e = OutOfBounds \<and>
        (\<exists>us vs b. bs = us @ LF # vs \<and> athr_feed k store cb a us = Inr b \<and>
           athr_bad_line N (line_of (nreader b)) (pos (nreader b) + 1))"
proof -
  let ?E = "\<lambda>e a c. e = BadCast \<or> e = OutOfBounds \<and> c = LF \<and> athr_bad_line N (line_of (nreader a)) (pos (nreader a) + 1)"
  from feeds_ends [where P = "athr_ok N" and f = "athr_addc k store cb" and s = a and E = ?E and cs = bs, OF _ athr_addc_ok] assms
  show ?thesis unfolding athr_feed_def athr_ok_def by (cases "feeds (athr_addc k store cb) a bs") auto
qed

definition ex_athr :: "nat \<Rightarrow> AthrReader" where
  "ex_athr N = \<lparr>nreader = ex_reader N, map_valid = False, map_systime = Fin 0, map_timestamp = 0,
     r_formal = False, r_first_fix = False, r_init = STATE_START\<rparr>"

theorem athr_feed_safe_witness:
  "case athr_feed ex_clock id ex_callbacks (ex_athr 32) (bytes ''$GPRMC,1,A*00'' @ [CR, LF]) of
      Inr b \<Rightarrow> reader_ok 32 (nreader b)
    | Inl e \<Rightarrow> e = BadCast \<or> e = OutOfBounds \<and>
        (\<exists>us vs b. bytes ''$GPRMC,1,A*00'' @ [CR, LF] = us @ LF # vs \<and> athr_feed ex_clock id ex_callbacks (ex_athr 32) us = Inr b \<and>
           athr_bad_line 32 (line_of (nreader b)) (pos (nreader b) + 1))"
  by (rule athr_feed_safe) (simp add: ex_athr_def ex_reader_ok)

text \<open>
  The last two exceptions do happen: the date and the second field are read from the empty
  string that stands for a missing field.
\<close>

theorem athr_missing_field_overread:
  "athr_feed ex_clock id ex_callbacks (ex_athr 32) (bytes ''$GPRMC,1,A*00'' @ [CR, LF]) = Inl OutOfBounds \<and>
   athr_feed ex_clock id ex_callbacks (ex_athr 32) (bytes ''$PUNV,*00'' @ [CR, LF]) = Inl OutOfBounds"
  by code_simp

subsection \<open>Time\<close>

text \<open>What a sentence says of the time, with the date the reader keeps.\<close>

definition sentence_time :: "NmeaReader \<Rightarrow> nat list \<Rightarrow> nat list \<Rightarrow> nat list \<Rightarrow> tm" where
  "sentence_time r hs ms ss = \<lparr>tm_sec = int (dvalue ss), tm_min = int (dvalue ms), tm_hour = int (dvalue hs),
     tm_mday = utc_day r, tm_mon = utc_mon r - 1, tm_year = utc_year r - 1900, tm_yday = 0\<rparr>"



end
