(* ===== verification/AthrLink.thy ===== *)
theory AthrLink
  imports AthrSafe AthrInv
begin

text \<open>
  The sentences of \<open>athr_gps.c\<close> and its threads are the same program: what parsing does to the
  variables that the threads share is one of the effects that the step of the reading thread
  leaves open.
\<close>

subsection \<open>Flags of the fix\<close>

text \<open>No sentence takes a flag of the fix back.\<close>

definition grows :: "NmeaReader \<Rightarrow> NmeaReader \<Rightarrow> bool" where
  "grows r s \<longleftrightarrow> flags (loc r) \<subseteq> flags (loc s)"

abbreviation (input) any :: "('a \<Rightarrow> bool) \<Rightarrow> 'a ck \<Rightarrow> bool" where
  "any P c \<equiv> ends_or UNIV P c"

lemma any_bind: "(\<And>x. any P (f x)) \<Longrightarrow> any P (bindr c f)"
  by (cases c) simp_all

lemma grows_refl [simp]: "grows r r"
  by (simp add: grows_def)

lemma grows_after:
  assumes "any (\<lambda>(st, s). grows r s) c" and "grows r0 r" and "\<And>s. grows r0 s \<Longrightarrow> any P (f s)"
  shows "any P (bindr c (\<lambda>(st, s). f s))"
  using assms by (cases c) (auto simp: grows_def)

lemma any_if: "any P c \<Longrightarrow> any P d \<Longrightarrow> any P (if b then c else d)"
  by simp

lemma utc_diff_loc [simp]:
  "loc (nmea_reader_update_utc_diff k r) = loc r"
  "sv_status_changed (nmea_reader_update_utc_diff k r) = sv_status_changed r"
  by (simp_all add: nmea_reader_update_utc_diff_def Let_def)

lemma get_timestamp_loc:
  "any (\<lambda>(t, s). loc s = loc r \<and> sv_status_changed s = sv_status_changed r) (nmea_reader_get_timestamp k r tok)"
  unfolding nmea_reader_get_timestamp_def Let_def by (intro any_if any_bind) simp_all

lemma athr_time_grows: "any (\<lambda>(st, s). grows r s) (athr_update_time k r tok)"
  using get_timestamp_loc [of r k tok]
  by (cases "nmea_reader_get_timestamp k r tok") (auto simp: athr_update_time_def grows_def split: option.split)

lemma athr_date_grows: "any (\<lambda>(st, s). grows r s) (athr_update_date k r d t)"
  unfolding athr_update_date_def Let_def
proof (intro any_bind any_if)
  fix a b c
  let ?r = "r\<lparr>utc_year := c + 2000, utc_mon := b, utc_day := a\<rparr>"
  show "any (\<lambda>(st, s). grows r s) (athr_update_time k ?r t)"
    using athr_time_grows [of ?r k t] by (simp add: grows_def)
qed simp

lemma shared_grows:
  "any (\<lambda>(st, s). grows r s) (nmea_reader_update_latlong r a ah b bh)"
  "any (\<lambda>(st, s). grows r s) (nmea_reader_update_altitude r a b)"
  "any (\<lambda>(st, s). grows r s) (nmea_reader_update_bearing r a)"
  "any (\<lambda>(st, s). grows r s) (nmea_reader_update_speed r a)"
  "any (\<lambda>(st, s). grows r s) (nmea_reader_update_cdate r a b d)"
  "any (\<lambda>(st, s). grows r s) (athr_update_accuracy store r a)"
  unfolding nmea_reader_update_latlong_def nmea_reader_update_altitude_def nmea_reader_update_bearing_def
    nmea_reader_update_speed_def nmea_reader_update_cdate_def athr_update_accuracy_def Let_def
  by ((intro any_if any_bind)?; auto simp: grows_def)+

lemma gsa_loop_loc: "any (\<lambda>s. loc s = loc r) (gsa_loop ts is r)"
proof (induction ts "is" r rule: gsa_loop.induct)
  case (2 ts i "is" r)
  then show ?case by (cases "tok_int (nmea_tokenizer_get ts i)") (fastforce split: if_splits)+
qed simp

lemma gsv_loop_loc: "any (\<lambda>s. loc s = loc r) (gsv_loop ts nos is r)"
proof (induction "is" arbitrary: r)
  case (Cons i "is")
  show ?case unfolding gsv_loop.simps Let_def
  proof (intro any_if any_bind)
    fix p el az sn l
    let ?r = "upd_sv (\<lambda>s. s\<lparr>num_svs := num_svs (sv_status r) + 1, sv_list := l\<rparr>) r"
    show "any (\<lambda>s. loc s = loc r) (gsv_loop ts nos is ?r)" using Cons.IH [of ?r] by simp
  qed simp
qed simp

lemma parse_gsa_grows: "any (grows r) (parse_gsa ts r)"
  unfolding parse_gsa_def
proof (intro any_if any_bind)
  let ?r = "upd_sv (\<lambda>s. s\<lparr>used_in_fix_mask := 0\<rparr>) r"
  show "any (grows r) (gsa_loop ts [3..<15] ?r)"
    using gsa_loop_loc [of ?r ts "[3..<15]"] by (rule ends_or_mono) (simp add: grows_def)
qed (simp add: grows_def)

lemma parse_gsv_grows: "any (grows r) (parse_gsv ts r)"
proof -
  have loop: "any (grows r) (bindr (gsv_loop ts nos [0..<4]
      (if a = 1 then upd_sv (\<lambda>s. s\<lparr>num_svs := 0\<rparr>) (r\<lparr>sv_status_changed := False\<rparr>) else r))
      (\<lambda>r1. Inr (if a = b then r1\<lparr>sv_status_changed := True\<rparr> else r1)))" for nos a b :: int
  proof (rule ends_or_bind [where Q = "grows r"])
    let ?r = "if a = 1 then upd_sv (\<lambda>s. s\<lparr>num_svs := 0\<rparr>) (r\<lparr>sv_status_changed := False\<rparr>) else r"
    show "any (grows r) (gsv_loop ts nos [0..<4] ?r)"
      using gsv_loop_loc [of ?r ts nos "[0..<4]"] by (rule ends_or_mono) (simp add: grows_def)
  qed (simp add: grows_def)
  show ?thesis unfolding parse_gsv_def Let_def by (intro any_bind any_if loop) simp
qed

lemma athr_sentence_grows: "any (grows r) (athr_sentence k ts id3 r)"
proof -
  note step = grows_after [where ?r0.0 = r, OF athr_time_grows] grows_after [where ?r0.0 = r, OF athr_date_grows]
    grows_after [where ?r0.0 = r, OF shared_grows(1)] grows_after [where ?r0.0 = r, OF shared_grows(2)]
    grows_after [where ?r0.0 = r, OF shared_grows(3)] grows_after [where ?r0.0 = r, OF shared_grows(4)]
    grows_after [where ?r0.0 = r, OF shared_grows(5)]
  have fin: "grows r s \<Longrightarrow> any (grows r) (Inr s)" for s by simp
  have "any (grows r) (athr_gga k ts r)" unfolding athr_gga_def Let_def
    by (intro any_if step any_bind fin grows_refl; assumption)
  moreover have "any (grows r) (athr_gll k ts r)" unfolding athr_gll_def Let_def
    by (intro any_if step any_bind fin grows_refl; assumption)
  moreover have "any (grows r) (athr_rmc k ts r)" unfolding athr_rmc_def Let_def
    by (intro any_if step any_bind fin grows_refl; assumption)
  moreover have "any (grows r) (parse_vtg ts r)" unfolding parse_vtg_def Let_def
    by (intro any_if step any_bind fin grows_refl; assumption)
  moreover have "any (grows r) (athr_zda k ts r)" unfolding athr_zda_def Let_def
  proof (rule any_bind, rule ends_or_bind [where Q = "grows r"])
    fix year
    show "any (grows r) (if year \<noteq> 0 then after (nmea_reader_update_cdate r (nmea_tokenizer_get ts 2)
        (nmea_tokenizer_get ts 3) (nmea_tokenizer_get ts 4)) Inr else Inr r)"
      by (intro any_if step fin grows_refl; assumption)
    fix r1 assume r1: "grows r r1"
    show "any (grows r) (bindr (tok_char (nmea_tokenizer_get ts 1) 0) (\<lambda>time.
        if time \<noteq> 0 then after (athr_update_time k r1 (nmea_tokenizer_get ts 1)) Inr else Inr r1))"
      by (intro any_bind any_if step fin r1; assumption)
  qed
  ultimately show ?thesis
    unfolding athr_sentence_def using parse_gsa_grows parse_gsv_grows by (intro any_if fin grows_refl) simp_all
qed

subsection \<open>The variables that the threads share\<close>

definition abstracts :: "athr \<Rightarrow> AthrReader \<Rightarrow> bool" where
  "abstracts s a \<longleftrightarrow> gps_init s = r_init a \<and> first_fix s = r_first_fix a \<and> bGetFormalNMEA s = r_formal a \<and>
     has_fix s = (HAS_LAT_LONG \<in> flags (loc (nreader a))) \<and> sv_changed s = sv_status_changed (nreader a)"

definition no_effect :: choice where
  "no_effect = \<lparr>works = False, number = 0, formal = False, fix_found = False, svs_found = False\<rparr>"

lemma no_effect [simp]: "parse_effect no_effect s = s"
  by (simp add: parse_effect_def no_effect_def)

definition same_shared :: "AthrReader \<Rightarrow> AthrReader \<Rightarrow> bool" where
  "same_shared a b \<longleftrightarrow> r_init b = r_init a \<and> r_first_fix b = r_first_fix a \<and> r_formal b = r_formal a \<and>
     (HAS_LAT_LONG \<in> flags (loc (nreader b)) \<longleftrightarrow> HAS_LAT_LONG \<in> flags (loc (nreader a))) \<and>
     sv_status_changed (nreader b) = sv_status_changed (nreader a)"

lemma same_shared_abstracts: "same_shared a b \<Longrightarrow> abstracts s b = abstracts s a"
  by (simp add: same_shared_def abstracts_def)

lemma report_sentence_loc [simp]:
  "loc (report_sentence k cb bs r) = loc r" "sv_status_changed (report_sentence k cb bs r) = sv_status_changed r"
  by (simp_all add: report_sentence_def emit_def)

lemma timemap_same: "any (\<lambda>(st, b). same_shared a b) (nmea_reader_update_timemap k a t u)"
  unfolding nmea_reader_update_timemap_def
proof (rule any_if)
  show "any (\<lambda>(st, b). same_shared a b) (bindr (nmea_reader_get_timestamp k (nreader a) u) (\<lambda>(ts, r1).
      case ts of None \<Rightarrow> Inr (- 1, a\<lparr>nreader := r1, map_valid := False\<rparr>)
      | Some s \<Rightarrow> bindr (tok_float t) (\<lambda>v. Inr (0, a\<lparr>nreader := r1, map_valid := True, map_systime := v, map_timestamp := s * 1000\<rparr>))))"
  proof (rule ends_or_bind [OF get_timestamp_loc])
    fix x :: "int option \<times> NmeaReader"
    assume "case x of (t, s) \<Rightarrow> loc s = loc (nreader a) \<and> sv_status_changed s = sv_status_changed (nreader a)"
    then show "any (\<lambda>(st, b). same_shared a b) (case x of (ts, r1) \<Rightarrow>
        case ts of None \<Rightarrow> Inr (- 1, a\<lparr>nreader := r1, map_valid := False\<rparr>)
        | Some s \<Rightarrow> bindr (tok_float t) (\<lambda>v. Inr (0, a\<lparr>nreader := r1, map_valid := True, map_systime := v, map_timestamp := s * 1000\<rparr>)))"
      by (cases x) (auto simp: same_shared_def intro!: any_bind split: option.split)
  qed
qed (simp add: same_shared_def)

lemma accuracy_same:
  "any (\<lambda>(st, r). same_shared a (a\<lparr>nreader := r\<rparr>)) (athr_update_accuracy store (nreader a) t)"
  unfolding athr_update_accuracy_def Let_def by (intro any_if any_bind) (simp_all add: same_shared_def)

lemma parse_punv_same: "any (same_shared a) (parse_punv k store ts a)"
proof -
  have fin: "any (same_shared a) (Inr a)" by (simp add: same_shared_def)
  have acc: "any (same_shared a) (bindr (athr_update_accuracy store (nreader a) t) (\<lambda>(st, r). Inr (a\<lparr>nreader := r\<rparr>)))" for t
    using accuracy_same [of a store t] by (rule ends_or_bind) auto
  have tm: "any (same_shared a) (bindr (nmea_reader_update_timemap k a t u) (\<lambda>(st, b). Inr b))" for t u
    using timemap_same [of a k t u] by (rule ends_or_bind) auto
  show ?thesis unfolding parse_punv_def Let_def by (intro any_if acc tm any_bind fin)
qed

text \<open>One sentence is one effect of the thread model.\<close>

lemma athr_parse_sim:
  assumes "athr_parse k store cb a = Inr b" and "location_cb cb" and "abstracts s a"
  shows "\<exists>ch. abstracts (parse_effect ch s) b"
proof -
  let ?r = "nreader a"
  let ?r1 = "report_sentence k cb (take (pos ?r) (rin ?r)) ?r"
  have quiet: "\<exists>ch. abstracts (parse_effect ch s) b" if "same_shared a b"
    using same_shared_abstracts [OF that] assms(3) by (intro exI [of _ no_effect]) simp
  show ?thesis
  proof (cases "pos ?r < 9")
    case True
    then have "b = a" using assms(1) by (simp add: athr_parse_def)
    then show ?thesis by (intro quiet) (simp add: same_shared_def)
  next
    case False
    with assms(1) obtain ts where p: "(let tok = nmea_tokenizer_get ts 0
        in if tend tok < tp tok + 5 then parse_punv k store ts (a\<lparr>nreader := ?r1\<rparr>)
           else bindr (rds (tmem tok) (tp tok) 3) (\<lambda>g3. bindr (rds (tmem tok) (tp tok + 2) 3) (\<lambda>id3.
                bindr (athr_sentence k ts id3 ?r1) (\<lambda>r2. Inr (athr_first_fix cb
                  (a\<lparr>nreader := r2, r_formal := r_formal a \<or> g3 = bytes ''GPG''\<rparr>)))))) = Inr b"
      by (auto simp: athr_parse_def Let_def simp del: bytes_simps elim!: bindr_InrE)
    let ?t = "nmea_tokenizer_get ts 0"
    show ?thesis
    proof (cases "tend ?t < tp ?t + 5")
      case True
      with p have "parse_punv k store ts (a\<lparr>nreader := ?r1\<rparr>) = Inr b" by simp
      with parse_punv_same [of "a\<lparr>nreader := ?r1\<rparr>" k store ts] show ?thesis
        by (intro quiet) (simp add: same_shared_def)
    next
      case long: False
      with p obtain g3 id3 r2 where r2: "athr_sentence k ts id3 ?r1 = Inr r2"
        and b: "b = athr_first_fix cb (a\<lparr>nreader := r2, r_formal := r_formal a \<or> g3 = bytes ''GPG''\<rparr>)"
        by (auto simp: Let_def simp del: bytes_simps elim!: bindr_InrE)
      have g: "HAS_LAT_LONG \<in> flags (loc ?r) \<Longrightarrow> HAS_LAT_LONG \<in> flags (loc r2)"
        using athr_sentence_grows [of ?r1 k ts id3] r2 by (auto simp: grows_def)
      define ch where "ch = \<lparr>works = True, number = 0, formal = (g3 = bytes ''GPG''),
          fix_found = (HAS_LAT_LONG \<in> flags (loc r2)), svs_found = sv_status_changed r2\<rparr>"
      have "abstracts (parse_effect ch s) b"
        using assms(2,3) g by (auto simp: b ch_def parse_effect_def athr_first_fix_def abstracts_def emit_def Let_def
            simp del: bytes_simps)
      then show ?thesis ..
    qed
  qed
qed

text \<open>The bytes of a read: as many effects as lines end in it, at most.\<close>

lemma athr_addc_sim:
  assumes "athr_addc k store cb a c = Inr b" and "location_cb cb" and "abstracts s a"
  shows "\<exists>chs. length chs \<le> of_bool (c = LF) \<and> abstracts (fold parse_effect chs s) b"
proof -
  let ?r = "nreader a"
  have quiet: "\<exists>chs. length chs \<le> of_bool (c = LF) \<and> abstracts (fold parse_effect chs s) b" if "same_shared a b"
    using same_shared_abstracts [OF that] assms(3) by (intro exI [of _ "[]"]) simp
  show ?thesis
  proof (cases "overflow ?r \<or> NMEA_MAX_SIZE \<le> pos ?r \<or> c \<noteq> LF")
    case True
    with assms(1) have "same_shared a b"
      by (auto simp: athr_addc_def Let_def same_shared_def elim!: bindr_InrE split: if_splits)
    then show ?thesis by (rule quiet)
  next
    case False
    with assms(1) obtain m b' where m: "athr_parse k store cb (a\<lparr>nreader := ?r\<lparr>rin := m, pos := pos ?r + 1\<rparr>\<rparr>) = Inr b'"
      and b: "b = b'\<lparr>nreader := (nreader b')\<lparr>pos := 0\<rparr>\<rparr>"
      by (auto simp: athr_addc_def Let_def elim!: bindr_InrE)
    have "abstracts s (a\<lparr>nreader := ?r\<lparr>rin := m, pos := pos ?r + 1\<rparr>\<rparr>)" using assms(3) by (simp add: abstracts_def)
    from athr_parse_sim [OF m assms(2) this] obtain ch where "abstracts (parse_effect ch s) b'" by blast
    then have "abstracts (fold parse_effect [ch] s) b" by (simp add: b abstracts_def)
    then show ?thesis using False by (intro exI [of _ "[ch]"]) simp
  qed
qed

lemma athr_feed_sim:
  assumes "athr_feed k store cb a bs = Inr b" and "location_cb cb" and "abstracts s a"
  shows "\<exists>chs. length chs \<le> length bs \<and> abstracts (fold parse_effect chs s) b"
  using assms(1,3) unfolding athr_feed_def
proof (induction bs arbitrary: a s)
  case (Cons c bs)
  then obtain a' where c: "athr_addc k store cb a c = Inr a'" and rest: "feeds (athr_addc k store cb) a' bs = Inr b"
    by (auto elim!: bindr_InrE)
  obtain xs where xs: "length xs \<le> of_bool (c = LF)" "abstracts (fold parse_effect xs s) a'"
    using athr_addc_sim [OF c assms(2) Cons.prems(2)] by blast
  obtain ys where ys: "length ys \<le> length bs" "abstracts (fold parse_effect ys (fold parse_effect xs s)) b"
    using Cons.IH [OF rest xs(2)] by blast
  have "length (xs @ ys) \<le> length (c # bs)" using xs(1) ys(1) by (auto simp: of_bool_def split: if_splits)
  with ys(2) show ?case by (intro exI [of _ "xs @ ys"]) simp
qed (intro exI [of _ "[]"], simp)

subsection \<open>Steps of the reading thread\<close>

definition sentence_steps :: "choice list \<Rightarrow> (thread \<times> choice) list" where
  "sentence_steps chs = concat (map (\<lambda>ch. replicate 3 (Nmea, ch)) chs)"

lemma parse_effect_pc:
  "parse_effect ch (s\<lparr>nmea := n\<rparr>) = (parse_effect ch s)\<lparr>nmea := n\<rparr>"
  "parse_effect ch (s\<lparr>fix_sem := m\<rparr>) = (parse_effect ch s)\<lparr>fix_sem := m\<rparr>"
  by (simp_all add: parse_effect_def Let_def)

lemma fold_effect_pc: "fold parse_effect chs (s\<lparr>nmea := n\<rparr>) = (fold parse_effect chs s)\<lparr>nmea := n\<rparr>"
  by (induction chs arbitrary: s) (simp_all add: parse_effect_pc)

lemma sentence_steps_run:
  assumes "chs \<noteq> []" and "nmea s = NLock (length chs)" and "0 < fix_sem s"
  shows "athr_run (sentence_steps chs) s = Some ((fold parse_effect chs s)\<lparr>nmea := N13\<rparr>)"
  using assms
proof (induction chs arbitrary: s)
  case (Cons ch chs)
  let ?n = "length (ch # chs)"
  have one: "athr_run (replicate 3 (Nmea, ch)) s =
      Some ((parse_effect ch s)\<lparr>nmea := if ?n \<le> 1 then N13 else NLock (?n - 1)\<rparr>)"
    using Cons.prems(2,3)
    by (simp add: numeral_eq_Suc nmea_step.simps sem_take_def sem_give_def parse_effect_pc)
  show ?case
  proof (cases "chs = []")
    case True
    with one show ?thesis by (simp add: sentence_steps_def)
  next
    case False
    let ?s = "(parse_effect ch s)\<lparr>nmea := NLock (length chs)\<rparr>"
    have "athr_run (sentence_steps chs) ?s = Some ((fold parse_effect chs ?s)\<lparr>nmea := N13\<rparr>)"
      using Cons.IH [OF False, of ?s] Cons.prems(3) by simp
    moreover have "athr_run (replicate 3 (Nmea, ch)) s = Some ?s" using one False by (simp add: Suc_le_eq)
    ultimately show ?thesis by (simp add: sentence_steps_def athr_run_append fold_effect_pc)
  qed
qed simp

text \<open>
  C12: The thread model covers what a read really does: whenever the reader, given the at most 512 bytes
  of a read, takes the module from one state to another, the reading thread of the thread model
  has a run from its call of \<open>read\<close> to the end of its loop with the same outcome for the variables
  that the threads share, and leaves the semaphore as it found it.
\<close>
theorem athr_read_refines:
  assumes "athr_received k store cb buf a = Inr b" and "location_cb cb" and "abstracts s a"
    and "length buf \<le> 512" and "nmea s = N9" and "tty s \<noteq> -1" and "0 < fix_sem s"
  shows "\<exists>ws t. (\<forall>w\<in>set ws. fst w = Nmea) \<and> athr_run ws s = Some t \<and> nmea t = N13 \<and> abstracts t b \<and> fix_sem t = fix_sem s"
proof -
  from assms(1) obtain b' where f: "athr_feed k store cb a buf = Inr b'"
    and b: "b = (if take 3 buf = bytes ''OAP'' \<or> take 6 buf = bytes ''#!GSMA'' then athr_reader_parse k cb buf b' else b')"
    unfolding athr_received_def by (elim bindr_InrE) (simp split: if_splits del: bytes_simps)
  have same: "same_shared b' b" by (simp add: b same_shared_def athr_reader_parse_def del: bytes_simps)
  obtain chs where chs: "length chs \<le> length buf" "abstracts (fold parse_effect chs s) b'"
    using athr_feed_sim [OF f assms(2,3)] by blast
  define c0 where "c0 = \<lparr>works = True, number = length chs, formal = False, fix_found = False, svs_found = False\<rparr>"
  let ?s = "s\<lparr>nmea := if chs = [] then N13 else NLock (length chs)\<rparr>"
  let ?t = "(fold parse_effect chs s)\<lparr>nmea := N13\<rparr>"
  have step: "athr_step (Nmea, c0) s = Some ?s"
    using assms(4,5,6) chs(1) by (simp add: nmea_step.simps c0_def)
  have "athr_run (sentence_steps chs) ?s = Some ?t"
  proof (cases "chs = []")
    case False
    then show ?thesis using sentence_steps_run [OF False, of ?s] assms(7) by (simp add: fold_effect_pc)
  qed (simp add: sentence_steps_def)
  moreover have "fix_sem (fold parse_effect chs s) = fix_sem s" by (induction chs arbitrary: s) simp_all
  moreover have "abstracts ?t b"
    using chs(2) same by (simp add: abstracts_def same_shared_def)
  ultimately show ?thesis
    using step by (intro exI [of _ "(Nmea, c0) # sentence_steps chs"] exI [of _ ?t]) (auto simp: sentence_steps_def)
qed

definition ex_reading :: athr where
  "ex_reading = athr_start\<lparr>nmea := N9, tty := 7, bGetFormalNMEA := False\<rparr>"

theorem athr_read_refines_witness:
  "\<exists>b ws t. athr_received ex_clock id ex_callbacks (bytes ''$GPGLL,1,2,3,4,5,V'' @ [LF]) ((ex_athr 32)\<lparr>r_init := STATE_INIT\<rparr>) = Inr b \<and>
     athr_run ws ex_reading = Some t \<and> nmea t = N13 \<and> abstracts t b"
proof -
  let ?a = "(ex_athr 32)\<lparr>r_init := STATE_INIT\<rparr>" and ?buf = "bytes ''$GPGLL,1,2,3,4,5,V'' @ [LF]"
  have "(case athr_received ex_clock id ex_callbacks ?buf ?a of Inl e \<Rightarrow> False | Inr b \<Rightarrow> True)" by code_simp
  then obtain b where b: "athr_received ex_clock id ex_callbacks ?buf ?a = Inr b" by (auto split: sum.splits)
  have "location_cb ex_callbacks" "abstracts ex_reading ?a" "nmea ex_reading = N9" "tty ex_reading \<noteq> -1" "0 < fix_sem ex_reading"
    by (simp_all add: ex_callbacks_def abstracts_def ex_reading_def athr_start_def ex_athr_def ex_reader_def zero_location_def)
  from athr_read_refines [OF b this(1,2) _ this(3,4,5)] b show ?thesis by auto
qed

end
