(* ===== verification/AthrInit.thy ===== *)
theory AthrInit
  imports AthrInv Checked
begin

text \<open>
  Initialisation and the calls of the framework of \<open>athr_gps.c\<close>: \<open>gps_state_init\<close>, the beginning of
  the control thread, \<open>gps_checkstate\<close> and the functions of the interface, over the model of the
  threads. A module that is not initialised has no threads: their program counters are at their
  ends. The beginning of the control thread is one step (a new timer thread sleeps for a second
  before it does anything).
\<close>

subsection \<open>Operations\<close>

record athr_module =
  st :: athr
  g_gpscallback :: bool

text \<open>Whether the semaphore, the sockets and the three threads can be made.\<close>

record init_choice =
  sem_ok :: bool
  pair_ok :: bool
  ctl_ok :: bool
  tmr_ok :: bool
  nmea_ok :: bool

text \<open>
  The module as it is loaded; \<open>g_gpscallback\<close> says whether the pointer to the callbacks is set.
\<close>

definition athr_loaded :: athr_module where
  "athr_loaded = \<lparr>st = athr_start\<lparr>gps_init := STATE_QUIT, tty := 0, fix_sem := 0, fix_freq := 0,
     api := ADone, ctl := CDone, nmea := NDone, timer := TDone\<rparr>, g_gpscallback = False\<rparr>"

text \<open>
  If a thread cannot be created the control thread ends and joins it all the same, which has no
  defined result.
\<close>

definition gps_thread_begin :: "init_choice \<Rightarrow> athr \<Rightarrow> athr ck" where
  "gps_thread_begin ic s =
     (if \<not> tmr_ok ic \<or> \<not> nmea_ok ic then Inl BadHandle
      else Inr (s\<lparr>started := False, gps_init := STATE_INIT, ctl := C1, nmea := N1, timer := T0\<rparr>))"

text \<open>
  After a failure \<open>gps_state_done\<close> joins a control thread that was never created. Without a
  semaphore the module counts as initialised, and has no threads.
\<close>

definition gps_state_init :: "init_choice \<Rightarrow> athr \<Rightarrow> athr ck" where
  "gps_state_init ic s0 =
     (let s = s0\<lparr>gps_init := STATE_INIT, control := [], tty := -1, fix_freq := -1, first_fix := False,
                 continue_thread := True, api := ANone\<rparr>
      in if \<not> sem_ok ic then Inr s
         else if \<not> pair_ok ic \<or> \<not> ctl_ok ic then Inl BadHandle
         else gps_thread_begin ic (s\<lparr>fix_sem := 1\<rparr>))"

definition athr_gps_init :: "init_choice \<Rightarrow> athr_module \<Rightarrow> (int \<times> athr_module) ck" where
  "athr_gps_init ic m =
     bindr (if gps_init (st m) = STATE_QUIT then gps_state_init ic (st m) else Inr (st m)) (\<lambda>s.
       Inr (0, m\<lparr>st := s, g_gpscallback := True\<rparr>))"

definition gps_checkstate :: "init_choice \<Rightarrow> athr_module \<Rightarrow> (int \<times> athr_module) ck" where
  "gps_checkstate ic m =
     (if gps_init (st m) \<noteq> STATE_QUIT then Inr (0, m)
      else bindr (if g_gpscallback m then athr_gps_init ic m else Inr (0, m)) (\<lambda>(_, m).
             Inr (if gps_init (st m) = STATE_QUIT then -1 else 0, m)))"

text \<open>
  \<open>athr_gps_start\<close> and \<open>athr_gps_stop\<close> up to \<open>gps_state_start\<close> and \<open>gps_state_stop\<close>, whose steps are
  those of \<open>api_step\<close>; likewise \<open>athr_gps_cleanup\<close> and \<open>gps_state_done\<close>. The pointer to the callbacks is
  cleared at the end of \<open>gps_state_done\<close>; only later calls read it.
\<close>

definition athr_call :: "nat \<Rightarrow> init_choice \<Rightarrow> athr_module \<Rightarrow> (int \<times> athr_module) ck" where
  "athr_call c ic m =
     bindr (gps_checkstate ic m) (\<lambda>(r, m).
       Inr (if r = -1 then (-1, m) else (0, m\<lparr>st := (st m)\<lparr>api := ALock c\<rparr>\<rparr>)))"

definition athr_gps_start :: "init_choice \<Rightarrow> athr_module \<Rightarrow> (int \<times> athr_module) ck" where
  "athr_gps_start = athr_call CMD_START"

definition athr_gps_stop :: "init_choice \<Rightarrow> athr_module \<Rightarrow> (int \<times> athr_module) ck" where
  "athr_gps_stop = athr_call CMD_STOP"

definition athr_gps_cleanup :: "athr_module \<Rightarrow> athr_module" where
  "athr_gps_cleanup m =
     (if gps_init (st m) \<noteq> STATE_QUIT then m\<lparr>st := (st m)\<lparr>api := AQuit\<rparr>, g_gpscallback := False\<rparr> else m)"

text \<open>
  The module from its loading on: the framework calls it when the call before has returned, and
  the threads run.
\<close>

definition returned :: "athr_module \<Rightarrow> bool" where
  "returned m \<longleftrightarrow> api (st m) = ANone \<or> api (st m) = ADone"

inductive athr_life :: "athr_module \<Rightarrow> bool" where
  load: "athr_life athr_loaded"
| init: "athr_life m \<Longrightarrow> returned m \<Longrightarrow> sem_ok ic \<Longrightarrow> athr_gps_init ic m = Inr (r, m') \<Longrightarrow> athr_life m'"
| start: "athr_life m \<Longrightarrow> returned m \<Longrightarrow> sem_ok ic \<Longrightarrow> athr_gps_start ic m = Inr (r, m') \<Longrightarrow> athr_life m'"
| stop: "athr_life m \<Longrightarrow> returned m \<Longrightarrow> sem_ok ic \<Longrightarrow> athr_gps_stop ic m = Inr (r, m') \<Longrightarrow> athr_life m'"
| cleanup: "athr_life m \<Longrightarrow> returned m \<Longrightarrow> athr_life (athr_gps_cleanup m)"
| step: "athr_life m \<Longrightarrow> fst w = Api \<longrightarrow> api (st m) \<noteq> ANone \<Longrightarrow> athr_step w (st m) = Some s \<Longrightarrow> athr_life (m\<lparr>st := s\<rparr>)"

subsection \<open>Up and down\<close>

definition down :: "athr \<Rightarrow> bool" where
  "down s \<longleftrightarrow> gps_init s = STATE_QUIT \<and> api s = ADone \<and> ctl s = CDone \<and> nmea s = NDone \<and> timer s = TDone \<and>
     \<not> has_fix s \<and> \<not> sv_changed s"

definition up :: "athr \<Rightarrow> bool" where
  "up s \<longleftrightarrow> gps_init s \<noteq> STATE_QUIT \<and> api s \<noteq> ADone \<and> (api s = AFree \<longrightarrow> ctl s = CDone)"

lemma down_stuck: "down s \<Longrightarrow> athr_step w s = None"
  by (cases "(w, s)" rule: athr_step.cases)
    (simp_all add: down_def api_step.simps ctl_step.simps nmea_step.simps timer_step.simps)

lemma wake_init: "wake_step ch w s = Some (nx, s') \<Longrightarrow> gps_init s' = gps_init s"
  by (cases w; auto simp: sem_give_def gps_opentty_def send_chip_def split: if_splits)

lemma sleep_init: "sleep_step ch p s = Some (nx, s') \<Longrightarrow> gps_init s' = gps_init s"
  by (cases p; auto simp: sem_give_def gps_opentty_def gps_closetty_def send_chip_def split: if_splits)

lemma parse_report_init [simp]:
  "gps_init (parse_effect ch s) = gps_init s" "gps_init (timer_report s) = gps_init s"
  by (simp_all add: parse_effect_def timer_report_def Let_def)

lemma nmea_init:
  assumes "nmea_step ch s = Some s'" shows "gps_init s' = gps_init s"
proof (cases "nmea s")
  case (NWake w)
  with assms show ?thesis by (auto simp: nmea_step.simps dest: wake_init)
qed (use assms in \<open>auto simp: nmea_step.simps reader_init_def sem_give_def gps_opentty_def gps_closetty_def split: if_splits\<close>)

lemma timer_init:
  assumes "timer_step ch s = Some s'" shows "gps_init s' = gps_init s"
proof (cases "timer s")
  case (TSleep p)
  with assms show ?thesis by (auto simp: timer_step.simps dest: sleep_init)
qed (use assms in \<open>auto simp: timer_step.simps sem_give_def split: if_splits\<close>)

lemma ctl_init:
  assumes "ctl_step ch s = Some s'"
  shows "gps_init s' \<in> {gps_init s, STATE_START, STATE_INIT} \<and> ctl s \<noteq> CDone"
proof (cases "ctl s")
  case (CWake w)
  with assms show ?thesis by (auto simp: ctl_step.simps dest: wake_init)
qed (use assms in \<open>auto simp: ctl_step.simps reader_init_def split: if_splits list.splits\<close>)

lemma api_up:
  assumes "api_step ch s = Some s'" and "up s" and "ctl s = CDone \<longrightarrow> nmea s = NDone \<and> timer s = TDone"
  shows "up s' \<or> down s'"
proof (cases "api s")
  case (ASleep p)
  with assms(1) obtain nx t where "sleep_step ch p s = Some (nx, t)"
    and "s' = t\<lparr>api := case nx of None \<Rightarrow> AJoin | Some p \<Rightarrow> ASleep p\<rparr>" by (auto simp: api_step.simps)
  with sleep_init [of ch p s nx t] assms(2) show ?thesis by (cases nx) (auto simp: up_def)
qed (use assms in \<open>auto simp: api_step.simps up_def down_def sem_give_def split: if_splits\<close>)

lemma quit_joined: "quit_inv s \<Longrightarrow> ctl s = CDone \<Longrightarrow> nmea s = NDone \<and> timer s = TDone"
  by (simp add: quit_inv_def)

lemma athr_step_up:
  assumes "athr_step w s = Some s'" and "up s" and "quit_inv s"
  shows "up s' \<or> down s'"
proof (cases "(w, s)" rule: athr_step.cases)
  case (1 ch s)
  moreover from assms(3) have "ctl s = CDone \<longrightarrow> nmea s = NDone \<and> timer s = TDone" using quit_joined 1 by blast
  ultimately show ?thesis using assms(1,2) api_up by simp
next
  case (2 ch s) with assms(1) have "ctl_step ch s = Some s'" by simp
  with ctl_init [OF this] ctl_step_effect [of ch s s'] assms(2) 2 show ?thesis by (auto simp: up_def athr_consts)
next
  case (3 ch s) with assms(1) have "nmea_step ch s = Some s'" by simp
  with nmea_init [OF this] nmea_step_effect [of ch s s'] assms(2) 3 show ?thesis by (auto simp: up_def)
next
  case (4 ch s) with assms(1) have "timer_step ch s = Some s'" by simp
  with timer_init [OF this] timer_step_effect [of ch s s'] assms(2) 4 show ?thesis by (auto simp: up_def)
qed

lemma athr_reachable_step: "athr_reachable s \<Longrightarrow> athr_step w s = Some s' \<Longrightarrow> athr_reachable s'"
proof -
  assume "athr_reachable s" and step: "athr_step w s = Some s'"
  then obtain s0 ws where "athr_initial s0" "athr_run ws s0 = Some s" by (auto simp: athr_reachable_def)
  with step have "athr_initial s0 \<and> athr_run (ws @ [w]) s0 = Some s'" by (simp add: athr_run_append)
  then show ?thesis unfolding athr_reachable_def by blast
qed

subsection \<open>The life of the module\<close>

text \<open>From \<open>CMD_QUIT\<close> to the next initialisation the callbacks are gone.\<close>

fun leaving :: "api_pc \<Rightarrow> bool" where
  "leaving AQuit = True" | "leaving (ASleep p) = True" | "leaving AJoin = True" | "leaving AFree = True"
| "leaving ADone = True" | "leaving a = False"

definition life_inv :: "athr_module \<Rightarrow> bool" where
  "life_inv m \<longleftrightarrow> (athr_reachable (st m) \<and> up (st m) \<or> down (st m)) \<and> (leaving (api (st m)) \<longrightarrow> \<not> g_gpscallback m)"

lemma step_leaving:
  assumes "athr_step w s = Some s'" and "fst w = Api \<longrightarrow> api s \<noteq> ANone"
  shows "leaving (api s') \<longrightarrow> leaving (api s)"
proof (cases "(w, s)" rule: athr_step.cases)
  case (1 ch s) with assms show ?thesis by (cases "api s") (auto simp: api_step.simps)
next
  case (2 ch s) with assms show ?thesis using ctl_step_effect [of ch s s'] by auto
next
  case (3 ch s) with assms show ?thesis using nmea_step_effect [of ch s s'] by auto
next
  case (4 ch s) with assms show ?thesis using timer_step_effect [of ch s s'] by auto
qed

lemma init_initial:
  assumes "down s" and "sem_ok ic" and "gps_state_init ic s = Inr s'"
  shows "athr_initial s'"
  using assms by (auto simp: gps_state_init_def gps_thread_begin_def Let_def down_def athr_initial_def athr_start_def split: if_splits)

lemma athr_initial_reachable: "athr_initial s \<Longrightarrow> athr_reachable s \<and> up s"
  unfolding athr_reachable_def up_def
  by (intro conjI exI [of _ s] exI [of _ "[]"]) (simp_all add: athr_initial_fields athr_consts)

lemma life_call:
  assumes "life_inv m" and "returned m" and "athr_call c ic m = Inr (r, m')" and "c = CMD_START \<or> c = CMD_STOP"
  shows "life_inv m'"
proof (cases "down (st m)")
  case True
  with assms show ?thesis by (auto simp: life_inv_def athr_call_def gps_checkstate_def down_def)
next
  case False
  with assms(1,2) have u: "up (st m)" "athr_reachable (st m)" "api (st m) = ANone"
    by (auto simp: life_inv_def returned_def up_def)
  let ?ch = "\<lparr>works = True, number = c, formal = False, fix_found = False, svs_found = False\<rparr>"
  have "athr_step (Api, ?ch) (st m) = Some ((st m)\<lparr>api := ALock c\<rparr>)"
    using u(3) assms(4) by (auto simp: api_step.simps athr_consts)
  with athr_reachable_step [OF u(2)] have "athr_reachable ((st m)\<lparr>api := ALock c\<rparr>)" by blast
  moreover have "m' = m\<lparr>st := (st m)\<lparr>api := ALock c\<rparr>\<rparr>"
    using u(1) assms(3) by (simp add: athr_call_def gps_checkstate_def up_def)
  ultimately show ?thesis using u(1) by (simp add: life_inv_def up_def)
qed

lemma life_cleanup:
  assumes "life_inv m" and "returned m"
  shows "life_inv (athr_gps_cleanup m)"
proof (cases "down (st m)")
  case True
  with assms show ?thesis by (simp add: athr_gps_cleanup_def down_def)
next
  case False
  with assms have u: "up (st m)" "athr_reachable (st m)" "api (st m) = ANone"
    by (auto simp: life_inv_def returned_def up_def)
  let ?ch = "\<lparr>works = True, number = CMD_QUIT, formal = False, fix_found = False, svs_found = False\<rparr>"
  have "athr_step (Api, ?ch) (st m) = Some ((st m)\<lparr>api := AQuit\<rparr>)"
    using u(3) by (simp add: api_step.simps)
  with athr_reachable_step [OF u(2)] have "athr_reachable ((st m)\<lparr>api := AQuit\<rparr>)" by blast
  with u(1) show ?thesis by (simp add: life_inv_def up_def athr_gps_cleanup_def)
qed

lemma athr_life_inv: "athr_life m \<Longrightarrow> life_inv m"
proof (induction rule: athr_life.induct)
  case load
  show ?case by (simp add: life_inv_def down_def athr_loaded_def athr_start_def)
next
  case (init m ic r m')
  show ?case
  proof (cases "down (st m)")
    case True
    with init obtain s where s: "gps_state_init ic (st m) = Inr s" "m' = m\<lparr>st := s, g_gpscallback := True\<rparr>"
      by (auto simp: athr_gps_init_def down_def elim: bindr_InrE)
    from init_initial [OF True init(3) s(1)] show ?thesis
      using athr_initial_reachable [of s] by (simp add: life_inv_def s(2) athr_initial_fields)
  next
    case False
    with init show ?thesis by (auto simp: life_inv_def up_def returned_def athr_gps_init_def)
  qed
next
  case (start m ic r m')
  then show ?case using life_call [of m CMD_START ic r m'] by (simp add: athr_gps_start_def)
next
  case (stop m ic r m')
  then show ?case using life_call [of m CMD_STOP ic r m'] by (simp add: athr_gps_stop_def)
next
  case (cleanup m)
  then show ?case by (simp add: life_cleanup)
next
  case (step m w s)
  from step(3) down_stuck have "\<not> down (st m)" by fastforce
  with step have u: "up (st m)" "athr_reachable (st m)" by (auto simp: life_inv_def)
  with step(3) have "(up s \<or> down s) \<and> athr_reachable s"
    using athr_step_up athr_reachable_quit athr_reachable_step by blast
  with step step_leaving [OF step(3)] show ?case by (auto simp: life_inv_def)
qed

text \<open>
  C14: However often the framework initialises and cleans up the module, and calls it in between, each
  of its states is one of two kinds. Either it is initialised, and the state is one that the
  threads reach from their beginning, so that everything shown about them holds in each of its
  lives. Or it is not, and no thread is left, the callbacks are gone, and a call to start or to
  stop answers -1 and changes nothing: the initialisation on demand in \<open>gps_checkstate\<close> never
  takes place.
\<close>
theorem athr_life_up_or_down:
  assumes "athr_life m"
  shows "if gps_init (st m) \<noteq> STATE_QUIT then athr_reachable (st m) \<and> fix_sem (st m) + holders (st m) = 1
    else ctl (st m) = CDone \<and> nmea (st m) = NDone \<and> timer (st m) = TDone \<and> \<not> g_gpscallback m \<and>
      athr_gps_start ic m = Inr (-1, m) \<and> athr_gps_stop ic m = Inr (-1, m)"
proof -
  from athr_life_inv [OF assms] consider "athr_reachable (st m)" "up (st m)" | "down (st m)" "\<not> g_gpscallback m"
    by (auto simp: life_inv_def down_def)
  then show ?thesis
  proof cases
    case 1
    with athr_reachable_sem show ?thesis by (simp add: up_def sem_inv_def)
  next
    case 2
    then show ?thesis by (simp add: down_def athr_gps_start_def athr_gps_stop_def athr_call_def gps_checkstate_def)
  qed
qed

text \<open>An initialisation, a cleanup to its end, and another initialisation.\<close>

definition all_ok :: init_choice where
  "all_ok = \<lparr>sem_ok = True, pair_ok = True, ctl_ok = True, tmr_ok = True, nmea_ok = True\<rparr>"

definition quit_schedule :: "(thread \<times> choice) list" where
  "quit_schedule = (let ch = \<lparr>works = True, number = 7, formal = False, fix_found = False, svs_found = False\<rparr>
     in replicate 10 (Api, ch) @ replicate 3 (Control, ch) @ replicate 9 (Timer, ch) @ [(Nmea, ch)] @
        replicate 2 (Control, ch) @ replicate 2 (Api, ch))"

lemma step_stays_leaving:
  assumes "athr_step w s = Some s'" and "leaving (api s)"
  shows "leaving (api s')"
proof (cases "(w, s)" rule: athr_step.cases)
  case (1 ch s) with assms show ?thesis by (cases "api s") (auto simp: api_step.simps split: option.splits if_splits)
next
  case (2 ch s) with assms show ?thesis using ctl_step_effect [of ch s s'] by auto
next
  case (3 ch s) with assms show ?thesis using nmea_step_effect [of ch s s'] by auto
next
  case (4 ch s) with assms show ?thesis using timer_step_effect [of ch s s'] by auto
qed

lemma life_leaving_run:
  "athr_life m \<Longrightarrow> leaving (api (st m)) \<Longrightarrow> athr_run ws (st m) = Some s \<Longrightarrow> athr_life (m\<lparr>st := s\<rparr>)"
proof (induction ws arbitrary: m)
  case (Cons w ws)
  then obtain t where t: "athr_step w (st m) = Some t" "athr_run ws t = Some s" by (auto split: option.splits)
  from Cons.prems(2) have "api (st m) \<noteq> ANone" by auto
  with athr_life.step [OF Cons.prems(1) _ t(1)] have "athr_life (m\<lparr>st := t\<rparr>)" by blast
  from Cons.IH [OF this] t step_stays_leaving [OF t(1) Cons.prems(2)] show ?case by simp
next
  case Nil
  have "m\<lparr>st := st m\<rparr> = m" by (cases m rule: athr_module.cases) simp
  moreover from Nil(3) have "s = st m" by simp
  ultimately show ?case using Nil(1) by (simp only:)
qed

theorem athr_life_up_or_down_witness:
  "\<exists>m. athr_life m \<and> chip (st m) = [SLEEP] \<and> athr_gps_start all_ok m = Inr (-1, m) \<and> nmea (st m) = NDone"
proof -
  let ?m0 = "\<lparr>st = athr_start, g_gpscallback = True\<rparr>" and ?m1 = "\<lparr>st = athr_start\<lparr>api := AQuit\<rparr>, g_gpscallback = False\<rparr>"
  have "athr_gps_init all_ok athr_loaded = Inr (0, ?m0)"
    by (simp add: athr_gps_init_def athr_loaded_def gps_state_init_def gps_thread_begin_def all_ok_def athr_start_def)
  from athr_life.init [OF load _ _ this] have "athr_life ?m0"
    by (simp add: returned_def athr_loaded_def all_ok_def)
  from athr_life.cleanup [OF this] have "athr_life ?m1"
    by (simp add: returned_def athr_gps_cleanup_def athr_start_def athr_consts)
  moreover have "map_option (\<lambda>s. (gps_init s, chip s)) (athr_run quit_schedule (athr_start\<lparr>api := AQuit\<rparr>)) = Some (0, [SLEEP])"
    by code_simp
  then obtain s where s: "athr_run quit_schedule (st ?m1) = Some s" "gps_init s = 0" "chip s = [SLEEP]" by auto
  ultimately have life: "athr_life (?m1\<lparr>st := s\<rparr>)" using life_leaving_run [OF _ _ s(1)] by simp
  from athr_life_up_or_down [OF this, of all_ok] s life show ?thesis by (auto simp: athr_consts)
qed

end
