(* ===== verification/GpsDaemon.thy ===== *)
theory GpsDaemon
  imports GpsThread
begin

text \<open>
  The test of the GPS receiver, \<open>testcode/android/gpstest/core_gps_daemon.c\<close>: it opens the serial
  port, sets it up and prints what it reads. The terminal and the choice of its flags are those
  of \<open>GpsThread\<close>; here 0 is failure, and 1 success.
\<close>

definition E_NG :: int where "E_NG = 0"
definition E_OK :: int where "E_OK = 1"

text \<open>Failures before \<open>tcsetattr\<close> are only reported: the options may be what the stack held.\<close>

definition core_set_baudrate :: "termios \<Rightarrow> port \<Rightarrow> nat \<Rightarrow> int \<times> port" where
  "core_set_baudrate junk p baud =
     (let opt = (if get_ok p then tio p else junk)
      in if \<not> set_ok p then (E_NG, p) else (E_OK, p\<lparr>tio := opt\<lparr>ispeed := baud, ospeed := baud\<rparr>\<rparr>))"

definition core_set_parity :: "port \<Rightarrow> int \<Rightarrow> int \<Rightarrow> char \<Rightarrow> int \<times> port" where
  "core_set_parity p databits stopbits parity =
     (if \<not> get_ok p then (E_NG, p)
      else
        (case Option.bind (set_databits databits (tio p)) (\<lambda>t.
              Option.bind (set_parity parity t) (set_stopbits stopbits)) of
           None \<Rightarrow> (E_NG, p)
         | Some t \<Rightarrow>
             (let t1 = (if parity \<noteq> CHR ''n'' then t\<lparr>INPCK := True\<rparr> else t)
              in if \<not> flush_ok p then (E_NG, p)
                 else if \<not> set_ok p then (E_NG, p) else (E_OK, p\<lparr>tio := t1\<lparr>VTIME := 10, VMIN := 0\<rparr>\<rparr>))))"

text \<open>What \<open>open\<close> returns, as \<open>core_opendev\<close> hands it on.\<close>

definition core_opendev :: "int \<Rightarrow> int" where
  "core_opendev d = (if d = -1 then E_NG else d)"

definition core_gps_openserial :: "termios \<Rightarrow> int \<Rightarrow> port \<Rightarrow> int \<times> port" where
  "core_gps_openserial junk d p =
     (let fd = core_opendev d
      in if fd = E_NG then (-1, p)
         else (case core_set_baudrate junk p 9600 of (r, p1) \<Rightarrow>
                 if r = E_NG then (-1, p1)
                 else (case core_set_parity p1 8 1 (CHR ''S'') of (r', p2) \<Rightarrow>
                         if r' = E_NG then (-1, p2) else (fd, p2))))"

text \<open>
  The results of the successive calls of \<open>read\<close>, \<open>None\<close> for those without a byte, and what is
  printed. The loop has no end; \<open>main\<close> returns only when the port cannot be opened.
\<close>

fun core_gps_read :: "byte option list \<Rightarrow> byte list" where
  "core_gps_read [] = []"
| "core_gps_read (Some b # rs) = b # core_gps_read rs"
| "core_gps_read (None # rs) = core_gps_read rs"

definition core_gps_main :: "termios \<Rightarrow> int \<Rightarrow> port \<Rightarrow> byte option list \<Rightarrow> int option \<times> byte list \<times> port" where
  "core_gps_main junk d p rs =
     (case core_gps_openserial junk d p of (fd, p') \<Rightarrow>
        if fd = -1 then (Some E_NG, [], p') else (None, core_gps_read rs, p'))"

subsection \<open>What it does\<close>

text \<open>
  The two programs set the port up alike: where both succeed the line is the same, 9600 baud with 8
  bits and no parity; the daemon returns the descriptor and the module 0.
\<close>

lemma core_openserial_line:
  assumes "core_gps_openserial junk d p = (fd, p')" and "fd \<noteq> -1"
  shows "fd = d \<and> p' = p\<lparr>tio := (tio p)\<lparr>ispeed := 9600, ospeed := 9600, csize := 8, CSTOPB := False, PARENB := False,
    INPCK := True, VTIME := 10, VMIN := 0\<rparr>\<rparr>"
  using assms
  by (auto simp: core_gps_openserial_def core_opendev_def core_set_baudrate_def core_set_parity_def E_NG_def E_OK_def
      Let_def set_databits_def set_parity_def set_stopbits_def split: if_splits)

lemma core_openserial_ttymxc:
  assumes "0 < d"
  shows "(core_gps_openserial junk d p = (d, p')) = (gps_set_ttymxc junk d p = (0, p'))"
  using assms
  by (auto simp: core_gps_openserial_def core_opendev_def core_set_baudrate_def core_set_parity_def E_NG_def E_OK_def
      gps_set_ttymxc_def gps_set_baudrate_def gps_set_parity_def Let_def split: option.splits)

lemma core_gps_read_bytes: "core_gps_read rs = List.map_filter id rs"
  by (induction rs rule: core_gps_read.induct) (simp_all add: List.map_filter_simps)

text \<open>
  Everything that is read is printed, once and in order, as soon as the port could be opened
  (with a descriptor other than 0, which counts as a failure) and set up.
\<close>
theorem core_gps_output:
  assumes "d \<noteq> -1" and "d \<noteq> 0" and "get_ok p" and "set_ok p" and "flush_ok p"
  shows "\<exists>p'. core_gps_main junk d p rs = (None, List.map_filter id rs, p') \<and> ospeed (tio p') = 9600 \<and> csize (tio p') = 8 \<and>
    \<not> PARENB (tio p') \<and> \<not> CSTOPB (tio p')"
  using assms
  by (auto simp: core_gps_main_def core_gps_openserial_def core_opendev_def core_set_baudrate_def core_set_parity_def
      E_NG_def E_OK_def Let_def set_databits_def set_parity_def set_stopbits_def core_gps_read_bytes)

theorem core_gps_descriptor_zero: "core_gps_main junk 0 p rs = (Some 0, [], p)"
  by (simp add: core_gps_main_def core_gps_openserial_def core_opendev_def E_NG_def)

end
