(* ===== verification/SockServer.thy ===== *)
theory SockServer
  imports Checked
begin

text \<open>
  The server of \<open>testcode/android/java_socket/SocketServer.c\<close>: one thread that waits with \<open>select\<close>
  for connections and for data, with a table of clients. \<open>FD_SETSIZE\<close> is that of the C library.
  Printing is left out; \<open>served\<close> records the descriptors that are read, in order.
\<close>

subsection \<open>State\<close>

definition FD_SETSIZE :: nat where "FD_SETSIZE = 1024"

record server =
  client :: "int list"
  allset :: "int set"
  listen_fd :: int
  maxfd :: int
  maxi :: int
  loop_i :: nat
  served :: "int list"

text \<open>
  What one round is told: the descriptors that \<open>select\<close> finds ready (\<open>None\<close> when it fails and leaves
  the set as it was), what successive calls of \<open>accept\<close> return, and whether the connection
  can be made non-blocking.
\<close>

datatype accepted = Conn int | Again | Interrupted | AcceptFailed

record round_input =
  ready :: "int set option"
  accepts :: "accepted list"
  nonblock_ok :: bool

text \<open>\<open>FD_SET\<close> of a descriptor that the set has no bit for writes outside it.\<close>

definition fd_set :: "int \<Rightarrow> int set \<Rightarrow> int set ck" where
  "fd_set d S = (if 0 \<le> d \<and> d < int FD_SETSIZE then Inr (insert d S) else Inl OutOfBounds)"

subsection \<open>Operations\<close>

definition server_start :: "int \<Rightarrow> server ck" where
  "server_start l =
     bindr (fd_set l {}) (\<lambda>S.
       Inr \<lparr>client = replicate FD_SETSIZE (-1), allset = S, listen_fd = l, maxfd = l, maxi = -1,
            loop_i = FD_SETSIZE, served = []\<rparr>)"

text \<open>\<open>accept\<close> is repeated while it is interrupted.\<close>

fun accept_loop :: "accepted list \<Rightarrow> accepted" where
  "accept_loop [] = Again"
| "accept_loop (Interrupted # rs) = accept_loop rs"
| "accept_loop (r # rs) = r"

text \<open>The first free entry of the table, or its size.\<close>

fun free_slot :: "nat \<Rightarrow> int list \<Rightarrow> nat" where
  "free_slot i [] = i"
| "free_slot i (c # cs) = (if c < 0 then i else free_slot (Suc i) cs)"

definition add_client :: "int \<Rightarrow> server \<Rightarrow> server ck" where
  "add_client d s =
     (let i = (if maxi s < int FD_SETSIZE then free_slot 0 (client s) else loop_i s);
          cs = (if maxi s < int FD_SETSIZE \<and> i < FD_SETSIZE then (client s)[i := d] else client s)
      in bindr (fd_set d (allset s)) (\<lambda>S.
           Inr (s\<lparr>client := cs, allset := S, maxfd := max d (maxfd s), maxi := max (int i) (maxi s), loop_i := i\<rparr>)))"

text \<open>The loop over the table up to \<open>maxi\<close>.\<close>

fun serve_loop :: "int set \<Rightarrow> nat list \<Rightarrow> server \<Rightarrow> server ck" where
  "serve_loop rset [] s = Inr s"
| "serve_loop rset (i # is) s =
     bindr (rd (client s) i) (\<lambda>d.
       serve_loop rset is ((if 0 \<le> d \<and> d \<in> rset then s\<lparr>served := served s @ [d]\<rparr> else s)\<lparr>loop_i := Suc i\<rparr>))"

definition serve :: "int set \<Rightarrow> server \<Rightarrow> server ck" where
  "serve rset s = serve_loop rset [0..<nat (maxi s + 1)] (s\<lparr>loop_i := 0\<rparr>)"

text \<open>One round of the endless loop; \<open>None\<close> when the process exits.\<close>

definition server_round :: "round_input \<Rightarrow> server \<Rightarrow> server option ck" where
  "server_round inp s =
     (let rset = (case ready inp of None \<Rightarrow> allset s | Some R \<Rightarrow> R \<inter> allset s)
      in if listen_fd s \<in> rset then
           (case accept_loop (accepts inp) of
              Conn d \<Rightarrow>
                if nonblock_ok inp
                then bindr (add_client d s) (\<lambda>t. bindr (serve rset t) (\<lambda>u. Inr (Some u)))
                else Inr None
            | Again \<Rightarrow> Inr (Some s)
            | _ \<Rightarrow> Inr None)
         else bindr (serve rset s) (\<lambda>u. Inr (Some u)))"

fun server_rounds :: "round_input list \<Rightarrow> server \<Rightarrow> server option ck" where
  "server_rounds [] s = Inr (Some s)"
| "server_rounds (inp # inps) s =
     bindr (server_round inp s) (\<lambda>r. case r of None \<Rightarrow> Inr None | Some t \<Rightarrow> server_rounds inps t)"

text \<open>
  \<open>main\<close>: the listening socket \<open>l\<close>, which is -1 when there is none, made non-blocking, bound and
  set to listen; any failure ends the process.
\<close>

definition server_main :: "int \<Rightarrow> bool \<Rightarrow> bool \<Rightarrow> bool \<Rightarrow> round_input list \<Rightarrow> server option ck" where
  "server_main l set_ok bind_ok listen_ok inps =
     (if l = -1 \<or> \<not> set_ok \<or> \<not> bind_ok \<or> \<not> listen_ok then Inr None
      else bindr (server_start l) (server_rounds inps))"

subsection \<open>What it does\<close>

text \<open>
  The specification: the connections in the order of their acceptance, and in every round one
  read of each that is ready. A closed connection is never taken out.
\<close>

record conns =
  conn :: "int list"
  reads :: "int list"

definition ready_set :: "int \<Rightarrow> round_input \<Rightarrow> conns \<Rightarrow> int set" where
  "ready_set l inp c = (case ready inp of None \<Rightarrow> insert l (set (conn c)) | Some R \<Rightarrow> R \<inter> insert l (set (conn c)))"

definition conns_round :: "int \<Rightarrow> round_input \<Rightarrow> conns \<Rightarrow> conns option" where
  "conns_round l inp c =
     (let rset = ready_set l inp c; read = (\<lambda>ds. reads c @ filter (\<lambda>d. d \<in> rset) ds)
      in if l \<in> rset then
           (case accept_loop (accepts inp) of
              Conn d \<Rightarrow> if nonblock_ok inp then Some \<lparr>conn = conn c @ [d], reads = read (conn c @ [d])\<rparr> else None
            | Again \<Rightarrow> Some c
            | _ \<Rightarrow> None)
         else Some (c\<lparr>reads := read (conn c)\<rparr>))"

fun conns_rounds :: "int \<Rightarrow> round_input list \<Rightarrow> conns \<Rightarrow> conns option" where
  "conns_rounds l [] c = Some c"
| "conns_rounds l (inp # inps) c = (case conns_round l inp c of None \<Rightarrow> None | Some d \<Rightarrow> conns_rounds l inps d)"

definition implements :: "int \<Rightarrow> server \<Rightarrow> conns \<Rightarrow> bool" where
  "implements l s c \<longleftrightarrow> length (conn c) \<le> FD_SETSIZE \<and> (\<forall>d\<in>set (conn c). 0 \<le> d) \<and>
     client s = conn c @ replicate (FD_SETSIZE - length (conn c)) (-1) \<and> allset s = insert l (set (conn c)) \<and>
     listen_fd s = l \<and> maxi s = int (length (conn c)) - 1 \<and> served s = reads c \<and>
     (\<forall>d\<in>allset s. d \<le> maxfd s)"

lemma free_slot_prefix:
  "\<forall>d\<in>set xs. 0 \<le> d \<Longrightarrow> free_slot i (xs @ ys) = free_slot (i + length xs) ys"
  by (induction xs arbitrary: i) auto

lemma serve_loop_take:
  "set is \<subseteq> {i. i < length (client s)} \<Longrightarrow> \<forall>i\<in>set is. 0 \<le> client s ! i \<Longrightarrow>
     \<exists>n. serve_loop rset is s = Inr (s\<lparr>served := served s @ filter (\<lambda>d. d \<in> rset) (map ((!) (client s)) is), loop_i := n\<rparr>)"
proof (induction "is" arbitrary: s)
  case (Cons i "is")
  let ?s = "(if 0 \<le> client s ! i \<and> client s ! i \<in> rset then s\<lparr>served := served s @ [client s ! i]\<rparr> else s)\<lparr>loop_i := Suc i\<rparr>"
  have c: "client ?s = client s" by simp
  from Cons.IH [of ?s] Cons.prems obtain n where
    "serve_loop rset is ?s = Inr (?s\<lparr>served := served ?s @ filter (\<lambda>d. d \<in> rset) (map ((!) (client s)) is), loop_i := n\<rparr>)"
    unfolding c by auto
  with Cons.prems show ?case by (intro exI [of _ n]) auto
next
  case Nil
  then show ?case by (intro exI [of _ "loop_i s"]) simp
qed

lemma serve_implements:
  assumes "implements l s c"
  shows "\<exists>t. serve rset s = Inr t \<and> implements l t (c\<lparr>reads := reads c @ filter (\<lambda>d. d \<in> rset) (conn c)\<rparr>)"
proof -
  let ?s = "s\<lparr>loop_i := 0\<rparr>" and ?is = "[0..<length (conn c)]"
  have n: "nat (maxi s + 1) = length (conn c)" and cl: "client s = conn c @ replicate (FD_SETSIZE - length (conn c)) (-1)"
    using assms by (auto simp: implements_def)
  have m: "map ((!) (client ?s)) ?is = conn c" by (rule nth_equalityI) (simp_all add: cl nth_append)
  have "set ?is \<subseteq> {i. i < length (client ?s)}" "\<forall>i\<in>set ?is. 0 \<le> client ?s ! i"
    using assms by (auto simp: cl nth_append implements_def)
  from serve_loop_take [OF this, of rset] obtain k where
    "serve_loop rset ?is ?s = Inr (?s\<lparr>served := served ?s @ filter (\<lambda>d. d \<in> rset) (conn c), loop_i := k\<rparr>)"
    unfolding m by blast
  then show ?thesis using assms by (simp add: serve_def n implements_def)
qed

lemma add_client_implements:
  assumes "implements l s c" and "length (conn c) < FD_SETSIZE" and "0 \<le> d" "d < int FD_SETSIZE"
  shows "\<exists>t. add_client d s = Inr t \<and> implements l t (c\<lparr>conn := conn c @ [d]\<rparr>)"
proof -
  let ?k = "length (conn c)"
  have cl: "client s = conn c @ replicate (FD_SETSIZE - ?k) (-1)" and pos: "\<forall>d\<in>set (conn c). 0 \<le> d"
    and mx: "maxi s = int ?k - 1" using assms(1) by (simp_all add: implements_def)
  obtain r where r: "FD_SETSIZE - ?k = Suc r" using assms(2) by (metis Suc_diff_Suc)
  have f: "free_slot 0 (client s) = ?k" unfolding cl r by (simp add: free_slot_prefix [OF pos])
  have u: "(client s)[?k := d] = (conn c @ [d]) @ replicate (FD_SETSIZE - Suc ?k) (-1)"
    using r by (simp add: cl list_update_append)
  have lt: "maxi s < int FD_SETSIZE" "max (int ?k) (maxi s) = int ?k" using mx assms(2) by simp_all
  have "add_client d s = Inr (s\<lparr>client := (conn c @ [d]) @ replicate (FD_SETSIZE - Suc ?k) (-1),
      allset := insert d (allset s), maxfd := max d (maxfd s), maxi := int ?k, loop_i := ?k\<rparr>)"
    using assms(2-4) by (simp add: add_client_def fd_set_def f u lt Let_def)
  moreover have "implements l (s\<lparr>client := (conn c @ [d]) @ replicate (FD_SETSIZE - Suc ?k) (-1),
      allset := insert d (allset s), maxfd := max d (maxfd s), maxi := int ?k, loop_i := ?k\<rparr>) (c\<lparr>conn := conn c @ [d]\<rparr>)"
    using assms by (auto simp: implements_def le_max_iff_disj)
  ultimately show ?thesis by blast
qed

lemma implements_rset:
  "implements l s c \<Longrightarrow> (case ready inp of None \<Rightarrow> allset s | Some R \<Rightarrow> R \<inter> allset s) = ready_set l inp c"
  by (simp add: implements_def ready_set_def split: option.split)

lemma server_round_implements:
  assumes "implements l s c" and "conns_round l inp c = Some d" and "length (conn d) \<le> FD_SETSIZE"
    and "\<forall>x\<in>set (conn d). 0 \<le> x \<and> x < int FD_SETSIZE"
  shows "\<exists>t. server_round inp s = Inr (Some t) \<and> implements l t d"
proof -
  let ?R = "ready_set l inp c"
  have l: "listen_fd s = l" using assms(1) by (simp add: implements_def)
  note R = server_round_def [of inp s, unfolded Let_def implements_rset [OF assms(1)] l]
    conns_round_def [of l inp c, unfolded Let_def]
  show ?thesis
  proof (cases "l \<in> ?R")
    case False
    with assms(2) have "d = c\<lparr>reads := reads c @ filter (\<lambda>d. d \<in> ?R) (conn c)\<rparr>" by (simp add: R)
    moreover obtain t where "serve ?R s = Inr t" "implements l t (c\<lparr>reads := reads c @ filter (\<lambda>d. d \<in> ?R) (conn c)\<rparr>)"
      using serve_implements [OF assms(1)] by blast
    ultimately show ?thesis using False by (simp add: R)
  next
    case True
    then consider "accept_loop (accepts inp) = Again" "d = c"
      | x where "accept_loop (accepts inp) = Conn x" "nonblock_ok inp"
          "d = \<lparr>conn = conn c @ [x], reads = reads c @ filter (\<lambda>d. d \<in> ?R) (conn c @ [x])\<rparr>"
      using assms(2) by (auto simp: R split: accepted.splits if_splits)
    then show ?thesis
    proof cases
      case 1
      with True assms(1) show ?thesis by (simp add: R)
    next
      case 2
      with assms(3,4) have x: "length (conn c) < FD_SETSIZE" "0 \<le> x" "x < int FD_SETSIZE" by simp_all
      obtain t where t: "add_client x s = Inr t" "implements l t (c\<lparr>conn := conn c @ [x]\<rparr>)"
        using add_client_implements [OF assms(1) x] by blast
      obtain u where "serve ?R t = Inr u"
        "implements l u ((c\<lparr>conn := conn c @ [x]\<rparr>)\<lparr>reads := reads c @ filter (\<lambda>d. d \<in> ?R) (conn c @ [x])\<rparr>)"
        using serve_implements [OF t(2), of ?R] by auto
      moreover have "(c\<lparr>conn := conn c @ [x]\<rparr>)\<lparr>reads := reads c @ filter (\<lambda>d. d \<in> ?R) (conn c @ [x])\<rparr> = d"
        using 2(3) by simp
      ultimately have "serve ?R t = Inr u \<and> implements l u d" by simp
      with True 2(1,2) t(1) show ?thesis by (simp add: R)
    qed
  qed
qed

text \<open>The specification only adds connections, and those are what \<open>accept\<close> returned.\<close>

lemma conns_round_grows: "conns_round l inp c = Some d \<Longrightarrow> \<exists>xs. conn d = conn c @ xs"
  by (auto simp: conns_round_def Let_def split: if_splits accepted.splits)

lemma conns_rounds_grows: "conns_rounds l inps c = Some d \<Longrightarrow> \<exists>xs. conn d = conn c @ xs"
proof (induction inps arbitrary: c)
  case (Cons inp inps)
  then obtain e where "conns_round l inp c = Some e" "conns_rounds l inps e = Some d" by (auto split: option.splits)
  with Cons.IH conns_round_grows show ?case by fastforce
qed simp

text \<open>
  C33: As long as at most \<open>FD_SETSIZE\<close> connections are accepted and their descriptors have a bit in a
  set, the server computes its specification: it stays in its table and its sets, keeps the
  connections in the order of their acceptance, and in every round in which \<open>select\<close> finds them
  ready reads each of them once in this order, interrupted calls and failures of \<open>select\<close>
  included.
\<close>
theorem server_rounds_refine:
  assumes "0 \<le> l" "l < int FD_SETSIZE" and "conns_rounds l inps \<lparr>conn = [], reads = []\<rparr> = Some d"
    and "length (conn d) \<le> FD_SETSIZE" and "\<forall>x\<in>set (conn d). 0 \<le> x \<and> x < int FD_SETSIZE"
  shows "\<exists>t. server_main l True True True inps = Inr (Some t) \<and> served t = reads d \<and>
    take (length (conn d)) (client t) = conn d \<and> allset t = insert l (set (conn d)) \<and> (\<forall>x\<in>allset t. x \<le> maxfd t)"
proof -
  have run: "\<exists>t. server_rounds inps s = Inr (Some t) \<and> implements l t d"
    if "implements l s c" "conns_rounds l inps c = Some d" for s c
    using that
  proof (induction inps arbitrary: s c)
    case (Cons inp inps)
    then obtain e where e: "conns_round l inp c = Some e" "conns_rounds l inps e = Some d" by (auto split: option.splits)
    from conns_rounds_grows [OF e(2)] obtain xs where xs: "conn d = conn e @ xs" by blast
    have "length (conn e) \<le> FD_SETSIZE" "\<forall>x\<in>set (conn e). 0 \<le> x \<and> x < int FD_SETSIZE" using assms(4,5) xs by auto
    from server_round_implements [OF Cons.prems(1) e(1) this] obtain t where
      t: "server_round inp s = Inr (Some t)" "implements l t e" by blast
    from Cons.IH [OF t(2) e(2)] t(1) show ?case by simp
  qed (use assms in simp)
  obtain s where s: "server_start l = Inr s" "implements l s \<lparr>conn = [], reads = []\<rparr>"
    using assms(1,2) by (simp add: server_start_def fd_set_def implements_def)
  from run [OF s(2) assms(3)] s(1) assms(1) show ?thesis by (auto simp: server_main_def implements_def)
qed

text \<open>
  One connection more than the table has entries, and the server reads behind the end of the table.
\<close>

lemma serve_loop_overrun: "i \<in> set is \<Longrightarrow> length (client s) \<le> i \<Longrightarrow> serve_loop rset is s = Inl OutOfBounds"
proof (induction "is" arbitrary: s)
  case (Cons j "is")
  show ?case
  proof (cases "j < length (client s)")
    case True
    with Cons.prems have "i \<in> set is" by auto
    with Cons True show ?thesis by simp
  next
    case False
    then show ?thesis by (simp add: rd_def)
  qed
qed simp

lemma free_slot_full: "\<forall>c\<in>set cs. 0 \<le> c \<Longrightarrow> free_slot i cs = i + length cs"
  using free_slot_prefix [of cs i "[]"] by simp

theorem server_table_overrun:
  assumes "implements l s c" and "length (conn c) = FD_SETSIZE" and "l \<in> ready_set l inp c"
    and "accept_loop (accepts inp) = Conn d" and "nonblock_ok inp"
  shows "server_round inp s = Inl OutOfBounds"
proof -
  have cl: "client s = conn c" and mx: "maxi s < int FD_SETSIZE" and len: "length (client s) = FD_SETSIZE"
    using assms(1,2) by (simp_all add: implements_def)
  have f: "free_slot 0 (client s) = FD_SETSIZE"
    using free_slot_full [of "client s" 0] assms(1,2) by (simp add: cl implements_def)
  have R: "server_round inp s = bindr (add_client d s) (\<lambda>t. bindr (serve (ready_set l inp c) t) (\<lambda>u. Inr (Some u)))"
    using assms(1,3-5) by (simp add: server_round_def Let_def implements_rset [OF assms(1)] implements_def)
  show ?thesis
  proof (cases "fd_set d (allset s)")
    case (Inl e)
    then show ?thesis by (auto simp: R add_client_def Let_def fd_set_def split: if_splits)
  next
    case (Inr S)
    let ?t = "s\<lparr>allset := S, maxfd := max d (maxfd s), maxi := int FD_SETSIZE, loop_i := FD_SETSIZE\<rparr>"
    have "add_client d s = Inr ?t" using Inr mx by (simp add: add_client_def f Let_def)
    moreover have "serve (ready_set l inp c) ?t = Inl OutOfBounds"
      unfolding serve_def by (rule serve_loop_overrun [of FD_SETSIZE]) (simp_all add: len)
    ultimately show ?thesis by (simp add: R)
  qed
qed

text \<open>Two connections, the second while the first sends.\<close>

definition ex_rounds :: "round_input list" where
  "ex_rounds = [\<lparr>ready = Some {3}, accepts = [Interrupted, Conn 4], nonblock_ok = True\<rparr>,
     \<lparr>ready = Some {3, 4}, accepts = [Conn 5], nonblock_ok = True\<rparr>,
     \<lparr>ready = Some {4, 5}, accepts = [], nonblock_ok = True\<rparr>]"

theorem server_rounds_refine_witness:
  "\<exists>t. server_main 3 True True True ex_rounds = Inr (Some t) \<and> served t = [4, 4, 5]"
proof -
  have "conns_rounds 3 ex_rounds \<lparr>conn = [], reads = []\<rparr> = Some \<lparr>conn = [4, 5], reads = [4, 4, 5]\<rparr>"
    by (simp add: ex_rounds_def conns_round_def ready_set_def Let_def)
  from server_rounds_refine [OF _ _ this] show ?thesis by (auto simp: FD_SETSIZE_def)
qed

end
