(* ===== verification/Mmcboot.thy ===== *)
theory Mmcboot
  imports DdSetup
begin

text \<open>
  The program \<open>testcode/android/mmcbootwrite/mmcboot0write.c\<close>, which writes a boot loader to the
  boot partition of an eMMC: it takes the write protection off, calls \<open>dd\<close> as a function, puts
  the protection on again and selects the partition for booting. Its \<open>dd.c\<close> is the copying
  program of \<open>testcode/android/dd\<close> with more messages, no \<open>getopt\<close>, and a return at the end.
\<close>

subsection \<open>The copying program as a function\<close>

text \<open>
  \<open>dd\<close> returns where the program exits with status 0; its errors still exit. The report is
  registered with \<open>atexit\<close> after the set-up.
\<close>

definition dd_function :: "env \<Rightarrow> int \<Rightarrow> nat \<Rightarrow> string list \<Rightarrow> dd \<Rightarrow> dd outcome" where
  "dd_function e junk now argv s =
     bindo (jcl junk argv s) (\<lambda>s1. bindo (dd_setup e now s1) (\<lambda>s2.
       at_exit now (bindo (dd_files now (files_cnt s2) s2) dd_close)))"

lemma dd_function_program:
  "dd_program e junk now argv s =
     (case dd_function e junk now argv s of Ret t \<Rightarrow> Exit 0 (summary now t) | r \<Rightarrow> r)"
proof (cases "jcl junk argv s")
  case (Ret s1)
  show ?thesis
  proof (cases "dd_setup e now s1")
    case s2: (Ret s2)
    show ?thesis
      by (cases "bindo (dd_files now (files_cnt s2) s2) dd_close")
        (simp_all add: dd_function_def dd_program_def dd_main_def at_exit_def Ret s2 bindo_assoc [symmetric])
  qed (simp_all add: dd_function_def dd_program_def Ret)
qed (simp_all add: dd_function_def dd_program_def)

subsection \<open>The program\<close>

text \<open>What is written to the files of the kernel, in order, and how the program ends.\<close>

datatype boot_file = ForceRo | BootConfig

datatype boot_end = BootReturn | BootExit nat | BootUndefined

definition boot_args :: "string list" where
  "boot_args = [''if=/u-boot.bin'', ''of=/dev/block/mmcblk0boot0'', ''bs=512'', ''seek=2'', ''skip=2'' @ [CHR 0x0A]]"

text \<open>
  The two descriptors that \<open>open\<close> returns are arguments. The array of pointers has seven
  elements of which six are set; \<open>rest\<close> is what \<open>dd\<close> finds from the seventh up to a null
  pointer, and \<open>None\<close> stands for pointers that it may not follow.
\<close>

definition mmcboot0write ::
  "int \<Rightarrow> int \<Rightarrow> string list option \<Rightarrow> env \<Rightarrow> int \<Rightarrow> nat \<Rightarrow> dd \<Rightarrow> boot_end \<times> (boot_file \<times> string) list" where
  "mmcboot0write fd1 fd2 rest e junk now s =
     (let config = (if 0 < fd2 then [(BootConfig, ''8'')] else [])
      in if 0 < fd1 then
           (case rest of
              None \<Rightarrow> (BootUndefined, [(ForceRo, ''0'')])
            | Some xs \<Rightarrow>
                (case dd_function e junk now (boot_args @ xs) s of
                   Ret t \<Rightarrow> (BootReturn, [(ForceRo, ''0''), (ForceRo, ''1'')] @ config)
                 | Exit n t \<Rightarrow> (BootExit n, [(ForceRo, ''0'')])
                 | _ \<Rightarrow> (BootUndefined, [(ForceRo, ''0'')])))
         else (BootReturn, config))"

text \<open>The last operand, with its line feed, reads as 2.\<close>

lemma boot_jcl:
  assumes "initial s"
  shows "\<exists>s1. jcl junk boot_args s = Ret s1 \<and> ddflags s1 = {C_IF, C_OF, C_BS, C_SEEK, C_SKIP} \<and>
    dbsz (inp s1) = 512 \<and> dbsz (outp s1) = 512 \<and> offset (inp s1) = 2 \<and> offset (outp s1) = 2 \<and>
    io_name (inp s1) = Some ''/u-boot.bin'' \<and> cfunc s1 = Def"
proof -
  have n: "bsearch k args 0 (length args) = map_of args k" for k
    by (rule bsearch_map_of [OF tables_sorted(1)])
  have sc: "scan_lld ''512'' = ScanInt 512" "scan_lld ''2'' = ScanInt 2" "scan_lld [CHR ''2'', CHR 0x0A] = ScanInt 2"
    by code_simp+
  have ap: "map_of args ''if'' = Some \<lparr>arg_f = f_if, arg_set = {C_IF}, arg_noset = {C_IF}\<rparr>"
    "map_of args ''of'' = Some \<lparr>arg_f = f_of, arg_set = {C_OF}, arg_noset = {C_OF}\<rparr>"
    "map_of args ''bs'' = Some \<lparr>arg_f = f_bs, arg_set = {C_BS}, arg_noset = {C_BS, C_IBS, C_OBS, C_OSYNC}\<rparr>"
    "map_of args ''seek'' = Some \<lparr>arg_f = f_seek, arg_set = {C_SEEK}, arg_noset = {C_SEEK}\<rparr>"
    "map_of args ''skip'' = Some \<lparr>arg_f = f_skip, arg_set = {C_SKIP}, arg_noset = {C_SKIP}\<rparr>"
    by (simp_all add: args_def)
  show ?thesis using assms
    by (simp add: jcl_def boot_args_def n ap upd_in_def upd_out_def f_defs strsuftoll_def sc to_u64_def jcl_bs_def
        jcl_conv_def initial_def) blast
qed

lemma missing_image:
  assumes "initial s" and "open_rd e ''/u-boot.bin'' < 0"
  shows "\<exists>t. dd_function e junk now boot_args s = Exit 1 t"
proof -
  obtain s1 where "jcl junk boot_args s = Ret s1" "io_name (inp s1) = Some ''/u-boot.bin''"
    using boot_jcl [OF assms(1), of junk] by blast
  then show ?thesis using assms(2)
    by (simp add: dd_function_def dd_setup_def open_input_def quit_def)
qed

text \<open>
  C30: What becomes of the write protection when the operands end where the array does (by luck): in
  every environment the program either returns, with the protection off and on again and the
  partition selected if its file could be opened, or \<open>dd\<close> ends the whole process with status at
  most 1 and the partition stays writable and is not selected. A missing boot loader is enough
  for the latter.
\<close>
theorem mmcboot_write_protection:
  assumes "initial s" and "32 \<le> size_bits e" and "0 < fd1"
  shows "(\<exists>t. dd_program e junk now boot_args s = Exit 0 t \<and> mmcboot0write fd1 fd2 (Some []) e junk now s =
        (BootReturn, [(ForceRo, ''0''), (ForceRo, ''1'')] @ (if 0 < fd2 then [(BootConfig, ''8'')] else [])) \<or>
      (\<exists>n\<le>1. mmcboot0write fd1 fd2 (Some []) e junk now s = (BootExit n, [(ForceRo, ''0'')]))) \<and>
    (open_rd e ''/u-boot.bin'' < 0 \<longrightarrow>
      mmcboot0write fd1 fd2 (Some []) e junk now s = (BootExit 1, [(ForceRo, ''0'')]))"
proof
  obtain s1 where j: "jcl junk boot_args s = Ret s1" "ddflags s1 = {C_IF, C_OF, C_BS, C_SEEK, C_SKIP}"
      "dbsz (inp s1) = 512" "dbsz (outp s1) = 512" "cfunc s1 = Def"
    using boot_jcl [OF assms(1), of junk] by blast
  have "(2 :: nat) ^ 32 \<le> 2 ^ min 64 (size_bits e)" using assms(2) by (intro power_increasing) simp_all
  then have ok: "operands_safe e s1" using j assms(2) by (simp add: operands_safe_def sizes_ok_def)
  obtain c t where p: "dd_program e junk now boot_args s = Exit c t" "c \<le> 1"
    using dd_program_ends [OF assms(1) j(1) ok, of now] j(2) by (auto simp: sparse_safe_def)
  show "\<exists>t. dd_program e junk now boot_args s = Exit 0 t \<and> mmcboot0write fd1 fd2 (Some []) e junk now s =
        (BootReturn, [(ForceRo, ''0''), (ForceRo, ''1'')] @ (if 0 < fd2 then [(BootConfig, ''8'')] else [])) \<or>
      (\<exists>n\<le>1. mmcboot0write fd1 fd2 (Some []) e junk now s = (BootExit n, [(ForceRo, ''0'')]))"
    using p dd_function_program [of e junk now boot_args s] assms(3)
    by (cases "dd_function e junk now boot_args s") (auto simp: mmcboot0write_def Let_def)
  show "open_rd e ''/u-boot.bin'' < 0 \<longrightarrow>
      mmcboot0write fd1 fd2 (Some []) e junk now s = (BootExit 1, [(ForceRo, ''0'')])"
  proof
    assume "open_rd e ''/u-boot.bin'' < 0"
    from missing_image [OF assms(1) this, of junk now] obtain u where "dd_function e junk now boot_args s = Exit 1 u" by blast
    then show "mmcboot0write fd1 fd2 (Some []) e junk now s = (BootExit 1, [(ForceRo, ''0'')])"
      using assms(3) by (simp add: mmcboot0write_def Let_def)
  qed
qed

theorem mmcboot_write_protection_witness:
  "mmcboot0write 3 4 (Some []) (ex_env\<lparr>open_rd := (\<lambda>_. -1)\<rparr>) 0 7 (ex_start [] []) = (BootExit 1, [(ForceRo, ''0'')])"
  using mmcboot_write_protection [OF ex_initial, of "ex_env\<lparr>open_rd := (\<lambda>_. -1)\<rparr>" 3 0 7 "[]" "[]" 4]
  by (simp add: ex_env_def)

end
