(* ===== verification/Spec2Isabelle.thy ===== *)
theory Spec2Isabelle
  imports McuConf DdSetup GpsRun PoolRun MmdcRun BlkidProbe SensorRun AthrRun AthrLink AthrInit GpsDaemon SockServer Mmcboot
begin

text \<open>
  A verification development for the C programs of this repository. The repository is a
  collection of independent programs; each component below has its own theories and there
  are no calls between them except where stated.

  \<^bold>\<open>Conventions.\<close> Integers are words where the code masks or shifts them, otherwise integers or
  naturals with the wrap-around written out (\<open>wrap32\<close> in \<open>Checked\<close>, \<open>sub64\<close> in \<open>Prelude\<close>).
  A computation that may have no defined result ends in \<open>Inl\<close> of a reason (\<open>Checked\<close>): every
  access to memory is checked. The operating system is an argument: what \<open>read\<close>, \<open>write\<close> and the
  like return are lists of results, consumed in order.

  \<^bold>\<open>The MCU link\<close> (theories \<open>Link\<close>, \<open>Mcu\<close> and \<open>McuConf\<close>; \<open>autolink/libtest/src/qemu_mcu.c\<close>). The
  frame parser \<open>autolink_mcu_parse\<close> is a state machine over \<open>mcuinfo_st\<close>, one byte at a time;
  the sender builds a frame with its checksum and retries incomplete writes; the receiver
  reads in pieces and feeds the parser. Every store of the parser is checked against its
  buffer. \<open>Link\<close> is the locale of a framed link, interpreted on the MCU's own parser and
  sender. The lemmas show that what the sender frames the parser delivers, that every single
  corrupted byte is noticed, that no input makes the parser leave its buffer, and where
  frames are lost. \<open>McuConf\<close> adds the port, the service thread over a sequence of wake-ups and
  the file of messages to send: its lines and the frames they become reach the thread of the
  other end, and lines that are too long make the program overrun its buffers.

  \<^bold>\<open>The copying program\<close> (theories \<open>Dd*\<close>; \<open>testcode/android/dd/dd.c\<close> and \<open>dd.h\<close>). The globals
  are the record \<open>dd\<close>; buffer pointers are offsets and every access is checked, so that
  leaving a buffer is the value \<open>Fault\<close>. The operating system is part of the state: what
  reads deliver and how writes end are lists of events, the output is a byte list with a
  position. \<open>exit\<close> is the value \<open>Exit\<close>. Loops that are not structural carry fuel, and running
  out of it is the value \<open>Diverge\<close>; the theorems exclude it, so the fuel (the number of
  pending events or of bytes left, plus one) is enough.
  \<^item> \<open>DdTypes\<close>: data, globals, outcomes. \<open>DdOut\<close>: \<open>bwrite\<close>, \<open>dd_out\<close> and the logical output
    (file, pending seek, buffer) it keeps. \<open>DdConv\<close>: \<open>def\<close>, \<open>block\<close>, \<open>unblock\<close> and their closing
    halves. \<open>DdMain\<close>: \<open>summary\<close>, \<open>dd_in\<close>, \<open>dd_close\<close> and the end of \<open>main\<close>.
  \<^item> \<open>DdRead\<close>: the blocks of the input and the locale \<open>dd_conversion\<close>, the contract between
    \<open>dd_in\<close> and the function \<open>cfunc\<close> points to. \<open>DdInv\<close>, \<open>DdCopy\<close>, \<open>DdBlock\<close>, \<open>DdUnblock\<close>: the
    invariants of the conversions and the interpretations of the contract. \<open>DdClose\<close>: the
    locale \<open>dd_run\<close>, which adds the closing half, and the outcome of a whole run. \<open>DdClean\<close>:
    runs in which nothing fails. \<open>DdRun\<close>: the theorems on runs.
  \<^item> \<open>DdArgs\<close>: the operand tables, their binary search, \<open>jcl\<close>. \<open>DdSetup\<close>: \<open>setup\<close> and the program
    from its command line.
  \<^item> \<open>Mmcboot\<close>: \<open>testcode/android/mmcbootwrite\<close>, which calls the copying program as a function between
    taking the write protection of a boot partition off and putting it on.
  The output is specified line by line (\<open>block_whole\<close>) and record by record
  (\<open>unblock_whole\<close>), and the program is shown to compute it however reads and writes are cut.

  \<^bold>\<open>The GPS module\<close> (theories \<open>Nmea*\<close> and \<open>Gps*\<close>; \<open>testcode/android/libgps/gps_neu.c\<close>). \<open>Nmea\<close>: the
  tokenizer and the number parsers, with tokens as pairs of offsets into the line buffer.
  \<open>GpsReader\<close>: the record \<open>NmeaReader\<close>, every sentence, and \<open>nmea_reader_addc\<close>, which assembles
  lines. \<open>GpsThread\<close>: the serial port, the control channel, the thread and the functions that
  the framework calls. A \<open>double\<close> is a rational without rounding, signed overflow wraps, and
  the size of the satellite lists, which a header outside the repository sets, is an argument.
  \<open>NmeaNumbers\<close> and \<open>NmeaTokens\<close> give the meaning of numbers and tokens, \<open>NmeaSafe\<close> the memory
  safety of the reader with its one exception, \<open>NmeaLines\<close> how bytes become sentences, and
  \<open>GpsRun\<close> what the thread makes of commands and sentences.

  \<^bold>\<open>The GPS module with power management\<close> (theories \<open>Athr*\<close>; \<open>testcode/android/libgps/athr_gps.c\<close>).
  \<open>AthrGps\<close>: the framework's calls and the three threads as step functions over the shared
  variables, one access or one call of the system per step; a run is a list of threads, each with
  what the system answers. \<open>AthrInv\<close>: who holds the semaphore, and the rank of the threads once
  they are told to end. \<open>AthrRun\<close>: exclusion, the end of the threads, and two schedules, found by
  evaluation, in which putting the receiver to sleep goes wrong. \<open>AthrReader\<close>: the sentences, over
  the tokenizer and the updates of the GPS module, which the two programs share character by
  character. \<open>AthrSafe\<close>: its memory safety with three exceptions, and its time stamps. \<open>AthrLink\<close>: a
  read of real bytes is a run of the reading thread. \<open>AthrInit\<close>: initialisation, \<open>gps_checkstate\<close> and
  the functions of the interface; in every life of the module its states are those of the threads.

  \<^bold>\<open>The test of the receiver\<close> (theory \<open>GpsDaemon\<close>; \<open>testcode/android/gpstest/core_gps_daemon.c\<close>) sets the
  port up like the module of \<open>GpsThread\<close>, whose terminal it shares, and prints what it reads.

  \<^bold>\<open>The socket server\<close> (theory \<open>SockServer\<close>; \<open>testcode/android/java_socket/SocketServer.c\<close>). The state is
  the table of clients, the set given to \<open>select\<close> and the bounds of both; the input of a round is
  what \<open>select\<close>, \<open>accept\<close> and \<open>fcntl\<close> answer. The specification is a list of connections, each read
  once in every round in which it is ready; the server implements it up to \<open>FD_SETSIZE\<close>
  connections, and overruns its table with one more.

  \<^bold>\<open>The thread pool\<close> (theories \<open>Pool*\<close>; \<open>testcode/linux/pthread/pthread_pool.c\<close>). \<open>Pool\<close> is a step
  relation: one program counter per thread, one step per access to shared memory or call of the
  threads library, any thread at any time. Spurious wake-ups and failures of \<open>malloc\<close> and of
  \<open>pthread_create\<close> are steps. Nodes of the list are addresses in a heap that records whether they
  are allocated. \<open>PoolQueue\<close> is the locale of the linked list, interpreted on the pool's
  operations; \<open>PoolInv\<close> holds the invariants, by induction over the reachable states; \<open>PoolFifo\<close>
  the simulation of a queue; \<open>PoolHistory\<close> runs and their events; \<open>PoolShutdown\<close> the measure that
  bounds the steps after \<open>shutdown\<close> is set; \<open>PoolRun\<close> the theorems.

  \<^bold>\<open>The memory profiler\<close> (theories \<open>Float32\<close> and \<open>Mmdc*\<close>; \<open>freescale/test/mmdc\<close>). \<open>Mmdc\<close>: the
  registers and the counting protocol; the device is a function from the history of its
  registers' accesses to the value that a read returns. \<open>MmdcMain\<close>: \<open>strtol\<close>, the environment,
  the processor, the rounds of \<open>main\<close>, whose loop has fuel for one round more than it is asked
  for. \<open>Float32\<close> rounds to single precision. \<open>MmdcRun\<close>: the protocol is kept on every device, and
  what the figures of the report are worth.

  \<^bold>\<open>The volume prober\<close> (theories \<open>Blkid*\<close>; \<open>testcode/linux/blkid/blkid.c\<close>). \<open>Blkid\<close>: the reads, the
  two buffers, the structures at their offsets (little-endian), the probe and \<open>main\<close>; sizes have
  64 bits and allocation succeeds. \<open>BlkidCache\<close>: the buffers mirror the device. \<open>BlkidProbe\<close>: the
  probe is safe but for one division by zero, whose inputs are characterised, and recognises no FAT
  volume.

  \<^bold>\<open>The sensor module\<close> (theories \<open>Sensor*\<close>; \<open>testcode/android/libsensors\<close>). \<open>SensorReader\<close>: the circular
  buffer of input events and its refinement of a bounded queue. \<open>SensorDrivers\<close>: the classes of the
  four sensors, with \<open>float\<close> arithmetic rounded (\<open>Float32\<close>) and the constants of the Android header,
  which is not in the repository, as an argument. \<open>SensorStream\<close>: the specification over the whole
  stream of input events and the locale \<open>sensor_class\<close>, interpreted on each class. \<open>SensorPoll\<close>:
  construction, \<open>activate\<close>, \<open>setDelay\<close> and \<open>pollEvents\<close>; data arrives at the calls of \<open>poll\<close>, as a
  list of steps says, and fuel for twice the work that is there and will arrive is enough for
  its loop. \<open>SensorContract\<close>: the locale \<open>sensor_base\<close>, the contract of the virtual function
  \<open>readEvents\<close>, and the loop of \<open>pollEvents\<close> over it; \<open>SensorRun\<close> interprets it on the classes and
  holds the theorems: nothing is lost or reordered, and the two ways in which the module fails.

  \<^bold>\<open>Not modelled.\<close> Signal handling and \<open>getopt\<close> in \<open>dd\<close>; the tape branch of \<open>pos_out\<close>, which no
  descriptor can reach. Debug output, and the text that \<open>help\<close> and the report of the profiler print;
  its signal handler is never installed. \<open>main\<close> of the thread pool and its sample task. \<open>qemu_arm.c\<close>
  only prints the messages that a library outside the repository delivers. \<open>gps_qemu.c\<close> differs from
  \<open>gps_neu.c\<close> in a debug switch. In \<open>athr_gps.c\<close> the functions that nothing calls and the
  extension interfaces, which are not compiled. Destructors and the table of
  the sensor module, and its class for a light sensor, of which no object is made. Tests that
  only call drivers. Third-party code, generated code, user interfaces, scripts, and glue
  to Android services that are not in the repository.
\<close>

end
